(* ===== verification/Prelude.thy ===== *)
theory Prelude
  imports Main "HOL-Library.Sublist"
begin

text \<open>
  Shared ground of the development: JavaScript strings as lists of UTF-16 code units, the
  values, exceptions and string operations of the language that the scripts use, and the
  generic lemmas the component theories rest on.

  A string is a \<open>ustr\<close>, a list of code units (natural numbers; \<open>wf_ustr\<close> says that they are
  below \<open>2 ^ 16\<close>). \<open>u\<close> turns an ASCII literal into one. Numbers that the scripts compute with
  are integers (counts, indices, periods, coordinates); the few places that read decimals use
  their own types.
\<close>

named_theorems js_simps \<open>evaluation rules for the string operations of the language\<close>
named_theorems class_simps \<open>class lists as words\<close>

type_synonym ustr = "nat list"

definition u :: "string \<Rightarrow> ustr" where
  "u s = map of_char s"

lemma u_Nil [simp]: "u [] = []"
  and u_Cons [js_simps]: "u (c # cs) = of_char c # u cs"
  by (simp_all add: u_def)

text \<open>Literals are compared as they are written.\<close>

lemma u_eq_iff [simp]: "u s = u t \<longleftrightarrow> s = t"
  unfolding u_def by (rule inj_map_eq_map) (simp add: inj_def)

lemma u_eq_Nil [simp]: "u s = [] \<longleftrightarrow> s = []" "[] = u s \<longleftrightarrow> s = []"
  by (simp_all add: u_def)

definition wf_ustr :: "ustr \<Rightarrow> bool" where
  "wf_ustr s \<longleftrightarrow> (\<forall>c \<in> set s. c < 65536)"

text \<open>The exceptions the scripts can raise, and results as sums.\<close>

datatype js_exn = URIError | TypeError | SyntaxError | Thrown ustr

type_synonym 'a js_result = "js_exn + 'a"

definition js_bind :: "'a js_result \<Rightarrow> ('a \<Rightarrow> 'b js_result) \<Rightarrow> 'b js_result" where
  "js_bind m f = (case m of Inl e \<Rightarrow> Inl e | Inr x \<Rightarrow> f x)"

lemma js_bind_Inl [simp]: "js_bind (Inl e) f = Inl e"
  and js_bind_Inr [simp]: "js_bind (Inr x) f = f x"
  by (simp_all add: js_bind_def)

lemma js_bind_eq_Inr:
  "js_bind m f = Inr y \<longleftrightarrow> (\<exists>x. m = Inr x \<and> f x = Inr y)"
  by (cases m) simp_all

text \<open>JavaScript values. An object is its list of own properties in insertion order.\<close>

datatype jsval =
    Undefined
  | Null
  | Bool bool
  | Num int
  | Str ustr
  | Arr "jsval list"
  | Obj "(ustr \<times> jsval) list"

fun truthy :: "jsval \<Rightarrow> bool" where
  "truthy Undefined = False"
| "truthy Null = False"
| "truthy (Bool b) = b"
| "truthy (Num n) = (n \<noteq> 0)"
| "truthy (Str s) = (s \<noteq> [])"
| "truthy (Arr _) = True"
| "truthy (Obj _) = True"

text \<open>\<open>x == null\<close> (equivalently \<open>x == undefined\<close>) holds of exactly two values.\<close>

fun nullish :: "jsval \<Rightarrow> bool" where
  "nullish Undefined = True"
| "nullish Null = True"
| "nullish _ = False"

definition get_prop :: "(ustr \<times> jsval) list \<Rightarrow> ustr \<Rightarrow> jsval" where
  "get_prop ps k = (case map_of ps k of None \<Rightarrow> Undefined | Some v \<Rightarrow> v)"

text \<open>\<open>o[k] = v\<close>: an existing property keeps its place, a new one goes last.\<close>

fun set_prop :: "'k \<Rightarrow> 'v \<Rightarrow> ('k \<times> 'v) list \<Rightarrow> ('k \<times> 'v) list" where
  "set_prop k v [] = [(k, v)]"
| "set_prop k v ((k', v') # ps) = (if k' = k then (k, v) # ps else (k', v') # set_prop k v ps)"

lemma map_of_set_prop [simp]: "map_of (set_prop k v ps) = (map_of ps)(k \<mapsto> v)"
  by (induction k v ps rule: set_prop.induct) (auto simp: fun_eq_iff)

lemma dom_set_prop [simp]: "fst ` set (set_prop k v ps) = insert k (fst ` set ps)"
  by (induction k v ps rule: set_prop.induct) auto

lemma set_prop_new: "k \<notin> fst ` set ps \<Longrightarrow> set_prop k v ps = ps @ [(k, v)]"
  by (induction k v ps rule: set_prop.induct) auto

lemma distinct_set_prop: "distinct (map fst ps) \<Longrightarrow> distinct (map fst (set_prop k v ps))"
proof (induction k v ps rule: set_prop.induct)
  case (2 k v k' v' ps)
  then show ?case
    using dom_set_prop [of k v ps] by (auto simp del: dom_set_prop)
qed simp

lemma distinct_removeAll [simp]: "distinct xs \<Longrightarrow> distinct (removeAll x xs)"
  by (simp add: removeAll_filter_not_eq)

subsection \<open>Remainder\<close>

text \<open>The operator \<open>%\<close> on integers: the remainder has the sign of the dividend.\<close>

definition js_rem :: "int \<Rightarrow> int \<Rightarrow> int" where
  "js_rem a b = (if a < 0 then - ((- a) mod \<bar>b\<bar>) else a mod \<bar>b\<bar>)"

lemma js_rem_pos: "0 \<le> a \<Longrightarrow> 0 < b \<Longrightarrow> js_rem a b = a mod b"
  by (simp add: js_rem_def)

subsection \<open>Decimal text of an integer\<close>

fun digits_of :: "nat \<Rightarrow> ustr" where
  "digits_of n = (if n < 10 then [48 + n] else digits_of (n div 10) @ [48 + n mod 10])"

declare digits_of.simps [simp del]

lemma digits_of_small [js_simps]: "n < 10 \<Longrightarrow> digits_of n = [48 + n]"
  and digits_of_big [js_simps]: "\<not> n < 10 \<Longrightarrow> digits_of n = digits_of (n div 10) @ [48 + n mod 10]"
  by (subst digits_of.simps, simp)+

definition num_str :: "int \<Rightarrow> ustr" where
  "num_str n = (if n < 0 then 45 # digits_of (nat (- n)) else digits_of (nat n))"

fun nat_of_digits :: "nat \<Rightarrow> ustr \<Rightarrow> nat" where
  "nat_of_digits acc [] = acc"
| "nat_of_digits acc (c # cs) = nat_of_digits (10 * acc + (c - 48)) cs"

definition is_digit :: "nat \<Rightarrow> bool" where
  "is_digit c \<longleftrightarrow> 48 \<le> c \<and> c \<le> 57"

lemma nat_of_digits_append: "nat_of_digits a (xs @ ys) = nat_of_digits (nat_of_digits a xs) ys"
  by (induction xs arbitrary: a) auto

lemma nat_of_digits_of: "nat_of_digits 0 (digits_of n) = n"
proof (induction n rule: digits_of.induct)
  case (1 n)
  show ?case
  proof (cases "n < 10")
    case False
    with 1 show ?thesis by (simp add: js_simps nat_of_digits_append)
  qed (simp add: js_simps)
qed

lemma digits_of_digit: "c \<in> set (digits_of n) \<Longrightarrow> is_digit c"
proof (induction n rule: digits_of.induct)
  case (1 n)
  then show ?case
    by (cases "n < 10") (auto simp: js_simps is_digit_def)
qed

lemma digits_of_nonempty [simp]: "digits_of n \<noteq> []"
  by (subst digits_of.simps) simp

subsection \<open>Substrings: indexOf, replace, split, join\<close>

fun index_of :: "'a list \<Rightarrow> 'a list \<Rightarrow> nat option" where
  "index_of p [] = (if p = [] then Some 0 else None)"
| "index_of p (x # s) = (if prefix p (x # s) then Some 0 else map_option Suc (index_of p s))"

definition contains :: "'a list \<Rightarrow> 'a list \<Rightarrow> bool" where
  "contains p s \<longleftrightarrow> index_of p s \<noteq> None"

lemma contains_Nil [simp]: "contains p [] \<longleftrightarrow> p = []"
  and contains_Cons: "contains p (x # s) \<longleftrightarrow> prefix p (x # s) \<or> contains p s"
  by (auto simp: contains_def)

lemma contains_iff: "contains p s \<longleftrightarrow> (\<exists>a b. s = a @ p @ b)"
proof (induction s)
  case (Cons x s)
  have "(\<exists>a b. x # s = a @ p @ b) \<longleftrightarrow> prefix p (x # s) \<or> (\<exists>a b. s = a @ p @ b)"
    by (metis append_Cons append_Nil list.inject neq_Nil_conv prefix_def)
  with Cons show ?case by (simp add: contains_Cons)
qed auto

text \<open>\<open>s.replace(p, r)\<close> for a string pattern replaces the first occurrence.\<close>

fun replace_first :: "'a list \<Rightarrow> 'a list \<Rightarrow> 'a list \<Rightarrow> 'a list" where
  "replace_first p r [] = (if p = [] then r else [])"
| "replace_first p r (x # s) =
     (if prefix p (x # s) then r @ drop (length p) (x # s) else x # replace_first p r s)"

text \<open>\<open>s.replace(/p/g, r)\<close> for a literal, non-empty pattern \<open>c # cs\<close>.\<close>

fun replace_all :: "'a \<Rightarrow> 'a list \<Rightarrow> 'a list \<Rightarrow> 'a list \<Rightarrow> 'a list" where
  "replace_all c cs r [] = []"
| "replace_all c cs r (x # s) =
     (if x = c \<and> prefix cs s then r @ replace_all c cs r (drop (length cs) s)
      else x # replace_all c cs r s)"

lemma replace_all_id: "c \<notin> set s \<Longrightarrow> replace_all c cs r s = s"
  by (induction s) auto

text \<open>\<open>s.split(sep)\<close> for a non-empty separator \<open>c # cs\<close>; \<open>xs.join(sep)\<close>.\<close>

fun split_go :: "'a \<Rightarrow> 'a list \<Rightarrow> 'a list \<Rightarrow> 'a list \<Rightarrow> 'a list list" where
  "split_go c cs acc [] = [rev acc]"
| "split_go c cs acc (x # s) =
     (if x = c \<and> prefix cs s then rev acc # split_go c cs [] (drop (length cs) s)
      else split_go c cs (x # acc) s)"

definition split_on :: "'a \<Rightarrow> 'a list \<Rightarrow> 'a list \<Rightarrow> 'a list list" where
  "split_on c cs s = split_go c cs [] s"

fun join :: "'a list \<Rightarrow> 'a list list \<Rightarrow> 'a list" where
  "join sep [] = []"
| "join sep [x] = x"
| "join sep (x # y # xs) = x @ sep @ join sep (y # xs)"

lemma split_go_skip:
  "c \<notin> set x \<Longrightarrow> split_go c cs acc (x @ s) = split_go c cs (rev x @ acc) s"
  by (induction x arbitrary: acc) auto

lemma split_go_join:
  assumes "\<forall>x \<in> set (y # xs). c \<notin> set x"
  shows "split_go c cs acc (join (c # cs) (y # xs)) = (rev acc @ y) # xs"
  using assms
proof (induction xs arbitrary: y acc)
  case Nil
  then show ?case using split_go_skip [of c y cs acc "[]"] by simp
next
  case (Cons z xs)
  then have "split_go c cs [] (join (c # cs) (z # xs)) = z # xs"
    using Cons.IH [of z "[]"] by simp
  with Cons.prems show ?case by (simp add: split_go_skip)
qed

lemma split_on_join:
  assumes "xs \<noteq> []" and "\<forall>x \<in> set xs. c \<notin> set x"
  shows "split_on c cs (join (c # cs) xs) = xs"
  using assms split_go_join [of "hd xs" "tl xs" c cs "[]"]
  by (cases xs) (auto simp: split_on_def)

lemma join_split_go:
  "join (c # cs) (split_go c cs acc s) = rev acc @ s \<and> split_go c cs acc s \<noteq> []"
proof (induction c cs acc s rule: split_go.induct)
  case (2 c cs acc x s)
  show ?case
  proof (cases "x = c \<and> prefix cs s")
    case True
    then have "cs @ drop (length cs) s = s"
      by (metis append_eq_conv_conj prefix_def)
    moreover from True 2 have
      "join (c # cs) (split_go c cs [] (drop (length cs) s)) = drop (length cs) s"
      "split_go c cs [] (drop (length cs) s) \<noteq> []"
      by auto
    ultimately show ?thesis
      using True by (cases "split_go c cs [] (drop (length cs) s)") auto
  next
    case False
    with 2 show ?thesis by auto
  qed
qed simp

lemma join_split_on: "join (c # cs) (split_on c cs s) = s"
  using join_split_go [of c cs "[]" s] by (simp add: split_on_def)

lemma split_on_nonempty [simp]: "split_on c cs s \<noteq> []"
  using join_split_go [of c cs "[]" s] by (simp add: split_on_def)

lemma set_join: "set (join sep xs) \<subseteq> \<Union> (set ` set xs) \<union> set sep"
  by (induction sep xs rule: join.induct) auto

lemma split_on_fresh: "c \<notin> set s \<Longrightarrow> split_on c cs s = [s]"
  using split_on_join [of "[s]" c cs] by simp

subsection \<open>White space\<close>

text \<open>The code units that \<open>\s\<close> matches.\<close>

definition js_ws :: "nat \<Rightarrow> bool" where
  "js_ws c \<longleftrightarrow> c \<in> {9, 10, 11, 12, 13, 32, 160, 5760, 8232, 8233, 8239, 8287, 12288, 65279}
     \<or> 8192 \<le> c \<and> c \<le> 8202"

definition js_trim :: "ustr \<Rightarrow> ustr" where
  "js_trim s = rev (dropWhile js_ws (rev (dropWhile js_ws s)))"

text \<open>\<open>s.match(/\S+/g) || []\<close>: the maximal runs of characters that are not white space.\<close>

fun words_go :: "('a \<Rightarrow> bool) \<Rightarrow> 'a list \<Rightarrow> 'a list \<Rightarrow> 'a list list" where
  "words_go ws acc [] = (if acc = [] then [] else [rev acc])"
| "words_go ws acc (c # s) =
     (if ws c then (if acc = [] then words_go ws [] s else rev acc # words_go ws [] s)
      else words_go ws (c # acc) s)"

definition words :: "ustr \<Rightarrow> ustr list" where
  "words s = words_go js_ws [] s"

lemma words_go_props:
  "w \<in> set (words_go ws acc s) \<Longrightarrow> \<forall>c \<in> set acc. \<not> ws c \<Longrightarrow> w \<noteq> [] \<and> (\<forall>c \<in> set w. \<not> ws c)"
proof (induction s arbitrary: acc)
  case Nil
  then show ?case by (cases "acc = []") auto
next
  case (Cons c s)
  show ?case
  proof (cases "ws c")
    case True
    with Cons.prems consider "w = rev acc" "acc \<noteq> []" | "w \<in> set (words_go ws [] s)"
      by (cases "acc = []") auto
    then show ?thesis using Cons.IH [of "[]"] Cons.prems(2) by cases auto
  next
    case False
    from False Cons.prems(1) have "w \<in> set (words_go ws (c # acc) s)" by simp
    moreover from False Cons.prems(2) have "\<forall>d \<in> set (c # acc). \<not> ws d" by auto
    ultimately show ?thesis by (rule Cons.IH)
  qed
qed

lemma words_props: "w \<in> set (words s) \<Longrightarrow> w \<noteq> [] \<and> (\<forall>c \<in> set w. \<not> js_ws c)"
  using words_go_props [of w js_ws "[]" s] by (simp add: words_def)

lemma words_go_skip:
  "\<forall>c \<in> set w. \<not> ws c \<Longrightarrow> words_go ws acc (w @ s) = words_go ws (rev w @ acc) s"
  by (induction w arbitrary: acc) auto

subsection \<open>String conversion\<close>

text \<open>\<open>String(v)\<close>: an array is its elements joined by commas, with nothing for null and undefined.\<close>

fun to_string :: "jsval \<Rightarrow> ustr" and elem_string :: "jsval \<Rightarrow> ustr" where
  "to_string Undefined = u ''undefined''"
| "to_string Null = u ''null''"
| "to_string (Bool b) = (if b then u ''true'' else u ''false'')"
| "to_string (Num n) = num_str n"
| "to_string (Str s) = s"
| "to_string (Arr vs) = join [44] (map elem_string vs)"
| "to_string (Obj ps) = u ''[object Object]''"
| "elem_string Undefined = []"
| "elem_string Null = []"
| "elem_string (Bool b) = (if b then u ''true'' else u ''false'')"
| "elem_string (Num n) = num_str n"
| "elem_string (Str s) = s"
| "elem_string (Arr vs) = join [44] (map elem_string vs)"
| "elem_string (Obj ps) = u ''[object Object]''"

lemma elem_string_eq: "elem_string v = (if nullish v then [] else to_string v)"
  by (cases v) simp_all

text \<open>\<open>parseInt(s, 10)\<close>; None is not a number.\<close>

definition parseInt10 :: "ustr \<Rightarrow> int option" where
  "parseInt10 s =
     (let s = dropWhile js_ws s; neg = (s \<noteq> [] \<and> hd s = 45); s = (if s \<noteq> [] \<and> hd s \<in> {43, 45} then tl s else s); ds = takeWhile is_digit s in
      if ds = [] then None else Some (if neg then - int (nat_of_digits 0 ds) else int (nat_of_digits 0 ds)))"

end
