(* ===== verification/JQuery_Classes.thy ===== *)
theory JQuery_Classes
  imports Prelude
begin

text \<open>
  The class-name operations of the bundled jQuery (\<open>addClass\<close>, \<open>removeClass\<close>, \<open>hasClass\<close>,
  \<open>toggleClass\<close> of \<open>plugins/jquery/dist/jquery.js\<close>), which work on the \<open>className\<close> string of an
  element, refined to operations on its list of classes. \<open>class_list\<close> is the abstraction:
  the words of the string, as the browser reads them. The scripts of the pages
  (\<open>toggle_panel_body\<close>, the alerts, the tasks) are modelled over these operations.
\<close>

section \<open>The operations on the className string\<close>

text \<open>\<open>replace(/[\t\r\n\f]/g, " ")\<close>.\<close>

definition rclass :: "ustr \<Rightarrow> ustr" where
  "rclass s = map (\<lambda>c. if c \<in> {9, 13, 10, 12} then 32 else c) s"

definition pad :: "ustr \<Rightarrow> ustr" where
  "pad w = 32 # w @ [32]"

definition add_word :: "ustr \<Rightarrow> ustr \<Rightarrow> ustr" where
  "add_word cur clazz = (if contains (pad clazz) cur then cur else cur @ clazz @ [32])"

definition addClass :: "ustr \<Rightarrow> ustr \<Rightarrow> ustr" where
  "addClass value className =
     (if value = [] then className
      else let cur = (if className \<noteq> [] then rclass (pad className) else [32])
           in js_trim (foldl add_word cur (words value)))"

text \<open>The inner loop of \<open>removeClass\<close>: as long as the padded class occurs, drop it.\<close>

lemma length_replace_first:
  assumes "contains p s" and "length r < length p"
  shows "length (replace_first p r s) < length s"
proof -
  from assms(2) have p: "p \<noteq> []" by auto
  from assms show ?thesis
  proof (induction s)
    case Nil
    with p show ?case by simp
  next
    case (Cons x s)
    show ?case
    proof (cases "prefix p (x # s)")
      case True
      then have "length p \<le> length (x # s)" by (rule prefix_length_le)
      with True assms(2) show ?thesis by simp
    next
      case False
      with Cons show ?thesis by (simp add: contains_Cons)
    qed
  qed
qed

function remove_word :: "ustr \<Rightarrow> ustr \<Rightarrow> ustr" where
  "remove_word cur clazz =
     (if contains (pad clazz) cur then remove_word (replace_first (pad clazz) [32] cur) clazz
      else cur)"
  by pat_completeness auto
termination
  by (relation "measure (\<lambda>(cur, _). length cur)")
    (auto simp: pad_def intro!: length_replace_first)

declare remove_word.simps [simp del]

definition removeClass :: "ustr \<Rightarrow> ustr \<Rightarrow> ustr" where
  "removeClass value className =
     (if value = [] \<or> className = [] then className
      else js_trim (foldl remove_word (rclass (pad className)) (words value)))"

definition hasClass :: "ustr \<Rightarrow> ustr \<Rightarrow> bool" where
  "hasClass selector className \<longleftrightarrow> contains (pad selector) (rclass (pad className))"

definition toggle_one :: "ustr \<Rightarrow> ustr \<Rightarrow> ustr" where
  "toggle_one className c =
     (if hasClass c className then removeClass c className else addClass c className)"

definition toggleClass :: "ustr \<Rightarrow> ustr \<Rightarrow> ustr" where
  "toggleClass value className = foldl toggle_one className (words value)"

section \<open>Class strings as word lists\<close>

definition html_ws :: "nat \<Rightarrow> bool" where
  "html_ws c \<longleftrightarrow> c \<in> {9, 10, 12, 13, 32}"

definition class_list :: "ustr \<Rightarrow> ustr list" where
  "class_list s = words_go html_ws [] s"

text \<open>
  A plain class string has no white space beyond the five HTML separators (jQuery trims and
  tokenises with the larger JavaScript class).
\<close>

definition plain :: "ustr \<Rightarrow> bool" where
  "plain s \<longleftrightarrow> (\<forall>c \<in> set s. js_ws c \<longrightarrow> html_ws c)"

text \<open>A word: what \<open>match(/\S+/g)\<close> returns.\<close>

definition is_word :: "ustr \<Rightarrow> bool" where
  "is_word w \<longleftrightarrow> w \<noteq> [] \<and> (\<forall>c \<in> set w. \<not> js_ws c)"

definition spaced :: "ustr list \<Rightarrow> ustr" where
  "spaced ws = 32 # concat (map (\<lambda>w. w @ [32]) ws)"

text \<open>Invariant of the working string \<open>cur\<close>: words without white space, some of them empty.\<close>

definition no_ws :: "ustr list \<Rightarrow> bool" where
  "no_ws ws \<longleftrightarrow> (\<forall>w \<in> set ws. \<forall>c \<in> set w. \<not> js_ws c)"

lemma js_ws_32 [simp]: "js_ws 32" by (simp add: js_ws_def)
lemma html_js_ws: "html_ws c \<Longrightarrow> js_ws c" by (auto simp: html_ws_def js_ws_def)
lemma html_ws_32 [simp]: "html_ws 32" by (simp add: html_ws_def)

lemma no_ws_simps [class_simps]:
  "no_ws []"
  "no_ws (w # ws) \<longleftrightarrow> (\<forall>c \<in> set w. \<not> js_ws c) \<and> no_ws ws"
  "no_ws (ws @ vs) \<longleftrightarrow> no_ws ws \<and> no_ws vs"
  by (auto simp: no_ws_def)

lemma no_ws_filter: "no_ws ws \<Longrightarrow> no_ws (filter P ws)"
  by (auto simp: no_ws_def)

lemma spaced_simps [class_simps]:
  "spaced [] = [32]"
  "spaced (w # ws) = 32 # w @ spaced ws"
  "spaced (ws @ [w]) = spaced ws @ w @ [32]"
  by (simp_all add: spaced_def)

lemma no_ws_fresh: "\<forall>c \<in> set w. \<not> js_ws c \<Longrightarrow> 32 \<notin> set w"
  using js_ws_32 by blast

lemma prefix_padded:
  assumes "32 \<notin> set w" and "32 \<notin> set x"
  shows "prefix (w @ [32]) (x @ 32 # s) \<longleftrightarrow> w = x"
  using assms
proof (induction w arbitrary: x)
  case Nil
  then show ?case by (cases x) auto
next
  case (Cons a w)
  then show ?case by (cases x) auto
qed

lemma contains_skip:
  "a \<notin> set x \<Longrightarrow> contains (a # p) (x @ s) \<longleftrightarrow> contains (a # p) s"
  by (induction x) (auto simp: contains_Cons)

lemma spaced_starts: "\<exists>t. spaced ws = 32 # t"
  by (simp add: spaced_def)

lemma contains_spaced:
  assumes "32 \<notin> set w" and "no_ws ws"
  shows "contains (pad w) (spaced ws) \<longleftrightarrow> w \<in> set ws"
  using assms(2)
proof (induction ws)
  case Nil
  then show ?case by (auto simp: class_simps pad_def contains_Cons)
next
  case (Cons x ws)
  then have x: "32 \<notin> set x" by (auto simp: class_simps dest: no_ws_fresh)
  obtain t where t: "spaced ws = 32 # t" using spaced_starts by blast
  have "prefix (pad w) (32 # x @ spaced ws) \<longleftrightarrow> w = x"
    using prefix_padded [OF assms(1) x] by (simp add: pad_def t)
  moreover have "contains (pad w) (x @ spaced ws) \<longleftrightarrow> contains (pad w) (spaced ws)"
    using contains_skip [OF x] by (simp add: pad_def)
  ultimately show ?case
    using Cons by (auto simp: class_simps contains_Cons)
qed

lemma add_word_spaced:
  assumes "32 \<notin> set w" and "no_ws ws"
  shows "add_word (spaced ws) w = spaced (if w \<in> set ws then ws else ws @ [w])"
  using contains_spaced [OF assms] by (simp add: add_word_def class_simps)

lemma replace_first_skip:
  "a \<notin> set x \<Longrightarrow> replace_first (a # p) r (x @ s) = x @ replace_first (a # p) r s"
  by (induction x) auto

lemma replace_first_spaced:
  assumes "32 \<notin> set w" and "no_ws ws" and "w \<in> set ws"
  shows "replace_first (pad w) [32] (spaced ws) = spaced (remove1 w ws)"
  using assms(2,3)
proof (induction ws)
  case (Cons x ws)
  then have x: "32 \<notin> set x" by (auto simp: class_simps dest: no_ws_fresh)
  obtain t where t: "spaced ws = 32 # t" using spaced_starts by blast
  have pre: "prefix (pad w) (32 # x @ spaced ws) \<longleftrightarrow> w = x"
    using prefix_padded [OF assms(1) x] by (simp add: pad_def t)
  show ?case
  proof (cases "w = x")
    case True
    have "drop (length (pad x)) (32 # x @ spaced ws) = t"
      by (simp add: pad_def t)
    with True pre show ?thesis by (simp add: class_simps t)
  next
    case False
    with Cons have "replace_first (pad w) [32] (spaced ws) = spaced (remove1 w ws)"
      by (auto simp: class_simps)
    with False pre x show ?thesis
      using replace_first_skip [of 32 x "w @ [32]" "[32]" "spaced ws"]
      by (auto simp: class_simps pad_def)
  qed
qed simp

lemma no_ws_remove1: "no_ws ws \<Longrightarrow> no_ws (remove1 w ws)"
  unfolding no_ws_def by (metis notin_set_remove1)

lemma remove_word_spaced:
  assumes "32 \<notin> set w" and "no_ws ws"
  shows "remove_word (spaced ws) w = spaced (filter (\<lambda>x. x \<noteq> w) ws)"
  using assms(2)
proof (induction "length ws" arbitrary: ws rule: less_induct)
  case less
  show ?case
  proof (cases "w \<in> set ws")
    case True
    then have "length (remove1 w ws) < length ws"
      by (simp add: length_remove1) (metis One_nat_def diff_less length_pos_if_in_set zero_less_one)
    moreover have "filter (\<lambda>x. x \<noteq> w) (remove1 w ws) = filter (\<lambda>x. x \<noteq> w) ws"
      by (induction ws) auto
    ultimately have "remove_word (spaced (remove1 w ws)) w = spaced (filter (\<lambda>x. x \<noteq> w) ws)"
      using less.hyps [of "remove1 w ws"] no_ws_remove1 less.prems by metis
    with True less.prems assms(1) show ?thesis
      by (subst remove_word.simps) (simp add: contains_spaced replace_first_spaced)
  next
    case False
    then have "filter (\<lambda>x. x \<noteq> w) ws = ws" by (auto intro: filter_True)
    with False less.prems assms(1) show ?thesis
      by (subst remove_word.simps) (simp add: contains_spaced)
  qed
qed

text \<open>The start value of \<open>cur\<close> in this representation: split the padded string at spaces.\<close>

lemma rclass_pad: "rclass (pad s) = 32 # rclass s @ [32]"
  by (simp add: rclass_def pad_def)

lemma spaced_split: "32 # s @ [32] = spaced (split_on 32 [] s)"
proof -
  have "\<And>xs. xs \<noteq> [] \<Longrightarrow> spaced xs = 32 # join [32] xs @ [32]"
  proof -
    fix xs :: "ustr list"
    assume "xs \<noteq> []"
    then show "spaced xs = 32 # join [32] xs @ [32]"
      by (induction "[32 :: nat]" xs rule: join.induct) (auto simp: class_simps)
  qed
  from this [of "split_on 32 [] s"] show ?thesis by (simp add: join_split_on)
qed

lemma split_on_pieces:
  "w \<in> set (split_go c [] acc s) \<Longrightarrow> c \<notin> set acc \<Longrightarrow>
   c \<notin> set w \<and> set w \<subseteq> set acc \<union> set s"
proof (induction s arbitrary: acc)
  case (Cons x s)
  show ?case
  proof (cases "x = c")
    case True
    with Cons.prems have "w = rev acc \<or> w \<in> set (split_go c [] [] s)" by simp
    then show ?thesis using Cons.IH [of "[]"] Cons.prems(2) by auto
  next
    case False
    with Cons.prems have "w \<in> set (split_go c [] (x # acc) s)" "c \<notin> set (x # acc)" by auto
    from Cons.IH [OF this] show ?thesis by auto
  qed
qed simp

lemma plain_rclass: "plain s \<Longrightarrow> c \<in> set (rclass s) \<Longrightarrow> js_ws c \<Longrightarrow> c = 32"
  by (auto simp: plain_def rclass_def html_ws_def split: if_splits)

lemma no_ws_split: "plain s \<Longrightarrow> no_ws (split_on 32 [] (rclass s))"
  using split_on_pieces [of _ "32 :: nat" "[]" "rclass s"] plain_rclass [of s]
  unfolding no_ws_def split_on_def by (metis (no_types, lifting) empty_iff list.set(1) subsetD sup_bot_left)

text \<open>\<open>class_list\<close> reads the words back, whatever the padding and the trimming.\<close>

lemma words_go_spaced:
  assumes "no_ws ws"
  shows "words_go html_ws [] (spaced ws) = filter (\<lambda>w. w \<noteq> []) ws"
  using assms
proof (induction ws)
  case (Cons w ws)
  have w: "\<forall>c \<in> set w. \<not> html_ws c"
    using Cons.prems html_js_ws by (auto simp: class_simps)
  obtain t where t: "spaced ws = 32 # t" using spaced_starts by blast
  from Cons have "words_go html_ws [] (32 # t) = filter (\<lambda>w. w \<noteq> []) ws"
    by (simp add: class_simps t)
  then have "words_go html_ws [] t = filter (\<lambda>w. w \<noteq> []) ws" by simp
  then show ?case
    by (simp add: class_simps words_go_skip [OF w] t)
qed (simp add: class_simps)

lemma words_go_dropWhile: "words_go html_ws [] (dropWhile html_ws s) = words_go html_ws [] s"
  by (induction s) auto

lemma words_go_snoc_ws:
  "html_ws c \<Longrightarrow> words_go html_ws acc (s @ [c]) = words_go html_ws acc s"
  by (induction html_ws acc s rule: words_go.induct) auto

lemma words_go_append_ws:
  "\<forall>c \<in> set t. html_ws c \<Longrightarrow> words_go html_ws acc (s @ t) = words_go html_ws acc s"
proof (induction t rule: rev_induct)
  case (snoc c t)
  then show ?case
    using words_go_snoc_ws [of c acc "s @ t"] by simp
qed simp

lemma dropWhile_cong_on: "(\<And>x. x \<in> set xs \<Longrightarrow> P x = Q x) \<Longrightarrow> dropWhile P xs = dropWhile Q xs"
  by (rule dropWhile_cong) auto

lemma class_list_js_trim:
  assumes "plain s"
  shows "class_list (js_trim s) = class_list s"
proof -
  have eq: "js_ws c = html_ws c" if "c \<in> set s" for c
    using assms that html_js_ws by (auto simp: plain_def)
  let ?d = "dropWhile html_ws s"
  have d: "dropWhile js_ws s = ?d" using eq by (rule dropWhile_cong_on)
  have "c \<in> set (rev ?d) \<Longrightarrow> js_ws c = html_ws c" for c
    using eq set_dropWhileD by (metis set_rev)
  then have "dropWhile js_ws (rev ?d) = dropWhile html_ws (rev ?d)"
    by (rule dropWhile_cong_on)
  then have "js_trim s = rev (dropWhile html_ws (rev ?d))"
    unfolding js_trim_def d by (rule arg_cong)
  moreover have "?d = rev (dropWhile html_ws (rev ?d)) @ rev (takeWhile html_ws (rev ?d))"
    by (metis rev_append rev_rev_ident takeWhile_dropWhile_id)
  moreover have "\<forall>c \<in> set (rev (takeWhile html_ws (rev ?d))). html_ws c"
    using set_takeWhileD by fastforce
  ultimately have "words_go html_ws [] (js_trim s) = words_go html_ws [] ?d"
    using words_go_append_ws by metis
  then show ?thesis by (simp add: class_list_def words_go_dropWhile)
qed

lemma plain_spaced: "no_ws ws \<Longrightarrow> plain (spaced ws)"
  by (auto simp: plain_def spaced_def no_ws_def)

lemma plain_js_trim: "plain s \<Longrightarrow> plain (js_trim s)"
  unfolding plain_def js_trim_def by (metis set_dropWhileD set_rev)

lemma class_list_spaced_trim:
  "no_ws ws \<Longrightarrow> class_list (js_trim (spaced ws)) = filter (\<lambda>w. w \<noteq> []) ws"
  by (simp add: class_list_js_trim plain_spaced) (simp add: class_list_def words_go_spaced)

lemma words_go_rclass: "words_go html_ws acc (rclass s) = words_go html_ws acc s"
proof -
  have "\<And>acc. words_go html_ws acc (rclass s) = words_go html_ws acc s"
    by (induction s) (auto simp: rclass_def html_ws_def)
  then show ?thesis .
qed

lemma class_list_split:
  assumes "plain s"
  shows "filter (\<lambda>w. w \<noteq> []) (split_on 32 [] (rclass s)) = class_list s"
proof -
  have "words_go html_ws [] (32 # rclass s @ [32]) = words_go html_ws [] (rclass s)"
    by (simp add: words_go_snoc_ws)
  with words_go_spaced [OF no_ws_split [OF assms]] show ?thesis
    by (simp add: spaced_split class_list_def words_go_rclass)
qed

text \<open>Every class string is, for the operations, the spaced form of its pieces.\<close>

lemma start_cur:
  assumes "plain s"
  obtains ws where "rclass (pad s) = spaced ws" and "no_ws ws"
    and "filter (\<lambda>w. w \<noteq> []) ws = class_list s"
  using that [of "split_on 32 [] (rclass s)"] assms
  by (simp add: rclass_pad spaced_split no_ws_split class_list_split)

section \<open>Refinement to class lists\<close>

text \<open>The abstract operations.\<close>

definition add_classes :: "ustr list \<Rightarrow> ustr list \<Rightarrow> ustr list" where
  "add_classes vs cs = foldl (\<lambda>cs v. if v \<in> set cs then cs else cs @ [v]) cs vs"

definition remove_classes :: "ustr list \<Rightarrow> ustr list \<Rightarrow> ustr list" where
  "remove_classes vs cs = filter (\<lambda>c. c \<notin> set vs) cs"

lemma words_is_word: "w \<in> set (words v) \<Longrightarrow> is_word w"
  using words_props [of w v] by (simp add: is_word_def)

lemma is_word_fresh: "is_word w \<Longrightarrow> 32 \<notin> set w"
  by (auto simp: is_word_def no_ws_fresh)

lemma foldl_add_word:
  assumes "\<forall>v \<in> set vs. is_word v" and "no_ws ws"
  shows "\<exists>ws'. foldl add_word (spaced ws) vs = spaced ws' \<and> no_ws ws' \<and>
    filter (\<lambda>w. w \<noteq> []) ws' = add_classes vs (filter (\<lambda>w. w \<noteq> []) ws)"
  using assms
proof (induction vs arbitrary: ws)
  case Nil
  then show ?case by (auto simp: add_classes_def)
next
  case (Cons v vs)
  let ?ws = "if v \<in> set ws then ws else ws @ [v]"
  have v: "32 \<notin> set v" "v \<noteq> []" "\<forall>c \<in> set v. \<not> js_ws c"
    using Cons.prems by (auto simp: is_word_fresh is_word_def)
  then have "no_ws ?ws" using Cons.prems by (simp add: class_simps)
  moreover have "filter (\<lambda>w. w \<noteq> []) ?ws =
      (let cs = filter (\<lambda>w. w \<noteq> []) ws in if v \<in> set cs then cs else cs @ [v])"
    using v by simp
  ultimately show ?case
    using Cons.IH [of ?ws] Cons.prems add_word_spaced [OF v(1) Cons.prems(2)]
    by (simp add: add_classes_def Let_def)
qed

lemma foldl_remove_word:
  assumes "\<forall>v \<in> set vs. is_word v" and "no_ws ws"
  shows "foldl remove_word (spaced ws) vs = spaced (filter (\<lambda>c. c \<notin> set vs) ws)"
  using assms
proof (induction vs arbitrary: ws)
  case (Cons v vs)
  have v: "32 \<notin> set v" using Cons.prems by (simp add: is_word_fresh)
  have "foldl remove_word (spaced (filter (\<lambda>x. x \<noteq> v) ws)) vs
    = spaced (filter (\<lambda>c. c \<notin> set vs) (filter (\<lambda>x. x \<noteq> v) ws))"
    using Cons.prems by (intro Cons.IH) (auto simp: no_ws_filter)
  then show ?case
    using remove_word_spaced [OF v Cons.prems(2)] by (simp add: conj_commute)
qed simp

lemma addClass_refines:
  assumes "plain s"
  shows "class_list (addClass v s) = add_classes (words v) (class_list s) \<and> plain (addClass v s)"
proof (cases "v = []")
  case True
  with assms show ?thesis by (simp add: addClass_def add_classes_def words_def)
next
  case False
  obtain ws where cur: "(if s \<noteq> [] then rclass (pad s) else [32]) = spaced ws" "no_ws ws"
    and ws: "filter (\<lambda>w. w \<noteq> []) ws = class_list s"
  proof (cases "s = []")
    case True
    then show ?thesis using that [of "[]"] by (simp add: class_simps class_list_def)
  next
    case False
    then show ?thesis using that start_cur [OF assms] by metis
  qed
  from foldl_add_word [of "words v", OF _ cur(2)] words_is_word obtain ws' where
    "foldl add_word (spaced ws) (words v) = spaced ws'" "no_ws ws'"
    "filter (\<lambda>w. w \<noteq> []) ws' = add_classes (words v) (class_list s)"
    by (auto simp: ws)
  with False cur(1) show ?thesis
    by (simp add: addClass_def class_list_spaced_trim plain_js_trim plain_spaced)
qed

lemma removeClass_refines:
  assumes "plain s"
  shows "class_list (removeClass v s) = remove_classes (words v) (class_list s)
    \<and> plain (removeClass v s)"
proof (cases "v = [] \<or> s = []")
  case True
  with assms show ?thesis
    by (auto simp: removeClass_def remove_classes_def words_def class_list_def)
next
  case False
  from start_cur [OF assms] obtain ws where cur: "rclass (pad s) = spaced ws" "no_ws ws"
    and ws: "filter (\<lambda>w. w \<noteq> []) ws = class_list s" by metis
  have "foldl remove_word (spaced ws) (words v) = spaced (filter (\<lambda>c. c \<notin> set (words v)) ws)"
    using words_is_word cur(2) by (intro foldl_remove_word) auto
  moreover have "filter (\<lambda>w. w \<noteq> []) (filter (\<lambda>c. c \<notin> set (words v)) ws)
      = remove_classes (words v) (class_list s)"
    by (simp add: remove_classes_def ws [symmetric] conj_commute)
  ultimately show ?thesis
    using False cur no_ws_filter
    by (simp add: removeClass_def class_list_spaced_trim plain_js_trim plain_spaced)
qed

lemma hasClass_refines:
  assumes "plain s" and "is_word w"
  shows "hasClass w s \<longleftrightarrow> w \<in> set (class_list s)"
proof -
  from start_cur [OF assms(1)] obtain ws where cur: "rclass (pad s) = spaced ws" "no_ws ws"
    and ws: "filter (\<lambda>w. w \<noteq> []) ws = class_list s" by metis
  have "w \<in> set (class_list s) \<longleftrightarrow> w \<in> set ws"
    unfolding ws [symmetric] using assms(2) by (simp add: is_word_def)
  with cur show ?thesis
    by (simp add: hasClass_def contains_spaced [OF is_word_fresh [OF assms(2)]])
qed

lemma words_single: "is_word w \<Longrightarrow> words w = [w]"
  using words_go_skip [of w js_ws "[]" "[]"] by (simp add: words_def is_word_def)

definition toggle_class :: "ustr list \<Rightarrow> ustr \<Rightarrow> ustr list" where
  "toggle_class cs w = (if w \<in> set cs then filter (\<lambda>c. c \<noteq> w) cs else cs @ [w])"

lemma toggle_one_refines:
  assumes "plain s" and "is_word w"
  shows "class_list (toggle_one s w) = toggle_class (class_list s) w \<and> plain (toggle_one s w)"
  using addClass_refines [OF assms(1), of w] removeClass_refines [OF assms(1), of w] assms
  by (auto simp: toggle_one_def hasClass_refines words_single add_classes_def remove_classes_def
      toggle_class_def)

lemma toggleClass_refines:
  assumes "plain s"
  shows "class_list (toggleClass v s) = foldl toggle_class (class_list s) (words v)
    \<and> plain (toggleClass v s)"
proof -
  have "\<And>s. plain s \<Longrightarrow> \<forall>w \<in> set ws. is_word w \<Longrightarrow>
      class_list (foldl toggle_one s ws) = foldl toggle_class (class_list s) ws
      \<and> plain (foldl toggle_one s ws)" for ws
    by (induction ws) (simp_all add: toggle_one_refines)
  from this [OF assms, of "words v"] words_is_word show ?thesis
    by (auto simp: toggleClass_def)
qed

section \<open>The interface the page scripts use\<close>

text \<open>
  What a client of the class operations may rely on: they act on the class list as
  \<open>add_classes\<close>, \<open>remove_classes\<close> and \<open>toggle_class\<close> do, and keep the representation usable.
\<close>

locale class_ops =
  fixes cls :: "'s \<Rightarrow> ustr list"
    and ok :: "'s \<Rightarrow> bool"
    and add :: "ustr \<Rightarrow> 's \<Rightarrow> 's"
    and remove :: "ustr \<Rightarrow> 's \<Rightarrow> 's"
    and toggle :: "ustr \<Rightarrow> 's \<Rightarrow> 's"
  assumes cls_add: "ok s \<Longrightarrow> cls (add v s) = add_classes (words v) (cls s)"
    and cls_remove: "ok s \<Longrightarrow> cls (remove v s) = remove_classes (words v) (cls s)"
    and cls_toggle: "ok s \<Longrightarrow> cls (toggle v s) = foldl toggle_class (cls s) (words v)"
    and ok_add: "ok s \<Longrightarrow> ok (add v s)"
    and ok_remove: "ok s \<Longrightarrow> ok (remove v s)"
    and ok_toggle: "ok s \<Longrightarrow> ok (toggle v s)"
begin

lemma set_add_classes: "set (add_classes vs cs) = set cs \<union> set vs"
  unfolding add_classes_def by (induction vs arbitrary: cs) auto

text \<open>The \<open>removeClass(all).addClass(new)\<close> idiom.\<close>

lemma replace_group:
  assumes "ok s"
  shows "set (cls (add w (remove g s))) = set (cls s) - set (words g) \<union> set (words w)"
  using assms by (auto simp: cls_add cls_remove ok_remove set_add_classes remove_classes_def)

lemma set_toggle_class: "set (toggle_class cs w) = (if w \<in> set cs then set cs - {w} else insert w (set cs))"
  by (auto simp: toggle_class_def)

text \<open>Toggling a list of distinct words is a symmetric difference on the class set.\<close>

lemma set_foldl_toggle:
  "distinct ws \<Longrightarrow> set (foldl toggle_class cs ws) = (set cs - set ws) \<union> (set ws - set cs)"
proof (induction ws arbitrary: cs)
  case (Cons w ws)
  then have "set (foldl toggle_class (toggle_class cs w) ws)
      = (set (toggle_class cs w) - set ws) \<union> (set ws - set (toggle_class cs w))"
    by simp
  with Cons.prems show ?case by (auto simp: set_toggle_class split: if_splits)
qed simp

lemma toggle_sym_diff:
  "ok s \<Longrightarrow> distinct (words v) \<Longrightarrow>
   set (cls (toggle v s)) = (set (cls s) - set (words v)) \<union> (set (words v) - set (cls s))"
  by (simp add: cls_toggle set_foldl_toggle)

lemma toggle_involutive:
  "ok s \<Longrightarrow> distinct (words v) \<Longrightarrow> set (cls (toggle v (toggle v s))) = set (cls s)"
  by (auto simp: toggle_sym_diff ok_toggle)

end

interpretation jq: class_ops class_list plain addClass removeClass toggleClass
  by unfold_locales (simp_all add: addClass_refines removeClass_refines toggleClass_refines)

end
