(* ===== verification/Alerts.thy ===== *)
theory Alerts
  imports JQuery_Classes
begin

text \<open>
  The page furniture of \<open>theme/js/pcapdb.js\<close>: the collapsible panels (\<open>toggle_panel_body\<close>), the
  page title, and the alert list (\<open>show_alert\<close>, \<open>clear_alerts_callback\<close>, \<open>result_alerts\<close>). An alert
  is the list element the script builds: the class string of its box, its icon, its title and
  its text. The list of alerts is the content of \<open>#alert-list\<close>; alerts whose \<open>slideUp\<close> is running
  are kept beside it until the animation ends and removes them.
\<close>

section \<open>Panels and the page title\<close>

record panel =
  icons :: "ustr list"   \<comment> \<open>className of every \<open>i.toggle-class\<close> inside the heading\<close>
  body_visible :: bool

definition toggle_panel_body :: "panel \<Rightarrow> panel" where
  "toggle_panel_body p =
     p\<lparr>icons := map (toggleClass (u ''fa-plus-circle txt-color-green''))
                  (map (toggleClass (u ''fa-minus-circle txt-color-red'')) (icons p)),
       body_visible := \<not> body_visible p\<rparr>"

definition page_title :: "ustr \<Rightarrow> ustr" where
  "page_title header_text = u ''PcapDB | '' @ js_trim header_text"

section \<open>Alerts\<close>

definition ALERT_TYPES :: "ustr list" where
  "ALERT_TYPES = [u ''success'', u ''info'', u ''warning'', u ''danger'']"

definition ALERT_ICONS :: "(ustr \<times> ustr) list" where
  "ALERT_ICONS = [(u ''success'', u ''fa-ok''), (u ''info'', u ''fa-envelope''),
     (u ''warning'', u ''fa-lightning''), (u ''danger'', u ''fa-exclamation'')]"

record alert =
  alert_class :: ustr
  alert_icon :: "ustr option"   \<comment> \<open>className of the \<open>i\<close> element, when there is one\<close>
  alert_title :: ustr
  alert_text :: ustr

record alert_area =
  alert_list :: "(nat \<times> alert) list"
  sliding_alerts :: "nat list"
  next_alert :: nat

definition icon_name :: "ustr \<Rightarrow> ustr" where
  "icon_name atype = (case map_of ALERT_ICONS atype of Some i \<Rightarrow> i | None \<Rightarrow> u ''undefined'')"

definition show_alert :: "ustr \<Rightarrow> ustr \<Rightarrow> alert_area \<Rightarrow> alert_area" where
  "show_alert message atype s =
     (let known = (atype \<in> set ALERT_TYPES);
          div0 = (if known then addClass (u ''navbar-alert-'' @ atype) [] else []);
          icon = (if known then Some (addClass (u ''fa '' @ icon_name atype) []) else None);
          al = \<lparr>alert_class = addClass (u ''navbar-alert navbar-alert-highlight'') div0,
                alert_icon = icon, alert_title = u ''Click to dismiss.'',
                alert_text = u '' '' @ message\<rparr>
      in s\<lparr>alert_list := alert_list s @ [(next_alert s, al)], next_alert := Suc (next_alert s)\<rparr>)"

text \<open>
  The click handler that \<open>clear_alerts_callback\<close> returns starts a \<open>slideUp\<close> on the selected
  alerts; its completion removes them. The selection is the single alert for the handler that
  \<open>show_alert\<close> installs, and all of \<open>#alert-list > li\<close> for the one on the list header.
\<close>

definition clear_alerts :: "nat list \<Rightarrow> alert_area \<Rightarrow> alert_area" where
  "clear_alerts ids s = s\<lparr>sliding_alerts := sliding_alerts s @
     filter (\<lambda>i. i \<in> fst ` set (alert_list s)) ids\<rparr>"

definition alert_slide_done :: "nat \<Rightarrow> alert_area \<Rightarrow> alert_area" where
  "alert_slide_done i s =
     (if i \<in> set (sliding_alerts s)
      then s\<lparr>alert_list := filter (\<lambda>(j, _). j \<noteq> i) (alert_list s),
             sliding_alerts := removeAll i (sliding_alerts s)\<rparr>
      else s)"

text \<open>\<open>results[atype]\<close>: reading a property of \<open>null\<close> or \<open>undefined\<close> raises.\<close>

fun field :: "jsval \<Rightarrow> ustr \<Rightarrow> jsval" where
  "field (Obj ps) k = get_prop ps k"
| "field _ _ = Undefined"

definition as_array :: "jsval \<Rightarrow> jsval list" where
  "as_array v = (case v of Arr vs \<Rightarrow> vs | _ \<Rightarrow> [v])"

definition show_type :: "jsval \<Rightarrow> ustr \<Rightarrow> alert_area \<Rightarrow> alert_area" where
  "show_type results atype s =
     (let v = field results atype
      in if nullish v then s
         else foldl (\<lambda>s m. show_alert (to_string m) atype s) s (as_array v))"

text \<open>
  \<open>result_alerts\<close> finishes with a call of \<open>task_check\<close>; the result says so with a flag.
\<close>

definition result_alerts :: "jsval \<Rightarrow> alert_area \<Rightarrow> (alert_area \<times> bool) js_result" where
  "result_alerts results s =
     (if nullish results then Inl TypeError
      else Inr (foldl (\<lambda>s atype. show_type results atype s) s ALERT_TYPES, True))"

section \<open>Lemmas\<close>

lemma words_panel:
  "words (u ''fa-minus-circle txt-color-red'') = [u ''fa-minus-circle'', u ''txt-color-red'']"
  "words (u ''fa-plus-circle txt-color-green'') = [u ''fa-plus-circle'', u ''txt-color-green'']"
  by (simp_all add: words_def js_ws_def js_simps)

definition open_look :: "ustr set" where
  "open_look = {u ''fa-minus-circle'', u ''txt-color-red''}"

definition closed_look :: "ustr set" where
  "closed_look = {u ''fa-plus-circle'', u ''txt-color-green''}"

text \<open>The heading agrees with the body: minus and red over an open one, plus and green else.\<close>

definition panel_ok :: "panel \<Rightarrow> bool" where
  "panel_ok p \<longleftrightarrow> (\<forall>i \<in> set (icons p). plain i \<and>
     set (class_list i) \<inter> (open_look \<union> closed_look)
       = (if body_visible p then open_look else closed_look))"

lemma look_distinct: "open_look \<inter> closed_look = {}"
  by (simp add: open_look_def closed_look_def)

lemma looks_split:
  "(open_look \<union> closed_look) - open_look = closed_look"
  "(open_look \<union> closed_look) - closed_look = open_look"
  using look_distinct by auto

lemma toggle_icon:
  assumes "plain i"
  shows "set (class_list (toggleClass (u ''fa-plus-circle txt-color-green'')
            (toggleClass (u ''fa-minus-circle txt-color-red'') i)))
    = (set (class_list i) - (open_look \<union> closed_look)) \<union> ((open_look \<union> closed_look) - set (class_list i))"
    (is "set (class_list (toggleClass ?p (toggleClass ?m i))) = _")
proof -
  have "set (class_list (toggleClass ?m i)) = (set (class_list i) - open_look) \<union> (open_look - set (class_list i))"
    using jq.toggle_sym_diff [OF assms, of ?m] by (simp add: words_panel open_look_def)
  moreover have "set (class_list (toggleClass ?p (toggleClass ?m i)))
     = (set (class_list (toggleClass ?m i)) - closed_look) \<union> (closed_look - set (class_list (toggleClass ?m i)))"
    using jq.toggle_sym_diff [OF jq.ok_toggle [OF assms], of ?p ?m]
    by (simp add: words_panel closed_look_def)
  ultimately show ?thesis using look_distinct by auto
qed

text \<open>
  The icon of a collapsible panel never disagrees with its body: if the heading shows the
  minus sign in red exactly when the body is visible (and the plus sign in green otherwise),
  this still holds after a click, whatever other classes the icons carry and whatever the
  white space between them; those other classes stay.
\<close>

theorem toggle_panel_body_agrees:
  assumes "panel_ok p"
  shows "panel_ok (toggle_panel_body p) \<and> body_visible (toggle_panel_body p) = (\<not> body_visible p) \<and>
    map (\<lambda>i. set (class_list i) - (open_look \<union> closed_look)) (icons (toggle_panel_body p))
      = map (\<lambda>i. set (class_list i) - (open_look \<union> closed_look)) (icons p)"
proof -
  have pl: "plain i" if "i \<in> set (icons p)" for i
    using assms that by (simp add: panel_ok_def)
  have look: "set (class_list i) \<inter> (open_look \<union> closed_look)
      = (if body_visible p then open_look else closed_look)" if "i \<in> set (icons p)" for i
    using assms that by (simp add: panel_ok_def)
  have "panel_ok (toggle_panel_body p)"
    unfolding panel_ok_def
  proof
    fix j
    assume "j \<in> set (icons (toggle_panel_body p))"
    then obtain i where i: "i \<in> set (icons p)" and
      j: "j = toggleClass (u ''fa-plus-circle txt-color-green'') (toggleClass (u ''fa-minus-circle txt-color-red'') i)"
      by (auto simp: toggle_panel_body_def)
    have "plain j" unfolding j by (intro jq.ok_toggle pl i)
    moreover have "set (class_list j) \<inter> (open_look \<union> closed_look)
        = (open_look \<union> closed_look) - (if body_visible p then open_look else closed_look)"
      unfolding j toggle_icon [OF pl [OF i]] look [OF i, symmetric] by blast
    ultimately show "plain j \<and> set (class_list j) \<inter> (open_look \<union> closed_look)
        = (if body_visible (toggle_panel_body p) then open_look else closed_look)"
      by (simp add: toggle_panel_body_def looks_split)
  qed
  moreover have "map (\<lambda>i. set (class_list i) - (open_look \<union> closed_look)) (icons (toggle_panel_body p))
      = map (\<lambda>i. set (class_list i) - (open_look \<union> closed_look)) (icons p)"
  proof -
    have "set (class_list (toggleClass (u ''fa-plus-circle txt-color-green'')
            (toggleClass (u ''fa-minus-circle txt-color-red'') i))) - (open_look \<union> closed_look)
        = set (class_list i) - (open_look \<union> closed_look)" if "i \<in> set (icons p)" for i
      unfolding toggle_icon [OF pl [OF that]] by blast
    then show ?thesis by (simp add: toggle_panel_body_def comp_def)
  qed
  ultimately show ?thesis by (simp add: toggle_panel_body_def)
qed

definition sample_panel :: panel where
  "sample_panel = \<lparr>icons = [u ''fa  toggle-class fa-minus-circle txt-color-red''], body_visible = True\<rparr>"

lemma sample_panel_ok: "panel_ok sample_panel"
proof -
  have "class_list (u ''fa  toggle-class fa-minus-circle txt-color-red'')
      = [u ''fa'', u ''toggle-class'', u ''fa-minus-circle'', u ''txt-color-red'']"
    by (simp add: class_list_def html_ws_def js_simps)
  moreover have "plain (u ''fa  toggle-class fa-minus-circle txt-color-red'')"
    by (simp add: plain_def html_ws_def js_ws_def js_simps)
  ultimately show ?thesis
    by (auto simp: panel_ok_def sample_panel_def open_look_def closed_look_def)
qed

theorem toggle_panel_body_agrees_witness:
  "panel_ok (toggle_panel_body sample_panel) \<and> \<not> body_visible (toggle_panel_body sample_panel)"
  using toggle_panel_body_agrees [OF sample_panel_ok] by (simp add: sample_panel_def)

section \<open>What the user sees of a result\<close>

text \<open>An alert as the user sees it: its classes, the classes of its icon, its text.\<close>

definition alert_view :: "alert \<Rightarrow> ustr set \<times> ustr set option \<times> ustr" where
  "alert_view a = (set (class_list (alert_class a)),
     map_option (\<lambda>i. set (class_list i)) (alert_icon a), alert_text a)"

definition views :: "alert_area \<Rightarrow> (ustr set \<times> ustr set option \<times> ustr) list" where
  "views s = map (\<lambda>(_, a). alert_view a) (alert_list s)"

definition typed_view :: "ustr \<Rightarrow> jsval \<Rightarrow> ustr set \<times> ustr set option \<times> ustr" where
  "typed_view atype m = ({u ''navbar-alert-'' @ atype, u ''navbar-alert'', u ''navbar-alert-highlight''},
     Some {u ''fa'', icon_name atype}, u '' '' @ to_string m)"

text \<open>The specification: the messages of each type, in the order of the types.\<close>

definition expected_views :: "jsval \<Rightarrow> (ustr set \<times> ustr set option \<times> ustr) list" where
  "expected_views results = concat (map (\<lambda>t. if nullish (field results t) then []
     else map (typed_view t) (as_array (field results t))) ALERT_TYPES)"

lemma plain_Nil [simp]: "plain []" by (simp add: plain_def)

lemma class_list_Nil [simp]: "class_list [] = []" by (simp add: class_list_def)

lemma words_alert:
  assumes "t \<in> set ALERT_TYPES"
  shows "words (u ''navbar-alert-'' @ t) = [u ''navbar-alert-'' @ t]"
    and "words (u ''fa '' @ icon_name t) = [u ''fa'', icon_name t]"
proof -
  from assms consider "t = u ''success''" | "t = u ''info''" | "t = u ''warning''" | "t = u ''danger''"
    by (auto simp: ALERT_TYPES_def)
  then show "words (u ''navbar-alert-'' @ t) = [u ''navbar-alert-'' @ t]"
    by cases (simp_all add: words_def js_ws_def js_simps)
  from assms consider "t = u ''success''" | "t = u ''info''" | "t = u ''warning''" | "t = u ''danger''"
    by (auto simp: ALERT_TYPES_def)
  then show "words (u ''fa '' @ icon_name t) = [u ''fa'', icon_name t]"
    by cases (simp_all add: icon_name_def ALERT_ICONS_def, simp_all add: words_def js_ws_def js_simps)
qed

lemma words_navbar: "words (u ''navbar-alert navbar-alert-highlight'')
    = [u ''navbar-alert'', u ''navbar-alert-highlight'']"
  by (simp add: words_def js_ws_def js_simps)

lemma views_show_alert:
  assumes "t \<in> set ALERT_TYPES"
  shows "views (show_alert (to_string m) t s) = views s @ [typed_view t m]"
proof -
  let ?d = "addClass (u ''navbar-alert-'' @ t) []"
  have "set (class_list ?d) = {u ''navbar-alert-'' @ t}"
    using words_alert(1) [OF assms] by (simp add: jq.cls_add jq.set_add_classes)
  then have "set (class_list (addClass (u ''navbar-alert navbar-alert-highlight'') ?d))
     = {u ''navbar-alert-'' @ t, u ''navbar-alert'', u ''navbar-alert-highlight''}"
    by (simp add: jq.cls_add jq.ok_add jq.set_add_classes words_navbar) auto
  moreover have "set (class_list (addClass (u ''fa '' @ icon_name t) [])) = {u ''fa'', icon_name t}"
    using words_alert(2) [OF assms] by (simp add: jq.cls_add jq.set_add_classes)
  ultimately show ?thesis
    using assms by (simp add: show_alert_def views_def alert_view_def typed_view_def Let_def)
qed

lemma views_show_list:
  "t \<in> set ALERT_TYPES \<Longrightarrow>
   views (foldl (\<lambda>s m. show_alert (to_string m) t s) s ms) = views s @ map (typed_view t) ms"
  by (induction ms arbitrary: s) (simp_all add: views_show_alert)

lemma views_show_types:
  "set ts \<subseteq> set ALERT_TYPES \<Longrightarrow>
   views (foldl (\<lambda>s t. show_type results t s) s ts) = views s @ concat (map (\<lambda>t.
     if nullish (field results t) then [] else map (typed_view t) (as_array (field results t))) ts)"
  by (induction ts arbitrary: s) (simp_all add: show_type_def views_show_list Let_def)

text \<open>
  \<open>result_alerts\<close> appends exactly the alerts the server's answer asks for: for each of the
  types success, info, warning and danger, in this order, one alert per message (a message that
  is not an array counts as one), each with the classes and the icon of its type and with the
  message as text; nothing that was shown before is touched, and the task check always runs.
\<close>

theorem result_alerts_shows:
  assumes "\<not> nullish results"
  shows "\<exists>s'. result_alerts results s = Inr (s', True) \<and> views s' = views s @ expected_views results"
  using assms views_show_types [of ALERT_TYPES results s]
  by (simp add: result_alerts_def expected_views_def)

definition sample_results :: jsval where
  "sample_results = Obj [(u ''danger'', Str (u ''Disk full'')),
     (u ''success'', Arr [Str (u ''Saved''), Num 2])]"

theorem result_alerts_shows_witness:
  "\<exists>s'. result_alerts sample_results \<lparr>alert_list = [], sliding_alerts = [], next_alert = 0\<rparr> = Inr (s', True)
     \<and> map (\<lambda>(_, _, t). t) (views s') = [u '' Saved'', u '' 2'', u '' Disk full'']"
proof -
  have "\<not> nullish sample_results" by (simp add: sample_results_def)
  from result_alerts_shows [OF this, of "\<lparr>alert_list = [], sliding_alerts = [], next_alert = 0\<rparr>"]
  show ?thesis
    by (auto simp: views_def expected_views_def sample_results_def ALERT_TYPES_def get_prop_def
        as_array_def typed_view_def num_str_def js_simps)
qed

text \<open>Dismissal: a click removes that alert and no other once its animation is over.\<close>

lemma dismiss_one:
  "i \<in> fst ` set (alert_list s) \<Longrightarrow>
   alert_list (alert_slide_done i (clear_alerts [i] s)) = filter (\<lambda>(j, _). j \<noteq> i) (alert_list s)"
  by (auto simp: clear_alerts_def alert_slide_done_def)

end
