(* ===== verification/Uri.thy ===== *)
theory Uri
  imports Prelude
begin

text \<open>
  \<open>encodeURIComponent\<close> and \<open>decodeURIComponent\<close> of the language, which the cookie plugin, the
  form plugin and \<open>jQuery.param\<close> rest on: UTF-16 code units to code points, code points to UTF-8
  octets, octets to \<open>%XX\<close>, and back with every \<open>URIError\<close> of the standard's algorithm (a lone
  surrogate, a malformed escape, an overlong or truncated sequence, a surrogate or an
  out-of-range code point). The main result is that decoding inverts encoding on every string
  that can be encoded at all.
\<close>

section \<open>Encoding\<close>

definition unreserved :: "nat \<Rightarrow> bool" where
  "unreserved c \<longleftrightarrow> 65 \<le> c \<and> c \<le> 90 \<or> 97 \<le> c \<and> c \<le> 122 \<or> 48 \<le> c \<and> c \<le> 57
     \<or> c \<in> {45, 95, 46, 33, 126, 42, 39, 40, 41}"

definition high_surrogate :: "nat \<Rightarrow> bool" where
  "high_surrogate c \<longleftrightarrow> 55296 \<le> c \<and> c < 56320"

definition low_surrogate :: "nat \<Rightarrow> bool" where
  "low_surrogate c \<longleftrightarrow> 56320 \<le> c \<and> c < 57344"

definition hex_digit :: "nat \<Rightarrow> nat" where
  "hex_digit n = (if n < 10 then 48 + n else 55 + n)"

definition pct :: "nat \<Rightarrow> ustr" where
  "pct b = [37, hex_digit (b div 16), hex_digit (b mod 16)]"

definition utf8 :: "nat \<Rightarrow> nat list" where
  "utf8 v =
     (if v < 128 then [v]
      else if v < 2048 then [192 + v div 64, 128 + v mod 64]
      else if v < 65536 then [224 + v div 4096, 128 + v div 64 mod 64, 128 + v mod 64]
      else [240 + v div 262144, 128 + v div 4096 mod 64, 128 + v div 64 mod 64, 128 + v mod 64])"

definition escape :: "nat \<Rightarrow> ustr" where
  "escape v = concat (map pct (utf8 v))"

fun encodeURIComponent :: "ustr \<Rightarrow> ustr option" where
  "encodeURIComponent [] = Some []"
| "encodeURIComponent (c # s) =
     (if unreserved c then map_option ((#) c) (encodeURIComponent s)
      else if low_surrogate c then None
      else if \<not> high_surrogate c then map_option ((@) (escape c)) (encodeURIComponent s)
      else case s of
             [] \<Rightarrow> None
           | d # s' \<Rightarrow>
               if low_surrogate d
               then map_option ((@) (escape ((c - 55296) * 1024 + (d - 56320) + 65536)))
                      (encodeURIComponent s')
               else None)"

section \<open>Decoding\<close>

definition hex_val :: "nat \<Rightarrow> nat option" where
  "hex_val c = (if 48 \<le> c \<and> c \<le> 57 then Some (c - 48)
     else if 65 \<le> c \<and> c \<le> 70 then Some (c - 55)
     else if 97 \<le> c \<and> c \<le> 102 then Some (c - 87) else None)"

text \<open>Two hexadecimal digits.\<close>

fun hex2 :: "ustr \<Rightarrow> (nat \<times> ustr) option" where
  "hex2 (a # b # s) = (case (hex_val a, hex_val b) of
       (Some x, Some y) \<Rightarrow> Some (16 * x + y, s) | _ \<Rightarrow> None)"
| "hex2 _ = None"

text \<open>A continuation octet \<open>%XX\<close> with top bits \<open>10\<close>: its six payload bits.\<close>

definition cont :: "ustr \<Rightarrow> (nat \<times> ustr) option" where
  "cont s = (case s of
       [] \<Rightarrow> None
     | c # t \<Rightarrow> if c \<noteq> 37 then None
         else case hex2 t of None \<Rightarrow> None
           | Some (b, r) \<Rightarrow> if 128 \<le> b \<and> b < 192 then Some (b - 128, r) else None)"

text \<open>The rest of a multi-octet sequence that starts with octet \<open>b \<ge> 128\<close>.\<close>

definition multi :: "nat \<Rightarrow> ustr \<Rightarrow> (nat \<times> ustr) option" where
  "multi b s =
     (if b < 192 \<or> 248 \<le> b then None
      else if b < 224 then
        (case cont s of None \<Rightarrow> None | Some (x, s1) \<Rightarrow>
          let v = (b - 192) * 64 + x in if 128 \<le> v then Some (v, s1) else None)
      else if b < 240 then
        (case cont s of None \<Rightarrow> None | Some (x, s1) \<Rightarrow>
         case cont s1 of None \<Rightarrow> None | Some (y, s2) \<Rightarrow>
          let v = (b - 224) * 4096 + x * 64 + y
          in if 2048 \<le> v \<and> \<not> high_surrogate v \<and> \<not> low_surrogate v then Some (v, s2) else None)
      else
        (case cont s of None \<Rightarrow> None | Some (x, s1) \<Rightarrow>
         case cont s1 of None \<Rightarrow> None | Some (y, s2) \<Rightarrow>
         case cont s2 of None \<Rightarrow> None | Some (z, s3) \<Rightarrow>
          let v = (b - 240) * 262144 + x * 4096 + y * 64 + z
          in if 65536 \<le> v \<and> v < 1114112 then Some (v, s3) else None))"

definition utf16 :: "nat \<Rightarrow> ustr" where
  "utf16 v = (if v < 65536 then [v]
     else [55296 + (v - 65536) div 1024, 56320 + (v - 65536) mod 1024])"

lemma hex2_length: "hex2 s = Some (b, r) \<Longrightarrow> length r < length s"
  by (induction s rule: hex2.induct) (auto split: option.splits)

lemma cont_length: "cont s = Some (b, r) \<Longrightarrow> length r < length s"
  by (auto simp: cont_def dest!: hex2_length split: list.splits option.splits if_splits)

lemma multi_length:
  assumes "multi b s = Some (v, r)"
  shows "length r < length s"
proof -
  consider
      (two) x where "cont s = Some (x, r)"
    | (three) x s1 y where "cont s = Some (x, s1)" "cont s1 = Some (y, r)"
    | (four) x s1 y s2 z where "cont s = Some (x, s1)" "cont s1 = Some (y, s2)" "cont s2 = Some (z, r)"
    using assms by (auto simp: multi_def Let_def split: option.splits if_splits)
  then show ?thesis
  proof cases
    case two then show ?thesis by (rule cont_length)
  next
    case three then show ?thesis using cont_length by (meson less_trans)
  next
    case four then show ?thesis using cont_length by (meson less_trans)
  qed
qed

function decodeURIComponent :: "ustr \<Rightarrow> ustr option" where
  "decodeURIComponent [] = Some []"
| "decodeURIComponent (c # s) =
     (if c \<noteq> 37 then map_option ((#) c) (decodeURIComponent s)
      else case hex2 s of
             None \<Rightarrow> None
           | Some (b, s1) \<Rightarrow>
               if b < 128 then map_option ((#) b) (decodeURIComponent s1)
               else case multi b s1 of
                      None \<Rightarrow> None
                    | Some (v, s2) \<Rightarrow> map_option ((@) (utf16 v)) (decodeURIComponent s2))"
  by pat_completeness auto
termination
  by (relation "measure length") (auto dest!: hex2_length multi_length)

section \<open>Decoding inverts encoding\<close>

lemma hex_val_digit [simp]: "n < 16 \<Longrightarrow> hex_val (hex_digit n) = Some n"
  by (auto simp: hex_val_def hex_digit_def)

lemma hex2_pct: "b < 256 \<Longrightarrow> hex2 (tl (pct b) @ s) = Some (b, s)"
  by (simp add: pct_def)

lemma pct_split: "pct b = 37 # tl (pct b)"
  by (simp add: pct_def)

lemma cont_pct: "x < 64 \<Longrightarrow> cont (pct (128 + x) @ s) = Some (x, s)"
  using hex2_pct [of "128 + x" s] by (subst pct_split) (simp add: cont_def)

lemma decode_ascii: "b < 128 \<Longrightarrow>
  decodeURIComponent (pct b @ s) = map_option ((#) b) (decodeURIComponent s)"
  using hex2_pct [of b s] by (subst pct_split) simp

lemma decode_multi:
  assumes "128 \<le> b" and "b < 256" and "multi b t = Some (v, s)"
  shows "decodeURIComponent (pct b @ t) = map_option ((@) (utf16 v)) (decodeURIComponent s)"
  using assms hex2_pct [of b t] by (subst pct_split) simp

lemma base64_split2: "(v::nat) div 64 * 64 + v mod 64 = v"
  by simp

lemma base64_split3: "(v::nat) div 4096 * 4096 + v div 64 mod 64 * 64 + v mod 64 = v"
proof -
  have "v div 4096 = v div 64 div 64" by (simp add: div_mult2_eq [symmetric])
  then show ?thesis
    using div_mult_mod_eq [of "v div 64" 64] div_mult_mod_eq [of v 64] by linarith
qed

lemma base64_split4:
  "(v::nat) div 262144 * 262144 + v div 4096 mod 64 * 4096 + v div 64 mod 64 * 64 + v mod 64 = v"
proof -
  have "v div 262144 = v div 4096 div 64" by (simp add: div_mult2_eq [symmetric])
  then show ?thesis
    using div_mult_mod_eq [of "v div 4096" 64] base64_split3 [of v] by linarith
qed

definition scalar :: "nat \<Rightarrow> bool" where
  "scalar v \<longleftrightarrow> v < 1114112 \<and> \<not> high_surrogate v \<and> \<not> low_surrogate v"

text \<open>One escaped scalar value decodes to its UTF-16 units, whatever follows it.\<close>

lemma decode_escape:
  assumes "scalar v"
  shows "decodeURIComponent (escape v @ s) = map_option ((@) (utf16 v)) (decodeURIComponent s)"
proof -
  let ?x = "v mod 64" and ?y = "v div 64 mod 64" and ?z = "v div 4096 mod 64"
  consider "v < 128" | "128 \<le> v" "v < 2048" | "2048 \<le> v" "v < 65536" | "65536 \<le> v" by linarith
  then show ?thesis
  proof cases
    case 1
    moreover have "(#) v = (@) [v]" by (simp add: fun_eq_iff)
    ultimately show ?thesis
      by (simp add: escape_def utf8_def decode_ascii utf16_def)
  next
    case 2
    then have "multi (192 + v div 64) (pct (128 + ?x) @ s) = Some (v, s)"
      by (simp add: multi_def cont_pct Let_def base64_split2) linarith
    with 2 show ?thesis
      by (simp add: escape_def utf8_def decode_multi)
  next
    case 3
    then have "multi (224 + v div 4096) (pct (128 + ?y) @ pct (128 + ?x) @ s) = Some (v, s)"
      using assms base64_split3 [of v]
      by (simp add: multi_def cont_pct Let_def scalar_def)
    with 3 show ?thesis
      by (simp add: escape_def utf8_def decode_multi)
  next
    case 4
    from assms have "v < 1114112" by (simp add: scalar_def)
    with 4 have "multi (240 + v div 262144) (pct (128 + ?z) @ pct (128 + ?y) @ pct (128 + ?x) @ s)
        = Some (v, s)"
      using base64_split4 [of v] by (simp add: multi_def cont_pct Let_def)
    with 4 \<open>v < 1114112\<close> show ?thesis
      by (simp add: escape_def utf8_def decode_multi)
  qed
qed


lemma utf16_pair:
  assumes "high_surrogate c" and "low_surrogate d"
  shows "utf16 ((c - 55296) * 1024 + (d - 56320) + 65536) = [c, d]"
    and "scalar ((c - 55296) * 1024 + (d - 56320) + 65536)"
proof -
  define a b where "a = c - 55296" and "b = d - 56320"
  with assms have ab: "c = 55296 + a" "a < 1024" "d = 56320 + b" "b < 1024"
    by (auto simp: high_surrogate_def low_surrogate_def)
  then show "utf16 ((c - 55296) * 1024 + (d - 56320) + 65536) = [c, d]"
    by (simp add: utf16_def)
  from ab show "scalar ((c - 55296) * 1024 + (d - 56320) + 65536)"
    by (simp add: scalar_def high_surrogate_def low_surrogate_def)
qed

text \<open>
  The shape of an encoded string: one block per scalar value, the value itself when it is
  unreserved and its escape otherwise.
\<close>

definition block :: "nat \<Rightarrow> ustr" where
  "block v = (if unreserved v then [v] else escape v)"

lemma unreserved_bound: "unreserved v \<Longrightarrow> v < 127 \<and> v \<noteq> 37 \<and> v \<noteq> 32"
  by (auto simp: unreserved_def)

lemma unreserved_scalar: "unreserved v \<Longrightarrow> scalar v"
  by (auto simp: scalar_def high_surrogate_def low_surrogate_def dest: unreserved_bound)

lemma encode_blocks:
  "wf_ustr s \<Longrightarrow> encodeURIComponent s = Some e \<Longrightarrow>
   \<exists>vs. e = concat (map block vs) \<and> s = concat (map utf16 vs) \<and> (\<forall>v \<in> set vs. scalar v)"
proof (induction s arbitrary: e rule: encodeURIComponent.induct)
  case 1
  then show ?case by (intro exI [of _ "[]"]) simp
next
  case (2 c s)
  have c: "c < 65536" and s: "wf_ustr s" using "2.prems"(1) by (auto simp: wf_ustr_def)
  consider (plain) e' where "unreserved c" "encodeURIComponent s = Some e'" "e = c # e'"
    | (bmp) e' where "\<not> unreserved c" "\<not> low_surrogate c" "\<not> high_surrogate c"
        "encodeURIComponent s = Some e'" "e = escape c @ e'"
    | (pair) d s' e' where "\<not> unreserved c" "\<not> low_surrogate c" "high_surrogate c"
        "s = d # s'" "low_surrogate d" "encodeURIComponent s' = Some e'"
        "e = escape ((c - 55296) * 1024 + (d - 56320) + 65536) @ e'"
    using "2.prems"(2) by (auto split: if_splits list.splits)
  then show ?case
  proof cases
    case plain
    with "2.IH"(1) [OF plain(1) s plain(2)] obtain vs where
      "e' = concat (map block vs)" "s = concat (map utf16 vs)" "\<forall>v \<in> set vs. scalar v" by blast
    with plain c show ?thesis
      by (intro exI [of _ "c # vs"]) (simp add: block_def [of c] utf16_def [of c] unreserved_scalar)
  next
    case bmp
    with "2.IH"(2) [OF bmp(1-3) s bmp(4)] obtain vs where
      "e' = concat (map block vs)" "s = concat (map utf16 vs)" "\<forall>v \<in> set vs. scalar v" by blast
    with bmp c show ?thesis
      by (intro exI [of _ "c # vs"]) (simp add: block_def [of c] utf16_def [of c] scalar_def [of c])
  next
    case pair
    let ?v = "(c - 55296) * 1024 + (d - 56320) + 65536"
    have "wf_ustr s'" using s pair(4) by (simp add: wf_ustr_def)
    with "2.IH"(3) [OF pair(1,2) _ pair(4,5)] pair(3,6) obtain vs where
      "e' = concat (map block vs)" "s' = concat (map utf16 vs)" "\<forall>v \<in> set vs. scalar v" by blast
    moreover have "\<not> unreserved ?v" by (simp add: unreserved_def)
    ultimately show ?thesis
      using pair utf16_pair [OF pair(3,5)]
      by (intro exI [of _ "?v # vs"]) (simp add: block_def [of ?v])
  qed
qed

lemma decode_block:
  assumes "scalar v"
  shows "decodeURIComponent (block v @ t) = map_option ((@) (utf16 v)) (decodeURIComponent t)"
proof (cases "unreserved v")
  case True
  then have "utf16 v = [v]" "v \<noteq> 37" by (auto simp: utf16_def dest: unreserved_bound)
  moreover have "(#) v = (@) [v]" by (simp add: fun_eq_iff)
  ultimately show ?thesis using True by (simp add: block_def)
next
  case False
  with assms show ?thesis by (simp add: block_def decode_escape)
qed

lemma decode_encode:
  assumes "wf_ustr s" and "encodeURIComponent s = Some e"
  shows "decodeURIComponent e = Some s"
proof -
  have "\<forall>v \<in> set vs. scalar v \<Longrightarrow>
      decodeURIComponent (concat (map block vs)) = Some (concat (map utf16 vs))" for vs
    by (induction vs) (simp_all add: decode_block)
  with encode_blocks [OF assms] show ?thesis by blast
qed

text \<open>Which characters an encoded string can hold: the unreserved ones and \<open>%\<close>.\<close>

lemma unreserved_hex_digit: "n < 16 \<Longrightarrow> unreserved (hex_digit n)"
  by (auto simp: unreserved_def hex_digit_def)

lemma set_escape: "v < 1114112 \<Longrightarrow> c \<in> set (escape v) \<Longrightarrow> c = 37 \<or> unreserved c"
  by (auto simp: escape_def utf8_def pct_def unreserved_hex_digit split: if_splits)

lemma encode_chars:
  assumes "wf_ustr s" and "encodeURIComponent s = Some e" and "c \<in> set e"
  shows "c = 37 \<or> unreserved c"
proof -
  from encode_blocks [OF assms(1,2)] obtain vs where
    "e = concat (map block vs)" "\<forall>v \<in> set vs. scalar v" by blast
  with assms(3) obtain v where "scalar v" "c \<in> set (block v)" by auto
  then show ?thesis using set_escape [of v c] by (auto simp: block_def scalar_def split: if_splits)
qed

subsection \<open>The plus convention for blanks\<close>

text \<open>\<open>replace(/%20/g, r)\<close> on an encoded string touches exactly the blocks of a blank.\<close>

definition unblank :: "ustr \<Rightarrow> ustr \<Rightarrow> ustr" where
  "unblank r s = replace_all 37 [50, 48] r s"

lemma unblank_pct:
  assumes "b < 256"
  shows "unblank r (pct b @ t) = (if b = 32 then r else pct b) @ unblank r t"
proof -
  let ?h = "hex_digit (b div 16)" and ?l = "hex_digit (b mod 16)"
  have ne: "?h \<noteq> 37" "?l \<noteq> 37" by (auto simp: hex_digit_def)
  have "prefix [50, 48] (?h # ?l # t) \<longleftrightarrow> b div 16 = 2 \<and> b mod 16 = 0"
    by (auto simp: hex_digit_def)
  also have "\<dots> \<longleftrightarrow> b = 32"
    using div_mult_mod_eq [of b 16] by auto
  finally show ?thesis
    using ne by (auto simp: unblank_def pct_def)
qed

lemma unblank_Cons: "c \<noteq> 37 \<Longrightarrow> unblank r (c # t) = c # unblank r t"
  by (simp add: unblank_def)

lemma unblank_pcts:
  "\<forall>b \<in> set bs. b < 256 \<and> b \<noteq> 32 \<Longrightarrow>
   unblank r (concat (map pct bs) @ t) = concat (map pct bs) @ unblank r t"
  by (induction bs) (simp_all add: unblank_pct)

lemma utf8_octets: "v < 1114112 \<Longrightarrow> v \<noteq> 32 \<Longrightarrow> \<forall>b \<in> set (utf8 v). b < 256 \<and> b \<noteq> 32"
  by (auto simp: utf8_def)

lemma unblank_block:
  assumes "scalar v"
  shows "unblank r (block v @ t) = (if v = 32 then r else block v) @ unblank r t"
proof (cases "unreserved v")
  case True
  then show ?thesis by (auto simp: block_def unblank_Cons dest: unreserved_bound)
next
  case False
  show ?thesis
  proof (cases "v = 32")
    case True
    with False show ?thesis using unblank_pct [of 32 r t] by (simp add: block_def escape_def utf8_def)
  next
    case neq: False
    with False assms show ?thesis
      using unblank_pcts [OF utf8_octets [of v]] by (simp add: block_def escape_def scalar_def)
  qed
qed

lemma unblank_blocks:
  "\<forall>v \<in> set vs. scalar v \<Longrightarrow> unblank r (concat (map block vs))
    = concat (map (\<lambda>v. if v = 32 then r else block v) vs)"
proof (induction vs)
  case (Cons v vs)
  then show ?case by (simp add: unblank_block)
qed (simp add: unblank_def)

text \<open>
  An encoded component in which \<open>%20\<close> was turned into \<open>+\<close> and back into a blank still decodes
  to the original: what \<open>jQuery.param\<close> and its readers do.
\<close>

lemma replace_all_single: "replace_all a [] r s = concat (map (\<lambda>c. if c = a then r else [c]) s)"
  by (induction s) auto

lemma concat_map_id: "\<forall>c \<in> set s. c \<noteq> a \<Longrightarrow> concat (map (\<lambda>c. if c = a then r else [c]) s) = s"
  by (induction s) auto

lemma block_no_plus: "scalar v \<Longrightarrow> c \<in> set (block v) \<Longrightarrow> c \<noteq> 43"
  using set_escape [of v c] by (auto simp: block_def scalar_def unreserved_def split: if_splits)

lemma replace_all_append1:
  "replace_all a [] r (s @ t) = replace_all a [] r s @ replace_all a [] r t"
  by (simp add: replace_all_single)

lemma plus_roundtrip:
  assumes "wf_ustr s" and "encodeURIComponent s = Some e"
  shows "decodeURIComponent (replace_all 43 [] [32] (unblank [43] e)) = Some s"
proof -
  from encode_blocks [OF assms] obtain vs where vs: "e = concat (map block vs)"
    "s = concat (map utf16 vs)" "\<forall>v \<in> set vs. scalar v" by blast
  have "\<forall>v \<in> set vs. scalar v \<Longrightarrow>
    decodeURIComponent (replace_all 43 [] [32] (concat (map (\<lambda>v. if v = 32 then [43] else block v) vs)))
      = Some (concat (map utf16 vs))" for vs
  proof (induction vs)
    case (Cons v vs)
    have "replace_all 43 [] [32] (block v) = block v" if "v \<noteq> 32"
      unfolding replace_all_single using Cons.prems block_no_plus [of v]
      by (intro concat_map_id) auto
    then show ?case
      using Cons by (auto simp: replace_all_append1 decode_block utf16_def)
  qed simp
  with vs show ?thesis by (simp add: unblank_blocks)
qed

section \<open>The interface of a component codec\<close>

text \<open>
  What the cookie and form plugins rely on: decoding inverts encoding, and an encoded string
  has none of the separators they join with.
\<close>

locale codec =
  fixes enc :: "ustr \<Rightarrow> ustr option"
    and dec :: "ustr \<Rightarrow> ustr option"
    and okchar :: "nat \<Rightarrow> bool"
  assumes dec_enc: "wf_ustr s \<Longrightarrow> enc s = Some e \<Longrightarrow> dec e = Some s"
    and enc_okchar: "wf_ustr s \<Longrightarrow> enc s = Some e \<Longrightarrow> c \<in> set e \<Longrightarrow> okchar c"
begin

lemma enc_inj:
  "wf_ustr s \<Longrightarrow> wf_ustr t \<Longrightarrow> enc s = Some e \<Longrightarrow> enc t = Some e \<Longrightarrow> s = t"
  using dec_enc by (metis option.inject)

lemma enc_no_sep: "wf_ustr s \<Longrightarrow> enc s = Some e \<Longrightarrow> \<not> okchar c \<Longrightarrow> c \<notin> set e"
  using enc_okchar by blast

text \<open>A \<open>name=value\<close> pair of encoded parts splits back at its only separator.\<close>

lemma split_pair:
  assumes "wf_ustr k" "enc k = Some ek" "wf_ustr v" "enc v = Some ev" "\<not> okchar sep"
  shows "split_on sep [] (ek @ sep # ev) = [ek, ev]"
proof -
  have "sep \<notin> set ek" "sep \<notin> set ev" using assms enc_no_sep by auto
  then show ?thesis using split_on_join [of "[ek, ev]" sep "[]"] by simp
qed

end

definition component_char :: "nat \<Rightarrow> bool" where
  "component_char c \<longleftrightarrow> c = 37 \<or> unreserved c"

lemmas uri_eval = unreserved_def low_surrogate_def high_surrogate_def escape_def utf8_def pct_def hex_digit_def

interpretation uri: codec encodeURIComponent decodeURIComponent component_char
  by unfold_locales (auto simp: component_char_def decode_encode dest: encode_chars)

lemma component_char_seps [simp]:
  "\<not> component_char 61" "\<not> component_char 38" "\<not> component_char 59" "\<not> component_char 43"
  "\<not> component_char 32" "\<not> component_char 34"
  by (simp_all add: component_char_def unreserved_def)

end
