(* ===== verification/Cookie.thy ===== *)
theory Cookie
  imports Uri
begin

text \<open>
  The cookie plugin of the pages, \<open>theme/js/jquery.cookie.js\<close>: writing, reading and removing
  cookies. The page reads the CSRF token through it. \<open>document.cookie\<close> is the browser's: its
  getter is a string argument of the reader, its setter receives the string the writer
  returns. The clock, \<open>Date.toUTCString\<close> and \<open>JSON\<close> are fields of an environment record, so
  the results hold for all of them.
\<close>

record config =
  raw :: bool
  json :: bool

record cookie_env =
  now :: int
  toUTCString :: "int \<Rightarrow> ustr"
  stringify :: "jsval \<Rightarrow> ustr"
  parse :: "ustr \<Rightarrow> jsval option"

text \<open>\<open>options.expires\<close> is a number of days or a date (milliseconds since the epoch).\<close>

datatype expiry = Days int | Date int

record options =
  expires :: "expiry option"
  path :: "ustr option"
  domain :: "ustr option"
  secure :: "bool option"

definition no_options :: options where
  "no_options = \<lparr>expires = None, path = None, domain = None, secure = None\<rparr>"

text \<open>\<open>$.extend({}, a, b)\<close>: the fields that \<open>b\<close> defines win.\<close>

definition over :: "'a option \<Rightarrow> 'a option \<Rightarrow> 'a option" where
  "over a b = (case b of None \<Rightarrow> a | Some x \<Rightarrow> Some x)"

definition extend :: "options \<Rightarrow> options \<Rightarrow> options" where
  "extend a b = \<lparr>expires = over (expires a) (expires b), path = over (path a) (path b),
     domain = over (domain a) (domain b), secure = over (secure a) (secure b)\<rparr>"

definition encode :: "config \<Rightarrow> ustr \<Rightarrow> ustr option" where
  "encode cfg s = (if raw cfg then Some s else encodeURIComponent s)"

definition decode :: "config \<Rightarrow> ustr \<Rightarrow> ustr option" where
  "decode cfg s = (if raw cfg then Some s else decodeURIComponent s)"

definition cookie_text :: "config \<Rightarrow> cookie_env \<Rightarrow> jsval \<Rightarrow> ustr" where
  "cookie_text cfg env value = (if json cfg then stringify env value else to_string value)"

definition stringifyCookieValue :: "config \<Rightarrow> cookie_env \<Rightarrow> jsval \<Rightarrow> ustr option" where
  "stringifyCookieValue cfg env value = encode cfg (cookie_text cfg env value)"

text \<open>
  A quoted cookie (RFC 2068) is unescaped; then pluses become blanks and the text is decoded.
  A value that cannot be decoded or parsed is \<open>undefined\<close>: the exceptions are caught.
\<close>

definition unquote :: "ustr \<Rightarrow> ustr" where
  "unquote s = (if s \<noteq> [] \<and> hd s = 34
     then replace_all 92 [92] [92] (replace_all 92 [34] [34] (butlast (tl s))) else s)"

definition parseCookieValue :: "config \<Rightarrow> cookie_env \<Rightarrow> ustr \<Rightarrow> jsval" where
  "parseCookieValue cfg env s =
     (case decodeURIComponent (replace_all 43 [] [32] (unquote s)) of
        None \<Rightarrow> Undefined
      | Some t \<Rightarrow> if json cfg then (case parse env t of None \<Rightarrow> Undefined | Some v \<Rightarrow> v) else Str t)"

definition read :: "config \<Rightarrow> cookie_env \<Rightarrow> (jsval \<Rightarrow> jsval) option \<Rightarrow> ustr \<Rightarrow> jsval" where
  "read cfg env converter s =
     (let value = (if raw cfg then Str s else parseCookieValue cfg env s)
      in case converter of None \<Rightarrow> value | Some f \<Rightarrow> f value)"

text \<open>The write branch of \<open>$.cookie(key, value, options)\<close>: the string given to the browser.\<close>

definition expires_text :: "cookie_env \<Rightarrow> options \<Rightarrow> ustr" where
  "expires_text env opts = (case expires opts of
       None \<Rightarrow> []
     | Some (Days d) \<Rightarrow> u ''; expires='' @ toUTCString env (now env + d * 86400000)
     | Some (Date t) \<Rightarrow> u ''; expires='' @ toUTCString env t)"

definition attr_text :: "string \<Rightarrow> ustr option \<Rightarrow> ustr" where
  "attr_text name v = (case v of None \<Rightarrow> [] | Some s \<Rightarrow> if s = [] then [] else u name @ s)"

definition attributes :: "cookie_env \<Rightarrow> options \<Rightarrow> ustr" where
  "attributes env opts = expires_text env opts @ attr_text ''; path='' (path opts)
     @ attr_text ''; domain='' (domain opts)
     @ (if secure opts = Some True then u ''; secure'' else [])"

definition cookie_write ::
    "config \<Rightarrow> cookie_env \<Rightarrow> options \<Rightarrow> ustr \<Rightarrow> jsval \<Rightarrow> options \<Rightarrow> ustr js_result" where
  "cookie_write cfg env defaults key value opts =
     (case encode cfg key of None \<Rightarrow> Inl URIError | Some k \<Rightarrow>
      case stringifyCookieValue cfg env value of None \<Rightarrow> Inl URIError | Some v \<Rightarrow>
        Inr (k @ [61] @ v @ attributes env (extend defaults opts)))"

text \<open>
  The read branch. The key is \<open>None\<close> for \<open>$.cookie()\<close>. The name of every cookie passed is
  decoded outside the \<open>try\<close>, so a malformed name raises.
\<close>

definition falsy_key :: "ustr option \<Rightarrow> bool" where
  "falsy_key key \<longleftrightarrow> key = None \<or> key = Some []"

fun read_loop :: "config \<Rightarrow> cookie_env \<Rightarrow> ustr option \<Rightarrow> (jsval \<Rightarrow> jsval) option \<Rightarrow>
    (ustr \<times> jsval) list \<Rightarrow> ustr list \<Rightarrow> jsval js_result" where
  "read_loop cfg env key converter result [] =
     Inr (if falsy_key key then Obj result else Undefined)"
| "read_loop cfg env key converter result (c # cs) =
     (let parts = split_on 61 [] c; cookie = join [61] (tl parts)
      in case decode cfg (hd parts) of
           None \<Rightarrow> Inl URIError
         | Some name \<Rightarrow>
             if key = Some name then Inr (read cfg env converter cookie)
             else if falsy_key key
             then (let v = read cfg env None cookie
                   in if v \<noteq> Undefined
                      then read_loop cfg env key converter (set_prop name v result) cs
                      else read_loop cfg env key converter result cs)
             else read_loop cfg env key converter result cs)"

definition cookies_of :: "ustr \<Rightarrow> ustr list" where
  "cookies_of document_cookie =
     (if document_cookie \<noteq> [] then split_on 59 [32] document_cookie else [])"

definition cookie_read :: "config \<Rightarrow> cookie_env \<Rightarrow> ustr option \<Rightarrow> (jsval \<Rightarrow> jsval) option \<Rightarrow>
    ustr \<Rightarrow> jsval js_result" where
  "cookie_read cfg env key converter document_cookie =
     read_loop cfg env key converter [] (cookies_of document_cookie)"

text \<open>
  \<open>$.removeCookie\<close>: writes an expired empty cookie, then reports whether the key is gone. The
  browser's store is any state with a setter and a getter.
\<close>

definition removeCookie ::
    "config \<Rightarrow> cookie_env \<Rightarrow> options \<Rightarrow> ('j \<Rightarrow> ustr \<Rightarrow> 'j) \<Rightarrow> ('j \<Rightarrow> ustr) \<Rightarrow>
     ustr \<Rightarrow> options \<Rightarrow> 'j \<Rightarrow> ('j \<times> bool) js_result" where
  "removeCookie cfg env defaults jar_set jar_get key opts jar =
     js_bind (cookie_write cfg env defaults key (Str []) (extend opts (no_options\<lparr>expires := Some (Days (-1))\<rparr>)))
       (\<lambda>w. let jar' = jar_set jar w
            in js_bind (cookie_read cfg env (Some key) None (jar_get jar'))
                 (\<lambda>v. Inr (jar', \<not> truthy v)))"

section \<open>Reading\<close>

text \<open>The pair part of a cookie string: what stands before the first semicolon.\<close>

definition pair_of :: "ustr \<Rightarrow> ustr" where
  "pair_of w = takeWhile (\<lambda>c. c \<noteq> 59) w"

lemma attributes_starts: "attributes env opts = [] \<or> hd (attributes env opts) = 59"
  by (auto simp: attributes_def expires_text_def attr_text_def js_simps
      split: option.splits expiry.splits)

lemma pair_of_append:
  assumes "59 \<notin> set p" and "a = [] \<or> hd a = 59"
  shows "pair_of (p @ a) = p"
proof -
  have "takeWhile (\<lambda>c. c \<noteq> 59) p = p" using assms(1) by (auto simp: takeWhile_eq_all_conv)
  with assms show ?thesis
    by (cases a) (auto simp: pair_of_def takeWhile_append2 takeWhile_eq_all_conv takeWhile_append)
qed

lemma cookies_of_join:
  assumes "ps \<noteq> []" and "\<forall>p \<in> set ps. 59 \<notin> set p" and "ps \<noteq> [[]]"
  shows "cookies_of (join [59, 32] ps) = ps"
proof -
  have "join [59, 32] ps \<noteq> []"
    using assms(1,3) by (cases "([59, 32] :: ustr, ps)" rule: join.cases) auto
  with split_on_join [of ps 59 "[32]"] assms show ?thesis by (simp add: cookies_of_def)
qed

text \<open>Cookies in front with another, decodable name are passed over.\<close>

definition passes :: "config \<Rightarrow> ustr \<Rightarrow> ustr \<Rightarrow> bool" where
  "passes cfg key p \<longleftrightarrow> (case decode cfg (hd (split_on 61 [] p)) of
      None \<Rightarrow> False | Some name \<Rightarrow> name \<noteq> key)"

lemma read_loop_skip:
  assumes "\<forall>p \<in> set before. passes cfg key p" and "key \<noteq> []"
  shows "read_loop cfg env (Some key) conv acc (before @ rest) = read_loop cfg env (Some key) conv acc rest"
  using assms
  by (induction before) (auto simp: passes_def falsy_key_def Let_def split: option.splits)

lemma unquote_component:
  assumes "\<forall>c \<in> set s. component_char c"
  shows "unquote s = s"
proof (cases s)
  case (Cons a t)
  then have "a \<noteq> 34" using assms by (metis component_char_seps(6) list.set_intros(1))
  with Cons show ?thesis by (simp add: unquote_def)
qed (simp add: unquote_def)

lemma parse_encoded:
  assumes "wf_ustr t" and "encodeURIComponent t = Some e"
  shows "parseCookieValue cfg env e =
    (if json cfg then (case parse env t of None \<Rightarrow> Undefined | Some v \<Rightarrow> v) else Str t)"
proof -
  have ok: "\<forall>c \<in> set e. component_char c" using uri.enc_okchar [OF assms] by blast
  then have "43 \<notin> set e" by (metis component_char_seps(4))
  then show ?thesis
    using ok by (simp add: parseCookieValue_def unquote_component replace_all_id decode_encode [OF assms])
qed

section \<open>Write, then read\<close>

text \<open>
  C25. Round trip of the cookie plugin. Whatever key and value were written with
  \<open>$.cookie(key, value, options)\<close> (strings that UTF-16 allows; any options; JSON mode or not),
  if the browser lists the written \<open>name=value\<close> pair among its cookies, in any place where no
  earlier cookie has that name or an undecodable one, then \<open>$.cookie(key)\<close> returns the value:
  the text itself, or what JSON parsing gives for it.
\<close>

theorem cookie_write_read:
  assumes "\<not> raw cfg" and "key \<noteq> []" and "wf_ustr key" and "wf_ustr (cookie_text cfg env value)"
    and written: "cookie_write cfg env defaults key value opts = Inr w"
    and listed: "document_cookie = join (u ''; '') (before @ pair_of w # after)"
    and pairs: "\<forall>p \<in> set (before @ after). 59 \<notin> set p"
    and earlier: "\<forall>p \<in> set before. passes cfg key p"
  shows "cookie_read cfg env (Some key) None document_cookie = Inr
    (if json cfg then (case parse env (cookie_text cfg env value) of None \<Rightarrow> Undefined | Some v \<Rightarrow> v)
     else Str (cookie_text cfg env value))"
proof -
  let ?t = "cookie_text cfg env value"
  from written assms(1) obtain k e where k: "encodeURIComponent key = Some k"
    and e: "encodeURIComponent ?t = Some e" and w: "w = (k @ 61 # e) @ attributes env (extend defaults opts)"
    by (auto simp: cookie_write_def stringifyCookieValue_def encode_def split: option.splits)
  have fresh: "59 \<notin> set k" "59 \<notin> set e"
    using uri.enc_no_sep [OF assms(3) k] uri.enc_no_sep [OF assms(4) e] by simp_all
  then have pair: "pair_of w = k @ 61 # e"
    unfolding w by (intro pair_of_append) (simp_all add: attributes_starts)
  have "cookies_of document_cookie = before @ pair_of w # after"
    unfolding listed using pairs fresh
    by (simp add: pair cookies_of_join append_eq_Cons_conv js_simps)
  moreover have "split_on 61 [] (k @ 61 # e) = [k, e]"
    using uri.split_pair [OF assms(3) k assms(4) e] by simp
  moreover have "decode cfg k = Some key"
    using assms(1) uri.dec_enc [OF assms(3) k] by (simp add: decode_def)
  ultimately show ?thesis
    using earlier assms(1,2)
    by (simp add: cookie_read_def read_loop_skip pair read_def parse_encoded [OF assms(4) e])
qed

definition plain_env :: cookie_env where
  "plain_env = \<lparr>now = 0, toUTCString = (\<lambda>t. num_str t), stringify = to_string, parse = (\<lambda>s. Some (Str s))\<rparr>"

theorem cookie_write_read_witness:
  "cookie_read \<lparr>raw = False, json = False\<rparr> plain_env (Some (u ''tok'')) None
     (u ''a=1; tok=x%20%3B%E2%82%AC'') = Inr (Str (u ''x ;'' @ [8364]))"
proof -
  have "cookie_write \<lparr>raw = False, json = False\<rparr> plain_env no_options (u ''tok'') (Str (u ''x ;'' @ [8364]))
      (no_options\<lparr>path := Some (u ''/'')\<rparr>) = Inr (u ''tok=x%20%3B%E2%82%AC; path=/'')"
    by (simp add: cookie_write_def stringifyCookieValue_def encode_def cookie_text_def uri_eval js_simps
        attributes_def expires_text_def attr_text_def extend_def over_def no_options_def)
  from cookie_write_read [OF _ _ _ _ this, of _ "[u ''a=1'']" "[]"]
  show ?thesis
    by (simp add: wf_ustr_def cookie_text_def pair_of_def passes_def decode_def split_on_def js_simps)
qed

text \<open>
  An undecodable cookie name breaks every read that passes it: if some cookie has a name
  that is not a well-formed escape sequence and no cookie before it has the requested name,
  \<open>$.cookie(key)\<close> raises \<open>URIError\<close> instead of returning, although an undecodable value is
  ignored.
\<close>

theorem cookie_malformed_name_raises:
  assumes "\<not> raw cfg" and "key \<noteq> []"
    and "cookies_of document_cookie = before @ p # after"
    and "\<forall>q \<in> set before. passes cfg key q"
    and "decodeURIComponent (hd (split_on 61 [] p)) = None"
  shows "cookie_read cfg env (Some key) None document_cookie = Inl URIError"
  using assms by (simp add: cookie_read_def read_loop_skip decode_def)

theorem cookie_malformed_name_raises_witness:
  "cookie_read \<lparr>raw = False, json = False\<rparr> plain_env (Some (u ''csrftoken'')) None
     (u ''100%=1; csrftoken=abc'') = Inl URIError"
  by (rule cookie_malformed_name_raises [of _ _ _ "[]" "u ''100%=1''" "[u ''csrftoken=abc'']"])
    (simp_all add: cookies_of_def split_on_def js_simps)

text \<open>
  \<open>$.removeCookie\<close> writes the key with an empty value and an expiry one day before the
  current time, keeping the caller's path and domain (and no others), and returns true exactly
  when the browser afterwards has no non-empty cookie under that key.
\<close>

theorem removeCookie_expires:
  assumes "\<not> raw cfg" and "\<not> json cfg"
    and "encodeURIComponent key = Some k" and "defaults = no_options"
    and w: "w = k @ u ''=; expires='' @ toUTCString env (now env - 86400000)
         @ attr_text ''; path='' (path opts) @ attr_text ''; domain='' (domain opts)
         @ (if secure opts = Some True then u ''; secure'' else [])"
    and "cookie_read cfg env (Some key) None (jar_get (jar_set jar w)) = Inr v"
  shows "removeCookie cfg env defaults jar_set jar_get key opts jar = Inr (jar_set jar w, \<not> truthy v)"
proof -
  have "attributes env (extend defaults (extend opts (no_options\<lparr>expires := Some (Days (- 1))\<rparr>)))
    = u ''; expires='' @ toUTCString env (now env - 86400000)
         @ attr_text ''; path='' (path opts) @ attr_text ''; domain='' (domain opts)
         @ (if secure opts = Some True then u ''; secure'' else [])"
    using assms(4)
    by (cases "path opts"; cases "domain opts"; cases "secure opts")
      (simp_all add: attributes_def expires_text_def extend_def over_def no_options_def attr_text_def)
  moreover have "u ''=; expires='' = 61 # u ''; expires=''" by (simp add: js_simps)
  ultimately have "cookie_write cfg env defaults key (Str [])
      (extend opts (no_options\<lparr>expires := Some (Days (- 1))\<rparr>)) = Inr w"
    using assms(1-3) w
    by (simp add: cookie_write_def stringifyCookieValue_def encode_def cookie_text_def)
  with assms(6) show ?thesis by (simp add: removeCookie_def Let_def)
qed

theorem removeCookie_expires_witness:
  "removeCookie \<lparr>raw = False, json = False\<rparr> plain_env no_options (\<lambda>_ w. w) (\<lambda>_. u ''b=2'')
     (u ''a'') no_options [] = Inr (u ''a=; expires=-86400000'', True)"
proof -
  have r: "cookie_read \<lparr>raw = False, json = False\<rparr> plain_env (Some (u ''a'')) None (u ''b=2'') = Inr Undefined"
    by (simp add: cookie_read_def cookies_of_def split_on_def decode_def falsy_key_def js_simps)
  have n: "num_str (- 86400000) = u ''-86400000''" by (simp add: num_str_def js_simps)
  from removeCookie_expires [where key = "u ''a''" and k = "u ''a''" and opts = no_options
      and defaults = no_options and env = plain_env and cfg = "\<lparr>raw = False, json = False\<rparr>"
      and jar_set = "\<lambda>_ w. w" and jar_get = "\<lambda>_. u ''b=2''" and jar = "[]", OF _ _ _ _ refl r]
  show ?thesis
    by (simp add: no_options_def attr_text_def plain_env_def n unreserved_def js_simps)
qed

end
