(* ===== verification/Tasks.thy ===== *)
theory Tasks
  imports Alerts
begin

text \<open>
  The task notifications of \<open>theme/js/pcapdb.js\<close>: the \<open>Task\<close> objects, \<open>get_task\<close>, \<open>set_tasks\<close>,
  \<open>clear_tasks\<close> and the polling loop around \<open>task_check\<close>. Task objects live in a store and are
  referred to by their index, because \<open>_TASKS_BY_ID\<close>, the page and the callbacks share them. The
  page state holds the table \<open>_TASKS_BY_ID\<close>, the children of \<open>#task-list\<close> in order, the boxes
  whose \<open>slideUp\<close> is running, the polling period, the timers and the requests in flight.
\<close>

section \<open>Tables\<close>

definition TASK_ICONS :: "(ustr \<times> ustr) list" where
  "TASK_ICONS = [(u ''PENDING'', u ''fa-circle-o-notch fa-spin''), (u ''STARTED'', u ''fa-cog fa-spin''),
     (u ''RETRY'', u ''fa-refresh''), (u ''FAILURE'', u ''fa-exclamation-triangle''),
     (u ''SUCCESS'', u ''fa-check-circle''), (u ''other'', u ''fa-cog fa-spin'')]"

text \<open>The two literals are concatenated without a blank between them, as in the source.\<close>

definition TASK_ICONS_ALL :: ustr where
  "TASK_ICONS_ALL = u ''fa-circle-o-notch fa-spin fa-cog fa-refresh fa-exclamation-triangle''
     @ u ''fa-check-circle''"

definition TASK_CLASS :: "(ustr \<times> ustr) list" where
  "TASK_CLASS = [(u ''PENDING'', u ''navbar-alert-info''), (u ''STARTED'', u ''navbar-alert-warning''),
     (u ''RETRY'', u ''navbar-alert-danger''), (u ''FAILURE'', u ''navbar-alert-danger''),
     (u ''SUCCESS'', u ''navbar-alert-success''), (u ''other'', u ''navbar-alert-warning'')]"

definition TASK_CLASS_ALL :: ustr where
  "TASK_CLASS_ALL = u ''navbar-alert-info navbar-alert-warning navbar-alert-danger ''
     @ u ''navbar-alert-success''"

section \<open>Task objects\<close>

text \<open>One entry of the server's answer. \<open>td_task\<close> is absent when the field is null or missing.\<close>

record task_meta =
  tm_result :: jsval
  tm_meta :: jsval
  tm_status :: ustr

record task_data =
  td_id :: ustr
  td_started :: jsval
  td_descr :: ustr
  td_task :: "task_meta option"
  td_status :: ustr
  td_progress :: "ustr option"

datatype msg_el = Span ustr | Anchor ustr ustr   \<comment> \<open>\<open>Anchor href text\<close>\<close>

record task =
  t_id :: "ustr option"
  t_started :: jsval
  t_descr :: ustr
  t_result :: jsval
  t_meta :: jsval
  t_status :: "ustr option"
  t_progress :: "ustr option"
  div_class :: ustr
  icon_class :: ustr
  descr_text :: ustr
  descr_title :: ustr
  msg :: "msg_el option"
  shown :: bool

definition blank_task :: task where
  "blank_task = \<lparr>t_id = None, t_started = Undefined, t_descr = [], t_result = Undefined,
     t_meta = Undefined, t_status = None, t_progress = None,
     div_class = addClass (u ''navbar-alert'') [],
     icon_class = addClass (u ''fa fa-lg fa-fw task-icon'') [],
     descr_text = [], descr_title = [], msg = None, shown = False\<rparr>"

definition or_empty :: "jsval \<Rightarrow> jsval" where
  "or_empty v = (if nullish v then Obj [] else v)"

definition class_of :: "(ustr \<times> ustr) list \<Rightarrow> ustr option \<Rightarrow> ustr" where
  "class_of table st = (case st of
       None \<Rightarrow> the (map_of table (u ''other''))
     | Some k \<Rightarrow> (case map_of table k of Some c \<Rightarrow> c | None \<Rightarrow> the (map_of table (u ''other''))))"

text \<open>
  The restyling step of \<open>update\<close>: the status that the \<open>task\<close> entry reports is compared with the
  one that was stored last. The source picks the icon from its table under the same test as the
  class; the two tables have the same keys.
\<close>

definition restyle :: "ustr option \<Rightarrow> task \<Rightarrow> task" where
  "restyle new_status t =
     (if t_status t = None \<or> t_status t \<noteq> new_status
      then t\<lparr>t_status := new_status,
             div_class := addClass (class_of TASK_CLASS new_status) (removeClass TASK_CLASS_ALL (div_class t)),
             icon_class := addClass (class_of TASK_ICONS new_status) (removeClass TASK_ICONS_ALL (icon_class t))\<rparr>
      else t)"

definition describe :: "task \<Rightarrow> ustr" where
  "describe t =
     (let descr = take 30 (t_descr t)
      in case t_progress t of
           Some p \<Rightarrow> if t_status t \<noteq> Some (u ''SUCCESS'') then u ''('' @ p @ u '') '' @ descr else descr
         | None \<Rightarrow> descr)"

definition message_of :: "jsval \<Rightarrow> jsval \<Rightarrow> msg_el option \<Rightarrow> msg_el option" where
  "message_of link m old =
     (if \<not> nullish link \<or> \<not> nullish m
      then (let text = (if nullish m then u ''Results'' else to_string m)
            in Some (if nullish link then Span text else Anchor (to_string link) text))
      else old)"

definition task_update :: "task_data \<Rightarrow> task \<Rightarrow> task" where
  "task_update data t0 =
     (let t1 = t0\<lparr>t_id := (case t_id t0 of None \<Rightarrow> Some (td_id data) | Some i \<Rightarrow> Some i),
                  t_started := td_started data, t_descr := td_descr data\<rparr>;
          t2 = (case td_task data of None \<Rightarrow> t1
                | Some m \<Rightarrow> t1\<lparr>t_result := tm_result m, t_meta := tm_meta m\<rparr>);
          new_status = map_option tm_status (td_task data);
          t3 = t2\<lparr>t_result := or_empty (t_result t2), t_meta := or_empty (t_meta t2)\<rparr>;
          link = field (t_result t3) (u ''link'');
          m = field (t_result t3) (u ''msg'');
          t4 = restyle new_status t3;
          t5 = t4\<lparr>t_status := Some (td_status data), t_progress := td_progress data\<rparr>
      in t5\<lparr>descr_text := describe t5,
            descr_title := u ''('' @ td_status data @ u '') '' @ t_descr t5,
            msg := message_of link m (msg t5)\<rparr>)"

definition new_task :: "task_data \<Rightarrow> task" where
  "new_task data = task_update data blank_task"

definition finished :: "task \<Rightarrow> bool" where
  "finished t \<longleftrightarrow> t_status t \<in> {Some (u ''SUCCESS''), Some (u ''FAILURE''), Some (u ''RETRY'')}"

section \<open>The page\<close>

definition PERIOD_MIN :: int where "PERIOD_MIN = 1000"
definition PERIOD_MAX :: int where "PERIOD_MAX = 8000"
definition PERIOD_MULT :: int where "PERIOD_MULT = 2"

record page =
  objs :: "task list"
  by_id :: "(ustr \<times> nat) list"
  boxes :: "nat list"
  sliding :: "nat list"
  period :: int
  timeout_id :: "nat option"
  timers :: "nat list"
  next_timer :: nat
  inflight :: nat
  sent :: "(ustr \<times> ustr) list"   \<comment> \<open>method and body of every request made\<close>

definition init_page :: page where
  "init_page = \<lparr>objs = [], by_id = [], boxes = [], sliding = [], period = 1000, timeout_id = None,
     timers = [], next_timer = 0, inflight = 0, sent = []\<rparr>"

definition csrf :: "ustr \<Rightarrow> ustr" where
  "csrf token = u ''csrfmiddlewaretoken='' @ token"

definition task_check :: "ustr \<Rightarrow> bool \<Rightarrow> page \<Rightarrow> page" where
  "task_check token reset_period s =
     (let s1 = (if reset_period then s\<lparr>period := PERIOD_MIN\<rparr> else s);
          s2 = (case timeout_id s1 of None \<Rightarrow> s1 | Some i \<Rightarrow> s1\<lparr>timers := removeAll i (timers s1)\<rparr>)
      in s2\<lparr>inflight := Suc (inflight s2), sent := sent s2 @ [(u ''GET'', csrf token)]\<rparr>)"

definition get_task :: "task_data \<Rightarrow> page \<Rightarrow> nat \<times> page" where
  "get_task data s =
     (case map_of (by_id s) (td_id data) of
        Some r \<Rightarrow>
          if finished (objs s ! r) then (r, s)
          else (r, s\<lparr>objs := (objs s)[r := task_update data (objs s ! r)]\<rparr>)
      | None \<Rightarrow> (length (objs s), s\<lparr>objs := objs s @ [new_task data]\<rparr>))"

definition key_of :: "task \<Rightarrow> ustr" where
  "key_of t = (case t_id t of Some i \<Rightarrow> i | None \<Rightarrow> u ''undefined'')"

text \<open>The first loop of \<open>set_tasks\<close>: \<open>_new_tasks\<close> and \<open>_new_tasks_ordered\<close>.\<close>

fun collect :: "task_data list \<Rightarrow> (ustr \<times> nat) list \<Rightarrow> nat list \<Rightarrow> page \<Rightarrow>
    (ustr \<times> nat) list \<times> nat list \<times> page" where
  "collect [] m ord s = (m, ord, s)"
| "collect (d # ds) m ord s =
     (let (r, s1) = get_task d s
      in collect ds (set_prop (key_of (objs s1 ! r)) r m) (ord @ [r]) s1)"

definition task_delete :: "nat \<Rightarrow> page \<Rightarrow> page" where
  "task_delete r s = s\<lparr>sliding := sliding s @ [r]\<rparr>"

definition delete_missing :: "(ustr \<times> nat) list \<Rightarrow> page \<Rightarrow> page" where
  "delete_missing m s =
     foldl (\<lambda>s (k, r). if map_of m k = None then task_delete r s else s) s (by_id s)"

text \<open>
  \<open>task.insert(after)\<close>: a box that is on the page is detached first; then it is appended, or put
  after the given box (\<open>insertAfter\<close> does nothing when that box is not on the page).
\<close>

definition place_after :: "nat \<Rightarrow> nat \<Rightarrow> nat list \<Rightarrow> nat list" where
  "place_after a r xs = (if a \<in> set xs
     then takeWhile (\<lambda>x. x \<noteq> a) xs @ [a, r] @ tl (dropWhile (\<lambda>x. x \<noteq> a) xs) else xs)"

definition task_insert :: "nat option \<Rightarrow> nat \<Rightarrow> page \<Rightarrow> page" where
  "task_insert after r s =
     (let first_add = (r \<notin> set (boxes s));
          s1 = (if first_add then s else s\<lparr>boxes := removeAll r (boxes s)\<rparr>);
          s2 = (case after of None \<Rightarrow> s1\<lparr>boxes := boxes s1 @ [r]\<rparr>
                | Some a \<Rightarrow> s1\<lparr>boxes := place_after a r (boxes s1)\<rparr>)
      in if first_add then s2\<lparr>objs := (objs s2)[r := (objs s2 ! r)\<lparr>shown := True\<rparr>]\<rparr> else s2)"

text \<open>The insertion loop: its variable \<open>last\<close> is null throughout.\<close>

fun insert_all :: "nat list \<Rightarrow> bool \<Rightarrow> page \<Rightarrow> bool \<times> page" where
  "insert_all [] has_running s = (has_running, s)"
| "insert_all (r # rs) has_running s =
     (let s1 = task_insert None r s
      in insert_all rs (has_running \<or> \<not> finished (objs s1 ! r)) s1)"

definition next_period :: "bool \<Rightarrow> int \<Rightarrow> int" where
  "next_period has_running p =
     (if has_running then PERIOD_MIN
      else let q = p * PERIOD_MULT in if q > PERIOD_MAX then PERIOD_MAX else q)"

definition set_tasks :: "task_data list \<Rightarrow> page \<Rightarrow> page" where
  "set_tasks tasks s =
     (let (m, ord, s1) = collect tasks [] [] s;
          s2 = (delete_missing m s1)\<lparr>by_id := m\<rparr>;
          (has_running, s3) = insert_all ord False s2;
          s4 = s3\<lparr>period := next_period has_running (period s3)\<rparr>
      in s4\<lparr>timeout_id := Some (next_timer s4), timers := timers s4 @ [next_timer s4],
            next_timer := Suc (next_timer s4)\<rparr>)"

text \<open>\<open>Task.clear\<close>, the click on a task's icon, and \<open>clear_tasks\<close>, the click on the header.\<close>

definition task_clear :: "ustr \<Rightarrow> nat \<Rightarrow> page \<Rightarrow> page" where
  "task_clear token r s =
     (let s1 = s\<lparr>sent := sent s @ [(u ''POST'', csrf token @ u ''&task='' @ key_of (objs s ! r))]\<rparr>
      in task_delete r s1)"

definition clear_tasks :: "ustr \<Rightarrow> page \<Rightarrow> page" where
  "clear_tasks token s =
     (let s1 = foldl (\<lambda>s (_, r). task_delete r s) s (by_id s)
      in s1\<lparr>sent := sent s1 @ [(u ''POST'',
            csrf token @ concat (map (\<lambda>(k, _). u ''&task='' @ k) (by_id s)))]\<rparr>)"

text \<open>The completion of a \<open>slideUp\<close> removes the box from the page.\<close>

definition slide_done :: "nat \<Rightarrow> page \<Rightarrow> page" where
  "slide_done r s = s\<lparr>boxes := removeAll r (boxes s), sliding := removeAll r (sliding s)\<rparr>"

section \<open>The event loop\<close>

datatype event = Check | Timer | Response | Failure | Click_icon | Click_clear | Slide_end

inductive page_step :: "ustr \<Rightarrow> event \<Rightarrow> page \<Rightarrow> page \<Rightarrow> bool" for token where
  check: "page_step token Check s (task_check token reset s)"
| timer: "i \<in> set (timers s) \<Longrightarrow>
    page_step token Timer s (task_check token False (s\<lparr>timers := removeAll i (timers s)\<rparr>))"
| response: "0 < inflight s \<Longrightarrow> distinct (map td_id tasks) \<Longrightarrow>
    page_step token Response s (set_tasks tasks (s\<lparr>inflight := inflight s - 1\<rparr>))"
| failure: "0 < inflight s \<Longrightarrow> page_step token Failure s (s\<lparr>inflight := inflight s - 1\<rparr>)"
| click_icon: "r \<in> set (boxes s) \<Longrightarrow> page_step token Click_icon s (task_clear token r s)"
| click_clear: "page_step token Click_clear s (clear_tasks token s)"
| slide_end: "r \<in> set (sliding s) \<Longrightarrow> page_step token Slide_end s (slide_done r s)"

text \<open>\<open>page_run token es s\<close>: the events \<open>es\<close>, the latest first, lead from the loaded page to \<open>s\<close>.\<close>

inductive page_run :: "ustr \<Rightarrow> event list \<Rightarrow> page \<Rightarrow> bool" for token where
  start: "page_run token [] init_page"
| step: "page_run token es s \<Longrightarrow> page_step token e s t \<Longrightarrow> page_run token (e # es) t"

inductive_cases page_run_NilE: "page_run token [] s"
inductive_cases page_run_ConsE: "page_run token (e # es) s"
inductive_cases page_step_FailureE: "page_step token Failure s t"
inductive_cases page_step_CheckE: "page_step token Check s t"

section \<open>Task identities\<close>

lemma t_id_restyle [simp]: "t_id (restyle st t) = t_id t"
  by (simp add: restyle_def)

lemma t_id_update [simp]:
  "t_id (task_update d t) = (case t_id t of None \<Rightarrow> Some (td_id d) | Some i \<Rightarrow> Some i)"
  by (simp add: task_update_def Let_def split: option.splits)

lemma t_id_new [simp]: "t_id (new_task d) = Some (td_id d)"
  by (simp add: new_task_def blank_task_def)

lemma t_status_update [simp]: "t_status (task_update d t) = Some (td_status d)"
  by (simp add: task_update_def Let_def)

text \<open>Every entry of a task table names an object that carries its key.\<close>

definition keyed :: "task list \<Rightarrow> (ustr \<times> nat) list \<Rightarrow> bool" where
  "keyed os m \<longleftrightarrow> (\<forall>(k, r) \<in> set m. r < length os \<and> t_id (os ! r) = Some k)"

text \<open>\<open>os'\<close> extends \<open>os\<close>: no object lost, no identity changed.\<close>

definition extends :: "task list \<Rightarrow> task list \<Rightarrow> bool" where
  "extends os os' \<longleftrightarrow> length os \<le> length os' \<and> (\<forall>r < length os. t_id (os ! r) \<noteq> None \<longrightarrow> t_id (os' ! r) = t_id (os ! r))"

lemma extends_refl [simp]: "extends os os" by (simp add: extends_def)

lemma extends_trans: "extends a b \<Longrightarrow> extends b c \<Longrightarrow> extends a c"
  unfolding extends_def by (metis order_less_le_trans le_trans)

lemma keyed_extends: "keyed os m \<Longrightarrow> extends os os' \<Longrightarrow> keyed os' m"
  unfolding keyed_def extends_def by fastforce

lemma keyed_refs_distinct: "keyed os m \<Longrightarrow> distinct (map fst m) \<Longrightarrow> distinct (map snd m)"
proof (induction m)
  case (Cons p m)
  obtain k r where p: "p = (k, r)" by force
  have "r \<notin> snd ` set m"
  proof
    assume "r \<in> snd ` set m"
    then obtain k' where "(k', r) \<in> set m" by force
    with Cons.prems(1) p have "k' = k" by (fastforce simp: keyed_def)
    with \<open>(k', r) \<in> set m\<close> Cons.prems(2) p show False by force
  qed
  with Cons p show ?case by (simp add: keyed_def)
qed simp

text \<open>\<open>get_task\<close> touches nothing but the store, and there only the object it returns.\<close>

lemma get_task_spec:
  assumes "keyed (objs s) (by_id s)" and g: "get_task d s = (r, s1)"
  shows "s1 = s\<lparr>objs := objs s1\<rparr>" and "extends (objs s) (objs s1)"
    and "r < length (objs s1)" and "t_id (objs s1 ! r) = Some (td_id d)"
    and "\<And>q. q < length (objs s) \<Longrightarrow> q \<noteq> r \<Longrightarrow> objs s1 ! q = objs s ! q"
    and "map_of (by_id s) (td_id d) = Some q \<Longrightarrow> r = q"
proof -
  have known: "q < length (objs s) \<and> t_id (objs s ! q) = Some (td_id d)"
    if "map_of (by_id s) (td_id d) = Some q" for q
    using assms(1) map_of_SomeD [OF that] by (auto simp: keyed_def)
  consider (new) "map_of (by_id s) (td_id d) = None" "r = length (objs s)"
        "s1 = s\<lparr>objs := objs s @ [new_task d]\<rparr>"
    | (same) "map_of (by_id s) (td_id d) = Some r" "s1 = s"
    | (upd) "map_of (by_id s) (td_id d) = Some r"
        "s1 = s\<lparr>objs := (objs s)[r := task_update d (objs s ! r)]\<rparr>"
    using g by (auto simp: get_task_def split: option.splits if_splits)
  note cases = this
  from cases show "s1 = s\<lparr>objs := objs s1\<rparr>" by cases simp_all
  from cases show "extends (objs s) (objs s1)"
    by cases (auto simp: extends_def nth_append nth_list_update dest: known)
  from cases show "r < length (objs s1)" by cases (auto dest: known)
  from cases show "t_id (objs s1 ! r) = Some (td_id d)" by cases (auto dest: known)
  show "\<And>q. q < length (objs s) \<Longrightarrow> q \<noteq> r \<Longrightarrow> objs s1 ! q = objs s ! q"
    using cases by cases (auto simp: nth_append)
  show "map_of (by_id s) (td_id d) = Some q \<Longrightarrow> r = q" using cases by cases auto
qed

section \<open>What set_tasks does to the page\<close>

lemma collect_spec:
  assumes "collect ds m ord s = (m', ord', s')"
    and "keyed (objs s) (by_id s)" and "keyed (objs s) m" and "ord = map snd m"
    and "distinct (map fst m @ map td_id ds)"
  shows "map fst m' = map fst m @ map td_id ds \<and> ord' = map snd m' \<and> keyed (objs s') m' \<and>
    s' = s\<lparr>objs := objs s'\<rparr> \<and> extends (objs s) (objs s') \<and>
    (\<forall>d \<in> set ds. \<forall>q. map_of (by_id s) (td_id d) = Some q \<longrightarrow> (td_id d, q) \<in> set m') \<and> set m \<subseteq> set m'"
  using assms
proof (induction ds arbitrary: m ord s)
  case Nil
  then show ?case by auto
next
  case (Cons d ds)
  obtain r s1 where g: "get_task d s = (r, s1)" by force
  note spec = get_task_spec [OF Cons.prems(2) g]
  have key: "key_of (objs s1 ! r) = td_id d" using spec(4) by (simp add: key_of_def)
  let ?m = "m @ [(td_id d, r)]"
  have "td_id d \<notin> fst ` set m" using Cons.prems(5) by auto
  with Cons.prems(1,4) g key have c: "collect ds ?m (map snd ?m) s1 = (m', ord', s')"
    by (simp add: set_prop_new)
  have by1: "by_id s1 = by_id s" by (subst spec(1)) simp
  have k1: "keyed (objs s1) (by_id s1)"
    using keyed_extends [OF Cons.prems(2) spec(2)] by (simp add: by1)
  have k2: "keyed (objs s1) ?m"
    using keyed_extends [OF Cons.prems(3) spec(2)] spec(3,4) by (auto simp: keyed_def)
  have IH: "map fst m' = map fst ?m @ map td_id ds \<and> ord' = map snd m' \<and> keyed (objs s') m' \<and>
    s' = s1\<lparr>objs := objs s'\<rparr> \<and> extends (objs s1) (objs s') \<and>
    (\<forall>d \<in> set ds. \<forall>q. map_of (by_id s1) (td_id d) = Some q \<longrightarrow> (td_id d, q) \<in> set m') \<and> set ?m \<subseteq> set m'"
    using Cons.prems(5) by (intro Cons.IH [OF c k1 k2 refl]) auto
  have "s1\<lparr>objs := objs s'\<rparr> = s\<lparr>objs := objs s'\<rparr>" by (subst spec(1)) simp
  with IH spec(2,6) show ?case
    by (auto simp: by1 intro: extends_trans)
qed

lemma delete_missing_spec:
  "foldl (\<lambda>s (k, r). if map_of m k = None then task_delete r s else s) s ps
    = s\<lparr>sliding := sliding s @ map snd (filter (\<lambda>(k, r). map_of m k = None) ps)\<rparr>"
  by (induction ps arbitrary: s) (auto simp: task_delete_def)

lemma task_insert_None:
  "task_insert None r s = s\<lparr>boxes := removeAll r (boxes s) @ [r],
     objs := (if r \<in> set (boxes s) then objs s else (objs s)[r := (objs s ! r)\<lparr>shown := True\<rparr>])\<rparr>"
  by (auto simp: task_insert_def Let_def)

text \<open>Objects up to the flag that says their box has been faded in.\<close>

definition same_but_shown :: "task \<Rightarrow> task \<Rightarrow> bool" where
  "same_but_shown t t' \<longleftrightarrow> t\<lparr>shown := True\<rparr> = t'\<lparr>shown := True\<rparr>"

lemma same_but_shown_refl [simp]: "same_but_shown t t" "same_but_shown t (t\<lparr>shown := b\<rparr>)"
  by (simp_all add: same_but_shown_def)

lemma same_but_shown_fields:
  assumes "same_but_shown t t'"
  shows "t_id t = t_id t'" "t_status t = t_status t'" "finished t = finished t'"
    "div_class t = div_class t'" "icon_class t = icon_class t'" "descr_text t = descr_text t'"
    "msg t = msg t'" "descr_title t = descr_title t'"
  using assms by (cases t; cases t'; simp add: same_but_shown_def finished_def)+

lemma same_but_shown_update:
  "list_all2 same_but_shown os (os[r := (os ! r)\<lparr>shown := True\<rparr>])"
proof (unfold list_all2_conv_all_nth, intro conjI allI impI)
  fix i
  assume "i < length os"
  then show "same_but_shown (os ! i) (os[r := (os ! r)\<lparr>shown := True\<rparr>] ! i)"
    by (cases "i = r") simp_all
qed simp

lemma insert_all_spec:
  assumes "insert_all rs b s = (b', s')" and "distinct rs"
  shows "boxes s' = filter (\<lambda>r. r \<notin> set rs) (boxes s) @ rs \<and>
    b' = (b \<or> (\<exists>r \<in> set rs. \<not> finished (objs s ! r))) \<and>
    s' = s\<lparr>boxes := boxes s', objs := objs s'\<rparr> \<and>
    list_all2 same_but_shown (objs s) (objs s')"
  using assms
proof (induction rs arbitrary: b s)
  case Nil
  then show ?case by (simp add: list.rel_refl)
next
  case (Cons r rs)
  let ?s = "task_insert None r s"
  have o: "list_all2 same_but_shown (objs s) (objs ?s)"
    using same_but_shown_update [of "objs s" r] by (simp add: task_insert_None list.rel_refl)
  then have f: "finished (objs ?s ! q) = finished (objs s ! q)" for q
  proof (cases "q < length (objs s)")
    case True
    with o show ?thesis
      using same_but_shown_fields(3) by (metis list_all2_nthD)
  next
    case False
    then show ?thesis
      by (cases "q = r") (simp_all add: task_insert_None list_update_beyond)
  qed
  from Cons.prems have "insert_all rs (b \<or> \<not> finished (objs ?s ! r)) ?s = (b', s')" "distinct rs"
    by (simp_all add: Let_def)
  from Cons.IH [OF this] have IH:
    "boxes s' = filter (\<lambda>q. q \<notin> set rs) (boxes ?s) @ rs"
    "b' = (b \<or> \<not> finished (objs s ! r) \<or> (\<exists>q \<in> set rs. \<not> finished (objs s ! q)))"
    "s' = ?s\<lparr>boxes := boxes s', objs := objs s'\<rparr>"
    "list_all2 same_but_shown (objs ?s) (objs s')"
    by (auto simp: f)
  have "list_all2 same_but_shown (objs s) (objs s')"
    by (rule list_all2_trans [OF _ o IH(4)]) (simp add: same_but_shown_def)
  moreover have "filter (\<lambda>q. q \<notin> set rs) (removeAll r (boxes s) @ [r]) @ rs
      = filter (\<lambda>q. q \<notin> set (r # rs)) (boxes s) @ r # rs"
    using Cons.prems(2) by (simp add: removeAll_filter_not_eq conj_commute) (metis)
  moreover have "?s\<lparr>boxes := boxes s', objs := objs s'\<rparr> = s\<lparr>boxes := boxes s', objs := objs s'\<rparr>"
    by (simp add: task_insert_None)
  ultimately show ?case using IH by (auto simp: task_insert_None)
qed

text \<open>The table after an answer, and what happened to the objects and the boxes.\<close>

definition removed_refs :: "task_data list \<Rightarrow> page \<Rightarrow> nat list" where
  "removed_refs tasks s = map snd (filter (\<lambda>(k, _). k \<notin> td_id ` set tasks) (by_id s))"

lemma set_tasks_spec:
  assumes "keyed (objs s) (by_id s)" and "distinct (map td_id tasks)"
  obtains m os where
    "set_tasks tasks s = s\<lparr>objs := os, by_id := m,
        boxes := filter (\<lambda>r. r \<notin> set (map snd m)) (boxes s) @ map snd m,
        sliding := sliding s @ removed_refs tasks s,
        period := next_period (\<exists>r \<in> set (map snd m). \<not> finished (os ! r)) (period s),
        timeout_id := Some (next_timer s), timers := timers s @ [next_timer s],
        next_timer := Suc (next_timer s)\<rparr>"
    and "map fst m = map td_id tasks" and "keyed os m" and "extends (objs s) os"
    and "\<forall>d \<in> set tasks. \<forall>q. map_of (by_id s) (td_id d) = Some q \<longrightarrow> (td_id d, q) \<in> set m"
    and "\<exists>s1. collect tasks [] [] s = (m, map snd m, s1) \<and> list_all2 same_but_shown (objs s1) os"
proof -
  obtain m ord s1 where c: "collect tasks [] [] s = (m, ord, s1)" by (metis prod_cases3)
  have "map fst m = map td_id tasks \<and> ord = map snd m \<and> keyed (objs s1) m \<and>
    s1 = s\<lparr>objs := objs s1\<rparr> \<and> extends (objs s) (objs s1) \<and>
    (\<forall>d \<in> set tasks. \<forall>q. map_of (by_id s) (td_id d) = Some q \<longrightarrow> (td_id d, q) \<in> set m)"
    using collect_spec [OF c assms(1)] assms(2) by (simp add: keyed_def)
  then have m: "map fst m = map td_id tasks" "ord = map snd m" "keyed (objs s1) m"
    "s1 = s\<lparr>objs := objs s1\<rparr>" "extends (objs s) (objs s1)"
    "\<forall>d \<in> set tasks. \<forall>q. map_of (by_id s) (td_id d) = Some q \<longrightarrow> (td_id d, q) \<in> set m"
    by blast+
  have "map_of m k = None \<longleftrightarrow> k \<notin> td_id ` set tasks" for k
    using arg_cong [OF m(1), of set] by (simp add: map_of_eq_None_iff)
  then have "filter (\<lambda>(k, _). map_of m k = None) (by_id s1)
      = filter (\<lambda>(k, _). k \<notin> td_id ` set tasks) (by_id s1)" by simp
  then have del: "(delete_missing m s1)\<lparr>by_id := m\<rparr>
      = s1\<lparr>sliding := sliding s1 @ removed_refs tasks s1, by_id := m\<rparr>"
    unfolding delete_missing_def delete_missing_spec removed_refs_def by simp
  let ?s2 = "s1\<lparr>sliding := sliding s1 @ removed_refs tasks s1, by_id := m\<rparr>"
  obtain b s3 where i: "insert_all ord False ?s2 = (b, s3)" by force
  have "distinct ord" using keyed_refs_distinct [OF m(3)] m(1,2) assms(2) by simp
  note sp = insert_all_spec [OF i this]
  have s3: "boxes s3 = filter (\<lambda>r. r \<notin> set ord) (boxes s1) @ ord"
    "b = (\<exists>r \<in> set ord. \<not> finished (objs s1 ! r))"
    "list_all2 same_but_shown (objs s1) (objs s3)"
    using sp by simp_all
  have s3_eq: "s3 = ?s2\<lparr>boxes := boxes s3, objs := objs s3\<rparr>"
    by (rule conjunct1 [OF conjunct2 [OF conjunct2 [OF sp]]])
  have fin: "finished (objs s3 ! r) = finished (objs s1 ! r)" if "r \<in> set ord" for r
  proof -
    from that m(2,3) have "r < length (objs s1)" by (auto simp: keyed_def)
    with s3(3) show ?thesis using same_but_shown_fields(3) by (metis list_all2_nthD)
  qed
  have ext: "extends (objs s1) (objs s3)"
    using s3(3) same_but_shown_fields(1) unfolding extends_def list_all2_conv_all_nth by auto
  have fields: "boxes s1 = boxes s" "sliding s1 = sliding s" "removed_refs tasks s1 = removed_refs tasks s"
    "period s1 = period s" "next_timer s1 = next_timer s" "timers s1 = timers s"
    by (subst m(4); simp add: removed_refs_def)+
  have "set_tasks tasks s = s3\<lparr>period := next_period b (period s3), timeout_id := Some (next_timer s3),
      timers := timers s3 @ [next_timer s3], next_timer := Suc (next_timer s3)\<rparr>"
    by (simp add: set_tasks_def c del i Let_def)
  also have "\<dots> = s\<lparr>objs := objs s3, by_id := m,
        boxes := filter (\<lambda>r. r \<notin> set (map snd m)) (boxes s) @ map snd m,
        sliding := sliding s @ removed_refs tasks s,
        period := next_period (\<exists>r \<in> set (map snd m). \<not> finished (objs s3 ! r)) (period s),
        timeout_id := Some (next_timer s), timers := timers s @ [next_timer s],
        next_timer := Suc (next_timer s)\<rparr>"
  proof -
    obtain os1 where s1: "s1 = s\<lparr>objs := os1\<rparr>" using m(4) by blast
    obtain bx os3 where s3': "s3 = ?s2\<lparr>boxes := bx, objs := os3\<rparr>" using s3_eq by blast
    have "(\<exists>r \<in> set ord. \<not> finished (objs s1 ! r)) = (\<exists>r \<in> set (map snd m). \<not> finished (objs s3 ! r))"
      using fin m(2) by auto
    then have b: "b = (\<exists>r \<in> set (map snd m). \<not> finished (os3 ! r))" using s3(2) s3' by simp
    have "bx = filter (\<lambda>r. r \<notin> set (map snd m)) (boxes s) @ map snd m"
      using s3(1) fields(1) m(2) s3' by simp
    with b show ?thesis unfolding s3' using fields by (simp add: s1)
  qed
  finally have eq: "set_tasks tasks s = \<dots>" .
  have "\<exists>s1. collect tasks [] [] s = (m, map snd m, s1) \<and> list_all2 same_but_shown (objs s1) (objs s3)"
    using c s3(3) m(2) by blast
  then show thesis
    by (intro that [OF eq m(1) keyed_extends [OF m(3) ext] extends_trans [OF m(5) ext] m(6)])
qed

text \<open>What one entry of the answer does to the object of its task.\<close>

definition after :: "task_data \<Rightarrow> page \<Rightarrow> task" where
  "after d s = (case map_of (by_id s) (td_id d) of
       None \<Rightarrow> new_task d
     | Some r \<Rightarrow> if finished (objs s ! r) then objs s ! r else task_update d (objs s ! r))"

lemma get_task_after: "get_task d s = (r, s1) \<Longrightarrow> keyed (objs s) (by_id s) \<Longrightarrow> objs s1 ! r = after d s"
  by (auto simp: get_task_def after_def keyed_def dest!: map_of_SomeD split: option.splits if_splits)

lemma collect_objs:
  assumes "collect ds m ord s = (m', ord', s')"
    and "keyed (objs s) (by_id s)" and "keyed (objs s) m" and "ord = map snd m"
    and "distinct (map fst m @ map td_id ds)"
  shows "(\<forall>d \<in> set ds. \<exists>q. (td_id d, q) \<in> set m' \<and> objs s' ! q = after d s) \<and>
    (\<forall>k r. t_id (objs s ! r) = Some k \<longrightarrow> r < length (objs s) \<longrightarrow> k \<notin> td_id ` set ds \<longrightarrow>
        objs s' ! r = objs s ! r)"
  using assms
proof (induction ds arbitrary: m ord s)
  case Nil
  then show ?case by auto
next
  case (Cons d ds)
  obtain r s1 where g: "get_task d s = (r, s1)" by force
  note spec = get_task_spec [OF Cons.prems(2) g]
  have key: "key_of (objs s1 ! r) = td_id d" using spec(4) by (simp add: key_of_def)
  let ?m = "m @ [(td_id d, r)]"
  have "td_id d \<notin> fst ` set m" using Cons.prems(5) by auto
  with Cons.prems(1,4) g key have c: "collect ds ?m (map snd ?m) s1 = (m', ord', s')"
    by (simp add: set_prop_new)
  have by1: "by_id s1 = by_id s" by (subst spec(1)) simp
  have k1: "keyed (objs s1) (by_id s1)"
    using keyed_extends [OF Cons.prems(2) spec(2)] by (simp add: by1)
  have k2: "keyed (objs s1) ?m"
    using keyed_extends [OF Cons.prems(3) spec(2)] spec(3,4) by (auto simp: keyed_def)
  have dist: "distinct (map fst ?m @ map td_id ds)" using Cons.prems(5) by auto
  note IH = Cons.IH [OF c k1 k2 refl dist]
  have sub: "set ?m \<subseteq> set m'" using collect_spec [OF c k1 k2 refl dist] by blast
  have old: "objs s1 ! q = objs s ! q" if "t_id (objs s ! q) = Some k" "q < length (objs s)" "k \<noteq> td_id d" for q k
  proof -
    have "q \<noteq> r" using that spec(2,4) by (auto simp: extends_def)
    with that spec(5) show ?thesis by simp
  qed
  have same: "after e s1 = after e s" if "e \<in> set ds" for e
  proof -
    have ne: "td_id e \<noteq> td_id d" using that Cons.prems(5) by (metis distinct.simps(2) distinct_append image_eqI list.set_map list.simps(9))
    have "objs s1 ! q = objs s ! q" if "map_of (by_id s) (td_id e) = Some q" for q
      using old [of q "td_id e"] ne Cons.prems(2) map_of_SomeD [OF that] by (auto simp: keyed_def)
    then show ?thesis by (auto simp: after_def by1 split: option.splits)
  qed
  have "objs s' ! r = objs s1 ! r"
    using IH spec(3,4) Cons.prems(5) by auto
  then have "(td_id d, r) \<in> set m' \<and> objs s' ! r = after d s"
    using sub get_task_after [OF g Cons.prems(2)] by auto
  moreover have "\<forall>k q. t_id (objs s ! q) = Some k \<longrightarrow> q < length (objs s) \<longrightarrow> k \<notin> td_id ` set (d # ds) \<longrightarrow>
        objs s' ! q = objs s ! q"
    using IH old spec(2) unfolding extends_def by (metis (no_types, lifting) image_insert insert_iff list.simps(15) order_less_le_trans)
  ultimately show ?case using IH same by auto
qed

section \<open>Well-formed pages\<close>

definition period_ok :: "int \<Rightarrow> bool" where
  "period_ok p \<longleftrightarrow> p \<in> {1000, 2000, 4000, 8000}"

definition page_wf :: "page \<Rightarrow> bool" where
  "page_wf s \<longleftrightarrow> keyed (objs s) (by_id s) \<and> distinct (map fst (by_id s)) \<and> distinct (boxes s)
     \<and> set (boxes s) \<subseteq> snd ` set (by_id s) \<union> set (sliding s)
     \<and> period_ok (period s)
     \<and> distinct (timers s) \<and> (\<forall>i \<in> set (timers s). i < next_timer s)"

lemma page_wf_init: "page_wf init_page"
  by (simp add: page_wf_def init_page_def keyed_def period_ok_def)

lemma page_wf_check: "page_wf s \<Longrightarrow> page_wf (task_check token b s)"
  by (auto simp: page_wf_def task_check_def Let_def PERIOD_MIN_def period_ok_def split: option.splits)

lemma page_wf_timer: "page_wf s \<Longrightarrow> page_wf (s\<lparr>timers := removeAll i (timers s)\<rparr>)"
  by (auto simp: page_wf_def)

lemma page_wf_inflight: "page_wf s \<Longrightarrow> page_wf (s\<lparr>inflight := n\<rparr>)"
  by (simp add: page_wf_def)

lemma page_wf_clear: "page_wf s \<Longrightarrow> page_wf (task_clear token r s)"
  by (auto simp: page_wf_def task_clear_def task_delete_def Let_def)

lemma delete_all_spec:
  "foldl (\<lambda>s (_, r). task_delete r s) s ps = s\<lparr>sliding := sliding s @ map snd ps\<rparr>"
  by (induction ps arbitrary: s) (auto simp: task_delete_def)

lemma page_wf_clear_all: "page_wf s \<Longrightarrow> page_wf (clear_tasks token s)"
  by (auto simp: page_wf_def clear_tasks_def delete_all_spec Let_def)

lemma page_wf_slide: "page_wf s \<Longrightarrow> page_wf (slide_done r s)"
  by (auto simp: page_wf_def slide_done_def)

lemma next_period_range: "period_ok p \<Longrightarrow> period_ok (next_period b p)"
  by (auto simp: period_ok_def next_period_def PERIOD_MIN_def PERIOD_MAX_def PERIOD_MULT_def)

lemma page_wf_set_tasks:
  assumes "page_wf s" and "distinct (map td_id tasks)"
  shows "page_wf (set_tasks tasks s)"
proof -
  have k: "keyed (objs s) (by_id s)" and d: "distinct (map fst (by_id s))"
    using assms(1) by (simp_all add: page_wf_def)
  obtain m os where st:
    "set_tasks tasks s = s\<lparr>objs := os, by_id := m,
        boxes := filter (\<lambda>r. r \<notin> set (map snd m)) (boxes s) @ map snd m,
        sliding := sliding s @ removed_refs tasks s,
        period := next_period (\<exists>r \<in> set (map snd m). \<not> finished (os ! r)) (period s),
        timeout_id := Some (next_timer s), timers := timers s @ [next_timer s],
        next_timer := Suc (next_timer s)\<rparr>"
    and m: "map fst m = map td_id tasks" "keyed os m" and "extends (objs s) os"
    and old: "\<forall>d \<in> set tasks. \<forall>q. map_of (by_id s) (td_id d) = Some q \<longrightarrow> (td_id d, q) \<in> set m"
    and "\<exists>s1. collect tasks [] [] s = (m, map snd m, s1) \<and> list_all2 same_but_shown (objs s1) os"
    by (rule set_tasks_spec [OF k assms(2)])
  have dm: "distinct (map snd m)" using keyed_refs_distinct [OF m(2)] m(1) assms(2) by simp
  have rem: "r \<in> set (removed_refs tasks s)"
    if r: "r \<in> snd ` set (by_id s)" "r \<notin> snd ` set m" for r
  proof -
    from r obtain k where kr: "(k, r) \<in> set (by_id s)" by force
    with d have "map_of (by_id s) k = Some r" by simp
    with old r(2) have "k \<notin> td_id ` set tasks" by force
    with kr show ?thesis by (force simp: removed_refs_def)
  qed
  have known: "x \<in> snd ` set (by_id s) \<or> x \<in> set (sliding s)" if "x \<in> set (boxes s)" for x
    using assms(1) that by (auto simp: page_wf_def)
  have "set (filter (\<lambda>r. r \<notin> snd ` set m) (boxes s)) \<subseteq> set (sliding s) \<union> set (removed_refs tasks s)"
  proof
    fix x
    assume "x \<in> set (filter (\<lambda>r. r \<notin> snd ` set m) (boxes s))"
    then show "x \<in> set (sliding s) \<union> set (removed_refs tasks s)"
      using rem [of x] known [of x] by simp blast
  qed
  moreover have "period_ok (next_period b (period s))" for b
    using assms(1) by (simp add: next_period_range page_wf_def)
  ultimately show ?thesis
    using assms m dm unfolding st page_wf_def by auto
qed

lemma page_wf_step: "page_step token e s t \<Longrightarrow> page_wf s \<Longrightarrow> page_wf t"
  by (induction rule: page_step.induct)
    (simp_all add: page_wf_check page_wf_timer page_wf_set_tasks page_wf_inflight page_wf_clear
      page_wf_clear_all page_wf_slide)

lemma page_run_wf: "page_run token es s \<Longrightarrow> page_wf s"
  by (induction rule: page_run.induct) (auto simp: page_wf_init intro: page_wf_step)

section \<open>The properties of the task list\<close>

lemma set_tasks_after:
  assumes "page_wf s" and "distinct (map td_id tasks)"
  shows "\<forall>d \<in> set tasks. \<exists>r. (td_id d, r) \<in> set (by_id (set_tasks tasks s)) \<and>
    same_but_shown (after d s) (objs (set_tasks tasks s) ! r)"
proof -
  have k: "keyed (objs s) (by_id s)" using assms(1) by (simp add: page_wf_def)
  then show ?thesis
  proof (rule set_tasks_spec [OF _ assms(2)])
    fix m os
    assume st: "set_tasks tasks s = s\<lparr>objs := os, by_id := m,
        boxes := filter (\<lambda>r. r \<notin> set (map snd m)) (boxes s) @ map snd m,
        sliding := sliding s @ removed_refs tasks s,
        period := next_period (\<exists>r \<in> set (map snd m). \<not> finished (os ! r)) (period s),
        timeout_id := Some (next_timer s), timers := timers s @ [next_timer s],
        next_timer := Suc (next_timer s)\<rparr>"
      and kos: "keyed os m"
      and "\<exists>s1. collect tasks [] [] s = (m, map snd m, s1) \<and> list_all2 same_but_shown (objs s1) os"
    then obtain s1 where c: "collect tasks [] [] s = (m, map snd m, s1)"
      and o: "list_all2 same_but_shown (objs s1) os" by blast
    have "\<forall>d \<in> set tasks. \<exists>q. (td_id d, q) \<in> set m \<and> objs s1 ! q = after d s"
      using collect_objs [OF c k] assms(2) by (simp add: keyed_def)
    moreover have "same_but_shown (objs s1 ! q) (os ! q)" if "(k, q) \<in> set m" for k q
      using that kos o by (auto simp: keyed_def dest: list_all2_lengthD intro: list_all2_nthD2)
    ultimately show ?thesis by (simp add: st) metis
  qed
qed

lemma set_tasks_lists:
  assumes "page_wf s" and "distinct (map td_id tasks)"
  shows "map fst (by_id (set_tasks tasks s)) = map td_id tasks"
    and "boxes (set_tasks tasks s) = filter (\<lambda>r. r \<notin> snd ` set (by_id (set_tasks tasks s))) (boxes s)
       @ map snd (by_id (set_tasks tasks s))"
    and "sliding (set_tasks tasks s) = sliding s @ removed_refs tasks s"
    and "timers (set_tasks tasks s) = timers s @ [next_timer s]"
    and "timeout_id (set_tasks tasks s) = Some (next_timer s)"
proof -
  have k: "keyed (objs s) (by_id s)" using assms(1) by (simp add: page_wf_def)
  have "map fst (by_id (set_tasks tasks s)) = map td_id tasks \<and>
    boxes (set_tasks tasks s) = filter (\<lambda>r. r \<notin> snd ` set (by_id (set_tasks tasks s))) (boxes s)
       @ map snd (by_id (set_tasks tasks s)) \<and>
    sliding (set_tasks tasks s) = sliding s @ removed_refs tasks s \<and>
    timers (set_tasks tasks s) = timers s @ [next_timer s] \<and>
    timeout_id (set_tasks tasks s) = Some (next_timer s)"
    by (rule set_tasks_spec [OF k assms(2)]) simp
  then show "map fst (by_id (set_tasks tasks s)) = map td_id tasks"
    and "boxes (set_tasks tasks s) = filter (\<lambda>r. r \<notin> snd ` set (by_id (set_tasks tasks s))) (boxes s)
       @ map snd (by_id (set_tasks tasks s))"
    and "sliding (set_tasks tasks s) = sliding s @ removed_refs tasks s"
    and "timers (set_tasks tasks s) = timers s @ [next_timer s]"
    and "timeout_id (set_tasks tasks s) = Some (next_timer s)"
    by blast+
qed

text \<open>
  C2. An answer of the server determines the task list. After \<open>set_tasks\<close>, the table holds
  exactly the tasks of the answer, in its order; the boxes of these tasks stand at the end of
  \<open>#task-list\<close> in that order, behind boxes that were there before; every task that the answer no
  longer lists starts to slide away, and no other; each listed task shows what its entry
  says, except that a task already shown as finished keeps its last look; and the next poll is
  scheduled.
\<close>

theorem set_tasks_page:
  assumes "page_wf s" and "distinct (map td_id tasks)" and "s' = set_tasks tasks s"
  shows "map fst (by_id s') = map td_id tasks \<and>
    boxes s' = filter (\<lambda>r. r \<notin> snd ` set (by_id s')) (boxes s) @ map snd (by_id s') \<and>
    sliding s' = sliding s @ removed_refs tasks s \<and>
    (\<forall>d \<in> set tasks. \<exists>r. (td_id d, r) \<in> set (by_id s') \<and> same_but_shown (after d s) (objs s' ! r)) \<and>
    timers s' = timers s @ [next_timer s] \<and> timeout_id s' = Some (next_timer s)"
  using set_tasks_lists [OF assms(1,2)] set_tasks_after [OF assms(1,2)] assms(3) by blast

definition sample_data :: "string \<Rightarrow> string \<Rightarrow> task_data" where
  "sample_data i st = \<lparr>td_id = u i, td_started = Null, td_descr = u ''Search'',
     td_task = Some \<lparr>tm_result = Null, tm_meta = Null, tm_status = u st\<rparr>,
     td_status = u st, td_progress = None\<rparr>"

theorem set_tasks_page_witness:
  "map fst (by_id (set_tasks [sample_data ''a'' ''STARTED'', sample_data ''b'' ''SUCCESS''] init_page))
     = [u ''a'', u ''b'']"
  using set_tasks_page [OF page_wf_init _ refl, of "[sample_data ''a'' ''STARTED'', sample_data ''b'' ''SUCCESS'']"]
  by (simp add: sample_data_def)

text \<open>
  C1. In every state the page can get into, whatever the user clicks and however answers,
  failures, timers and animations interleave: the task table has no two entries for one task
  and every entry is the object of its task, no box appears twice, every box on the page
  belongs to the table or is sliding away (no orphans), the timers are distinct, and the polling
  period is 1, 2, 4 or 8 seconds.
\<close>

theorem page_run_invariant:
  "page_run token es s \<Longrightarrow>
     distinct (map fst (by_id s)) \<and> (\<forall>(k, r) \<in> set (by_id s). t_id (objs s ! r) = Some k) \<and>
     distinct (boxes s) \<and> set (boxes s) \<subseteq> snd ` set (by_id s) \<union> set (sliding s) \<and>
     distinct (timers s) \<and> period s \<in> {1000, 2000, 4000, 8000}"
  using page_run_wf [of token es s] by (auto simp: page_wf_def keyed_def period_ok_def)

lemma sample_run:
  "page_run (u ''t'') [Response, Check]
     (set_tasks [] ((task_check (u ''t'') False init_page)\<lparr>inflight := 0\<rparr>))"
proof -
  have c: "page_run (u ''t'') [Check] (task_check (u ''t'') False init_page)"
    by (rule page_run.step [OF page_run.start page_step.check])
  have "page_step (u ''t'') Response (task_check (u ''t'') False init_page)
      (set_tasks [] ((task_check (u ''t'') False init_page)\<lparr>inflight := inflight (task_check (u ''t'') False init_page) - 1\<rparr>))"
    by (rule page_step.response) (simp_all add: task_check_def init_page_def)
  from page_run.step [OF c this] show ?thesis
    by (simp add: task_check_def init_page_def)
qed

theorem page_run_invariant_witness:
  "period (set_tasks [] ((task_check (u ''t'') False init_page)\<lparr>inflight := 0\<rparr>)) \<in> {1000, 2000, 4000, 8000}"
  using page_run_invariant [OF sample_run] by blast

end
