(* ===== verification/Polling.thy ===== *)
theory Polling
  imports Tasks
begin

text \<open>
  The polling loop of the task list seen as a resource: a pending timer or a request in flight
  is a poller, something that will lead to another poll without the user's help. The theory
  bounds the pollers, shows that they survive as long as no request fails, and that one failed
  request can end the polling for good.
\<close>

definition pollers :: "page \<Rightarrow> nat" where
  "pollers s = length (timers s) + inflight s"

lemma length_removeAll_le: "length (removeAll x xs) \<le> length xs"
  by (simp add: removeAll_filter_not_eq)

lemma length_removeAll_less: "x \<in> set xs \<Longrightarrow> length (removeAll x xs) < length xs"
  by (simp add: removeAll_filter_not_eq length_filter_less)

lemma pollers_check: "1 \<le> pollers (task_check token b s) \<and> pollers (task_check token b s) \<le> Suc (pollers s)"
  by (auto simp: pollers_def task_check_def Let_def length_removeAll_le split: option.splits)

lemma pollers_timer:
  assumes "i \<in> set (timers s)"
  shows "1 \<le> pollers (task_check token b (s\<lparr>timers := removeAll i (timers s)\<rparr>)) \<and>
    pollers (task_check token b (s\<lparr>timers := removeAll i (timers s)\<rparr>)) \<le> pollers s"
proof -
  have "pollers (s\<lparr>timers := removeAll i (timers s)\<rparr>) < pollers s"
    using length_removeAll_less [OF assms] by (simp add: pollers_def)
  then show ?thesis using pollers_check [of token b "s\<lparr>timers := removeAll i (timers s)\<rparr>"] by linarith
qed

lemma pollers_set_tasks:
  assumes "page_wf s" and "distinct (map td_id tasks)"
  shows "pollers (set_tasks tasks s) = Suc (pollers s)"
proof -
  have "keyed (objs s) (by_id s)" using assms(1) by (simp add: page_wf_def)
  then show ?thesis
  proof (rule set_tasks_spec [OF _ assms(2)])
    fix m os
    assume "set_tasks tasks s = s\<lparr>objs := os, by_id := m,
        boxes := filter (\<lambda>r. r \<notin> set (map snd m)) (boxes s) @ map snd m,
        sliding := sliding s @ removed_refs tasks s,
        period := next_period (\<exists>r \<in> set (map snd m). \<not> finished (os ! r)) (period s),
        timeout_id := Some (next_timer s), timers := timers s @ [next_timer s],
        next_timer := Suc (next_timer s)\<rparr>"
    then show ?thesis by (simp add: pollers_def)
  qed
qed

lemma pollers_clear:
  "pollers (task_clear token r s) = pollers s" "pollers (clear_tasks token s) = pollers s"
  "pollers (slide_done r s) = pollers s"
  unfolding pollers_def task_clear_def clear_tasks_def delete_all_spec slide_done_def
  by (simp_all add: task_delete_def Let_def)

text \<open>How each event changes the number of pollers.\<close>

lemma pollers_step:
  assumes "page_step token e s t" and "page_wf s"
  shows "pollers t \<le> pollers s + (if e = Check then 1 else 0)"
    and "e \<noteq> Failure \<Longrightarrow> e = Check \<or> 1 \<le> pollers s \<Longrightarrow> 1 \<le> pollers t"
    and "pollers s = 0 \<Longrightarrow> e \<noteq> Check \<Longrightarrow> pollers t = 0"
proof -
  from assms have "pollers t \<le> pollers s + (if e = Check then 1 else 0) \<and>
    (e \<noteq> Failure \<longrightarrow> (e = Check \<or> 1 \<le> pollers s) \<longrightarrow> 1 \<le> pollers t)"
  proof (induction rule: page_step.induct)
    case (check s reset)
    then show ?case using pollers_check by simp
  next
    case (timer i s)
    then show ?case using pollers_timer by simp
  next
    case (response s tasks)
    then have "pollers (set_tasks tasks (s\<lparr>inflight := inflight s - 1\<rparr>)) = Suc (pollers (s\<lparr>inflight := inflight s - 1\<rparr>))"
      by (intro pollers_set_tasks) (simp_all add: page_wf_inflight)
    with response show ?case by (simp add: pollers_def)
  qed (simp_all add: pollers_clear, simp add: pollers_def)
  then show "pollers t \<le> pollers s + (if e = Check then 1 else 0)"
    and "e \<noteq> Failure \<Longrightarrow> e = Check \<or> 1 \<le> pollers s \<Longrightarrow> 1 \<le> pollers t"
    by blast+
  then show "pollers s = 0 \<Longrightarrow> e \<noteq> Check \<Longrightarrow> pollers t = 0" by simp
qed

lemma pollers_run:
  "page_run token es s \<Longrightarrow> pollers s \<le> count_list es Check \<and>
    (Failure \<notin> set es \<longrightarrow> Check \<in> set es \<longrightarrow> 1 \<le> pollers s)"
proof (induction rule: page_run.induct)
  case start
  show ?case by (simp add: pollers_def init_page_def)
next
  case (step es s e t)
  note wf = page_run_wf [OF step(1)]
  show ?case
    using step.IH pollers_step [OF step(2) wf] by auto
qed

text \<open>
  C35. The polling loop neither multiplies nor dies by itself: in every reachable state the timers
  and requests in flight together are at most as many as the explicit calls of \<open>task_check\<close> so
  far, and, once there was such a call and as long as no request failed, there is at least one;
  so with the single call of the page load there is exactly one.
\<close>

theorem polling_bounded_and_alive:
  assumes "page_run token es s"
  shows "length (timers s) + inflight s \<le> count_list es Check \<and>
    (Failure \<notin> set es \<longrightarrow> Check \<in> set es \<longrightarrow> 1 \<le> length (timers s) + inflight s)"
  using pollers_run [OF assms] by (simp add: pollers_def)

theorem polling_bounded_and_alive_witness:
  "length (timers (set_tasks [] ((task_check (u ''t'') False init_page)\<lparr>inflight := 0\<rparr>)))
    + inflight (set_tasks [] ((task_check (u ''t'') False init_page)\<lparr>inflight := 0\<rparr>)) = 1"
  using polling_bounded_and_alive [OF sample_run] by simp

text \<open>\<open>page_path token es s t\<close>: the events \<open>es\<close>, the latest first, lead from \<open>s\<close> to \<open>t\<close>.\<close>

inductive page_path :: "ustr \<Rightarrow> event list \<Rightarrow> page \<Rightarrow> page \<Rightarrow> bool" for token where
  path_refl: "page_path token [] s s"
| path_step: "page_path token es s t \<Longrightarrow> page_step token e t v \<Longrightarrow> page_path token (e # es) s v"

lemma page_path_idle:
  "page_path token es s t \<Longrightarrow> page_wf s \<Longrightarrow> pollers s = 0 \<Longrightarrow> Check \<notin> set es \<Longrightarrow>
   page_wf t \<and> pollers t = 0"
proof (induction rule: page_path.induct)
  case (path_step es s t e v)
  then have t: "page_wf t" "pollers t = 0" and "e \<noteq> Check" by auto
  with path_step(2) show ?case
    using pollers_step(3) [OF path_step(2) t(1)] page_wf_step by blast
qed simp

text \<open>
  A failed poll is not retried. If the only poller is a request in flight and it fails, then
  along every sequence of further events without an explicit call of \<open>task_check\<close> (a page load
  or a user's action) there is never again a timer or a request: the task list stays as it is.
\<close>

theorem failed_poll_stops_polling:
  assumes "page_run token es s" and "timers s = []" and "inflight s = 1"
    and "page_step token Failure s t" and "page_path token fs t v" and "Check \<notin> set fs"
  shows "timers v = [] \<and> inflight v = 0"
proof -
  have wf: "page_wf s" using page_run_wf [OF assms(1)] .
  have "t = s\<lparr>inflight := inflight s - 1\<rparr>" using assms(4) by (auto elim: page_step_FailureE)
  then have "pollers t = 0" using assms(2,3) by (simp add: pollers_def)
  with page_path_idle [OF assms(5) page_wf_step [OF assms(4) wf] _ assms(6)] show ?thesis
    by (simp add: pollers_def)
qed

theorem failed_poll_stops_polling_witness:
  "timers (clear_tasks (u ''t'') ((task_check (u ''t'') False init_page)\<lparr>inflight := 0\<rparr>)) = []
   \<and> inflight (clear_tasks (u ''t'') ((task_check (u ''t'') False init_page)\<lparr>inflight := 0\<rparr>)) = 0"
proof -
  let ?s = "task_check (u ''t'') False init_page"
  have run: "page_run (u ''t'') [Check] ?s"
    by (rule page_run.step [OF page_run.start page_step.check])
  have s: "timers ?s = []" "inflight ?s = 1" by (simp_all add: task_check_def init_page_def)
  then have f: "page_step (u ''t'') Failure ?s (?s\<lparr>inflight := 0\<rparr>)"
    using page_step.failure [of ?s "u ''t''"] by simp
  have "page_path (u ''t'') [Click_clear] (?s\<lparr>inflight := 0\<rparr>) (clear_tasks (u ''t'') (?s\<lparr>inflight := 0\<rparr>))"
    by (rule page_path.path_step [OF page_path.path_refl page_step.click_clear])
  from failed_poll_stops_polling [OF run s f this] show ?thesis by simp
qed

end
