(* ===== verification/Task_Look.thy ===== *)
theory Task_Look
  imports Polling
begin

text \<open>
  How a task looks: the status class of its box and its icon under \<open>Task.update\<close>. The box always
  carries exactly one status class; the theory also records three places where the look lags
  behind the task: a status class that is not refreshed, a task seen as \<open>RETRY\<close>, and the icon of
  a failure.
\<close>

definition status_classes :: "ustr set" where
  "status_classes = {u ''navbar-alert-info'', u ''navbar-alert-warning'', u ''navbar-alert-danger'',
     u ''navbar-alert-success''}"

definition styled :: "task \<Rightarrow> ustr \<Rightarrow> bool" where
  "styled t c \<longleftrightarrow> plain (div_class t) \<and> c \<in> status_classes \<and>
     set (class_list (div_class t)) = {u ''navbar-alert'', c}"

lemma class_all_literal: "TASK_CLASS_ALL
    = u ''navbar-alert-info navbar-alert-warning navbar-alert-danger navbar-alert-success''"
  by (simp add: TASK_CLASS_ALL_def js_simps)

lemma words_class_all: "set (words TASK_CLASS_ALL) = status_classes"
  unfolding class_all_literal status_classes_def
  by (simp add: words_def js_ws_def js_simps)

lemma class_of_range: "class_of TASK_CLASS st \<in> status_classes"
  by (auto simp: class_of_def TASK_CLASS_def status_classes_def split: option.splits)

lemma words_status_class: "c \<in> status_classes \<Longrightarrow> words c = [c]"
  unfolding status_classes_def by (auto simp: words_def js_ws_def js_simps)

lemma navbar_not_status: "u ''navbar-alert'' \<notin> status_classes"
  by (simp add: status_classes_def)

lemma restyled_box:
  assumes "plain d" and "set (class_list d) - status_classes = {u ''navbar-alert''}"
  shows "set (class_list (addClass (class_of TASK_CLASS st) (removeClass TASK_CLASS_ALL d)))
    = {u ''navbar-alert'', class_of TASK_CLASS st}"
  using jq.replace_group [OF assms(1)] words_status_class [OF class_of_range [of st]] assms(2)
  by (simp add: words_class_all insert_commute)

lemma restyle_styled:
  assumes "plain (div_class t)" and "set (class_list (div_class t)) - status_classes = {u ''navbar-alert''}"
    and "t_status t = None \<or> t_status t \<noteq> st"
  shows "styled (restyle st t) (class_of TASK_CLASS st)"
  using assms restyled_box [OF assms(1,2)]
  by (simp add: styled_def restyle_def class_of_range jq.ok_add jq.ok_remove)

lemma styled_box: "styled t c \<Longrightarrow> set (class_list (div_class t)) - status_classes = {u ''navbar-alert''}"
  using navbar_not_status by (auto simp: styled_def)

text \<open>The box and the icon after \<open>update\<close> are those of its restyling step.\<close>

lemma update_look:
  "div_class (task_update d t) = div_class (restyle (map_option tm_status (td_task d)) t)"
  "icon_class (task_update d t) = icon_class (restyle (map_option tm_status (td_task d)) t)"
  by (auto simp: task_update_def restyle_def Let_def split: option.splits)

lemma styled_update:
  assumes "styled t c"
  shows "styled (task_update d t)
    (if t_status t = None \<or> t_status t \<noteq> map_option tm_status (td_task d)
     then class_of TASK_CLASS (map_option tm_status (td_task d)) else c)"
proof (cases "t_status t = None \<or> t_status t \<noteq> map_option tm_status (td_task d)")
  case True
  then show ?thesis
    using restyle_styled [OF _ styled_box [OF assms] True] assms
    by (simp add: styled_def update_look)
next
  case False
  then have "restyle (map_option tm_status (td_task d)) t = t" by (auto simp: restyle_def)
  then have "styled (task_update d t) c" using assms by (simp add: styled_def update_look)
  then show ?thesis using False by (simp only: if_False)
qed

lemma styled_new: "styled (new_task d) (class_of TASK_CLASS (map_option tm_status (td_task d)))"
proof -
  have w: "words (u ''navbar-alert'') = [u ''navbar-alert'']" by (simp add: words_def js_ws_def js_simps)
  have "set (class_list (div_class blank_task)) = {u ''navbar-alert''}"
    by (simp add: blank_task_def jq.cls_add jq.set_add_classes w)
  moreover have "plain (div_class blank_task)" by (simp add: blank_task_def jq.ok_add)
  moreover have "t_status blank_task = None" by (simp add: blank_task_def)
  ultimately have "styled (restyle st blank_task) (class_of TASK_CLASS st)" for st
    using navbar_not_status by (intro restyle_styled) auto
  then show ?thesis by (simp add: new_task_def styled_def update_look)
qed

definition all_styled :: "page \<Rightarrow> bool" where
  "all_styled s \<longleftrightarrow> (\<forall>t \<in> set (objs s). \<exists>c. styled t c)"

lemma styled_shown: "same_but_shown t t' \<Longrightarrow> styled t c = styled t' c"
  using same_but_shown_fields(4) by (auto simp: styled_def)

lemma all_styled_get_task:
  assumes "get_task d s = (r, s1)" and "all_styled s" and "keyed (objs s) (by_id s)"
  shows "all_styled s1"
proof -
  consider "s1 = s" | "s1 = s\<lparr>objs := objs s @ [new_task d]\<rparr>"
    | "s1 = s\<lparr>objs := (objs s)[r := task_update d (objs s ! r)]\<rparr>" "r < length (objs s)"
    using assms(1,3)
    by (auto simp: get_task_def keyed_def split: option.splits if_splits dest!: map_of_SomeD)
  then show ?thesis
  proof cases
    case 2
    then show ?thesis using assms(2) styled_new by (auto simp: all_styled_def)
  next
    case 3
    then have "\<exists>c. styled (task_update d (objs s ! r)) c"
      using assms(2) styled_update by (meson all_styled_def nth_mem)
    with 3 assms(2) show ?thesis
      using set_update_subset_insert [of "objs s" r] by (fastforce simp: all_styled_def)
  qed (use assms(2) in simp)
qed

lemma all_styled_collect:
  "collect ds m ord s = (m', ord', s') \<Longrightarrow> all_styled s \<Longrightarrow> keyed (objs s) (by_id s) \<Longrightarrow> all_styled s'"
proof (induction ds arbitrary: m ord s)
  case (Cons d ds)
  obtain r s1 where g: "get_task d s = (r, s1)" by force
  note spec = get_task_spec [OF Cons.prems(3) g]
  have "by_id s1 = by_id s" by (subst spec(1)) simp
  then have "keyed (objs s1) (by_id s1)"
    using keyed_extends [OF Cons.prems(3) spec(2)] by simp
  then show ?case
    using Cons.IH Cons.prems all_styled_get_task [OF g] g by (auto simp: Let_def)
qed simp

lemma all_styled_set_tasks:
  assumes "page_wf s" and "distinct (map td_id tasks)" and "all_styled s"
  shows "all_styled (set_tasks tasks s)"
proof -
  have k: "keyed (objs s) (by_id s)" using assms(1) by (simp add: page_wf_def)
  then show ?thesis
  proof (rule set_tasks_spec [OF _ assms(2)])
    fix m os
    assume st: "set_tasks tasks s = s\<lparr>objs := os, by_id := m,
        boxes := filter (\<lambda>r. r \<notin> set (map snd m)) (boxes s) @ map snd m,
        sliding := sliding s @ removed_refs tasks s,
        period := next_period (\<exists>r \<in> set (map snd m). \<not> finished (os ! r)) (period s),
        timeout_id := Some (next_timer s), timers := timers s @ [next_timer s],
        next_timer := Suc (next_timer s)\<rparr>"
      and "\<exists>s1. collect tasks [] [] s = (m, map snd m, s1) \<and> list_all2 same_but_shown (objs s1) os"
    then obtain s1 where "collect tasks [] [] s = (m, map snd m, s1)"
      and o: "list_all2 same_but_shown (objs s1) os" by blast
    then have s1: "all_styled s1" using all_styled_collect assms(3) k by blast
    have "\<exists>c. styled t c" if "t \<in> set os" for t
    proof -
      from that obtain i where i: "i < length os" "t = os ! i" by (metis in_set_conv_nth)
      with o have "objs s1 ! i \<in> set (objs s1)" "same_but_shown (objs s1 ! i) t"
        by (auto simp: list_all2_conv_all_nth)
      with s1 show ?thesis unfolding all_styled_def using styled_shown by blast
    qed
    then show ?thesis by (simp add: st all_styled_def)
  qed
qed

lemma all_styled_step:
  assumes "page_step token e s t" and "page_wf s" and "all_styled s"
  shows "all_styled t"
  using assms
proof (induction rule: page_step.induct)
  case (response s tasks)
  then show ?case by (intro all_styled_set_tasks) (simp_all add: page_wf_inflight all_styled_def)
next
  case (click_clear s)
  then show ?case unfolding clear_tasks_def delete_all_spec by (simp add: all_styled_def)
qed (auto simp: all_styled_def task_check_def task_clear_def task_delete_def slide_done_def Let_def
    split: option.splits)

lemma page_run_styled: "page_run token es s \<Longrightarrow> all_styled s"
proof (induction rule: page_run.induct)
  case (step es s e t)
  then show ?case using all_styled_step page_run_wf by blast
qed (simp add: all_styled_def init_page_def)

text \<open>
  C38. Every task object that ever exists on the page carries, besides \<open>navbar-alert\<close>, exactly one
  of the four status classes (info, warning, danger, success), in every reachable state.
\<close>

theorem task_box_one_status_class:
  assumes "page_run token es s" and "t \<in> set (objs s)"
  shows "\<exists>c. c \<in> status_classes \<and> set (class_list (div_class t)) = {u ''navbar-alert'', c}"
  using page_run_styled [OF assms(1)] assms(2) by (auto simp: all_styled_def styled_def)

lemma sample_run_task:
  "page_run (u ''t'') [Response, Check]
     (set_tasks [sample_data ''a'' ''STARTED''] ((task_check (u ''t'') False init_page)\<lparr>inflight := 0\<rparr>))"
proof -
  let ?s = "task_check (u ''t'') False init_page"
  have c: "page_run (u ''t'') [Check] ?s"
    by (rule page_run.step [OF page_run.start page_step.check])
  have "0 < inflight ?s" "inflight ?s - 1 = 0" by (simp_all add: task_check_def init_page_def)
  then have "page_step (u ''t'') Response ?s (set_tasks [sample_data ''a'' ''STARTED''] (?s\<lparr>inflight := 0\<rparr>))"
    using page_step.response [of ?s "[sample_data ''a'' ''STARTED'']"] by simp
  from page_run.step [OF c this] show ?thesis .
qed

theorem task_box_one_status_class_witness:
  "\<exists>t c. t \<in> set (objs (set_tasks [sample_data ''a'' ''STARTED''] ((task_check (u ''t'') False init_page)\<lparr>inflight := 0\<rparr>)))
    \<and> c \<in> status_classes \<and> set (class_list (div_class t)) = {u ''navbar-alert'', c}"
proof -
  let ?s = "set_tasks [sample_data ''a'' ''STARTED''] ((task_check (u ''t'') False init_page)\<lparr>inflight := 0\<rparr>)"
  have "objs ?s \<noteq> []"
    by (simp add: set_tasks_def get_task_def task_check_def init_page_def delete_missing_def
        task_insert_None Let_def)
  then have "hd (objs ?s) \<in> set (objs ?s)" by simp
  with task_box_one_status_class [OF sample_run_task this] show ?thesis by blast
qed

text \<open>
  The status class can be stale. The class is chosen by the status in the answer's \<open>task\<close>
  entry, but compared against the child-aware status stored last. When a task was last shown
  with the child-aware status \<open>st\<close> and its own status then becomes \<open>st\<close>, the update changes
  neither the class of the box nor the icon, whatever they were: a pending task whose children
  had started keeps the look of a pending one after it has started itself.
\<close>

theorem task_class_stale:
  assumes "t = new_task d0" and "td_task d0 = Some m0" and "tm_status m0 = u ''PENDING''"
    and "td_status d0 = u ''STARTED''" and "td_task d1 = Some m1" and "tm_status m1 = u ''STARTED''"
  shows "set (class_list (div_class (task_update d1 t))) = {u ''navbar-alert'', u ''navbar-alert-info''}
    \<and> icon_class (task_update d1 t) = icon_class t
    \<and> class_of TASK_CLASS (Some (u ''STARTED'')) = u ''navbar-alert-warning''"
proof -
  have st: "t_status t = Some (u ''STARTED'')" using assms by (simp add: new_task_def)
  have "class_of TASK_CLASS (Some (u ''PENDING'')) = u ''navbar-alert-info''"
    by (simp add: class_of_def TASK_CLASS_def)
  then have "styled t (u ''navbar-alert-info'')" using styled_new [of d0] assms by simp
  then show ?thesis
    using st assms styled_update [of t _ d1]
    by (auto simp: styled_def update_look restyle_def class_of_def TASK_CLASS_def)
qed

theorem task_class_stale_witness:
  "set (class_list (div_class (task_update (sample_data ''a'' ''STARTED'')
      (new_task ((sample_data ''a'' ''PENDING'')\<lparr>td_status := u ''STARTED''\<rparr>)))))
    = {u ''navbar-alert'', u ''navbar-alert-info''}"
  using task_class_stale [OF refl, of "(sample_data ''a'' ''PENDING'')\<lparr>td_status := u ''STARTED''\<rparr>" _
      "sample_data ''a'' ''STARTED''"]
  by (simp add: sample_data_def)


lemma retry_page:
  fixes s :: page
  assumes "s = set_tasks [sample_data ''a'' ''RETRY''] init_page"
  shows "\<exists>r. (u ''a'', r) \<in> set (by_id s) \<and> t_status (objs s ! r) = Some (u ''RETRY'')"
proof -
  have d: "distinct (map td_id [sample_data ''a'' ''RETRY''])" by simp
  from set_tasks_after [OF page_wf_init d] obtain r where
    "(u ''a'', r) \<in> set (by_id s)" "same_but_shown (after (sample_data ''a'' ''RETRY'') init_page) (objs s ! r)"
    by (auto simp: assms sample_data_def)
  moreover have "t_status (after (sample_data ''a'' ''RETRY'') init_page) = Some (u ''RETRY'')"
    by (simp add: after_def init_page_def new_task_def sample_data_def)
  ultimately show ?thesis using same_but_shown_fields(2) by fastforce
qed


lemma words_icons_all: "set (words TASK_ICONS_ALL) = {u ''fa-circle-o-notch'', u ''fa-spin'', u ''fa-cog'',
    u ''fa-refresh'', u ''fa-exclamation-trianglefa-check-circle''}"
  by (simp add: TASK_ICONS_ALL_def words_def js_ws_def js_simps insert_commute)


lemma icon_stays:
  assumes "plain (icon_class t)" and "c \<in> set (class_list (icon_class t))" and "c \<notin> set (words TASK_ICONS_ALL)"
  shows "c \<in> set (class_list (icon_class (task_update d t)))"
  using assms jq.replace_group [OF assms(1)] by (simp add: update_look restyle_def)

text \<open>
  The icons of failure and success are never taken off. The list of icon classes that an
  update removes runs the names of these two icons together, so once an icon shows one of them
  it shows it after every later update, beside the icon of the new status.
\<close>

theorem outcome_icon_stays:
  assumes "plain (icon_class t)"
    and "c = u ''fa-exclamation-triangle'' \<or> c = u ''fa-check-circle''"
    and "c \<in> set (class_list (icon_class t))"
  shows "c \<in> set (class_list (icon_class (task_update d t)))"
  using icon_stays [OF assms(1,3)] assms(2) by (auto simp: words_icons_all)

theorem outcome_icon_stays_witness:
  "u ''fa-exclamation-triangle'' \<in> set (class_list (icon_class (task_update (sample_data ''a'' ''SUCCESS'')
      (new_task ((sample_data ''a'' ''FAILURE'')\<lparr>td_status := u ''STARTED''\<rparr>)))))"
proof -
  let ?t = "new_task ((sample_data ''a'' ''FAILURE'')\<lparr>td_status := u ''STARTED''\<rparr>)"
  have st: "t_status blank_task = None" by (simp add: blank_task_def)
  have cl: "class_of TASK_ICONS (Some (u ''FAILURE'')) = u ''fa-exclamation-triangle''"
    by (simp add: class_of_def TASK_ICONS_def)
  have w: "words (u ''fa-exclamation-triangle'') = [u ''fa-exclamation-triangle'']"
    by (simp add: words_def js_ws_def js_simps)
  have pb: "plain (icon_class blank_task)" by (simp add: blank_task_def jq.ok_add)
  have p: "plain (icon_class ?t)"
    using pb st by (simp add: new_task_def update_look restyle_def jq.ok_add jq.ok_remove)
  have "u ''fa-exclamation-triangle'' \<in> set (class_list (icon_class ?t))"
    using jq.replace_group [OF pb] st cl w
    by (simp add: new_task_def update_look restyle_def sample_data_def)
  from outcome_icon_stays [OF p _ this] show ?thesis by simp
qed

end
