(* ===== verification/TableHelpers.thy ===== *)
theory TableHelpers
  imports Complex_Main Alerts
begin

text \<open>
  The table helpers of \<open>js/datatables-helpers.js\<close>: \<open>dt_render\<close>, which turns a cell object into
  what is displayed, sorted and filtered, and \<open>dt_ajax_selected\<close>, which builds the handler that
  posts the keys of the selected rows. The language's \<open>isNaN\<close>, \<open>parseFloat\<close> and
  \<open>JSON.stringify\<close> are modelled on the values the cells can have; a decimal literal denotes its
  exact rational value, before the rounding to a double.
\<close>

subsection \<open>Numbers read from text\<close>

datatype jsnum = NaN | Infinite bool | Fin rat

definition digit_span :: "ustr \<Rightarrow> ustr \<times> ustr" where
  "digit_span s = (takeWhile is_digit s, dropWhile is_digit s)"

text \<open>The digits before and after the point, and what follows them.\<close>

definition mantissa :: "ustr \<Rightarrow> (rat \<times> ustr) option" where
  "mantissa s =
     (let a = takeWhile is_digit s; s1 = dropWhile is_digit s in
      if s1 \<noteq> [] \<and> hd s1 = 46 then
        (let b = takeWhile is_digit (tl s1) in
         if a = [] \<and> b = [] then None
         else Some (rat_of_nat (nat_of_digits 0 (a @ b)) / 10 ^ length b, dropWhile is_digit (tl s1)))
      else if a = [] then None
      else Some (rat_of_nat (nat_of_digits 0 a), s1))"

text \<open>\<open>exponent q s\<close> applies an exponent part at the start of \<open>s\<close>, if there is a complete one.\<close>

definition exponent :: "rat \<Rightarrow> ustr \<Rightarrow> rat \<times> ustr" where
  "exponent q s =
     (if s \<noteq> [] \<and> hd s \<in> {101, 69} then
        (let s1 = tl s; neg = (s1 \<noteq> [] \<and> hd s1 = 45);
             s2 = (if s1 \<noteq> [] \<and> hd s1 \<in> {43, 45} then tl s1 else s1);
             e = takeWhile is_digit s2 in
         if e = [] then (q, s)
         else (if neg then q / 10 ^ nat_of_digits 0 e else q * 10 ^ nat_of_digits 0 e, dropWhile is_digit s2))
      else (q, s))"

definition unsigned_literal :: "ustr \<Rightarrow> (jsnum \<times> ustr) option" where
  "unsigned_literal s =
     (if prefix (u ''Infinity'') s then Some (Infinite False, drop 8 s)
      else map_option (\<lambda>(q, r). let (q', r') = exponent q r in (Fin q', r')) (mantissa s))"

fun negate :: "jsnum \<Rightarrow> jsnum" where
  "negate NaN = NaN"
| "negate (Infinite b) = Infinite (\<not> b)"
| "negate (Fin q) = Fin (- q)"

definition signed_literal :: "ustr \<Rightarrow> (jsnum \<times> ustr) option" where
  "signed_literal s =
     (if s \<noteq> [] \<and> hd s = 45 then map_option (\<lambda>(v, r). (negate v, r)) (unsigned_literal (tl s))
      else if s \<noteq> [] \<and> hd s = 43 then unsigned_literal (tl s)
      else unsigned_literal s)"

text \<open>\<open>parseFloat\<close> reads the longest literal at the start, \<open>Number\<close> the whole trimmed text.\<close>

definition parse_float :: "ustr \<Rightarrow> jsnum" where
  "parse_float s = (case signed_literal (dropWhile js_ws s) of None \<Rightarrow> NaN | Some (v, _) \<Rightarrow> v)"

definition radix_prefix :: "ustr \<Rightarrow> nat option" where
  "radix_prefix s =
     (if take 2 s \<in> {u ''0x'', u ''0X''} then Some 16
      else if take 2 s \<in> {u ''0o'', u ''0O''} then Some 8
      else if take 2 s \<in> {u ''0b'', u ''0B''} then Some 2 else None)"

definition digit_value :: "nat \<Rightarrow> nat option" where
  "digit_value c =
     (if is_digit c then Some (c - 48)
      else if 97 \<le> c \<and> c \<le> 102 then Some (c - 87)
      else if 65 \<le> c \<and> c \<le> 70 then Some (c - 55) else None)"

fun radix_value :: "nat \<Rightarrow> nat \<Rightarrow> ustr \<Rightarrow> nat option" where
  "radix_value r acc [] = Some acc"
| "radix_value r acc (c # s) =
     (case digit_value c of None \<Rightarrow> None
      | Some d \<Rightarrow> if d < r then radix_value r (r * acc + d) s else None)"

definition to_number :: "ustr \<Rightarrow> jsnum" where
  "to_number s =
     (let t = js_trim s in
      if t = [] then Fin 0
      else case radix_prefix t of
        Some r \<Rightarrow> (if drop 2 t = [] then NaN
          else case radix_value r 0 (drop 2 t) of None \<Rightarrow> NaN | Some n \<Rightarrow> Fin (rat_of_nat n))
      | None \<Rightarrow> (case signed_literal t of Some (v, []) \<Rightarrow> v | _ \<Rightarrow> NaN))"

fun isNaN :: "jsval \<Rightarrow> bool" where
  "isNaN Undefined = True"
| "isNaN Null = False"
| "isNaN (Bool _) = False"
| "isNaN (Num _) = False"
| "isNaN (Obj _) = True"
| "isNaN v = (to_number (to_string v) = NaN)"

subsection \<open>dt\_render\<close>

record cell =
  c_value :: jsval
  c_title :: jsval
  c_sort :: jsval

datatype rendered = Val jsval | Flt jsnum

definition dt_render :: "cell \<Rightarrow> ustr \<Rightarrow> rendered" where
  "dt_render data type =
     (if type = u ''display'' then
        Val (Str (u ''<span ''
          @ (if truthy (c_title data) then u ''title=\"'' @ to_string (c_title data) @ u ''\"'' else [])
          @ u ''>''
          @ (if \<not> nullish (c_value data) then to_string (c_value data) else [])
          @ u ''</span>''))
      else if type = u ''sort'' \<or> type = u ''type'' then
        (if truthy (c_sort data) then
           (if isNaN (c_sort data) then Val (c_sort data) else Flt (parse_float (to_string (c_sort data))))
         else Val (c_value data))
      else Val (c_value data))"

subsection \<open>dt\_ajax\_selected\<close>

text \<open>\<open>JSON.stringify\<close>; None stands for the value undefined, which it leaves out of objects.\<close>

definition hex_digit :: "nat \<Rightarrow> nat" where
  "hex_digit d = (if d < 10 then 48 + d else 87 + d)"

definition json_char :: "nat \<Rightarrow> ustr" where
  "json_char c =
     (if c = 34 then [92, 34] else if c = 92 then [92, 92]
      else if c = 8 then 92 # u ''b'' else if c = 9 then 92 # u ''t'' else if c = 10 then 92 # u ''n''
      else if c = 12 then 92 # u ''f'' else if c = 13 then 92 # u ''r''
      else if c < 32 then 92 # u ''u00'' @ [hex_digit (c div 16), hex_digit (c mod 16)]
      else [c])"

definition json_quote :: "ustr \<Rightarrow> ustr" where
  "json_quote s = [34] @ concat (map json_char s) @ [34]"

fun json_value :: "jsval \<Rightarrow> ustr option" where
  "json_value Undefined = None"
| "json_value Null = Some (u ''null'')"
| "json_value (Bool b) = Some (if b then u ''true'' else u ''false'')"
| "json_value (Num n) = Some (num_str n)"
| "json_value (Str s) = Some (json_quote s)"
| "json_value (Arr vs) = Some ([91] @ join [44]
     (map (\<lambda>v. case json_value v of None \<Rightarrow> u ''null'' | Some t \<Rightarrow> t) vs) @ [93])"
| "json_value (Obj ps) = Some ([123] @ join [44] (concat
     (map (\<lambda>(k, v). case json_value v of None \<Rightarrow> [] | Some t \<Rightarrow> [json_quote k @ [58] @ t]) ps)) @ [125])"

text \<open>
  The value of \<open>options['extra_data']\<close>: absent, an object, or a function, which reads the page
  (of type \<open>'w\<close>) at the moment it is called.
\<close>

datatype 'w extra = No_extra | Extra_object "(ustr \<times> jsval) list" | Extra_function "'w \<Rightarrow> (ustr \<times> jsval) list"

record 'w selected_options =
  extra_data :: "'w extra"
  dest_attr :: "ustr option"
  reloader :: "ustr option"

datatype callback = Result_alerts | Reload "ustr option"

record request =
  rq_url :: ustr
  rq_method :: ustr
  rq_content_type :: ustr
  rq_headers :: "(ustr \<times> ustr) list"
  rq_data :: "ustr option"
  rq_success :: "callback list"

text \<open>What \<open>dt_ajax_selected\<close> computes when it is called, and what the handler keeps.\<close>

record handler =
  h_key :: ustr
  h_url :: ustr
  h_extra :: "(ustr \<times> jsval) list"
  h_dest :: ustr
  h_reloader :: "ustr option"

definition dt_ajax_selected :: "ustr \<Rightarrow> ustr \<Rightarrow> 'w selected_options option \<Rightarrow> 'w \<Rightarrow> handler" where
  "dt_ajax_selected key url options page =
     (let opt = (case options of None \<Rightarrow> \<lparr>extra_data = No_extra, dest_attr = None, reloader = None\<rparr> | Some x \<Rightarrow> x);
          extra = (case extra_data opt of No_extra \<Rightarrow> [] | Extra_object ps \<Rightarrow> ps | Extra_function f \<Rightarrow> f page);
          dest = (case dest_attr opt of None \<Rightarrow> u ''rows'' | Some d \<Rightarrow> d)
      in \<lparr>h_key = key, h_url = url, h_extra = extra, h_dest = dest, h_reloader = reloader opt\<rparr>)"

definition copy_attrs :: "(ustr \<times> jsval) list \<Rightarrow> (ustr \<times> jsval) list" where
  "copy_attrs extra = fold (\<lambda>(k, v) acc. set_prop k v acc) extra []"

text \<open>The handler: \<open>rows\<close> are the data objects of the selected rows at the click.\<close>

definition request_data :: "handler \<Rightarrow> (ustr \<times> jsval) list list \<Rightarrow> jsval" where
  "request_data h rows = Obj (set_prop (h_dest h) (Arr (map (\<lambda>row. get_prop row (h_key h)) rows))
     (copy_attrs (h_extra h)))"

definition click_selected :: "handler \<Rightarrow> ustr \<Rightarrow> (ustr \<times> jsval) list list \<Rightarrow> request" where
  "click_selected h token rows =
     \<lparr>rq_url = h_url h, rq_method = u ''POST'', rq_content_type = u ''application/json'',
      rq_headers = [(u ''X-CSRFToken'', token)], rq_data = json_value (request_data h rows),
      rq_success = [Result_alerts, Reload (h_reloader h)]\<rparr>"

subsection \<open>Agreement of isNaN and parseFloat\<close>

text \<open>A character that cannot continue a numeric literal.\<close>

definition ends_literal :: "ustr \<Rightarrow> bool" where
  "ends_literal w \<longleftrightarrow> w = [] \<or> \<not> is_digit (hd w) \<and> hd w \<notin> {43, 45, 46, 69, 101}"

lemma ends_literal_ws: "\<forall>c \<in> set w. js_ws c \<Longrightarrow> ends_literal w"
  by (cases w) (auto simp: ends_literal_def is_digit_def js_ws_def)

lemma digits_stop:
  assumes "ends_literal w"
  shows "takeWhile is_digit (s @ w) = takeWhile is_digit s"
    and "dropWhile is_digit (s @ w) = dropWhile is_digit s @ w"
  using assms by (induction s) (cases w; simp add: ends_literal_def)+

lemma mantissa_append:
  assumes "ends_literal w" and "mantissa s = Some (q, r)"
  shows "mantissa (s @ w) = Some (q, r @ w)"
proof -
  have w: "hd w \<noteq> 46" if "w \<noteq> []"
    using assms(1) that by (simp add: ends_literal_def)
  obtain a d where ad: "takeWhile is_digit s = a" "dropWhile is_digit s = d" by blast
  note stop = digits_stop [OF assms(1)]
  show ?thesis
    using assms(2) w unfolding mantissa_def stop ad Let_def
    by (cases d) (auto simp: stop split: if_splits)
qed

lemma exponent_append:
  assumes "ends_literal w" and "exponent q s = (q', [])"
  shows "exponent q (s @ w) = (q', w)"
proof (cases s)
  case Nil
  then show ?thesis using assms by (auto simp: exponent_def ends_literal_def)
next
  case (Cons c t)
  show ?thesis
  proof (cases t)
    case Nil
    then show ?thesis using assms Cons by (auto simp: exponent_def Let_def split: if_splits)
  next
    case (Cons d t')
    then show ?thesis
      using assms \<open>s = c # t\<close> digits_stop [OF assms(1), of t] digits_stop [OF assms(1), of t']
      by (auto simp: exponent_def Let_def split: if_splits)
  qed
qed

lemma prefix_append_other:
  assumes "\<not> prefix p s" and "\<forall>c \<in> set w. c \<notin> set p" and "s \<noteq> []"
  shows "\<not> prefix p (s @ w)"
proof
  assume "prefix p (s @ w)"
  then obtain q where q: "p = s @ q" "prefix q w" "q \<noteq> []"
    using assms(1) by (auto simp: prefix_append)
  then have "hd q \<in> set w" "hd q \<in> set p" by (auto simp: prefix_def)
  with assms(2) show False by blast
qed

lemma unsigned_append:
  assumes "\<forall>c \<in> set w. js_ws c" and "unsigned_literal s = Some (v, [])"
  shows "unsigned_literal (s @ w) = Some (v, w)"
proof -
  have e: "ends_literal w" using ends_literal_ws assms(1) .
  have ne: "s \<noteq> []" using assms(2) by (auto simp: unsigned_literal_def mantissa_def js_simps)
  have fresh: "\<forall>c \<in> set w. c \<notin> set (u ''Infinity'')" using assms(1) by (auto simp: js_ws_def js_simps)
  show ?thesis
  proof (cases "prefix (u ''Infinity'') s")
    case True
    then have "s = u ''Infinity''" using assms(2)
      by (auto simp: unsigned_literal_def prefix_def js_simps)
    then show ?thesis using assms(2) by (simp add: unsigned_literal_def) (simp add: js_simps)
  next
    case False
    then obtain q r where m0: "mantissa s = Some (q, r)" "(case exponent q r of (q', r') \<Rightarrow> (Fin q', r')) = (v, [])"
      using assms(2) by (auto simp: unsigned_literal_def)
    then obtain q' where m: "mantissa s = Some (q, r)" "exponent q r = (q', [])" "v = Fin q'"
      by (cases "exponent q r") auto
    from mantissa_append [OF e m(1)] exponent_append [OF e m(2)] prefix_append_other [OF False fresh ne] m(3)
    show ?thesis by (simp add: unsigned_literal_def)
  qed
qed

lemma signed_append:
  assumes "\<forall>c \<in> set w. js_ws c" and "signed_literal s = Some (v, [])"
  shows "signed_literal (s @ w) = Some (v, w)"
proof (cases s)
  case Nil
  then show ?thesis using assms(2) by (simp add: signed_literal_def unsigned_literal_def mantissa_def js_simps)
next
  case (Cons c t)
  then show ?thesis
    using assms unsigned_append [OF assms(1), of t] unsigned_append [OF assms(1), of s]
    by (auto simp: signed_literal_def split: if_splits)
qed

lemma trim_split: "\<exists>w. dropWhile js_ws s = js_trim s @ w \<and> (\<forall>c \<in> set w. js_ws c)"
proof -
  let ?t = "dropWhile js_ws s"
  have "js_trim s @ rev (takeWhile js_ws (rev ?t)) = rev (takeWhile js_ws (rev ?t) @ dropWhile js_ws (rev ?t))"
    by (simp only: js_trim_def rev_append)
  then have "?t = js_trim s @ rev (takeWhile js_ws (rev ?t))" by simp
  moreover have "\<forall>c \<in> set (rev (takeWhile js_ws (rev ?t))). js_ws c" by (auto dest: set_takeWhileD)
  ultimately show ?thesis by blast
qed

lemma number_parse_agree:
  assumes "to_number s \<noteq> NaN" and "js_trim s \<noteq> []" and "radix_prefix (js_trim s) = None"
  shows "parse_float s = to_number s"
proof -
  obtain v where v: "signed_literal (js_trim s) = Some (v, [])" "to_number s = v"
    using assms by (auto simp: to_number_def Let_def split: option.splits list.splits prod.splits)
  from trim_split [of s] obtain w where w: "dropWhile js_ws s = js_trim s @ w" "\<forall>c \<in> set w. js_ws c" by blast
  from signed_append [OF w(2) v(1)] show ?thesis by (simp add: parse_float_def w(1) v(2))
qed


text \<open>The decimal text of an integer is a literal of that integer.\<close>

lemma digits_no_ws: "is_digit c \<Longrightarrow> \<not> js_ws c"
  by (auto simp: is_digit_def js_ws_def)

lemma drop_no_ws: "\<forall>c \<in> set s. \<not> js_ws c \<Longrightarrow> dropWhile js_ws s = s"
  by (cases s) auto

lemma trim_no_ws: "\<forall>c \<in> set s. \<not> js_ws c \<Longrightarrow> js_trim s = s \<and> dropWhile js_ws s = s"
  using drop_no_ws [of s] drop_no_ws [of "rev s"] by (simp add: js_trim_def)

lemma digit_run:
  assumes "\<forall>c \<in> set s. is_digit c"
  shows "takeWhile is_digit s = s" "dropWhile is_digit s = []"
  using assms by simp_all

lemma unsigned_digits: "unsigned_literal (digits_of n) = Some (Fin (rat_of_nat n), [])"
proof -
  have d: "\<forall>c \<in> set (digits_of n). is_digit c" using digits_of_digit by blast
  have "\<not> prefix (u ''Infinity'') (digits_of n)"
  proof
    assume "prefix (u ''Infinity'') (digits_of n)"
    then have "73 \<in> set (digits_of n)" by (auto simp: prefix_def js_simps)
    with d show False by (auto simp: is_digit_def)
  qed
  moreover have "mantissa (digits_of n) = Some (rat_of_nat n, [])"
    unfolding mantissa_def digit_run [OF d] Let_def by (simp add: nat_of_digits_of)
  ultimately show ?thesis by (simp add: unsigned_literal_def exponent_def)
qed

lemma num_str_nonempty [simp]: "num_str n \<noteq> []"
  by (simp add: num_str_def)

lemma signed_num_str: "signed_literal (num_str n) = Some (Fin (of_int n), [])"
proof (cases "n < 0")
  case True
  then show ?thesis by (simp add: signed_literal_def num_str_def unsigned_digits)
next
  case False
  have "is_digit (hd (digits_of (nat n)))" by (rule digits_of_digit [of _ "nat n"]) simp
  then have "hd (digits_of (nat n)) \<notin> {43, 45}" by (auto simp: is_digit_def)
  with False show ?thesis by (simp add: signed_literal_def num_str_def unsigned_digits)
qed

lemma num_str_no_ws: "c \<in> set (num_str n) \<Longrightarrow> \<not> js_ws c"
  using digits_of_digit digits_no_ws by (auto simp: num_str_def js_ws_def split: if_splits)

lemma parse_float_num_str: "parse_float (num_str n) = Fin (of_int n)"
  using trim_no_ws [of "num_str n"] num_str_no_ws by (simp add: parse_float_def signed_num_str)

lemma radix_letter: "radix_prefix s = Some r \<Longrightarrow> \<exists>c \<in> set s. c \<in> {120, 88, 111, 79, 98, 66}"
  by (cases s; cases "tl s") (auto simp: radix_prefix_def js_simps split: if_splits)

lemma num_str_no_radix: "radix_prefix (num_str n) = None"
proof (rule ccontr)
  assume "radix_prefix (num_str n) \<noteq> None"
  then obtain c where "c \<in> set (num_str n)" "c \<in> {120, 88, 111, 79, 98, 66}"
    using radix_letter by blast
  then show False using digits_of_digit by (fastforce simp: num_str_def is_digit_def split: if_splits)
qed

lemma to_number_num_str: "to_number (num_str n) = Fin (of_int n)"
  using trim_no_ws [of "num_str n"] num_str_no_ws num_str_no_radix [of n]
  by (simp add: to_number_def signed_num_str)

subsection \<open>Properties\<close>

text \<open>
  The sort key of a cell is a number wherever the language can read one: if \<open>sort\<close> is the
  decimal text of an integer, or a non-zero integer itself, the key is that number and not the
  text; any text that \<open>isNaN\<close> accepts, apart from blank and radix-prefixed ones, has the key
  that \<open>Number\<close> gives it.
\<close>

theorem dt_render_sort_number:
  "dt_render (c\<lparr>c_sort := Str (num_str n)\<rparr>) (u ''sort'') = Flt (Fin (of_int n)) \<and>
   (n \<noteq> 0 \<longrightarrow> dt_render (c\<lparr>c_sort := Num n\<rparr>) (u ''sort'') = Flt (Fin (of_int n))) \<and>
   (\<not> isNaN (Str s) \<longrightarrow> js_trim s \<noteq> [] \<longrightarrow> radix_prefix (js_trim s) = None \<longrightarrow>
     dt_render (c\<lparr>c_sort := Str s\<rparr>) (u ''sort'') = Flt (to_number s))"
proof -
  have "s \<noteq> []" if "js_trim s \<noteq> []" using that by (auto simp: js_trim_def)
  then show ?thesis
    using number_parse_agree [of s]
    by (auto simp: dt_render_def to_number_num_str parse_float_num_str)
qed

theorem dt_render_sort_number_witness:
  "dt_render \<lparr>c_value = Null, c_title = Null, c_sort = Str (u '' 2.50 '')\<rparr> (u ''sort'') = Flt (Fin (5 / 2)) \<and>
   dt_render \<lparr>c_value = Null, c_title = Null, c_sort = Num 7\<rparr> (u ''sort'') = Flt (Fin 7)"
proof -
  let ?c = "\<lparr>c_value = Null, c_title = Null, c_sort = Null\<rparr>"
  have t: "js_trim (u '' 2.50 '') = u ''2.50''" by (simp add: js_trim_def js_ws_def js_simps)
  have n: "to_number (u '' 2.50 '') = Fin (5 / 2)" "radix_prefix (u ''2.50'') = None"
    unfolding to_number_def t
    by (simp_all add: radix_prefix_def js_simps signed_literal_def unsigned_literal_def mantissa_def
        exponent_def is_digit_def)
  show ?thesis
    using dt_render_sort_number [where c = ?c and n = 7 and s = "u '' 2.50 ''"] t n by simp
qed

text \<open>
  The number zero is not a sort key. A cell whose \<open>sort\<close> is the number 0 is sorted by its
  display value instead, although the text \<open>0\<close> is a key.
\<close>

theorem dt_render_zero_sort:
  "dt_render (c\<lparr>c_sort := Num 0\<rparr>) (u ''sort'') = Val (c_value c) \<and>
   dt_render (c\<lparr>c_sort := Str (u ''0'')\<rparr>) (u ''sort'') = Flt (Fin 0)"
proof -
  have "num_str 0 = u ''0''" by (simp add: num_str_def js_simps)
  then show ?thesis
    using to_number_num_str [of 0] parse_float_num_str [of 0] by (simp add: dt_render_def)
qed

lemma fold_set_prop:
  "map_of (fold (\<lambda>(k, v) acc. set_prop k v acc) ps acc) = map_of acc ++ map_of (rev ps)"
  by (induction ps arbitrary: acc) (auto simp: map_add_def fun_eq_iff split: option.splits)

lemma get_prop_set_prop: "get_prop (set_prop k v ps) k' = (if k' = k then v else get_prop ps k')"
  by (simp add: get_prop_def)

lemma get_prop_copy:
  "distinct (map fst ps) \<Longrightarrow> get_prop (copy_attrs ps) k = get_prop ps k"
proof -
  assume "distinct (map fst ps)"
  then have "map_of (rev ps) = map_of ps" by (subst map_of_inject_set) (simp_all add: rev_map [symmetric])
  then show ?thesis by (simp add: get_prop_def copy_attrs_def fold_set_prop)
qed



end
