(* ===== verification/JQuery_Param.thy ===== *)
theory JQuery_Param
  imports Uri
begin

text \<open>
  \<open>jQuery.param\<close> of \<open>plugins/jquery/dist/jquery.js\<close>, which turns form data and request
  parameters into a query string, and \<open>deepSerialize\<close> of \<open>js/jquery.form.js\<close>, which takes such
  a string apart again for a multipart upload.

  \<open>add\<close> is called once per scalar: \<open>buildParams\<close> and \<open>param_pairs\<close> give the list of its
  arguments in the order of the calls. A string that is not well-formed UTF-16 makes
  \<open>encodeURIComponent\<close> throw, so \<open>param\<close> returns a result.
\<close>

subsection \<open>The calls of add\<close>

definition rbracket :: "ustr \<Rightarrow> bool" where
  "rbracket s \<longleftrightarrow> suffix (u ''[]'') s"

fun typeof_object :: "jsval \<Rightarrow> bool" where
  "typeof_object Null = True"
| "typeof_object (Arr _) = True"
| "typeof_object (Obj _) = True"
| "typeof_object _ = False"

definition indexed :: "ustr \<Rightarrow> ustr \<Rightarrow> ustr" where
  "indexed p k = p @ [91] @ k @ [93]"

fun buildParams :: "bool \<Rightarrow> ustr \<Rightarrow> jsval \<Rightarrow> (ustr \<times> jsval) list"
  and build_items :: "bool \<Rightarrow> ustr \<Rightarrow> nat \<Rightarrow> jsval list \<Rightarrow> (ustr \<times> jsval) list"
  and build_props :: "bool \<Rightarrow> ustr \<Rightarrow> (ustr \<times> jsval) list \<Rightarrow> (ustr \<times> jsval) list" where
  "buildParams traditional p (Arr vs) = build_items traditional p 0 vs"
| "buildParams traditional p (Obj ps) = (if traditional then [(p, Obj ps)] else build_props traditional p ps)"
| "buildParams traditional p v = [(p, v)]"
| "build_items traditional p i [] = []"
| "build_items traditional p i (v # vs) =
     (if traditional \<or> rbracket p then [(p, v)]
      else buildParams traditional (indexed p (if typeof_object v then digits_of i else [])) v)
     @ build_items traditional p (Suc i) vs"
| "build_props traditional p [] = []"
| "build_props traditional p ((name, v) # ps) =
     buildParams traditional (indexed p name) v @ build_props traditional p ps"

text \<open>
  A property of an array element, read through \<open>this\<close> of a callback of \<open>jQuery.each\<close>. The
  library is not in strict mode, so for null and undefined \<open>this\<close> is the window: it has a name,
  empty unless a frame or an opener gave it one, and no value.
\<close>

definition window_member :: "ustr \<Rightarrow> jsval" where
  "window_member k = (if k = u ''name'' then Str [] else Undefined)"

fun member :: "jsval \<Rightarrow> ustr \<Rightarrow> jsval" where
  "member Undefined k = window_member k"
| "member Null k = window_member k"
| "member (Obj ps) k = get_prop ps k"
| "member _ k = Undefined"

definition element_pairs :: "jsval list \<Rightarrow> (ustr \<times> jsval) list" where
  "element_pairs vs = map (\<lambda>v. (to_string (member v (u ''name'')), member v (u ''value''))) vs"

fun param_pairs :: "jsval \<Rightarrow> bool \<Rightarrow> (ustr \<times> jsval) list js_result" where
  "param_pairs (Arr vs) traditional = Inr (element_pairs vs)"
| "param_pairs (Obj ps) traditional = Inr (concat (map (\<lambda>(k, v). buildParams traditional k v) ps))"
| "param_pairs (Str s) traditional = Inr (map (\<lambda>i. (digits_of i, Str [s ! i])) [0..<length s])"
| "param_pairs Undefined traditional = Inl TypeError"
| "param_pairs Null traditional = Inl TypeError"
| "param_pairs _ traditional = Inr []"

subsection \<open>The query string\<close>

definition scalar_text :: "jsval \<Rightarrow> ustr" where
  "scalar_text v = (if nullish v then [] else to_string v)"

definition add :: "ustr \<times> jsval \<Rightarrow> ustr js_result" where
  "add kv = (case (encodeURIComponent (fst kv), encodeURIComponent (scalar_text (snd kv))) of
     (Some k, Some v) \<Rightarrow> Inr (k @ [61] @ v) | _ \<Rightarrow> Inl URIError)"

fun add_all :: "(ustr \<times> jsval) list \<Rightarrow> ustr list js_result" where
  "add_all [] = Inr []"
| "add_all (kv # kvs) = js_bind (add kv) (\<lambda>s. js_bind (add_all kvs) (\<lambda>r. Inr (s # r)))"

definition param :: "jsval \<Rightarrow> bool \<Rightarrow> ustr js_result" where
  "param a traditional =
     js_bind (param_pairs a traditional) (\<lambda>kvs. js_bind (add_all kvs) (\<lambda>s. Inr (unblank [43] (join [38] s))))"

subsection \<open>deepSerialize\<close>

definition decode_part :: "ustr option \<Rightarrow> ustr js_result" where
  "decode_part s = (case decodeURIComponent (case s of None \<Rightarrow> u ''undefined'' | Some t \<Rightarrow> t) of
     None \<Rightarrow> Inl URIError | Some t \<Rightarrow> Inr t)"

definition deep_part :: "ustr \<Rightarrow> (ustr \<times> ustr) js_result" where
  "deep_part s =
     (let part = split_on 61 [] (replace_all 43 [] [32] s) in
      js_bind (decode_part (if 0 < length part then Some (part ! 0) else None)) (\<lambda>k.
      js_bind (decode_part (if 1 < length part then Some (part ! 1) else None)) (\<lambda>v. Inr (k, v))))"

fun deep_parts :: "ustr list \<Rightarrow> (ustr \<times> ustr) list js_result" where
  "deep_parts [] = Inr []"
| "deep_parts (s # ss) = js_bind (deep_part s) (\<lambda>kv. js_bind (deep_parts ss) (\<lambda>r. Inr (kv # r)))"

definition deepSerialize :: "jsval \<Rightarrow> bool \<Rightarrow> (ustr \<times> ustr) list js_result" where
  "deepSerialize extraData traditional =
     js_bind (param extraData traditional) (\<lambda>q. deep_parts (split_on 38 [] q))"

subsection \<open>Blanks in a joined query string\<close>

text \<open>An encoded component, whatever follows it, has its blanks replaced by itself.\<close>

lemma unblank_encoded:
  assumes "wf_ustr s" and "encodeURIComponent s = Some e"
  shows "unblank r (e @ t) = unblank r e @ unblank r t"
proof -
  from encode_blocks [OF assms] obtain vs where "e = concat (map block vs)" "\<forall>v \<in> set vs. scalar v" by blast
  moreover have "\<forall>v \<in> set vs. scalar v \<Longrightarrow> unblank r (concat (map block vs) @ t)
      = unblank r (concat (map block vs)) @ unblank r t" for vs
    by (induction vs) (simp_all add: unblank_block, simp add: unblank_def)
  ultimately show ?thesis by simp
qed

lemma unblank_chars:
  assumes "wf_ustr s" and "encodeURIComponent s = Some e" and "c \<in> set (unblank [43] e)"
  shows "c = 43 \<or> component_char c"
proof -
  from encode_blocks [OF assms(1,2)] obtain vs where vs: "e = concat (map block vs)" "\<forall>v \<in> set vs. scalar v" by blast
  then have "c \<in> set (concat (map (\<lambda>v. if v = 32 then [43] else block v) vs))"
    using assms(3) by (simp add: unblank_blocks)
  then obtain v where "v \<in> set vs" "c = 43 \<or> c \<in> set (block v)" by (auto split: if_splits)
  then show ?thesis
    using vs uri.enc_okchar [OF assms(1,2)] by auto
qed

lemma unblank_no_sep:
  assumes "wf_ustr s" and "encodeURIComponent s = Some e"
  shows "38 \<notin> set (unblank [43] e)" and "61 \<notin> set (unblank [43] e)"
  using unblank_chars [OF assms, of 38] unblank_chars [OF assms, of 61] by auto

text \<open>A pair is good if its key and value are well-formed UTF-16; then \<open>add\<close> succeeds.\<close>

definition encodable :: "ustr \<Rightarrow> bool" where
  "encodable s \<longleftrightarrow> wf_ustr s \<and> encodeURIComponent s \<noteq> None"

definition good_pair :: "ustr \<times> jsval \<Rightarrow> bool" where
  "good_pair kv \<longleftrightarrow> encodable (fst kv) \<and> encodable (scalar_text (snd kv))"

definition pair_text :: "ustr \<times> jsval \<Rightarrow> ustr" where
  "pair_text kv = the (encodeURIComponent (fst kv)) @ [61] @ the (encodeURIComponent (scalar_text (snd kv)))"

lemma add_good: "good_pair kv \<Longrightarrow> add kv = Inr (pair_text kv)"
  by (auto simp: good_pair_def encodable_def add_def pair_text_def)

lemma add_all_good: "\<forall>kv \<in> set kvs. good_pair kv \<Longrightarrow> add_all kvs = Inr (map pair_text kvs)"
  by (induction kvs) (simp_all add: add_good)

lemma unblank_pair:
  assumes "good_pair kv"
  obtains k v where "encodeURIComponent (fst kv) = Some k" "encodeURIComponent (scalar_text (snd kv)) = Some v"
    "unblank r (pair_text kv @ t) = unblank r k @ [61] @ unblank r v @ unblank r t"
    "unblank r (pair_text kv) = unblank r k @ [61] @ unblank r v"
proof -
  from assms obtain k v where kv: "wf_ustr (fst kv)" "encodeURIComponent (fst kv) = Some k"
    "wf_ustr (scalar_text (snd kv))" "encodeURIComponent (scalar_text (snd kv)) = Some v"
    by (auto simp: good_pair_def encodable_def)
  have eq: "unblank r (61 # s) = 61 # unblank r s" for s by (simp add: unblank_Cons)
  show thesis
    by (rule that [of k v])
      (use kv eq unblank_encoded [OF kv(1,2)] unblank_encoded [OF kv(3,4)] in \<open>simp_all add: pair_text_def\<close>)
qed

lemma unblank_join:
  "\<forall>kv \<in> set kvs. good_pair kv \<Longrightarrow>
   unblank r (join [38] (map pair_text kvs)) = join [38] (map (\<lambda>kv. unblank r (pair_text kv)) kvs)"
proof (induction kvs rule: induct_list012)
  case (3 x y zs)
  then have IH: "unblank r (join [38] (map pair_text (y # zs))) = join [38] (map (\<lambda>kv. unblank r (pair_text kv)) (y # zs))"
    by simp
  have "good_pair x" using 3 by simp
  then obtain k v where "unblank r (pair_text x @ 38 # join [38] (map pair_text (y # zs)))
      = unblank r k @ [61] @ unblank r v @ unblank r (38 # join [38] (map pair_text (y # zs)))"
    "unblank r (pair_text x) = unblank r k @ [61] @ unblank r v"
    by (rule unblank_pair) blast
  then show ?case using IH by (simp add: unblank_Cons)
qed (simp_all add: unblank_def)

lemma param_text:
  assumes "param_pairs a tr = Inr kvs" and "\<forall>kv \<in> set kvs. good_pair kv"
  shows "param a tr = Inr (join [38] (map (\<lambda>kv. unblank [43] (pair_text kv)) kvs))"
  using assms add_all_good [OF assms(2)] unblank_join [OF assms(2)] by (simp add: param_def)

lemma pair_no_amp: "good_pair kv \<Longrightarrow> 38 \<notin> set (unblank [43] (pair_text kv))"
proof -
  assume g: "good_pair kv"
  then obtain k v where kv: "encodeURIComponent (fst kv) = Some k" "encodeURIComponent (scalar_text (snd kv)) = Some v"
    "unblank [43] (pair_text kv) = unblank [43] k @ [61] @ unblank [43] v"
    by (rule unblank_pair) blast
  then show ?thesis using g unblank_no_sep(1) [OF _ kv(1)] unblank_no_sep(1) [OF _ kv(2)]
    by (simp add: good_pair_def encodable_def)
qed

lemma deep_part_pair:
  assumes "good_pair kv"
  shows "deep_part (unblank [43] (pair_text kv)) = Inr (fst kv, scalar_text (snd kv))"
proof -
  from assms obtain k v where kv: "encodeURIComponent (fst kv) = Some k" "encodeURIComponent (scalar_text (snd kv)) = Some v"
    "unblank [43] (pair_text kv) = unblank [43] k @ [61] @ unblank [43] v"
    by (rule unblank_pair) blast
  have wf: "wf_ustr (fst kv)" "wf_ustr (scalar_text (snd kv))" using assms by (auto simp: good_pair_def encodable_def)
  let ?f = "replace_all 43 [] [32]"
  have no: "61 \<notin> set (?f (unblank [43] k))" "61 \<notin> set (?f (unblank [43] v))"
    using unblank_no_sep(2) [OF wf(1) kv(1)] unblank_no_sep(2) [OF wf(2) kv(2)]
    by (auto simp: replace_all_single split: if_splits)
  have "?f (unblank [43] (pair_text kv)) = join [61] [?f (unblank [43] k), ?f (unblank [43] v)]"
    by (simp add: kv(3) replace_all_append1)
  then have "split_on 61 [] (?f (unblank [43] (pair_text kv))) = [?f (unblank [43] k), ?f (unblank [43] v)]"
    using split_on_join [of "[?f (unblank [43] k), ?f (unblank [43] v)]" 61 "[]"] no by simp
  then show ?thesis
    using plus_roundtrip [OF wf(1) kv(1)] plus_roundtrip [OF wf(2) kv(2)]
    by (simp add: deep_part_def decode_part_def)
qed

lemma deep_parts_pairs:
  "\<forall>kv \<in> set kvs. good_pair kv \<Longrightarrow>
   deep_parts (map (\<lambda>kv. unblank [43] (pair_text kv)) kvs) = Inr (map (\<lambda>kv. (fst kv, scalar_text (snd kv))) kvs)"
  by (induction kvs) (simp_all add: deep_part_pair)

lemma deepSerialize_pairs:
  assumes "param_pairs a tr = Inr kvs" and "\<forall>kv \<in> set kvs. good_pair kv" and "kvs \<noteq> []"
  shows "deepSerialize a tr = Inr (map (\<lambda>kv. (fst kv, scalar_text (snd kv))) kvs)"
proof -
  let ?ts = "map (\<lambda>kv. unblank [43] (pair_text kv)) kvs"
  have "split_on 38 [] (join [38] ?ts) = ?ts"
    using assms(2,3) pair_no_amp by (intro split_on_join) auto
  then show ?thesis
    using param_text [OF assms(1,2)] deep_parts_pairs [OF assms(2)] by (simp add: deepSerialize_def)
qed

subsection \<open>The interface of a serialiser\<close>

text \<open>
  What the senders rely on: the text of acceptable data exists and reads back as its pairs. Two
  texts joined by an ampersand read back as the pairs of both.
\<close>

lemma deep_parts_append:
  "deep_parts xs = Inr ps \<Longrightarrow> deep_parts ys = Inr qs \<Longrightarrow> deep_parts (xs @ ys) = Inr (ps @ qs)"
  by (induction xs arbitrary: ps) (auto simp: js_bind_eq_Inr)

lemma split_go_sep: "split_go c [] acc (s @ c # t) = split_go c [] acc s @ split_go c [] [] t"
  by (induction s arbitrary: acc) auto

lemma split_on_sep: "split_on c [] (s @ c # t) = split_on c [] s @ split_on c [] t"
  by (simp add: split_on_def split_go_sep)

definition parse_query :: "ustr \<Rightarrow> (ustr \<times> ustr) list js_result" where
  "parse_query q = deep_parts (split_on 38 [] q)"

locale query_serialiser =
  fixes ser :: "'a \<Rightarrow> ustr js_result"
    and pairs :: "'a \<Rightarrow> (ustr \<times> ustr) list"
    and ok :: "'a \<Rightarrow> bool"
  assumes parse_ser: "ok x \<Longrightarrow> \<exists>q. ser x = Inr q \<and> q \<noteq> [] \<and> parse_query q = Inr (pairs x)"
begin

lemma ser_faithful: "ok x \<Longrightarrow> ok y \<Longrightarrow> ser x = ser y \<Longrightarrow> pairs x = pairs y"
  using parse_ser [of x] parse_ser [of y] by auto

lemma ser_result: "ok x \<Longrightarrow> ser x = Inr q \<Longrightarrow> q \<noteq> [] \<and> parse_query q = Inr (pairs x)"
  using parse_ser [of x] by auto

lemma parse_joined:
  "ok x \<Longrightarrow> ser x = Inr q \<Longrightarrow> parse_query r = Inr ps \<Longrightarrow> parse_query (q @ 38 # r) = Inr (pairs x @ ps)"
  using ser_result [of x q] by (simp add: parse_query_def split_on_sep deep_parts_append)

end

definition sent_pairs :: "jsval \<times> bool \<Rightarrow> (ustr \<times> ustr) list" where
  "sent_pairs x = (case param_pairs (fst x) (snd x) of
     Inl _ \<Rightarrow> [] | Inr kvs \<Rightarrow> map (\<lambda>kv. (fst kv, scalar_text (snd kv))) kvs)"

definition sendable :: "jsval \<times> bool \<Rightarrow> bool" where
  "sendable x \<longleftrightarrow> (case param_pairs (fst x) (snd x) of
     Inl _ \<Rightarrow> False | Inr kvs \<Rightarrow> kvs \<noteq> [] \<and> list_all good_pair kvs)"

lemma pair_text_ne: "good_pair kv \<Longrightarrow> unblank [43] (pair_text kv) \<noteq> []"
  by (rule unblank_pair [of kv "[43]"]) auto

lemma join_ne: "x \<noteq> [] \<Longrightarrow> join sep (x # xs) \<noteq> []"
  by (cases xs) auto

interpretation pm: query_serialiser "\<lambda>(a, tr). param a tr" sent_pairs sendable
proof
  fix x :: "jsval \<times> bool"
  assume "sendable x"
  then obtain kvs where kvs: "param_pairs (fst x) (snd x) = Inr kvs" "kvs \<noteq> []" "\<forall>kv \<in> set kvs. good_pair kv"
    by (auto simp: sendable_def list_all_iff split: sum.splits)
  have "join [38] (map (\<lambda>kv. unblank [43] (pair_text kv)) kvs) \<noteq> []"
    using kvs(2,3) by (cases kvs) (simp_all add: join_ne pair_text_ne)
  then show "\<exists>q. (case x of (a, tr) \<Rightarrow> param a tr) = Inr q \<and> q \<noteq> [] \<and> parse_query q = Inr (sent_pairs x)"
    using deepSerialize_pairs [OF kvs(1,3,2)] param_text [OF kvs(1,3)] kvs(1)
    by (auto simp: deepSerialize_def parse_query_def sent_pairs_def split: prod.splits)
qed

text \<open>
  Serialising and taking apart again loses nothing. For any data whose keys and values are
  well-formed UTF-16 and that has at least one scalar, \<open>deepSerialize\<close> succeeds and returns
  exactly the keys and the texts that \<open>jQuery.param\<close> was given, in order, whatever characters
  they contain (ampersands, equal signs, blanks, pluses, non-ASCII).
\<close>

theorem deepSerialize_param:
  assumes "param_pairs a tr = Inr kvs" and "\<forall>kv \<in> set kvs. good_pair kv" and "kvs \<noteq> []"
  shows "deepSerialize a tr = Inr (map (\<lambda>kv. (fst kv, scalar_text (snd kv))) kvs)"
  using assms by (rule deepSerialize_pairs)

theorem deepSerialize_param_witness:
  "deepSerialize (Obj [(u ''a b'', Arr [Str (u ''x&y'' @ [8364]), Obj [(u ''k'', Num 7)]])]) False
   = Inr [(u ''a b[]'', u ''x&y'' @ [8364]), (u ''a b[1][k]'', u ''7'')]"
proof -
  let ?a = "Obj [(u ''a b'', Arr [Str (u ''x&y'' @ [8364]), Obj [(u ''k'', Num 7)]])]"
  let ?kvs = "[(u ''a b[]'', Str (u ''x&y'' @ [8364])), (u ''a b[1][k]'', Num 7)]"
  have nb: "\<not> rbracket (u ''a b'')" by (simp add: rbracket_def suffix_def js_simps Cons_eq_append_conv)
  have p: "param_pairs ?a False = Inr ?kvs"
    using nb by (simp add: indexed_def js_simps)
  have t: "scalar_text (Num 7) = u ''7''" by (simp add: scalar_text_def num_str_def js_simps)
  have g: "\<forall>kv \<in> set ?kvs. good_pair kv"
    by (simp add: good_pair_def encodable_def wf_ustr_def t) (simp add: scalar_text_def js_simps uri_eval)
  show ?thesis using deepSerialize_param [OF p g] t by (simp add: scalar_text_def)
qed

text \<open>
  An empty object of extra data still adds a field to an upload: it comes back as one pair
  with the empty name and the text \<open>undefined\<close>, in either style.
\<close>

theorem deepSerialize_empty: "deepSerialize (Obj []) tr = Inr [([], u ''undefined'')]"
  by (simp add: deepSerialize_def param_def unblank_def split_on_def deep_part_def decode_part_def js_simps)

end
