(* ===== verification/Form_Fields.thy ===== *)
theory Form_Fields
  imports JQuery_Param JQuery_Classes
begin

text \<open>
  The field operations of \<open>js/jquery.form.js\<close>: \<open>fieldValue\<close>, \<open>formToArray\<close>, the two serialisers,
  \<open>clearForm\<close>, \<open>clearFields\<close>, \<open>resetForm\<close>, \<open>enable\<close> and \<open>selected\<close>, and jQuery's \<open>val\<close>, which
  they call.

  An element is the record of the DOM attributes the code reads and writes. Its identity is
  \<open>el_id\<close>; \<open>el_reset\<close> holds what the browser restores when the form is reset.
\<close>

subsection \<open>Elements\<close>

record opt =
  op_selected :: bool
  op_value :: ustr
  op_unspecified :: bool    \<comment> \<open>the value attribute exists and is not \<open>specified\<close> (old IE)\<close>
  op_text :: ustr

record controls =
  ct_value :: ustr
  ct_checked :: bool
  ct_index :: int
  ct_options :: "opt list"

record element =
  el_id :: nat
  el_name :: ustr
  el_type :: ustr
  el_tag :: ustr            \<comment> \<open>tagName.toLowerCase()\<close>
  el_disabled :: bool
  el_required :: bool
  el_checked :: bool
  el_value :: ustr
  el_value_attr :: bool     \<comment> \<open>has a value attribute\<close>
  selectedIndex :: int
  el_options :: "opt list"
  el_files :: "ustr list"
  el_owned :: bool          \<comment> \<open>el.form is not null\<close>
  el_class :: ustr
  el_reset :: controls

text \<open>A form as the script sees it. \<open>f_all\<close> is \<open>getElementsByTagName('*')\<close>.\<close>

record form =
  f_id :: ustr
  f_elements :: "element list"
  f_all :: "element list"
  f_clk :: "element option"
  clk_x :: int
  clk_y :: int

text \<open>The features of the browser, as the script detects them.\<close>

record browser =
  fileapi :: bool
  formdata_api :: bool
  check_on :: bool          \<comment> \<open>\<open>support.checkOn\<close>: a box without value attribute has the value \<open>on\<close>\<close>
  msie :: bool
  msie678 :: bool
  opera :: bool

subsection \<open>val\<close>

definition jq_val :: "browser \<Rightarrow> element \<Rightarrow> ustr" where
  "jq_val br el =
     (if el_type el \<in> {u ''radio'', u ''checkbox''} \<and> \<not> check_on br
      then (if el_value_attr el then el_value el else u ''on'')
      else removeAll 13 (el_value el))"

subsection \<open>fieldValue\<close>

datatype fv = FNull | FArray "ustr list" | FText ustr

definition option_value :: "opt \<Rightarrow> ustr" where
  "option_value op = (if op_value op = [] then (if op_unspecified op then op_text op else op_value op)
     else op_value op)"

text \<open>The loop over the options; \<open>one\<close> is a select-one, which returns at its first hit.\<close>

fun option_loop :: "bool \<Rightarrow> opt list \<Rightarrow> ustr list \<Rightarrow> fv" where
  "option_loop one [] a = FArray a"
| "option_loop one (op # ops) a =
     (if op_selected op then
        (if one then FText (option_value op) else option_loop one ops (a @ [option_value op]))
      else option_loop one ops a)"

definition is_clk :: "element option \<Rightarrow> element \<Rightarrow> bool" where
  "is_clk clk el \<longleftrightarrow> (case clk of None \<Rightarrow> False | Some c \<Rightarrow> el_id c = el_id el)"

definition unsuccessful :: "element option \<Rightarrow> element \<Rightarrow> bool" where
  "unsuccessful clk el \<longleftrightarrow>
     el_name el = [] \<or> el_disabled el \<or> el_type el = u ''reset'' \<or> el_type el = u ''button'' \<or>
     (el_type el = u ''checkbox'' \<or> el_type el = u ''radio'') \<and> \<not> el_checked el \<or>
     (el_type el = u ''submit'' \<or> el_type el = u ''image'') \<and> el_owned el \<and> \<not> is_clk clk el \<or>
     el_tag el = u ''select'' \<and> selectedIndex el = -1"

definition fieldValue :: "browser \<Rightarrow> element option \<Rightarrow> element \<Rightarrow> bool \<Rightarrow> fv" where
  "fieldValue br clk el successful =
     (if successful \<and> unsuccessful clk el then FNull
      else if el_tag el = u ''select'' then
        (if selectedIndex el < 0 then FNull
         else (let i = nat (selectedIndex el); one = (el_type el = u ''select-one'') in
           option_loop one (if one then take 1 (drop i (el_options el)) else el_options el) []))
      else FText (jq_val br el))"

text \<open>The method \<open>fieldValue\<close> of a jQuery object: the values of all its elements.\<close>

fun fieldValue_all :: "browser \<Rightarrow> element option \<Rightarrow> bool \<Rightarrow> element list \<Rightarrow> ustr list" where
  "fieldValue_all br clk successful [] = []"
| "fieldValue_all br clk successful (el # els) =
     (case fieldValue br clk el successful of
        FNull \<Rightarrow> [] | FArray vs \<Rightarrow> vs | FText v \<Rightarrow> [v]) @ fieldValue_all br clk successful els"

subsection \<open>formToArray\<close>

datatype fval = Text ustr | File ustr | Coord int

record entry =
  e_name :: ustr
  e_value :: fval
  e_type :: "ustr option"
  e_required :: "bool option"

definition plain_entry :: "ustr \<Rightarrow> fval \<Rightarrow> entry" where
  "plain_entry n v = \<lparr>e_name = n, e_value = v, e_type = None, e_required = None\<rparr>"

definition coord_entries :: "form \<Rightarrow> ustr \<Rightarrow> entry list" where
  "coord_entries f n = [plain_entry (n @ u ''.x'') (Coord (clk_x f)), plain_entry (n @ u ''.y'') (Coord (clk_y f))]"

text \<open>One round of the loop: the entries it pushes, and whether it records the element.\<close>

definition el_entries :: "browser \<Rightarrow> bool \<Rightarrow> form \<Rightarrow> element \<Rightarrow> entry list \<times> bool" where
  "el_entries br semantic f el =
     (let n = el_name el in
      if n = [] \<or> el_disabled el then ([], False)
      else if semantic \<and> f_clk f \<noteq> None \<and> el_type el = u ''image'' then
        (if is_clk (f_clk f) el then
           (\<lparr>e_name = n, e_value = Text (jq_val br el), e_type = Some (el_type el), e_required = None\<rparr>
              # coord_entries f n, False)
         else ([], False))
      else (case fieldValue br (f_clk f) el True of
          FArray vs \<Rightarrow> (map (\<lambda>v. plain_entry n (Text v)) vs, True)
        | v \<Rightarrow>
          if fileapi br \<and> el_type el = u ''file'' then
            ((if el_files el \<noteq> []
              then map (\<lambda>x. \<lparr>e_name = n, e_value = File x, e_type = Some (el_type el), e_required = None\<rparr>) (el_files el)
              else [\<lparr>e_name = n, e_value = Text [], e_type = Some (el_type el), e_required = None\<rparr>]), True)
          else (case v of
              FText t \<Rightarrow> ([\<lparr>e_name = n, e_value = Text t, e_type = Some (el_type el),
                            e_required = Some (el_required el)\<rparr>], True)
            | _ \<Rightarrow> ([], False))))"

definition clk_entries :: "browser \<Rightarrow> bool \<Rightarrow> form \<Rightarrow> entry list" where
  "clk_entries br semantic f =
     (case f_clk f of
        None \<Rightarrow> []
      | Some input \<Rightarrow>
          if \<not> semantic \<and> el_name input \<noteq> [] \<and> \<not> el_disabled input \<and> el_type input = u ''image''
          then plain_entry (el_name input) (Text (jq_val br input)) # coord_entries f (el_name input)
          else [])"

text \<open>
  \<open>outside\<close> are the inputs of the document whose \<open>form\<close> attribute names this form. The result
  is the array and the recorded elements.
\<close>

definition form_els :: "bool \<Rightarrow> form \<Rightarrow> element list \<Rightarrow> element list" where
  "form_els semantic f outside =
     (let els = (if semantic then f_all f else f_elements f) in
      if f_id f \<noteq> [] then els @ outside else els)"

definition formToArray :: "browser \<Rightarrow> bool \<Rightarrow> form \<Rightarrow> element list \<Rightarrow> entry list \<times> element list" where
  "formToArray br semantic f outside =
     (let els = form_els semantic f outside in
      if els = [] then ([], [])
      else (concat (map (\<lambda>el. fst (el_entries br semantic f el)) els) @ clk_entries br semantic f,
            filter (\<lambda>el. snd (el_entries br semantic f el)) els))"

subsection \<open>Serialising\<close>

text \<open>A file object converts to the text \<open>[object File]\<close>.\<close>

fun fval_js :: "fval \<Rightarrow> jsval" where
  "fval_js (Text s) = Str s"
| "fval_js (File _) = Str (u ''[object File]'')"
| "fval_js (Coord i) = Num i"

definition entry_js :: "entry \<Rightarrow> jsval" where
  "entry_js e = Obj [(u ''name'', Str (e_name e)), (u ''value'', fval_js (e_value e))]"

definition formSerialize :: "browser \<Rightarrow> bool \<Rightarrow> form \<Rightarrow> element list \<Rightarrow> bool \<Rightarrow> ustr js_result" where
  "formSerialize br semantic f outside traditional =
     param (Arr (map entry_js (fst (formToArray br semantic f outside)))) traditional"

fun field_entries :: "browser \<Rightarrow> element option \<Rightarrow> bool \<Rightarrow> element list \<Rightarrow> entry list" where
  "field_entries br clk successful [] = []"
| "field_entries br clk successful (el # els) =
     (if el_name el = [] then []
      else (case fieldValue br clk el successful of
          FNull \<Rightarrow> []
        | FArray vs \<Rightarrow> map (\<lambda>v. plain_entry (el_name el) (Text v)) vs
        | FText v \<Rightarrow> [plain_entry (el_name el) (Text v)]))
     @ field_entries br clk successful els"

definition fieldSerialize :: "browser \<Rightarrow> element option \<Rightarrow> bool \<Rightarrow> element list \<Rightarrow> bool \<Rightarrow> ustr js_result" where
  "fieldSerialize br clk successful els traditional =
     param (Arr (map entry_js (field_entries br clk successful els))) traditional"

subsection \<open>Changing fields\<close>

definition lower :: "ustr \<Rightarrow> ustr" where
  "lower s = map (\<lambda>c. if 65 \<le> c \<and> c \<le> 90 then c + 32 else c) s"

definition text_types :: "ustr set" where
  "text_types = u ` {''color'', ''date'', ''datetime'', ''email'', ''month'', ''number'', ''password'',
     ''range'', ''search'', ''tel'', ''text'', ''time'', ''url'', ''week''}"

definition set_index :: "int \<Rightarrow> element \<Rightarrow> element" where
  "set_index i el = el\<lparr>selectedIndex := (if 0 \<le> i \<and> nat i < length (el_options el) then i else -1),
     el_options := map (\<lambda>(j, op). op\<lparr>op_selected := (0 \<le> i \<and> j = nat i)\<rparr>) (enumerate 0 (el_options el))\<rparr>"

text \<open>The argument \<open>includeHidden\<close>: false, true, or a selector, given by the test it stands for.\<close>

datatype hidden_arg = No_hidden | All_hidden | Hidden_selector "element \<Rightarrow> bool"

definition clear_field :: "browser \<Rightarrow> hidden_arg \<Rightarrow> element \<Rightarrow> element" where
  "clear_field br includeHidden el =
     (if lower (el_type el) \<in> text_types \<or> el_tag el = u ''textarea'' then el\<lparr>el_value := []\<rparr>
      else if el_type el = u ''checkbox'' \<or> el_type el = u ''radio'' then el\<lparr>el_checked := False\<rparr>
      else if el_tag el = u ''select'' then set_index (-1) el
      else if el_type el = u ''file'' then
        (if msie br then el else el\<lparr>el_value := [], el_files := []\<rparr>)
      else (case includeHidden of
          No_hidden \<Rightarrow> el
        | All_hidden \<Rightarrow> if contains (u ''hidden'') (el_type el) then el\<lparr>el_value := []\<rparr> else el
        | Hidden_selector is_sel \<Rightarrow> if is_sel el then el\<lparr>el_value := []\<rparr> else el))"

definition clearFields :: "browser \<Rightarrow> hidden_arg \<Rightarrow> element list \<Rightarrow> element list" where
  "clearFields br includeHidden els = map (clear_field br includeHidden) els"

definition clearable :: "element \<Rightarrow> bool" where
  "clearable el \<longleftrightarrow> el_tag el \<in> {u ''input'', u ''select'', u ''textarea''}"

definition clearForm :: "browser \<Rightarrow> hidden_arg \<Rightarrow> element list \<Rightarrow> element list" where
  "clearForm br includeHidden els =
     map (\<lambda>el. if clearable el then clear_field br includeHidden el else el) els"

text \<open>
  \<open>resetForm\<close>: a field named \<open>reset\<close> hides the method of the form. One such field is a node, and
  the guard skips the call; two of them are a node list, which passes the guard and cannot be
  called.
\<close>

definition reset_element :: "element \<Rightarrow> element" where
  "reset_element el = el\<lparr>el_value := ct_value (el_reset el), el_checked := ct_checked (el_reset el),
     selectedIndex := ct_index (el_reset el), el_options := ct_options (el_reset el)\<rparr>"

definition resetForm :: "element list \<Rightarrow> element list js_result" where
  "resetForm els =
     (case filter (\<lambda>el. el_name el = u ''reset'') els of
        [] \<Rightarrow> Inr (map reset_element els)
      | [_] \<Rightarrow> Inr els
      | _ \<Rightarrow> Inl TypeError)"

definition enable :: "bool option \<Rightarrow> element list \<Rightarrow> element list" where
  "enable b els = map (\<lambda>el. el\<lparr>el_disabled := \<not> (case b of None \<Rightarrow> True | Some x \<Rightarrow> x)\<rparr>) els"

definition selected_box :: "bool option \<Rightarrow> element \<Rightarrow> element" where
  "selected_box select el =
     (if el_type el = u ''checkbox'' \<or> el_type el = u ''radio''
      then el\<lparr>el_checked := (case select of None \<Rightarrow> True | Some x \<Rightarrow> x)\<rparr> else el)"

text \<open>\<open>selected\<close> on the option at position \<open>i\<close> of a list of type \<open>t\<close>.\<close>

definition selected_option :: "bool option \<Rightarrow> ustr \<Rightarrow> nat \<Rightarrow> opt list \<Rightarrow> opt list" where
  "selected_option select t i ops =
     (let sel = (case select of None \<Rightarrow> True | Some x \<Rightarrow> x);
          ops' = (if sel \<and> t = u ''select-one'' then map (\<lambda>op. op\<lparr>op_selected := False\<rparr>) ops else ops)
      in if i < length ops' then ops'[i := (ops' ! i)\<lparr>op_selected := sel\<rparr>] else ops')"


subsection \<open>Serialised forms\<close>

lemma element_pairs_entries:
  "element_pairs (map entry_js es) = map (\<lambda>e. (e_name e, fval_js (e_value e))) es"
  by (simp add: element_pairs_def entry_js_def get_prop_def)

definition entry_pair :: "entry \<Rightarrow> ustr \<times> ustr" where
  "entry_pair e = (e_name e, scalar_text (fval_js (e_value e)))"

definition good_entry :: "entry \<Rightarrow> bool" where
  "good_entry e \<longleftrightarrow> good_pair (e_name e, fval_js (e_value e))"

definition entries_text :: "entry list \<times> bool \<Rightarrow> ustr js_result" where
  "entries_text x = param (Arr (map entry_js (fst x))) (snd x)"

definition entries_ok :: "entry list \<times> bool \<Rightarrow> bool" where
  "entries_ok x \<longleftrightarrow> fst x \<noteq> [] \<and> list_all good_entry (fst x)"

interpretation fs: query_serialiser entries_text "\<lambda>x. map entry_pair (fst x)" entries_ok
proof
  fix x :: "entry list \<times> bool"
  assume "entries_ok x"
  then have "sendable (Arr (map entry_js (fst x)), snd x)"
    by (auto simp: sendable_def entries_ok_def element_pairs_entries list_all_iff good_entry_def)
  from pm.parse_ser [OF this]
  show "\<exists>q. entries_text x = Inr q \<and> q \<noteq> [] \<and> parse_query q = Inr (map entry_pair (fst x))"
    by (simp add: entries_text_def sent_pairs_def element_pairs_entries entry_pair_def [abs_def] comp_def)
qed

text \<open>
  C24. The text of a form is the form. If the form has at least one entry and its names and
  values are well-formed UTF-16, then \<open>formSerialize\<close> and \<open>fieldSerialize\<close> return a text, and
  reading the text gives exactly the names and values of the entries, in order.
\<close>

theorem formSerialize_reads_back:
  assumes "fst (formToArray br semantic f outside) \<noteq> []"
    and "list_all good_entry (fst (formToArray br semantic f outside))"
    and "field_entries br clk successful els \<noteq> []" and "list_all good_entry (field_entries br clk successful els)"
  shows "\<exists>q r. formSerialize br semantic f outside tr = Inr q \<and>
    parse_query q = Inr (map entry_pair (fst (formToArray br semantic f outside))) \<and>
    fieldSerialize br clk successful els tr = Inr r \<and>
    parse_query r = Inr (map entry_pair (field_entries br clk successful els))"
  using fs.parse_ser [of "(fst (formToArray br semantic f outside), tr)"]
    fs.parse_ser [of "(field_entries br clk successful els, tr)"] assms
  by (auto simp: entries_ok_def entries_text_def formSerialize_def fieldSerialize_def)

definition text_input :: "string \<Rightarrow> ustr \<Rightarrow> element" where
  "text_input n v = \<lparr>el_id = 1, el_name = u n, el_type = u ''text'', el_tag = u ''input'', el_disabled = False,
     el_required = False, el_checked = False, el_value = v, el_value_attr = True, selectedIndex = 0, el_options = [],
     el_files = [], el_owned = True, el_class = [],
     el_reset = \<lparr>ct_value = [], ct_checked = False, ct_index = 0, ct_options = []\<rparr>\<rparr>"

definition sample_form :: "element list \<Rightarrow> form" where
  "sample_form els = \<lparr>f_id = u ''f'', f_elements = els, f_all = els, f_clk = None, clk_x = 0, clk_y = 0\<rparr>"

definition sample_browser :: browser where
  "sample_browser = \<lparr>fileapi = True, formdata_api = True, check_on = True, msie = False, msie678 = False, opera = False\<rparr>"

lemmas sample_defs = text_input_def sample_form_def sample_browser_def

lemma sample_entries:
  "fst (formToArray sample_browser False (sample_form [text_input ''q'' (u ''a b'')]) []) =
    [\<lparr>e_name = u ''q'', e_value = Text (u ''a b''), e_type = Some (u ''text''), e_required = Some False\<rparr>]"
  "field_entries sample_browser None True [text_input ''q'' (u ''a b'')] = [plain_entry (u ''q'') (Text (u ''a b''))]"
  by (simp_all add: sample_defs formToArray_def form_els_def el_entries_def clk_entries_def fieldValue_def
      unsuccessful_def jq_val_def) (simp_all add: js_simps)

lemma good_entry_ascii:
  assumes "list_all (\<lambda>c. c < 128) (e_name e @ s)" and "e_value e = Text s"
  shows "good_entry e"
proof -
  have "encodeURIComponent s \<noteq> None" if "list_all (\<lambda>c. c < 128) s" for s
    using that by (induction s) (auto simp: low_surrogate_def high_surrogate_def)
  then have "encodable s" if "list_all (\<lambda>c. c < 128) s" for s
    using that by (fastforce simp: encodable_def wf_ustr_def list_all_iff)
  then show ?thesis using assms by (simp add: good_entry_def good_pair_def scalar_text_def)
qed

theorem formSerialize_reads_back_witness:
  "\<exists>q r. formSerialize sample_browser False (sample_form [text_input ''q'' (u ''a b'')]) [] False = Inr q \<and>
    parse_query q = Inr [(u ''q'', u ''a b'')] \<and>
    fieldSerialize sample_browser None True [text_input ''q'' (u ''a b'')] False = Inr r \<and>
    parse_query r = Inr [(u ''q'', u ''a b'')]"
proof -
  let ?es = "fst (formToArray sample_browser False (sample_form [text_input ''q'' (u ''a b'')]) [])"
  let ?fs = "field_entries sample_browser None True [text_input ''q'' (u ''a b'')]"
  have g: "list_all good_entry ?es" "list_all good_entry ?fs"
    unfolding sample_entries by (auto simp: plain_entry_def intro!: good_entry_ascii simp: js_simps)
  have ne: "?es \<noteq> []" "?fs \<noteq> []" unfolding sample_entries by simp_all
  have p: "map entry_pair ?es = [(u ''q'', u ''a b'')]" "map entry_pair ?fs = [(u ''q'', u ''a b'')]"
    unfolding sample_entries by (simp_all add: entry_pair_def plain_entry_def scalar_text_def)
  from formSerialize_reads_back [OF ne(1) g(1) ne(2) g(2), of False] show ?thesis
    unfolding p .
qed


subsection \<open>What a form leaves out and what clearing it does\<close>

lemma fieldValue_unsuccessful: "unsuccessful clk el \<Longrightarrow> fieldValue br clk el True = FNull"
  by (simp add: fieldValue_def)

lemma unsuccessful_entries:
  assumes "unsuccessful (f_clk f) el" and "\<not> semantic \<or> f_clk f = None"
    and "el_type el = u ''file'' \<longrightarrow> el_tag el \<noteq> u ''select''"
  shows "fst (el_entries br semantic f el) = []"
proof (cases "el_type el = u ''file''")
  case True
  then have "el_name el = [] \<or> el_disabled el" using assms(1,3) by (auto simp: unsuccessful_def)
  then show ?thesis by (auto simp: el_entries_def)
next
  case False
  then show ?thesis using assms by (auto simp: el_entries_def fieldValue_unsuccessful Let_def)
qed

lemma el_entries_names:
  assumes "\<not> semantic \<or> f_clk f = None" and "e \<in> set (fst (el_entries br semantic f el))"
  shows "e_name e = el_name el"
  using assms by (auto simp: el_entries_def plain_entry_def Let_def split: if_splits fv.splits)

text \<open>The types a browser reports are consistent: only a select has the type of a select,
  and only a text area that of a text area.\<close>

definition wf_element :: "element \<Rightarrow> bool" where
  "wf_element el \<longleftrightarrow> (el_tag el = u ''select'' \<longleftrightarrow> el_type el \<in> {u ''select-one'', u ''select-multiple''}) \<and>
     (el_tag el = u ''textarea'' \<longleftrightarrow> el_type el = u ''textarea'')"

text \<open>
  Fields that are not successful are not sent. If every field of a name is unsuccessful (it
  is disabled, a reset or push button, an unchecked box, a submit button that was not clicked, or
  a list without selection), then no entry of the array has that name, unless it comes from a
  clicked image.
\<close>

theorem unsuccessful_not_sent:
  assumes "\<forall>el \<in> set (form_els semantic f outside). wf_element el \<and> (el_name el = n \<longrightarrow> unsuccessful (f_clk f) el)"
    and "\<forall>c. f_clk f = Some c \<longrightarrow> el_type c \<noteq> u ''image'' \<and> \<not> semantic"
  shows "n \<notin> e_name ` set (fst (formToArray br semantic f outside))"
proof
  assume "n \<in> e_name ` set (fst (formToArray br semantic f outside))"
  then obtain e where e: "e \<in> set (fst (formToArray br semantic f outside))" "e_name e = n" by blast
  have "clk_entries br semantic f = []" using assms(2) by (auto simp: clk_entries_def split: option.splits)
  with e obtain el where el: "el \<in> set (form_els semantic f outside)" "e \<in> set (fst (el_entries br semantic f el))"
    by (auto simp: formToArray_def Let_def split: if_splits)
  have s: "\<not> semantic \<or> f_clk f = None" using assms(2) by (cases "f_clk f") auto
  have "el_name el = n" using el_entries_names [OF s el(2)] e(2) by simp
  then have "fst (el_entries br semantic f el) = []"
    using assms(1) el(1) by (intro unsuccessful_entries [OF _ s]) (auto simp: wf_element_def)
  with el(2) show False by simp
qed

theorem unsuccessful_not_sent_witness:
  "u ''c'' \<notin> e_name ` set (fst (formToArray sample_browser False
     (sample_form [text_input ''q'' (u ''1''), (text_input ''c'' (u ''2''))\<lparr>el_type := u ''checkbox''\<rparr>]) []))"
  by (rule unsuccessful_not_sent)
    (simp_all add: sample_defs form_els_def wf_element_def unsuccessful_def)

lemma literal_types:
  "\<forall>t \<in> {''select-one'', ''select-multiple'', ''checkbox'', ''radio'', ''file'', ''hidden'', ''submit'',
     ''button'', ''reset'', ''image''}. lower (u t) \<notin> text_types"
  by (simp add: lower_def text_types_def) (simp add: js_simps)

lemma text_type_not:
  assumes "lower (el_type el) \<in> text_types"
  shows "el_type el \<noteq> u ''select-one'' \<and> el_type el \<noteq> u ''select-multiple'' \<and> el_type el \<noteq> u ''checkbox'' \<and>
    el_type el \<noteq> u ''radio'' \<and> el_type el \<noteq> u ''file'' \<and> el_type el \<noteq> u ''hidden'' \<and> el_type el \<noteq> u ''submit'' \<and>
    el_type el \<noteq> u ''button'' \<and> el_type el \<noteq> u ''reset'' \<and> el_type el \<noteq> u ''image''"
  using assms literal_types by auto

text \<open>The four branches of \<open>clear_field\<close> that change something.\<close>

lemma clear_text:
  assumes "wf_element el" and "lower (el_type el) \<in> text_types \<or> el_tag el = u ''textarea''"
  shows "clear_field br h el = el\<lparr>el_value := []\<rparr>" and "fieldValue br clk (el\<lparr>el_value := []\<rparr>) True \<in> {FNull, FText []}"
  using assms text_type_not [of el]
  by (auto simp: clear_field_def fieldValue_def wf_element_def jq_val_def unsuccessful_def)

lemma clear_box:
  assumes "wf_element el" and "el_type el \<in> {u ''checkbox'', u ''radio''}"
  shows "clear_field br h el = el\<lparr>el_checked := False\<rparr>" and "fieldValue br clk (el\<lparr>el_checked := False\<rparr>) True = FNull"
proof -
  have "lower (el_type el) \<notin> text_types" "el_tag el \<noteq> u ''textarea''"
    using assms text_type_not [of el] by (auto simp: wf_element_def)
  then show "clear_field br h el = el\<lparr>el_checked := False\<rparr>" using assms(2) by (simp add: clear_field_def)
  show "fieldValue br clk (el\<lparr>el_checked := False\<rparr>) True = FNull"
    using assms(2) by (intro fieldValue_unsuccessful) (auto simp: unsuccessful_def)
qed

lemma clear_select:
  assumes "wf_element el" and "el_tag el = u ''select''"
  shows "clear_field br h el = set_index (-1) el" and "fieldValue br clk (set_index (-1) el) True = FNull"
proof -
  have "lower (el_type el) \<notin> text_types" "el_type el \<notin> {u ''checkbox'', u ''radio''}"
    using assms text_type_not [of el] by (auto simp: wf_element_def)
  then show "clear_field br h el = set_index (-1) el" using assms(2) by (simp add: clear_field_def)
  show "fieldValue br clk (set_index (-1) el) True = FNull"
    using assms(2) by (intro fieldValue_unsuccessful) (simp add: unsuccessful_def set_index_def)
qed

lemma set_index_twice: "set_index (-1) (set_index (-1) el) = set_index (-1) el"
proof -
  have m: "map (\<lambda>(j, op). op\<lparr>op_selected := False\<rparr>) (enumerate n ops) = map (\<lambda>op. op\<lparr>op_selected := False\<rparr>) ops"
    for n :: nat and ops :: "opt list"
    by (induction ops arbitrary: n) auto
  show ?thesis by (simp add: set_index_def m)
qed

lemma clear_file:
  assumes "wf_element el" and "el_type el = u ''file''" and "\<not> msie br"
  shows "clear_field br h el = el\<lparr>el_value := [], el_files := []\<rparr>"
    and "fieldValue br clk (el\<lparr>el_value := [], el_files := []\<rparr>) True \<in> {FNull, FText []}"
  using assms text_type_not [of el]
  by (auto simp: clear_field_def fieldValue_def wf_element_def unsuccessful_def jq_val_def)

lemma clear_idem:
  assumes "wf_element el" and "\<not> msie br"
  shows "clear_field br No_hidden (clear_field br No_hidden el) = clear_field br No_hidden el"
proof -
  consider (text_case) "lower (el_type el) \<in> text_types \<or> el_tag el = u ''textarea''"
    | (box) "el_type el \<in> {u ''checkbox'', u ''radio''}" | (sel) "el_tag el = u ''select''"
    | (upload) "el_type el = u ''file''"
    | (other) "\<not> (lower (el_type el) \<in> text_types \<or> el_tag el = u ''textarea'')"
        "el_type el \<notin> {u ''checkbox'', u ''radio''}" "el_tag el \<noteq> u ''select''" "el_type el \<noteq> u ''file''" by blast
  then show ?thesis
  proof cases
    case text_case
    then show ?thesis
      using clear_text(1) [OF assms(1) text_case] clear_text(1) [of "el\<lparr>el_value := []\<rparr>"] assms(1)
      by (simp add: wf_element_def)
  next
    case box
    then show ?thesis
      using clear_box(1) [OF assms(1) box] clear_box(1) [of "el\<lparr>el_checked := False\<rparr>"] assms(1)
      by (simp add: wf_element_def)
  next
    case sel
    then have "wf_element (set_index (-1) el)" "el_tag (set_index (-1) el) = u ''select''"
      using assms(1) by (simp_all add: wf_element_def set_index_def)
    then show ?thesis using clear_select(1) [OF assms(1) sel] clear_select(1) set_index_twice by simp
  next
    case upload
    then show ?thesis
      using clear_file(1) [OF assms(1) upload assms(2)] clear_file(1) [of "el\<lparr>el_value := [], el_files := []\<rparr>", OF _ _ assms(2)]
        assms(1) by (simp add: wf_element_def)
  next
    case other
    then show ?thesis by (simp add: clear_field_def)
  qed
qed

text \<open>
  What \<open>clearForm\<close> leaves to send. After clearing (in a browser other than old Internet
  Explorer), a text field, a text area or a file field has the empty value, a box or a list is not
  sent at all, and a button or hidden field is as it was; clearing twice is clearing once.
\<close>

theorem clearForm_effect:
  assumes "wf_element el" and "clearable el" and "\<not> msie br" and "el' = clear_field br No_hidden el"
  shows "(lower (el_type el) \<in> text_types \<or> el_tag el = u ''textarea'' \<or> el_tag el = u ''select'' \<or>
      el_type el \<in> {u ''checkbox'', u ''radio'', u ''file''} \<longrightarrow>
        fieldValue br clk el' True \<in> {FNull, FText []} \<and> el_files el' \<in> {[], el_files el}) \<and>
    (el_type el \<in> {u ''hidden'', u ''submit'', u ''button'', u ''reset'', u ''image''} \<and> el_tag el = u ''input'' \<longrightarrow> el' = el) \<and>
    clear_field br No_hidden el' = el'"
proof (intro conjI impI)
  assume "lower (el_type el) \<in> text_types \<or> el_tag el = u ''textarea'' \<or> el_tag el = u ''select'' \<or>
      el_type el \<in> {u ''checkbox'', u ''radio'', u ''file''}"
  then consider "lower (el_type el) \<in> text_types \<or> el_tag el = u ''textarea''"
    | "el_tag el = u ''select''" | "el_type el \<in> {u ''checkbox'', u ''radio''}" | "el_type el = u ''file''" by blast
  then show "fieldValue br clk el' True \<in> {FNull, FText []}"
  proof cases
    case 1
    then show ?thesis using clear_text [OF assms(1) 1] assms(4) by simp
  next
    case 2
    then show ?thesis using clear_select [OF assms(1) 2] assms(4) by simp
  next
    case 3
    then show ?thesis using clear_box [OF assms(1) 3] assms(4) by simp
  next
    case 4
    then show ?thesis using clear_file [OF assms(1) 4 assms(3)] assms(4) by simp
  qed
  show "el_files el' \<in> {[], el_files el}"
    by (simp add: assms(4) clear_field_def set_index_def)
next
  assume "el_type el \<in> {u ''hidden'', u ''submit'', u ''button'', u ''reset'', u ''image''} \<and> el_tag el = u ''input''"
  then show "el' = el" using assms(4) text_type_not [of el] by (auto simp: clear_field_def)
next
  show "clear_field br No_hidden el' = el'" using clear_idem [OF assms(1,3)] assms(4) by simp
qed

theorem clearForm_effect_witness:
  "fieldValue sample_browser None (clear_field sample_browser No_hidden (text_input ''q'' (u ''x''))) True \<in> {FNull, FText []}"
  using clearForm_effect [OF _ _ _ refl, of "text_input ''q'' (u ''x'')" sample_browser None]
  by (simp add: sample_defs wf_element_def clearable_def lower_def text_types_def js_simps)

lemma count_concat: "count_list (concat xss) x = sum_list (map (\<lambda>xs. count_list xs x) xss)"
  by (induction xss) simp_all

lemma count_two:
  assumes "y \<in> set xs" and "y \<in> set ys" and "x \<in> set (g y)"
  shows "2 \<le> count_list (concat (map g (xs @ ys))) x"
proof -
  have one: "1 \<le> count_list (concat (map g zs)) x" if "y \<in> set zs" for zs
    using that assms(3) count_list_0_iff [of "concat (map g zs)" x] by force
  from one [OF assms(1)] one [OF assms(2)] show ?thesis by simp
qed

text \<open>
  A field with a \<open>form\<close> attribute is sent twice. Browsers list such a field among the
  elements of its form; the script adds the fields found by that attribute to the list, so each
  entry of the field appears (at least) twice in the array.
\<close>

theorem form_attribute_field_twice:
  assumes "f_id f \<noteq> []" and "el \<in> set (f_elements f)" and "el \<in> set outside"
    and "e \<in> set (fst (el_entries br False f el))"
  shows "2 \<le> count_list (fst (formToArray br False f outside)) e"
proof -
  have "form_els False f outside = f_elements f @ outside" using assms(1) by (simp add: form_els_def)
  moreover have "2 \<le> count_list (concat (map (\<lambda>el. fst (el_entries br False f el)) (f_elements f @ outside))) e"
    using count_two [OF assms(2,3), of e "\<lambda>el. fst (el_entries br False f el)"] assms(4) by simp
  ultimately show ?thesis using assms(2) by (auto simp: formToArray_def Let_def)
qed

theorem form_attribute_field_twice_witness:
  "2 \<le> count_list (fst (formToArray sample_browser False (sample_form [text_input ''q'' (u ''a'')]) [text_input ''q'' (u ''a'')]))
     \<lparr>e_name = u ''q'', e_value = Text (u ''a''), e_type = Some (u ''text''), e_required = Some False\<rparr>"
proof -
  have r: "removeAll 13 (u ''a'') = u ''a''" by (simp add: js_simps)
  show ?thesis
    by (rule form_attribute_field_twice [of _ "text_input ''q'' (u ''a'')"])
      (simp_all add: sample_defs el_entries_def fieldValue_def unsuccessful_def jq_val_def r)
qed

text \<open>
  Choosing an option of a single-choice list with \<open>selected\<close> leaves exactly that option
  selected, and the value of the list is then the value of that option.
\<close>

theorem selected_option_single:
  assumes "i < length ops" and "ops' = selected_option None (u ''select-one'') i ops"
    and "el_tag el = u ''select''" and "el_type el = u ''select-one''" and "\<not> unsuccessful clk el"
    and "el_options el = ops'" and "selectedIndex el = int i"
  shows "(\<forall>j < length ops'. op_selected (ops' ! j) \<longleftrightarrow> j = i) \<and> length ops' = length ops \<and>
    fieldValue br clk el True = FText (option_value (ops ! i))"
proof -
  have o: "ops' = (map (\<lambda>op. op\<lparr>op_selected := False\<rparr>) ops)[i := (ops ! i)\<lparr>op_selected := True\<rparr>]"
    using assms(1,2) by (simp add: selected_option_def)
  have "take 1 (drop i ops') = [(ops ! i)\<lparr>op_selected := True\<rparr>]"
    using assms(1) by (simp add: o take_Suc_conv_app_nth hd_drop_conv_nth take_Suc drop_update_swap)
  then have v: "fieldValue br clk el True = FText (option_value (ops ! i))"
    using assms by (simp add: fieldValue_def option_value_def)
  have "\<forall>j < length ops'. op_selected (ops' ! j) \<longleftrightarrow> j = i" "length ops' = length ops"
    unfolding o using assms(1) by (simp_all add: nth_list_update)
  with v show ?thesis by blast
qed

theorem selected_option_single_witness:
  "fieldValue sample_browser None ((text_input ''q'' [])\<lparr>el_tag := u ''select'', el_type := u ''select-one'', selectedIndex := 1,
      el_options := selected_option None (u ''select-one'') 1
        [\<lparr>op_selected = True, op_value = u ''a'', op_unspecified = False, op_text = []\<rparr>,
         \<lparr>op_selected = False, op_value = u ''b'', op_unspecified = False, op_text = []\<rparr>]\<rparr>) True = FText (u ''b'')"
proof -
  let ?ops = "[\<lparr>op_selected = True, op_value = u ''a'', op_unspecified = False, op_text = []\<rparr>,
         \<lparr>op_selected = False, op_value = u ''b'', op_unspecified = False, op_text = []\<rparr>]"
  show ?thesis
    using selected_option_single [of 1 ?ops _ "(text_input ''q'' [])\<lparr>el_tag := u ''select'', el_type := u ''select-one'',
       selectedIndex := 1, el_options := selected_option None (u ''select-one'') 1 ?ops\<rparr>" None sample_browser, OF _ refl]
    by (simp add: text_input_def unsuccessful_def option_value_def)
qed

end
