(* ===== verification/Form_Submit.thy ===== *)
theory Form_Submit
  imports Form_Fields
begin

text \<open>
  Submitting a form with \<open>js/jquery.form.js\<close>: the pipeline of \<open>ajaxSubmit\<close> from the options to
  the request, the upload by \<open>FormData\<close>, and the event handlers that \<open>ajaxForm\<close> binds.

  The user's hooks (the two vetoable events, \<open>beforeSerialize\<close> and \<open>beforeSubmit\<close>) are
  functions: they may change the form, the options and the array, and say whether they stop the
  submission. The iframe upload is the subject of its own theory.
\<close>

subsection \<open>Options and environment\<close>

text \<open>A property of the form element is a string, or something else that hides it.\<close>

datatype propval = PStr ustr | POther

definition attr2 :: "propval \<Rightarrow> ustr option \<Rightarrow> ustr option" where
  "attr2 val attr = (case val of PStr s \<Rightarrow> Some s | POther \<Rightarrow> attr)"

record form_attrs =
  method_prop :: propval
  method_attr :: "ustr option"
  action_prop :: propval
  action_attr :: "ustr option"
  enctype_attr :: "ustr option"
  encoding_attr :: "ustr option"

record submit_options =
  o_type :: "ustr option"
  o_url :: "ustr option"
  o_data :: jsval
  o_traditional :: "bool option"
  o_semantic :: bool
  o_resetForm :: bool
  o_clearForm :: bool
  o_includeHidden :: bool
  o_dataType :: "ustr option"
  o_target :: "ustr option"
  o_replaceTarget :: bool
  o_success :: "nat option"
  o_error :: "nat option"
  o_complete :: "nat option"
  o_iframe :: "bool option"
  o_closeKeepAlive :: "ustr option"
  o_formData :: "(ustr \<times> fval) list option"

record settings =
  aj_success :: "nat option"
  aj_type :: ustr
  aj_traditional :: bool

record hooks =
  pre_serialize :: "form \<Rightarrow> submit_options \<Rightarrow> form \<times> submit_options \<times> bool"
  beforeSerialize :: "form \<Rightarrow> submit_options \<Rightarrow> form \<times> submit_options \<times> bool"
  beforeSubmit :: "entry list \<Rightarrow> form \<Rightarrow> submit_options \<Rightarrow> entry list \<times> form \<times> submit_options \<times> bool"
  submit_validate :: "entry list \<Rightarrow> form \<Rightarrow> submit_options \<Rightarrow> entry list \<times> form \<times> submit_options \<times> bool"

subsection \<open>Method and address\<close>

definition or_else :: "ustr option \<Rightarrow> ustr option \<Rightarrow> ustr option" where
  "or_else a b = (case a of Some s \<Rightarrow> if s \<noteq> [] then Some s else b | None \<Rightarrow> b)"

definition submit_method :: "form_attrs \<Rightarrow> submit_options \<Rightarrow> ustr option" where
  "submit_method fa opt = or_else (o_type opt) (attr2 (method_prop fa) (method_attr fa))"

text \<open>The value of \<open>(url.match(/^([^#]+)/) || [])[1]\<close>; None is undefined.\<close>

definition clean_url :: "ustr \<Rightarrow> ustr option" where
  "clean_url url = (let t = takeWhile (\<lambda>c. c \<noteq> 35) url in if t = [] then None else Some t)"

definition submit_url :: "form_attrs \<Rightarrow> submit_options \<Rightarrow> ustr \<Rightarrow> ustr option" where
  "submit_url fa opt href =
     (let action = or_else (o_url opt) (attr2 (action_prop fa) (action_attr fa));
          url = (case action of Some a \<Rightarrow> js_trim a | None \<Rightarrow> []);
          url = (if url \<noteq> [] then url else href)
      in if url \<noteq> [] then clean_url url else Some [])"

text \<open>
  The deep copy of the options over the defaults: an option that is given wins over the
  computed default.
\<close>

definition extend_options :: "settings \<Rightarrow> form_attrs \<Rightarrow> ustr \<Rightarrow> submit_options \<Rightarrow> submit_options" where
  "extend_options st fa href opt =
     opt\<lparr>o_url := (case o_url opt of Some s \<Rightarrow> Some s | None \<Rightarrow> submit_url fa opt href),
         o_success := (case o_success opt of Some f \<Rightarrow> Some f | None \<Rightarrow> aj_success st),
         o_type := (case o_type opt of Some s \<Rightarrow> Some s
           | None \<Rightarrow> (case submit_method fa opt of
               Some m \<Rightarrow> Some (if m \<noteq> [] then m else aj_type st) | None \<Rightarrow> Some (aj_type st)))\<rparr>"

subsection \<open>Callbacks\<close>

datatype cb = Reset_form | Clear_form bool | Load_target ustr bool "nat option" | Call nat

definition success_callbacks :: "submit_options \<Rightarrow> cb list" where
  "success_callbacks opt =
     (if o_resetForm opt then [Reset_form] else [])
     @ (if o_clearForm opt then [Clear_form (o_includeHidden opt)] else [])
     @ (case (o_dataType opt, o_target opt) of
          (None, Some target) \<Rightarrow> [Load_target target (o_replaceTarget opt) (o_success opt)]
        | _ \<Rightarrow> (case o_success opt of Some f \<Rightarrow> [Call f] | None \<Rightarrow> []))"

subsection \<open>The request\<close>

datatype transport = Iframe "ustr option" | Upload | Ajax

record prepared =
  p_url :: "ustr option"     \<comment> \<open>None: undefined, for which jQuery takes the page's address\<close>
  p_type :: ustr
  p_data :: "ustr option"
  p_extra :: jsval
  p_callbacks :: "cb list"
  p_options :: submit_options
  p_entries :: "entry list"
  p_recorded :: "element list"

datatype outcome =
    No_element
  | Vetoed_pre_serialize
  | Aborted_beforeSerialize
  | Aborted_beforeSubmit
  | Vetoed_validate
  | Raised js_exn
  | Sent transport prepared

definition upper :: "ustr \<Rightarrow> ustr" where
  "upper s = map (\<lambda>c. if 97 \<le> c \<and> c \<le> 122 then c - 32 else c) s"

text \<open>The query of the form and of the extra data, and where they go.\<close>

definition join_query :: "ustr \<Rightarrow> ustr option \<Rightarrow> ustr" where
  "join_query q qx = (case qx of
     Some x \<Rightarrow> if x \<noteq> [] then (if q \<noteq> [] then q @ [38] @ x else x) else q
   | None \<Rightarrow> q)"

definition place_query :: "submit_options \<Rightarrow> ustr \<Rightarrow> (ustr option \<times> ustr \<times> ustr option) js_result" where
  "place_query opt q =
     (case (o_type opt, o_url opt) of
        (None, _) \<Rightarrow> Inl TypeError
      | (Some t, None) \<Rightarrow> if upper t = u ''GET'' then Inl TypeError else Inr (None, t, Some q)
      | (Some t, Some url) \<Rightarrow>
          if upper t = u ''GET''
          then Inr (Some (url @ (if 63 \<in> set url then [38] else [63]) @ q), t, None)
          else Inr (Some url, t, Some q))"

definition has_file_inputs :: "browser \<Rightarrow> form \<Rightarrow> bool" where
  "has_file_inputs br f \<longleftrightarrow> (\<exists>el \<in> set (f_all f). el_tag el = u ''input'' \<and> el_type el = u ''file''
     \<and> \<not> el_disabled el \<and> jq_val br el \<noteq> [])"

definition multipart :: "form_attrs \<Rightarrow> bool" where
  "multipart fa \<longleftrightarrow> enctype_attr fa = Some (u ''multipart/form-data'') \<or> encoding_attr fa = Some (u ''multipart/form-data'')"

definition choose_transport :: "browser \<Rightarrow> form_attrs \<Rightarrow> form \<Rightarrow> submit_options \<Rightarrow> transport" where
  "choose_transport br fa f opt =
     (let hasFileInputs = has_file_inputs br f; mp = multipart fa; fileAPI = fileapi br \<and> formdata_api br;
          shouldUseFrame = (hasFileInputs \<or> mp) \<and> \<not> fileAPI in
      if o_iframe opt \<noteq> Some False \<and> (o_iframe opt = Some True \<or> shouldUseFrame) then Iframe (o_closeKeepAlive opt)
      else if (hasFileInputs \<or> mp) \<and> fileAPI then Upload
      else Ajax)"

definition extra_query :: "settings \<Rightarrow> submit_options \<Rightarrow> ustr option js_result" where
  "extra_query st opt =
     (if truthy (o_data opt)
      then js_bind (param (o_data opt) (case o_traditional opt of Some b \<Rightarrow> b | None \<Rightarrow> aj_traditional st)) (\<lambda>x. Inr (Some x))
      else Inr None)"

definition finish_submit ::
    "browser \<Rightarrow> form_attrs \<Rightarrow> submit_options \<Rightarrow> form \<Rightarrow> entry list \<Rightarrow> element list \<Rightarrow> bool \<Rightarrow> jsval \<Rightarrow> ustr option \<Rightarrow> outcome" where
  "finish_submit br fa opt f a recorded traditional extra qx =
     (case js_bind (param (Arr (map entry_js a)) traditional) (\<lambda>q. place_query opt (join_query q qx)) of
        Inl e \<Rightarrow> Raised e
      | Inr (url, t, data) \<Rightarrow>
          Sent (choose_transport br fa f opt)
            \<lparr>p_url = url, p_type = t, p_data = data, p_extra = extra, p_callbacks = success_callbacks opt,
             p_options = opt, p_entries = a, p_recorded = recorded\<rparr>)"

definition ajaxSubmit ::
    "browser \<Rightarrow> settings \<Rightarrow> ustr \<Rightarrow> hooks \<Rightarrow> form_attrs \<Rightarrow> element list \<Rightarrow> submit_options \<Rightarrow> form option \<Rightarrow> outcome" where
  "ajaxSubmit br st href hk fa outside opt0 f0 =
     (case f0 of
        None \<Rightarrow> No_element
      | Some f0 \<Rightarrow>
          (let (f1, opt1, veto1) = pre_serialize hk f0 (extend_options st fa href opt0) in
           if veto1 then Vetoed_pre_serialize else
           (let (f2, opt2, stop2) = beforeSerialize hk f1 opt1 in
            if stop2 then Aborted_beforeSerialize else
            (let traditional = (case o_traditional opt2 of Some b \<Rightarrow> b | None \<Rightarrow> aj_traditional st);
                 (a, recorded) = formToArray br (o_semantic opt2) f2 outside in
             case extra_query st opt2 of
               Inl e \<Rightarrow> Raised e
             | Inr qx \<Rightarrow>
                 (let (a3, f3, opt3, stop3) = beforeSubmit hk a f2 opt2 in
                  if stop3 then Aborted_beforeSubmit else
                  (let (a4, f4, opt4, veto4) = submit_validate hk a3 f3 opt3 in
                   if veto4 then Vetoed_validate
                   else finish_submit br fa opt4 f4 a4 recorded traditional (o_data opt2) qx))))))"

subsection \<open>Upload by FormData\<close>

record upload =
  up_type :: ustr
  up_contentType :: bool
  up_processData :: bool
  up_cache :: bool
  up_data :: "(ustr \<times> fval) list"

definition fileUploadXhr :: "form_attrs \<Rightarrow> submit_options \<Rightarrow> settings \<Rightarrow> prepared \<Rightarrow> upload js_result" where
  "fileUploadXhr fa opt0 st p =
     (let fields = map (\<lambda>e. (e_name e, e_value e)) (p_entries p);
          traditional = (case o_traditional (p_options p) of Some b \<Rightarrow> b | None \<Rightarrow> aj_traditional st);
          m = submit_method fa opt0 in
      js_bind (if truthy (p_extra p) then deepSerialize (p_extra p) traditional else Inr []) (\<lambda>extra.
        Inr \<lparr>up_type = (case m of Some s \<Rightarrow> if s \<noteq> [] then s else u ''POST'' | None \<Rightarrow> u ''POST''),
             up_contentType = False, up_processData = False, up_cache = False,
             up_data = (case o_formData (p_options p) of Some d \<Rightarrow> d
               | None \<Rightarrow> fields @ map (\<lambda>(k, v). (k, Text v)) extra)\<rparr>))"

subsection \<open>The bound handlers\<close>

text \<open>Handlers on the form (or, by delegation, on the document): event and name space.\<close>

datatype handler_kind = Submit_handler | Click_handler

record binding =
  b_kind :: handler_kind
  b_ns :: ustr
  b_delegated :: bool

record page_state =
  dom_ready :: bool
  bindings :: "binding list"
  queued :: nat

definition form_plugin :: "handler_kind \<Rightarrow> bool \<Rightarrow> binding" where
  "form_plugin k d = \<lparr>b_kind = k, b_ns = u ''form-plugin'', b_delegated = d\<rparr>"

definition ajaxFormUnbind :: "page_state \<Rightarrow> page_state" where
  "ajaxFormUnbind s = s\<lparr>bindings := filter (\<lambda>b. \<not> (b_ns b = u ''form-plugin'' \<and> \<not> b_delegated b)) (bindings s)\<rparr>"

definition ajaxForm :: "bool \<Rightarrow> nat \<Rightarrow> bool \<Rightarrow> page_state \<Rightarrow> page_state" where
  "ajaxForm delegation found has_selector s =
     (if \<not> delegation \<and> found = 0 then
        (if \<not> dom_ready s \<and> has_selector then s\<lparr>queued := Suc (queued s)\<rparr> else s)
      else if delegation then
        s\<lparr>bindings := removeAll (form_plugin Click_handler True) (removeAll (form_plugin Submit_handler True) (bindings s))
           @ [form_plugin Submit_handler True, form_plugin Click_handler True]\<rparr>
      else (let s1 = ajaxFormUnbind s in
        s1\<lparr>bindings := bindings s1 @ [form_plugin Submit_handler False, form_plugin Click_handler False]\<rparr>))"

text \<open>\<open>doAjaxSubmit\<close>: the outcome, if the event was not cancelled, and whether it is cancelled after.\<close>

definition doAjaxSubmit :: "bool \<Rightarrow> (unit \<Rightarrow> outcome) \<Rightarrow> outcome option \<times> bool" where
  "doAjaxSubmit prevented submit = (if prevented then (None, True) else (Some (submit ()), True))"

text \<open>
  A click. \<open>ck_closest\<close> is the nearest submit element around the target, \<open>ck_offset\<close> the event's
  own offset and \<open>ck_page\<close>, \<open>ck_origin\<close> the page coordinates of the click and of the target.
\<close>

record click =
  ck_target :: element
  ck_closest :: "element option"
  ck_offset :: "(int \<times> int) option"
  ck_page :: "int \<times> int"
  ck_origin :: "int \<times> int"

definition submitting_target :: "click \<Rightarrow> element option" where
  "submitting_target e =
     (if el_type (ck_target e) = u ''submit'' \<or> el_type (ck_target e) = u ''image'' then Some (ck_target e)
      else ck_closest e)"

text \<open>The handler; the timer it starts runs \<open>clear_clk\<close> after 100 ms.\<close>

definition captureSubmittingElement :: "click \<Rightarrow> form \<Rightarrow> form" where
  "captureSubmittingElement e f =
     (case submitting_target e of
        None \<Rightarrow> f
      | Some t \<Rightarrow>
          (let f1 = f\<lparr>f_clk := Some t\<rparr> in
           if el_type t = u ''image'' then
             (case ck_offset e of
                Some (x, y) \<Rightarrow> f1\<lparr>clk_x := x, clk_y := y\<rparr>
              | None \<Rightarrow> f1\<lparr>clk_x := fst (ck_page e) - fst (ck_origin e), clk_y := snd (ck_page e) - snd (ck_origin e)\<rparr>)
           else f1))"

definition clear_clk :: "form \<Rightarrow> form" where
  "clear_clk f = f\<lparr>f_clk := None, clk_x := 0, clk_y := 0\<rparr>"


subsection \<open>What is sent\<close>

definition no_hooks :: hooks where
  "no_hooks = \<lparr>pre_serialize = \<lambda>f opt. (f, opt, False), beforeSerialize = \<lambda>f opt. (f, opt, False),
     beforeSubmit = \<lambda>a f opt. (a, f, opt, False), submit_validate = \<lambda>a f opt. (a, f, opt, False)\<rparr>"

abbreviation effective_traditional :: "settings \<Rightarrow> submit_options \<Rightarrow> bool" where
  "effective_traditional st opt \<equiv> (case o_traditional opt of Some b \<Rightarrow> b | None \<Rightarrow> aj_traditional st)"

lemma extend_simps [simp]:
  "o_data (extend_options st fa href opt) = o_data opt"
  "o_traditional (extend_options st fa href opt) = o_traditional opt"
  "o_semantic (extend_options st fa href opt) = o_semantic opt"
  "o_iframe (extend_options st fa href opt) = o_iframe opt"
  by (simp_all add: extend_options_def)

lemma ajaxSubmit_no_hooks:
  assumes "formToArray br (o_semantic opt) f outside = (a, recorded)"
  shows "ajaxSubmit br st href no_hooks fa outside opt (Some f) =
    (case extra_query st (extend_options st fa href opt) of
       Inl e \<Rightarrow> Raised e
     | Inr qx \<Rightarrow> finish_submit br fa (extend_options st fa href opt) f a recorded (effective_traditional st opt) (o_data opt) qx)"
  using assms by (simp add: ajaxSubmit_def no_hooks_def split: sum.splits)

text \<open>The query of a submission and what it reads back as.\<close>

lemma submitted_query:
  assumes "entries_ok (a, tr)" and "tr = effective_traditional st opt"
    and "truthy (o_data opt) \<longrightarrow> sendable (o_data opt, tr)"
  obtains q qx where "extra_query st (extend_options st fa href opt) = Inr qx"
    and "entries_text (a, tr) = Inr q"
    and "parse_query (join_query q qx)
      = Inr (map entry_pair a @ (if truthy (o_data opt) then sent_pairs (o_data opt, tr) else []))"
proof -
  from fs.parse_ser [OF assms(1)] obtain q where q: "entries_text (a, tr) = Inr q" "q \<noteq> []"
    "parse_query q = Inr (map entry_pair a)" by auto
  show thesis
  proof (cases "truthy (o_data opt)")
    case True
    with assms(3) pm.parse_ser [of "(o_data opt, tr)"] obtain x where
      x: "param (o_data opt) tr = Inr x" "x \<noteq> []" "parse_query x = Inr (sent_pairs (o_data opt, tr))" by auto
    have "parse_query (q @ 38 # x) = Inr (map entry_pair a @ sent_pairs (o_data opt, tr))"
      using fs.parse_joined [OF assms(1) q(1) x(3)] by simp
    with True x q that [of "Some x" q] assms(2) show thesis
      by (simp add: extra_query_def join_query_def)
  next
    case False
    with q that [of None q] show thesis by (simp add: extra_query_def join_query_def)
  qed
qed

lemma finish_sent:
  assumes "entries_text (a, tr) = Inr q" and "o_type opt = Some t" and "o_url opt = Some url"
  shows "\<exists>p. finish_submit br fa opt f a recorded tr extra qx = Sent (choose_transport br fa f opt) p \<and>
    p_entries p = a \<and> p_extra p = extra \<and> p_type p = t \<and> p_callbacks p = success_callbacks opt \<and>
    (if upper t = u ''GET''
     then p_data p = None \<and> p_url p = Some (url @ (if 63 \<in> set url then [38] else [63]) @ join_query q qx)
     else p_data p = Some (join_query q qx) \<and> p_url p = Some url)"
  using assms by (simp add: finish_submit_def entries_text_def place_query_def)


definition sample_options :: submit_options where
  "sample_options = \<lparr>o_type = None, o_url = None, o_data = Undefined, o_traditional = None, o_semantic = False,
     o_resetForm = False, o_clearForm = True, o_includeHidden = False, o_dataType = None, o_target = None,
     o_replaceTarget = False, o_success = Some 0, o_error = None, o_complete = None, o_iframe = None,
     o_closeKeepAlive = None, o_formData = None\<rparr>"

definition sample_settings :: settings where
  "sample_settings = \<lparr>aj_success = None, aj_type = u ''GET'', aj_traditional = False\<rparr>"

definition sample_attrs :: form_attrs where
  "sample_attrs = \<lparr>method_prop = PStr (u ''get''), method_attr = None, action_prop = PStr (u ''/search#top''),
     action_attr = None, enctype_attr = None, encoding_attr = None\<rparr>"

lemma sample_extended:
  "o_type (extend_options sample_settings sample_attrs (u ''/'') sample_options) = Some (u ''get'')"
  "o_url (extend_options sample_settings sample_attrs (u ''/'') sample_options) = Some (u ''/search'')"
  by (simp_all add: extend_options_def sample_options_def sample_settings_def sample_attrs_def submit_method_def
      submit_url_def or_else_def attr2_def clean_url_def js_trim_def js_ws_def js_simps)


text \<open>
  A veto is final. If the listeners of either vetoable event veto, or either callback returns
  false, no request is made, whatever the form, the options and the browser.
\<close>

theorem veto_sends_nothing:
  assumes "(\<forall>f opt. snd (snd (pre_serialize hk f opt))) \<or> (\<forall>f opt. snd (snd (beforeSerialize hk f opt))) \<or>
    (\<forall>a f opt. snd (snd (snd (beforeSubmit hk a f opt)))) \<or> (\<forall>a f opt. snd (snd (snd (submit_validate hk a f opt))))"
  shows "ajaxSubmit br st href hk fa outside opt f \<noteq> Sent tp p"
proof (cases f)
  case (Some f0)
  obtain f1 opt1 b1 where 1: "pre_serialize hk f0 (extend_options st fa href opt) = (f1, opt1, b1)" by (metis prod_cases3)
  obtain f2 opt2 b2 where 2: "beforeSerialize hk f1 opt1 = (f2, opt2, b2)" by (metis prod_cases3)
  obtain a r where a: "formToArray br (o_semantic opt2) f2 outside = (a, r)" by force
  obtain a3 f3 opt3 b3 where 3: "beforeSubmit hk a f2 opt2 = (a3, f3, opt3, b3)" by (metis prod_cases4)
  obtain a4 f4 opt4 b4 where 4: "submit_validate hk a3 f3 opt3 = (a4, f4, opt4, b4)" by (metis prod_cases4)
  have "b1 \<or> b2 \<or> b3 \<or> b4" using assms 1 2 3 4 by (metis snd_conv)
  then show ?thesis using Some 1 2 3 4 a by (auto simp: ajaxSubmit_def split: sum.splits)
qed (simp add: ajaxSubmit_def)

theorem veto_sends_nothing_witness:
  "\<forall>tp p. ajaxSubmit sample_browser sample_settings (u ''/'') (no_hooks\<lparr>beforeSubmit := \<lambda>a f opt. (a, f, opt, True)\<rparr>)
     sample_attrs [] sample_options (Some (sample_form [])) \<noteq> Sent tp p"
  using veto_sends_nothing [of "no_hooks\<lparr>beforeSubmit := \<lambda>a f opt. (a, f, opt, True)\<rparr>"] by simp


lemma clean_url_no_hash: "clean_url s = Some url \<Longrightarrow> 35 \<notin> set url"
  by (auto simp: clean_url_def Let_def dest: set_takeWhileD split: if_splits)

lemma takeWhile_cut: "x \<in> set s \<Longrightarrow> takeWhile (\<lambda>c. c \<noteq> x) (s @ t) = takeWhile (\<lambda>c. c \<noteq> x) s"
  by (rule takeWhile_append1 [of x]) simp_all

text \<open>
  The clean-up of the address only helps forms without an explicit address. Without the
  option \<open>url\<close>, the address of the request has no fragment. With it, a fragment stays in place,
  so that for a GET the part of the address before the fragment, all that reaches the server, has
  nothing of the form's data.
\<close>

theorem explicit_url_keeps_fragment:
  "(o_url opt = None \<longrightarrow> (\<forall>url. o_url (extend_options st fa href opt) = Some url \<longrightarrow> 35 \<notin> set url)) \<and>
   (o_url opt = Some target \<longrightarrow> 35 \<in> set target \<longrightarrow>
     ajaxSubmit br st href no_hooks fa outside opt (Some f) = Sent tp p \<longrightarrow>
     (\<exists>url. p_url p = Some url \<and> takeWhile (\<lambda>c. c \<noteq> 35) url = takeWhile (\<lambda>c. c \<noteq> 35) target))"
proof (intro conjI impI allI)
  fix url
  assume "o_url opt = None" and "o_url (extend_options st fa href opt) = Some url"
  then show "35 \<notin> set url"
    by (auto simp: extend_options_def submit_url_def Let_def clean_url_no_hash split: if_splits)
next
  assume t: "o_url opt = Some target" "35 \<in> set target"
    and s: "ajaxSubmit br st href no_hooks fa outside opt (Some f) = Sent tp p"
  obtain a r where a: "formToArray br (o_semantic opt) f outside = (a, r)" by force
  have o: "o_url (extend_options st fa href opt) = Some target" using t by (simp add: extend_options_def)
  from s a o show "\<exists>url. p_url p = Some url \<and> takeWhile (\<lambda>c. c \<noteq> 35) url = takeWhile (\<lambda>c. c \<noteq> 35) target"
    by (auto simp: ajaxSubmit_no_hooks [OF a] finish_submit_def place_query_def js_bind_def takeWhile_cut [OF t(2)]
        split: sum.splits option.splits if_splits)
qed

theorem explicit_url_keeps_fragment_witness:
  "\<exists>tp p url. ajaxSubmit sample_browser sample_settings (u ''/'') no_hooks sample_attrs [] (sample_options\<lparr>o_url := Some (u ''/s#x'')\<rparr>)
      (Some (sample_form [])) = Sent tp p \<and> p_url p = Some url \<and> takeWhile (\<lambda>c. c \<noteq> 35) url = u ''/s''"
proof -
  let ?opt = "sample_options\<lparr>o_url := Some (u ''/s#x'')\<rparr>"
  have f: "formToArray sample_browser (o_semantic ?opt) (sample_form []) [] = ([], [])"
    by (simp add: formToArray_def form_els_def clk_entries_def sample_form_def sample_options_def)
  have ty: "o_type (extend_options sample_settings sample_attrs (u ''/'') ?opt) = Some (u ''get'')"
    by (simp add: extend_options_def sample_options_def sample_settings_def sample_attrs_def submit_method_def or_else_def attr2_def js_simps)
  have ur: "o_url (extend_options sample_settings sample_attrs (u ''/'') ?opt) = Some (u ''/s#x'')"
    by (simp add: extend_options_def)
  have nd: "\<not> truthy (o_data ?opt)" "upper (u ''get'') = u ''GET''" by (simp_all add: sample_options_def upper_def js_simps)
  obtain tp p where s: "ajaxSubmit sample_browser sample_settings (u ''/'') no_hooks sample_attrs [] ?opt (Some (sample_form [])) = Sent tp p"
    using nd by (simp add: ajaxSubmit_no_hooks [OF f] extra_query_def finish_submit_def element_pairs_def param_def place_query_def ty ur)
  have "takeWhile (\<lambda>c. c \<noteq> 35) (u ''/s#x'') = u ''/s''" "35 \<in> set (u ''/s#x'')" by (simp_all add: js_simps)
  moreover have "o_url ?opt = Some (u ''/s#x'')" by simp
  ultimately obtain url where "p_url p = Some url" "takeWhile (\<lambda>c. c \<noteq> 35) url = u ''/s''"
    using explicit_url_keeps_fragment [of ?opt sample_settings sample_attrs "u ''/''" "u ''/s#x''" sample_browser "[]" "sample_form []" tp p] s
    by auto
  with s show ?thesis by blast
qed

text \<open>
  A form with a chosen file, or one declared as multipart, is never sent as a plain query,
  unless the option \<open>iframe\<close> is false in a browser without the file interfaces; and with these
  interfaces a frame is used only on request. An upload carries the form's entries in
  order, files included, followed by the pairs of the extra data, or the user's own \<open>FormData\<close>.
\<close>

theorem file_form_transport:
  "(has_file_inputs br f \<or> multipart fa \<longrightarrow> o_iframe opt \<noteq> Some False \<or> fileapi br \<and> formdata_api br \<longrightarrow>
      choose_transport br fa f opt \<noteq> Ajax) \<and>
   (fileapi br \<and> formdata_api br \<longrightarrow> choose_transport br fa f opt = Iframe k \<longrightarrow> o_iframe opt = Some True) \<and>
   (truthy (p_extra p) \<longrightarrow> sendable (p_extra p, effective_traditional st (p_options p)) \<longrightarrow>
     (\<exists>up. fileUploadXhr fa opt st p = Inr up \<and>
       up_data up = (case o_formData (p_options p) of Some d \<Rightarrow> d
         | None \<Rightarrow> map (\<lambda>e. (e_name e, e_value e)) (p_entries p) @
             map (\<lambda>(k, v). (k, Text v)) (sent_pairs (p_extra p, effective_traditional st (p_options p))))))"
proof (intro conjI impI)
  assume t: "truthy (p_extra p)" and s: "sendable (p_extra p, effective_traditional st (p_options p))"
  obtain kvs where kvs: "param_pairs (p_extra p) (effective_traditional st (p_options p)) = Inr kvs"
    "kvs \<noteq> []" "\<forall>kv \<in> set kvs. good_pair kv"
    using s by (auto simp: sendable_def list_all_iff split: sum.splits)
  have "deepSerialize (p_extra p) (effective_traditional st (p_options p))
      = Inr (sent_pairs (p_extra p, effective_traditional st (p_options p)))"
    using deepSerialize_pairs [OF kvs(1,3,2)] kvs(1) by (simp add: sent_pairs_def)
  then show "\<exists>up. fileUploadXhr fa opt st p = Inr up \<and>
       up_data up = (case o_formData (p_options p) of Some d \<Rightarrow> d
         | None \<Rightarrow> map (\<lambda>e. (e_name e, e_value e)) (p_entries p) @
             map (\<lambda>(k, v). (k, Text v)) (sent_pairs (p_extra p, effective_traditional st (p_options p))))"
    using t by (simp add: fileUploadXhr_def Let_def)
qed (auto simp: choose_transport_def Let_def split: if_splits)

theorem file_form_transport_witness:
  "choose_transport sample_browser (sample_attrs\<lparr>enctype_attr := Some (u ''multipart/form-data'')\<rparr>) (sample_form []) sample_options
    \<noteq> Ajax"
  using file_form_transport [where br = sample_browser and fa = "sample_attrs\<lparr>enctype_attr := Some (u ''multipart/form-data'')\<rparr>"
      and f = "sample_form []" and opt = sample_options]
  by (simp add: multipart_def sample_browser_def)

subsection \<open>Handlers\<close>

text \<open>
  Binding is idempotent and complete: however often \<open>ajaxForm\<close> was called before, after
  calling it on an existing form exactly one submit handler and one click handler of the plugin
  are bound directly, so one submission event leads to one submission; \<open>ajaxFormUnbind\<close> removes
  them and leaves everything else.
\<close>

theorem ajaxForm_binds_once:
  assumes "0 < found" and "s' = ajaxForm False found sel s"
  shows "count_list (bindings s') (form_plugin Submit_handler False) = 1 \<and>
    count_list (bindings s') (form_plugin Click_handler False) = 1 \<and>
    ajaxForm False found sel s' = s' \<and> bindings (ajaxFormUnbind s') = bindings (ajaxFormUnbind s)"
proof -
  have "count_list (filter (\<lambda>b. \<not> (b_ns b = u ''form-plugin'' \<and> \<not> b_delegated b)) bs) (form_plugin k False) = 0" for bs k
    by (simp add: count_list_0_iff form_plugin_def)
  then show ?thesis using assms
    by (simp add: ajaxForm_def ajaxFormUnbind_def) (simp add: form_plugin_def)
qed

theorem ajaxForm_binds_once_witness:
  "count_list (bindings (ajaxForm False 1 True (ajaxForm False 1 True \<lparr>dom_ready = True, bindings = [], queued = 0\<rparr>)))
     (form_plugin Submit_handler False) = 1"
  using ajaxForm_binds_once [OF _ refl, of 1 True "ajaxForm False 1 True \<lparr>dom_ready = True, bindings = [], queued = 0\<rparr>"]
  by simp

text \<open>
  The button that was clicked is sent, and only it. When a form is submitted by a click on a
  named, enabled submit button of it, the array of the submission has the entry of this button,
  and no other submit button of the form contributes an entry.
\<close>

theorem clicked_button_is_sent:
  assumes "b \<in> set (f_elements f)" and "el_type b = u ''submit''" and "el_tag b \<noteq> u ''select''" and "el_name b \<noteq> []"
    and "\<not> el_disabled b" and "ck_target e = b" and "f' = captureSubmittingElement e f"
  shows "\<lparr>e_name = el_name b, e_value = Text (jq_val br b), e_type = Some (u ''submit''), e_required = Some (el_required b)\<rparr>
      \<in> set (fst (formToArray br False f' outside)) \<and>
    (\<forall>c \<in> set (f_elements f). el_type c = u ''submit'' \<longrightarrow> el_owned c \<longrightarrow> el_id c \<noteq> el_id b \<longrightarrow> fst (el_entries br False f' c) = [])"
proof -
  have f': "f_clk f' = Some b" "f_elements f' = f_elements f"
    using assms(2,6,7) by (simp_all add: captureSubmittingElement_def submitting_target_def)
  have "fst (el_entries br False f' b) = [\<lparr>e_name = el_name b, e_value = Text (jq_val br b),
      e_type = Some (u ''submit''), e_required = Some (el_required b)\<rparr>]"
    using assms f' by (simp add: el_entries_def fieldValue_def unsuccessful_def is_clk_def)
  moreover have "b \<in> set (form_els False f' outside)" using assms(1) f' by (simp add: form_els_def Let_def)
  ultimately have "\<lparr>e_name = el_name b, e_value = Text (jq_val br b), e_type = Some (u ''submit''), e_required = Some (el_required b)\<rparr>
      \<in> set (fst (formToArray br False f' outside))"
    by (force simp: formToArray_def Let_def)
  moreover have "fst (el_entries br False f' c) = []" if "el_type c = u ''submit''" "el_owned c" "el_id c \<noteq> el_id b" for c
    using that f' by (simp add: el_entries_def fieldValue_def unsuccessful_def is_clk_def Let_def)
  ultimately show ?thesis by blast
qed

theorem clicked_button_is_sent_witness:
  "\<lparr>e_name = u ''go'', e_value = Text (u ''1''), e_type = Some (u ''submit''), e_required = Some False\<rparr>
    \<in> set (fst (formToArray sample_browser False (captureSubmittingElement
        \<lparr>ck_target = (text_input ''go'' (u ''1''))\<lparr>el_type := u ''submit''\<rparr>, ck_closest = None, ck_offset = None, ck_page = (0, 0), ck_origin = (0, 0)\<rparr>
        (sample_form [(text_input ''go'' (u ''1''))\<lparr>el_type := u ''submit''\<rparr>])) []))"
proof -
  let ?b = "(text_input ''go'' (u ''1''))\<lparr>el_type := u ''submit''\<rparr>"
  have v: "jq_val sample_browser ?b = u ''1''" by (simp add: jq_val_def text_input_def js_simps)
  show ?thesis
    using clicked_button_is_sent [OF _ _ _ _ _ _ refl, of ?b "sample_form [?b]"
        "\<lparr>ck_target = ?b, ck_closest = None, ck_offset = None, ck_page = (0, 0), ck_origin = (0, 0)\<rparr>" sample_browser "[]"] v
    by (simp add: text_input_def sample_form_def)
qed

end
