(* ===== verification/Form_Iframe.thy ===== *)
theory Form_Iframe
  imports Form_Submit TableHelpers
begin

text \<open>
  \<open>fileUploadIframe\<close> of \<open>js/jquery.form.js\<close>: an upload through a hidden frame, with a mock
  request object, a deferred, a client timeout, a watch for server aborts and the emulation of
  jQuery's global events. The upload is a state machine over its pending timers; the observable
  calls are recorded in the order in which they are made.
\<close>

subsection \<open>The frame's document\<close>

record frame_part =
  fp_text :: ustr                   \<comment> \<open>innerHTML, value or textContent\<close>
  fp_status :: "ustr option"        \<comment> \<open>attribute \<open>status\<close>\<close>
  fp_statusText :: "ustr option"

record frame_doc =
  d_href :: ustr
  d_is_xml :: bool                  \<comment> \<open>\<open>doc.XMLDocument || $.isXMLDoc(doc)\<close>\<close>
  d_body :: "frame_part option"
  d_root :: "frame_part option"     \<comment> \<open>documentElement\<close>
  d_textarea :: "frame_part option"
  d_pre :: "ustr option"
  d_body_text :: "ustr option"      \<comment> \<open>text of the first body element\<close>
  d_parsererror :: bool
  d_readyState :: "ustr option"

text \<open>The three ways to a frame's document; each access may be denied.\<close>

record frame_access =
  contentWindow_doc :: "frame_doc option js_result option"
  contentDocument :: "frame_doc option js_result"
  frame_document :: "frame_doc option"

definition getDoc :: "frame_access \<Rightarrow> frame_doc option" where
  "getDoc frame =
     (let doc = (case contentWindow_doc frame of Some (Inr d) \<Rightarrow> d | _ \<Rightarrow> None) in
      if doc \<noteq> None then doc
      else (case contentDocument frame of
          Inr (Some d) \<Rightarrow> Some d
        | _ \<Rightarrow> frame_document frame))"

subsection \<open>Settings and state\<close>

record iframe_opts =
  s_global :: bool
  s_success :: bool
  s_error :: bool
  s_complete :: bool
  s_timeout :: bool
  s_target :: bool                  \<comment> \<open>an existing frame is given as \<open>iframeTarget\<close>\<close>
  s_iframeSrc :: ustr
  s_dataType :: "ustr option"
  s_textarea :: bool
  s_url :: ustr
  s_skipEncodingOverride :: bool
  s_extraData :: "(ustr \<times> jsval) list option"
  s_before :: "(bool \<times> bool) option"   \<comment> \<open>\<open>beforeSend\<close>: whether it returns false, and whether it aborts\<close>

datatype obs =
    Ajax_start | Ajax_send | Ajax_success | Ajax_error | Ajax_complete | Ajax_stop
  | On_success jsval | On_error ustr | On_complete "ustr option"

datatype settled = Pending | Resolved | Rejected

record iframe_state =
  aborted :: bool
  xstatus :: jsnum
  xstatusText :: ustr
  responseText :: "ustr option"
  xdataType :: "ustr option"
  active :: int                     \<comment> \<open>\<open>$.active\<close>\<close>
  seen :: "obs list"
  deferred :: settled
  timedOut :: bool
  timeout_pending :: bool
  submit_pending :: bool
  checks :: nat                     \<comment> \<open>pending runs of \<open>checkState\<close>\<close>
  requeues :: nat                   \<comment> \<open>pending runs of \<open>cb\<close> after a requeue\<close>
  domCheckCount :: nat
  listening :: bool                 \<comment> \<open>the frame's load event leads to \<open>cb\<close>\<close>
  callbackProcessed :: bool
  cleanups :: nat

definition emit :: "obs list \<Rightarrow> iframe_state \<Rightarrow> iframe_state" where
  "emit os x = x\<lparr>seen := seen x @ os\<rparr>"

text \<open>\<open>xhr.abort(status)\<close>.\<close>

definition abort :: "iframe_opts \<Rightarrow> ustr \<Rightarrow> iframe_state \<Rightarrow> iframe_state" where
  "abort s status x =
     (let e = (if status = u ''timeout'' then u ''timeout'' else u ''aborted'') in
      emit ((if s_error s then [On_error e] else []) @ (if s_global s then [Ajax_error] else [])
            @ (if s_complete s then [On_complete (Some e)] else []))
        (x\<lparr>aborted := True\<rparr>))"

text \<open>The start of the upload, up to the scheduling of \<open>doSubmit\<close>.\<close>

definition initial_state :: "iframe_opts \<Rightarrow> int \<Rightarrow> iframe_state" where
  "initial_state s n = \<lparr>aborted = False, xstatus = Fin 0, xstatusText = u ''n/a'', responseText = None,
     xdataType = s_dataType s, active = n, seen = [], deferred = Pending, timedOut = False, timeout_pending = False,
     submit_pending = False, checks = 0, requeues = 0, domCheckCount = 50, listening = False,
     callbackProcessed = False, cleanups = 0\<rparr>"

definition fileUploadIframe :: "iframe_opts \<Rightarrow> int \<Rightarrow> iframe_state" where
  "fileUploadIframe s n =
     (let x = initial_state s n;
          x = (if s_global s then emit ((if n = 0 then [Ajax_start] else []) @ [Ajax_send]) (x\<lparr>active := n + 1\<rparr>) else x);
          x = (case s_before s of Some (_, True) \<Rightarrow> abort s [] x | _ \<Rightarrow> x) in
      if (case s_before s of Some (r, _) \<Rightarrow> r | None \<Rightarrow> False)
      then (if s_global s then x\<lparr>active := active x - 1, deferred := Rejected\<rparr> else x\<lparr>deferred := Rejected\<rparr>)
      else if aborted x then x\<lparr>deferred := Rejected\<rparr>
      else x\<lparr>submit_pending := True\<rparr>)"

subsection \<open>Extra data of the upload\<close>

text \<open>The clicked button and the page's token join the extra data (an object, so by key).\<close>

definition add_extra :: "ustr \<Rightarrow> jsval \<Rightarrow> (ustr \<times> jsval) list option \<Rightarrow> (ustr \<times> jsval) list option" where
  "add_extra k v extra = Some (set_prop k v (case extra of None \<Rightarrow> [] | Some ps \<Rightarrow> ps))"

definition clk_extra :: "form \<Rightarrow> (ustr \<times> jsval) list option \<Rightarrow> (ustr \<times> jsval) list option" where
  "clk_extra f extra =
     (case f_clk f of
        None \<Rightarrow> extra
      | Some sub \<Rightarrow>
          if el_name sub \<noteq> [] \<and> \<not> el_disabled sub then
            (let x = add_extra (el_name sub) (Str (el_value sub)) extra in
             if el_type sub = u ''image''
             then add_extra (el_name sub @ u ''.y'') (Num (clk_y f)) (add_extra (el_name sub @ u ''.x'') (Num (clk_x f)) x)
             else x)
          else extra)"

definition csrf_extra :: "ustr option \<Rightarrow> ustr option \<Rightarrow> (ustr \<times> jsval) list option \<Rightarrow> (ustr \<times> jsval) list option" where
  "csrf_extra csrf_param csrf_token extra =
     (case (csrf_param, csrf_token) of
        (Some p, Some t) \<Rightarrow> if p \<noteq> [] \<and> t \<noteq> [] then add_extra p (Str t) extra else extra
      | _ \<Rightarrow> extra)"

text \<open>The hidden input of one property; \<open>html_attr\<close> is the browser's reading of an attribute.\<close>

definition extra_input :: "(ustr \<Rightarrow> ustr) \<Rightarrow> ustr \<times> jsval \<Rightarrow> ustr \<times> ustr" where
  "extra_input html_attr nv =
     (case snd nv of
        Obj ps \<Rightarrow>
          if u ''name'' \<in> fst ` set ps \<and> u ''value'' \<in> fst ` set ps
          then (html_attr (to_string (get_prop ps (u ''name''))), scalar_text (get_prop ps (u ''value'')))
          else (html_attr (fst nv), scalar_text (snd nv))
      | _ \<Rightarrow> (html_attr (fst nv), scalar_text (snd nv)))"

subsection \<open>doSubmit\<close>

record dom_form =
  df_target :: "ustr option"
  df_action :: "ustr option"
  df_method :: "ustr option"
  df_enctype :: "ustr option"
  df_encoding :: "ustr option"
  df_inputs :: "(ustr \<times> ustr) list"

definition is_post :: "ustr option \<Rightarrow> bool" where
  "is_post m \<longleftrightarrow> (case m of None \<Rightarrow> True | Some s \<Rightarrow> s = [] \<or> contains (u ''post'') (lower s))"

text \<open>The form as it is while it is submitted, and as \<open>finally\<close> leaves it.\<close>

definition dressed :: "iframe_opts \<Rightarrow> ustr option \<Rightarrow> ustr \<Rightarrow> (ustr \<Rightarrow> ustr) \<Rightarrow> dom_form \<Rightarrow> dom_form" where
  "dressed s m frame html_attr f =
     (let f = f\<lparr>df_target := Some frame\<rparr>;
          f = (if is_post m then f\<lparr>df_method := Some (u ''POST'')\<rparr> else f);
          f = (if df_action f \<noteq> Some (s_url s) then f\<lparr>df_action := Some (s_url s)\<rparr> else f);
          f = (if \<not> s_skipEncodingOverride s \<and> is_post m
               then f\<lparr>df_encoding := Some (u ''multipart/form-data''), df_enctype := Some (u ''multipart/form-data'')\<rparr> else f)
      in f\<lparr>df_inputs := df_inputs f @ (case s_extraData s of None \<Rightarrow> [] | Some ps \<Rightarrow> map (extra_input html_attr) ps)\<rparr>)"

definition undressed :: "ustr option \<Rightarrow> ustr option \<Rightarrow> ustr \<Rightarrow> (ustr \<times> ustr) list \<Rightarrow> dom_form \<Rightarrow> dom_form" where
  "undressed t a et inputs f =
     f\<lparr>df_action := Some (case a of Some s \<Rightarrow> s | None \<Rightarrow> u ''undefined''), df_enctype := Some et,
       df_target := (case t of Some s \<Rightarrow> if s \<noteq> [] then Some s else None | None \<Rightarrow> None), df_inputs := inputs\<rparr>"

definition doSubmit ::
    "iframe_opts \<Rightarrow> ustr option \<Rightarrow> ustr \<Rightarrow> (ustr \<Rightarrow> ustr) \<Rightarrow> dom_form \<Rightarrow> iframe_state \<Rightarrow> dom_form \<times> dom_form \<times> iframe_state" where
  "doSubmit s m frame html_attr f x =
     (let et = (case or_else (df_enctype f) (df_encoding f) of
            Some e \<Rightarrow> if e \<noteq> [] then e else u ''multipart/form-data'' | None \<Rightarrow> u ''multipart/form-data'');
          sent = dressed s m frame html_attr f in
      (sent, undressed (df_target f) (df_action f) et (df_inputs f) sent,
       x\<lparr>submit_pending := False, timeout_pending := s_timeout s, listening := True, checks := Suc (checks x)\<rparr>))"

subsection \<open>The response\<close>

definition num_truthy :: "jsnum \<Rightarrow> bool" where
  "num_truthy n \<longleftrightarrow> n \<noteq> NaN \<and> n \<noteq> Fin 0"

definition number_attr :: "ustr option \<Rightarrow> jsnum" where
  "number_attr a = (case a of None \<Rightarrow> Fin 0 | Some s \<Rightarrow> to_number s)"

text \<open>\<open>Number(attr) || old\<close> and \<open>attr || old\<close>.\<close>

definition take_status :: "frame_part \<Rightarrow> iframe_state \<Rightarrow> iframe_state" where
  "take_status p x =
     x\<lparr>xstatus := (if num_truthy (number_attr (fp_status p)) then number_attr (fp_status p) else xstatus x),
       xstatusText := (case fp_statusText p of Some t \<Rightarrow> if t \<noteq> [] then t else xstatusText x | None \<Rightarrow> xstatusText x)\<rparr>"

definition dt_of :: "iframe_state \<Rightarrow> ustr" where
  "dt_of x = lower (case xdataType x of None \<Rightarrow> [] | Some t \<Rightarrow> t)"

definition is_scr :: "ustr \<Rightarrow> bool" where
  "is_scr dt \<longleftrightarrow> contains (u ''json'') dt \<or> contains (u ''script'') dt \<or> contains (u ''text'') dt"

definition is_xml :: "iframe_opts \<Rightarrow> iframe_state \<Rightarrow> frame_doc \<Rightarrow> bool" where
  "is_xml s x doc \<longleftrightarrow> xdataType x = Some (u ''xml'') \<or> d_is_xml doc"

definition doc_root :: "frame_doc \<Rightarrow> frame_part option" where
  "doc_root doc = (case d_body doc of Some b \<Rightarrow> Some b | None \<Rightarrow> d_root doc)"

definition read_response :: "iframe_opts \<Rightarrow> frame_doc \<Rightarrow> iframe_state \<Rightarrow> iframe_state" where
  "read_response s doc x =
     (let x = x\<lparr>responseText := map_option fp_text (doc_root doc)\<rparr>;
          x = (if is_xml s x doc then x\<lparr>xdataType := Some (u ''xml'')\<rparr> else x);
          x = (case doc_root doc of Some r \<Rightarrow> take_status r x | None \<Rightarrow> x);
          scr = is_scr (dt_of x) in
      if scr \<or> s_textarea s then
        (case d_textarea doc of
           Some ta \<Rightarrow> take_status ta (x\<lparr>responseText := Some (fp_text ta)\<rparr>)
         | None \<Rightarrow>
             if scr then
               (case d_pre doc of
                  Some t \<Rightarrow> x\<lparr>responseText := Some t\<rparr>
                | None \<Rightarrow> (case d_body_text doc of Some t \<Rightarrow> x\<lparr>responseText := Some t\<rparr> | None \<Rightarrow> x))
             else x)
      else x)"

text \<open>
  \<open>httpData\<close>. The parameters are the JSON parser (None is a syntax error) and the data filter of
  the options; an XML document is passed on as an opaque object.
\<close>

definition httpData :: "(ustr \<Rightarrow> jsval option) \<Rightarrow> (jsval \<Rightarrow> ustr \<Rightarrow> jsval) \<Rightarrow> frame_doc \<Rightarrow> iframe_state \<Rightarrow> jsval js_result" where
  "httpData parse_json data_filter doc x =
     (let type = dt_of x; ct = (case xdataType x of None \<Rightarrow> [] | Some t \<Rightarrow> t);
          xml = (type = u ''xml'' \<or> type = [] \<and> contains (u ''xml'') ct);
          data = (if xml then Obj [] else case responseText x of None \<Rightarrow> Null | Some t \<Rightarrow> Str t) in
      if xml \<and> d_parsererror doc then Inl (Thrown (u ''parsererror''))
      else (case data_filter data type of
          Str t \<Rightarrow>
            if type = u ''json'' \<or> type = [] \<and> contains (u ''json'') ct
            then (case parse_json t of None \<Rightarrow> Inl SyntaxError | Some v \<Rightarrow> Inr v)
            else Inr (Str t)
        | v \<Rightarrow> Inr v))"

definition good_status :: "jsnum \<Rightarrow> bool" where
  "good_status n \<longleftrightarrow> (case n of Fin q \<Rightarrow> 200 \<le> q \<and> q < 300 \<or> q = 304 | _ \<Rightarrow> False)"

subsection \<open>The callback\<close>

datatype cb_event = Load_event | Client_timeout | Server_abort

record iframe_env =
  ie_opera :: bool
  ie_parse_json :: "ustr \<Rightarrow> jsval option"
  ie_filter :: "jsval \<Rightarrow> ustr \<Rightarrow> jsval"

text \<open>The end of \<open>cb\<close>: the calls for the status, the global events, and the clean-up timer.\<close>

definition finish_cb :: "iframe_opts \<Rightarrow> jsval js_result \<Rightarrow> ustr \<Rightarrow> iframe_state \<Rightarrow> iframe_state" where
  "finish_cb s data status0 x =
     (let status = (if num_truthy (xstatus x)
            then Some (if good_status (xstatus x) then u ''success'' else u ''error'')
            else if aborted x then None else Some status0);
          ok = (status = Some (u ''success''));
          calls = (if ok then (if s_success s then [On_success (case data of Inr v \<Rightarrow> v | Inl _ \<Rightarrow> Undefined)] else [])
                     @ (if s_global s then [Ajax_success] else [])
                   else (case status of
                       None \<Rightarrow> []
                     | Some st \<Rightarrow> (if s_error s then [On_error st] else []) @ (if s_global s then [Ajax_error] else [])));
          d = (if ok then Resolved else if status \<noteq> None then Rejected else deferred x);
          act = (if s_global s then active x - 1 else active x) in
      emit (calls @ (if s_global s then [Ajax_complete] else [])
            @ (if s_global s \<and> act = 0 then [Ajax_stop] else [])
            @ (if s_complete s then [On_complete status] else []))
        (x\<lparr>deferred := (if deferred x = Pending then d else deferred x), active := act, callbackProcessed := True,
           timeout_pending := (if s_timeout s then False else timeout_pending x), cleanups := Suc (cleanups x)\<rparr>))"

definition reject :: "iframe_state \<Rightarrow> iframe_state" where
  "reject x = x\<lparr>deferred := (if deferred x = Pending then Rejected else deferred x)\<rparr>"

definition cb :: "iframe_env \<Rightarrow> iframe_opts \<Rightarrow> cb_event \<Rightarrow> frame_access \<Rightarrow> iframe_state \<Rightarrow> iframe_state" where
  "cb env s e frame x =
     (if aborted x \<or> callbackProcessed x then x
      else (let e = (if getDoc frame = None then Server_abort else e) in
        if e = Client_timeout then reject (abort s (u ''timeout'') x)
        else if e = Server_abort then reject (abort s (u ''server abort'') x)
        else (case getDoc frame of
            None \<Rightarrow> x
          | Some doc \<Rightarrow>
              if d_href doc = s_iframeSrc s \<and> \<not> timedOut x then x
              else if timedOut x then finish_cb s (Inl (Thrown (u ''timeout''))) (u ''error'') (x\<lparr>listening := False\<rparr>)
              else if \<not> is_xml s x doc \<and> ie_opera env \<and> (case d_body doc of None \<Rightarrow> True | Some b \<Rightarrow> fp_text b = [])
                  \<and> domCheckCount x - 1 \<noteq> 0
              then x\<lparr>listening := False, domCheckCount := domCheckCount x - 1, requeues := Suc (requeues x)\<rparr>
              else (let dec = (\<not> is_xml s x doc \<and> ie_opera env \<and> (case d_body doc of None \<Rightarrow> True | Some b \<Rightarrow> fp_text b = []));
                        x1 = read_response s doc (x\<lparr>listening := False,
                          domCheckCount := (if dec then domCheckCount x - 1 else domCheckCount x)\<rparr>);
                        data = httpData (ie_parse_json env) (ie_filter env) doc x1 in
                    finish_cb s data (case data of Inr _ \<Rightarrow> u ''success'' | Inl _ \<Rightarrow> u ''parsererror'') x1))))"

subsection \<open>The machine\<close>

datatype move = Submit | Load | Timer_fires | Check_state | Requeue | User_abort | Cleanup

inductive upload_step :: "iframe_env \<Rightarrow> iframe_opts \<Rightarrow> move \<Rightarrow> iframe_state \<Rightarrow> iframe_state \<Rightarrow> bool" for env s where
  submit: "submit_pending x \<Longrightarrow>
    upload_step env s Submit x (snd (snd (doSubmit s m frame html_attr f x)))"
| load: "listening x \<Longrightarrow> upload_step env s Load x (cb env s Load_event frame x)"
| timer_fires: "timeout_pending x \<Longrightarrow>
    upload_step env s Timer_fires x (cb env s Client_timeout frame (x\<lparr>timeout_pending := False, timedOut := True\<rparr>))"
| check_again: "0 < checks x \<Longrightarrow> upload_step env s Check_state x x"
| check_done: "0 < checks x \<Longrightarrow> upload_step env s Check_state x (x\<lparr>checks := checks x - 1\<rparr>)"
| check_denied: "0 < checks x \<Longrightarrow>
    upload_step env s Check_state x ((cb env s Server_abort frame (x\<lparr>checks := checks x - 1\<rparr>))\<lparr>timeout_pending := False\<rparr>)"
| requeue: "0 < requeues x \<Longrightarrow> upload_step env s Requeue x (cb env s Load_event frame (x\<lparr>requeues := requeues x - 1\<rparr>))"
| user_abort: "upload_step env s User_abort x (abort s status x)"
| cleanup: "0 < cleanups x \<Longrightarrow> upload_step env s Cleanup x (x\<lparr>cleanups := cleanups x - 1\<rparr>)"

inductive upload_run :: "iframe_env \<Rightarrow> iframe_opts \<Rightarrow> int \<Rightarrow> move list \<Rightarrow> iframe_state \<Rightarrow> bool" for env s n where
  run_start: "upload_run env s n [] (fileUploadIframe s n)"
| run_step: "upload_run env s n ms x \<Longrightarrow> upload_step env s m x y \<Longrightarrow> upload_run env s n (m # ms) y"


subsection \<open>Notifications\<close>

fun is_final :: "obs \<Rightarrow> bool" where
  "is_final (On_success _) = True"
| "is_final (On_error _) = True"
| "is_final _ = False"

fun is_complete :: "obs \<Rightarrow> bool" where
  "is_complete (On_complete _) = True"
| "is_complete _ = False"

definition finals :: "iframe_state \<Rightarrow> nat" where
  "finals x = length (filter is_final (seen x))"

definition completes :: "iframe_state \<Rightarrow> nat" where
  "completes x = length (filter is_complete (seen x))"

text \<open>An upload that calls back, and whose \<open>beforeSend\<close> lets it go.\<close>

definition listening_opts :: "iframe_opts \<Rightarrow> bool" where
  "listening_opts s \<longleftrightarrow> s_success s \<and> s_error s \<and> s_complete s \<and> s_before s = None"

definition upload_inv :: "iframe_opts \<Rightarrow> int \<Rightarrow> iframe_state \<Rightarrow> bool" where
  "upload_inv s n x \<longleftrightarrow>
     \<not> (aborted x \<and> callbackProcessed x) \<and>
     (deferred x = Pending \<longleftrightarrow> \<not> aborted x \<and> \<not> callbackProcessed x) \<and>
     finals x = (if deferred x = Pending then 0 else 1) \<and> completes x = (if deferred x = Pending then 0 else 1) \<and>
     active x = n + (if s_global s \<and> \<not> callbackProcessed x then 1 else 0)"

lemma inv_start: "listening_opts s \<Longrightarrow> upload_inv s n (fileUploadIframe s n)"
  by (simp add: listening_opts_def upload_inv_def fileUploadIframe_def initial_state_def emit_def finals_def completes_def)

lemma inv_abort:
  assumes "listening_opts s" and "upload_inv s n x" and "deferred x = Pending"
  shows "upload_inv s n (reject (abort s status x))"
  using assms by (auto simp: listening_opts_def upload_inv_def reject_def abort_def emit_def finals_def completes_def Let_def)

lemma inv_finish:
  assumes "listening_opts s" and "upload_inv s n x" and "deferred x = Pending"
  shows "upload_inv s n (finish_cb s data status x)"
  using assms by (auto simp: listening_opts_def upload_inv_def finish_cb_def emit_def finals_def completes_def Let_def)

lemma read_response_keeps [simp]:
  "aborted (read_response s doc x) = aborted x" "callbackProcessed (read_response s doc x) = callbackProcessed x"
  "deferred (read_response s doc x) = deferred x" "seen (read_response s doc x) = seen x"
  "active (read_response s doc x) = active x"
  by (auto simp: read_response_def take_status_def Let_def split: option.splits)

lemma inv_other [simp]:
  "upload_inv s n (x\<lparr>listening := b\<rparr>) = upload_inv s n x"
  "upload_inv s n (x\<lparr>domCheckCount := k\<rparr>) = upload_inv s n x"
  "upload_inv s n (x\<lparr>requeues := k\<rparr>) = upload_inv s n x"
  "upload_inv s n (x\<lparr>checks := k\<rparr>) = upload_inv s n x"
  "upload_inv s n (x\<lparr>cleanups := k\<rparr>) = upload_inv s n x"
  "upload_inv s n (x\<lparr>timeout_pending := b\<rparr>) = upload_inv s n x"
  "upload_inv s n (x\<lparr>timedOut := b\<rparr>) = upload_inv s n x"
  "upload_inv s n (x\<lparr>submit_pending := b\<rparr>) = upload_inv s n x"
  "upload_inv s n (read_response s doc x) = upload_inv s n x"
  by (simp_all add: upload_inv_def finals_def completes_def)

lemma inv_cb:
  assumes "listening_opts s" and "upload_inv s n x"
  shows "upload_inv s n (cb env s e frame x)"
proof (cases "aborted x \<or> callbackProcessed x")
  case True
  then show ?thesis using assms by (simp add: cb_def)
next
  case False
  then have p: "deferred x = Pending" using assms(2) by (simp add: upload_inv_def)
  show ?thesis
    using False p assms inv_abort [OF assms p]
    by (simp add: cb_def Let_def inv_finish split: option.splits)
qed

lemma inv_step:
  assumes "upload_step env s m x y" and "m \<noteq> User_abort" and "listening_opts s" and "upload_inv s n x"
  shows "upload_inv s n y"
  using assms
  by (induction rule: upload_step.induct) (simp_all add: doSubmit_def Let_def inv_cb)

lemma inv_run:
  "upload_run env s n ms x \<Longrightarrow> User_abort \<notin> set ms \<Longrightarrow> listening_opts s \<Longrightarrow> upload_inv s n x"
  by (induction rule: upload_run.induct) (auto simp: inv_start inv_step)

text \<open>
  C9. An upload that the caller does not abort is answered once. In every reachable state, the
  deferred is settled exactly if the upload was aborted (by the client's timeout or the server)
  or its answer processed, never both; then the error or success callback has been called
  exactly once, and the completion callback exactly once, and before that neither. The count of
  active requests is taken back exactly when an answer is processed: a timeout or server abort
  leaves it raised.
\<close>

theorem upload_answered_once:
  assumes "upload_run env s n ms x" and "User_abort \<notin> set ms" and "listening_opts s"
  shows "(deferred x \<noteq> Pending \<longleftrightarrow> aborted x \<or> callbackProcessed x) \<and> \<not> (aborted x \<and> callbackProcessed x) \<and>
    length (filter is_final (seen x)) = (if deferred x = Pending then 0 else 1) \<and>
    length (filter is_complete (seen x)) = (if deferred x = Pending then 0 else 1) \<and>
    active x = n + (if s_global s \<and> \<not> callbackProcessed x then 1 else 0)"
  using inv_run [OF assms] by (simp add: upload_inv_def finals_def completes_def)

definition sample_upload :: iframe_opts where
  "sample_upload = \<lparr>s_global = True, s_success = True, s_error = True, s_complete = True, s_timeout = True, s_target = False,
     s_iframeSrc = u ''about:blank'', s_dataType = Some (u ''json''), s_textarea = False, s_url = u ''/up'',
     s_skipEncodingOverride = False, s_extraData = None, s_before = None\<rparr>"

definition sample_env :: iframe_env where
  "sample_env = \<lparr>ie_opera = False, ie_parse_json = (\<lambda>t. if t = u ''1'' then Some (Num 1) else None), ie_filter = (\<lambda>v _. v)\<rparr>"

definition blank_form :: dom_form where
  "blank_form = \<lparr>df_target = None, df_action = Some (u ''/x''), df_method = None, df_enctype = None, df_encoding = None, df_inputs = []\<rparr>"

definition no_frame :: frame_access where
  "no_frame = \<lparr>contentWindow_doc = None, contentDocument = Inr None, frame_document = None\<rparr>"

definition submitted :: iframe_state where
  "submitted = snd (snd (doSubmit sample_upload None (u ''f'') (\<lambda>a. a) blank_form (fileUploadIframe sample_upload 0)))"

definition timed_out :: iframe_state where
  "timed_out = cb sample_env sample_upload Client_timeout no_frame (submitted\<lparr>timeout_pending := False, timedOut := True\<rparr>)"

lemma submitted_run: "upload_run sample_env sample_upload 0 [Submit] submitted"
  unfolding submitted_def
  by (rule run_step [OF run_start submit]) (simp add: fileUploadIframe_def sample_upload_def initial_state_def emit_def)

lemma timed_out_run: "upload_run sample_env sample_upload 0 [Timer_fires, Submit] timed_out"
  unfolding timed_out_def
  by (rule run_step [OF submitted_run timer_fires]) (simp add: submitted_def doSubmit_def Let_def sample_upload_def)

lemma timed_out_fields: "aborted timed_out" "\<not> callbackProcessed timed_out"
  by (simp_all add: timed_out_def submitted_def doSubmit_def sample_upload_def fileUploadIframe_def initial_state_def emit_def
      cb_def getDoc_def no_frame_def reject_def abort_def Let_def)

theorem upload_answered_once_witness: "deferred timed_out \<noteq> Pending \<and> active timed_out = 1"
proof -
  have "listening_opts sample_upload" "s_global sample_upload" by (simp_all add: listening_opts_def sample_upload_def)
  then show ?thesis using upload_answered_once [OF timed_out_run] timed_out_fields by simp
qed


lemma finish_cb_deferred:
  assumes "deferred x = Pending" and "\<not> aborted x"
  shows "deferred (finish_cb s data st x) = (if (if num_truthy (xstatus x) then good_status (xstatus x) else st = u ''success'')
    then Resolved else Rejected)" and "callbackProcessed (finish_cb s data st x)"
  using assms by (auto simp: finish_cb_def emit_def Let_def)

text \<open>
  An answer resolves the upload. When the frame has loaded a document of its own in a
  state that is still open, the deferred is resolved or rejected at once: by the status the
  document states, if it states one, and else by whether its content could be read; and the
  answer is then processed.
\<close>

theorem load_settles_upload:
  assumes "upload_run env s n ms x" and "User_abort \<notin> set ms" and "listening_opts s" and "deferred x = Pending"
    and "getDoc frame = Some doc" and "d_href doc \<noteq> s_iframeSrc s" and "\<not> timedOut x" and "\<not> ie_opera env"
    and "x1 = read_response s doc (x\<lparr>listening := False\<rparr>)"
  shows "deferred (cb env s Load_event frame x) =
      (if (if num_truthy (xstatus x1) then good_status (xstatus x1)
           else \<exists>v. httpData (ie_parse_json env) (ie_filter env) doc x1 = Inr v)
       then Resolved else Rejected) \<and>
    callbackProcessed (cb env s Load_event frame x)"
proof -
  have open_x: "\<not> aborted x" "\<not> callbackProcessed x"
    using inv_run [OF assms(1-3)] assms(4) by (auto simp: upload_inv_def)
  let ?data = "httpData (ie_parse_json env) (ie_filter env) doc x1"
  have "cb env s Load_event frame x = finish_cb s ?data (case ?data of Inr _ \<Rightarrow> u ''success'' | Inl _ \<Rightarrow> u ''parsererror'') x1"
    using assms open_x by (simp add: cb_def Let_def)
  moreover have "deferred x1 = Pending" "\<not> aborted x1" using assms(4,9) open_x by simp_all
  ultimately show ?thesis
    using finish_cb_deferred [of x1] by (cases ?data) auto
qed

definition loaded :: "ustr \<Rightarrow> frame_access" where
  "loaded txt = \<lparr>contentWindow_doc = Some (Inr (Some \<lparr>d_href = u ''/up'', d_is_xml = False,
     d_body = Some \<lparr>fp_text = u ''<pre>1</pre>'', fp_status = None, fp_statusText = None\<rparr>, d_root = None, d_textarea = None,
     d_pre = Some txt, d_body_text = None, d_parsererror = False, d_readyState = None\<rparr>)),
     contentDocument = Inr None, frame_document = None\<rparr>"

theorem load_settles_upload_witness:
  "deferred (cb sample_env sample_upload Load_event (loaded (u ''1'')) submitted) = Resolved"
proof -
  have o: "listening_opts sample_upload" by (simp add: listening_opts_def sample_upload_def)
  have sub: "deferred submitted = Pending" "\<not> timedOut submitted" "xstatus submitted = Fin 0"
    "xdataType submitted = Some (u ''json'')"
    by (simp_all add: submitted_def doSubmit_def sample_upload_def fileUploadIframe_def initial_state_def emit_def Let_def)
  obtain doc where doc: "getDoc (loaded (u ''1'')) = Some doc" "d_href doc = u ''/up''" "d_body doc \<noteq> None"
    "doc_root doc = Some \<lparr>fp_text = u ''<pre>1</pre>'', fp_status = None, fp_statusText = None\<rparr>"
    "d_pre doc = Some (u ''1'')" "d_textarea doc = None" "\<not> d_is_xml doc"
    by (simp add: getDoc_def loaded_def doc_root_def)
  have low: "lower (u ''json'') = u ''json''" by (simp add: lower_def js_simps)
  have c: "contains (u ''json'') (u ''json'')" by (simp add: contains_def js_simps)
  let ?x1 = "read_response sample_upload doc (submitted\<lparr>listening := False\<rparr>)"
  have x1: "xstatus ?x1 = Fin 0" "xdataType ?x1 = Some (u ''json'')" "responseText ?x1 = Some (u ''1'')"
    using doc sub c
    by (simp_all add: read_response_def take_status_def number_attr_def num_truthy_def is_xml_def is_scr_def dt_of_def low Let_def)
  then have "httpData (ie_parse_json sample_env) (ie_filter sample_env) doc ?x1 = Inr (Num 1)"
    by (simp add: httpData_def dt_of_def low sample_env_def)
  moreover have "\<not> num_truthy (xstatus ?x1)" using x1 by (simp add: num_truthy_def)
  moreover have "u ''/up'' \<noteq> s_iframeSrc sample_upload" "\<not> ie_opera sample_env"
    by (simp_all add: sample_upload_def sample_env_def)
  ultimately show ?thesis
    using load_settles_upload [OF submitted_run _ o sub(1) doc(1) _ sub(2) _ refl] doc(2) by simp
qed

inductive upload_path :: "iframe_env \<Rightarrow> iframe_opts \<Rightarrow> iframe_state \<Rightarrow> move list \<Rightarrow> iframe_state \<Rightarrow> bool" for env s x where
  path_nil: "upload_path env s x [] x"
| path_cons: "upload_path env s x ms y \<Longrightarrow> upload_step env s m y z \<Longrightarrow> upload_path env s x (m # ms) z"

lemma aborted_cb: "aborted x \<Longrightarrow> cb env s e frame x = x"
  by (simp add: cb_def)

lemma aborted_step:
  "upload_step env s m x y \<Longrightarrow> aborted x \<Longrightarrow>
   aborted y \<and> deferred y = deferred x \<and> active y = active x \<and>
   (s_error s \<longrightarrow> finals y = finals x + (if m = User_abort then 1 else 0))"
  by (induction rule: upload_step.induct)
    (simp_all add: aborted_cb doSubmit_def Let_def finals_def, simp add: abort_def emit_def Let_def)

lemma aborted_path:
  "upload_path env s x ms y \<Longrightarrow> aborted x \<Longrightarrow>
   aborted y \<and> deferred y = deferred x \<and> active y = active x \<and>
   (s_error s \<longrightarrow> finals y = finals x + count_list ms User_abort)"
proof (induction rule: upload_path.induct)
  case (path_cons ms y m z)
  then show ?case using aborted_step [OF path_cons(2)] by auto
qed simp

text \<open>
  The caller's own abort is never reported by the deferred. Once an open upload was aborted
  through the deferred's \<open>abort\<close>, it stays pending along every further run, however the timers,
  events and further aborts follow; and every further abort calls the error callback again.
\<close>

theorem user_abort_never_settles:
  assumes "upload_run env s n ms x" and "User_abort \<notin> set ms" and "listening_opts s" and "deferred x = Pending"
    and "upload_path env s (abort s status x) ns y"
  shows "deferred y = Pending \<and> active y = active x \<and>
    length (filter is_final (seen y)) = 1 + count_list ns User_abort"
proof -
  have a: "aborted (abort s status x)" "deferred (abort s status x) = Pending" "active (abort s status x) = active x"
    using assms(4) by (simp_all add: abort_def emit_def Let_def)
  have "finals x = 0" using inv_run [OF assms(1-3)] assms(4) by (simp add: upload_inv_def)
  then have "finals (abort s status x) = 1"
    using assms(3) by (simp add: finals_def abort_def emit_def Let_def listening_opts_def)
  with aborted_path [OF assms(5) a(1)] a assms(3) show ?thesis
    by (simp add: finals_def listening_opts_def)
qed

theorem user_abort_never_settles_witness:
  "deferred (abort sample_upload [] (abort sample_upload [] submitted)) = Pending"
proof -
  have o: "listening_opts sample_upload" by (simp add: listening_opts_def sample_upload_def)
  have sub: "deferred submitted = Pending"
    by (simp add: submitted_def doSubmit_def sample_upload_def fileUploadIframe_def initial_state_def emit_def Let_def)
  have "upload_path sample_env sample_upload (abort sample_upload [] submitted) [User_abort]
      (abort sample_upload [] (abort sample_upload [] submitted))"
    by (rule path_cons [OF path_nil user_abort])
  from user_abort_never_settles [OF submitted_run _ o sub this] show ?thesis by simp
qed

text \<open>
  Submitting through the frame leaves the form as it was: the fields, the target and the
  address (if it had a non-empty target or none, and an address). While it is submitted it
  points to the frame and the address of the request, and has the extra data as hidden
  fields after its own. The method is the exception: it stays POST.
\<close>

theorem doSubmit_restores_form:
  assumes "doSubmit s m frame html_attr f x = (sent, f', x')" and "df_action f \<noteq> None" and "df_target f \<noteq> Some []"
  shows "df_target f' = df_target f \<and> df_action f' = df_action f \<and> df_inputs f' = df_inputs f \<and>
    df_target sent = Some frame \<and> df_action sent = Some (s_url s) \<and>
    df_inputs sent = df_inputs f @ (case s_extraData s of None \<Rightarrow> [] | Some ps \<Rightarrow> map (extra_input html_attr) ps) \<and>
    (is_post m \<longrightarrow> df_method f' = Some (u ''POST''))"
proof -
  obtain e where "sent = dressed s m frame html_attr f" "f' = undressed (df_target f) (df_action f) e (df_inputs f) sent"
    using assms(1) by (auto simp: doSubmit_def Let_def)
  then show ?thesis
    using assms(2,3) by (auto simp: undressed_def dressed_def Let_def split: option.splits)
qed

theorem doSubmit_restores_form_witness:
  "df_action (fst (snd (doSubmit sample_upload None (u ''f'') (\<lambda>a. a) blank_form submitted))) = Some (u ''/x'')"
proof -
  obtain sent f' x' where "doSubmit sample_upload None (u ''f'') (\<lambda>a. a) blank_form submitted = (sent, f', x')"
    by (metis prod_cases3)
  from doSubmit_restores_form [OF this] this show ?thesis by (simp add: blank_form_def)
qed

end
