(* ===== verification/DT_Model.thy ===== *)
theory DT_Model
  imports TableHelpers
begin

text \<open>
  The data model of DataTables (\<open>plugins/datatables-new/datatables.js\<close>, the copy the pages load):
  the settings object of a table, its rows and columns, the two index arrays \<open>aiDisplayMaster\<close>
  (all rows, in sort order) and \<open>aiDisplay\<close> (the rows that pass the filter), the operations that
  add, remove and clear rows, and the invariant that ties the index arrays to the rows.
\<close>

subsection \<open>Settings\<close>

datatype sortval = SNum jsnum | SStr ustr

record column =
  c_name :: ustr
  bVisible :: bool
  bSearchable :: bool
  bSortable :: bool
  sType :: "ustr option"
  manualType :: "ustr option"
  asSorting :: "ustr list"
  aDataSort :: "nat list"
  defaultContent :: "jsval option"    \<comment> \<open>None is null\<close>

record row =
  aData :: jsval
  aFilterData :: "ustr list option"
  sFilterRow :: ustr
  aSortData :: "(nat \<times> sortval) list"
  rowStripe :: ustr
  rowClass :: ustr

record search =
  sSearch :: ustr
  bRegex :: bool
  bSmart :: bool
  bCaseInsensitive :: bool

record sorting =
  so_col :: nat
  so_dir :: ustr
  so_idx :: "int option"              \<comment> \<open>the property \<open>_idx\<close>, once it was computed\<close>

record table =
  aoColumns :: "column list"
  aoData :: "row list"
  aiDisplayMaster :: "nat list"
  aiDisplay :: "nat list"
  aaSorting :: "sorting list"
  sort_pre :: "sorting list"
  sort_post :: "sorting list"
  oPreviousSearch :: search
  aoPreSearchCols :: "search list"
  bServerSide :: bool
  has_ajax :: bool
  bSort :: bool
  bFilter :: bool
  bPaginate :: bool
  bSortMulti :: bool
  bStateSave :: bool
  displayStart :: int
  displayLength :: int
  initDisplayStart :: "int option"
  iRecordsTotal :: int
  iRecordsDisplay :: int
  iDraw :: int
  bSorted :: bool
  bFiltered :: bool
  bDestroying :: bool
  bDeferLoading :: bool
  bAjaxDataGet :: bool
  asStripeClasses :: "ustr list"
  drawn :: "nat list"                 \<comment> \<open>rows in the table's body\<close>

datatype source = SSP | AJAX | DOM

definition dataSource :: "table \<Rightarrow> source" where
  "dataSource s = (if bServerSide s then SSP else if has_ajax s then AJAX else DOM)"

definition fnRecordsTotal :: "table \<Rightarrow> int" where
  "fnRecordsTotal s = (if dataSource s = SSP then iRecordsTotal s else int (length (aiDisplayMaster s)))"

definition fnRecordsDisplay :: "table \<Rightarrow> int" where
  "fnRecordsDisplay s = (if dataSource s = SSP then iRecordsDisplay s else int (length (aiDisplay s)))"

definition fnDisplayEnd :: "table \<Rightarrow> int" where
  "fnDisplayEnd s =
     (let len = displayLength s; start = displayStart s; calc = start + len; records = int (length (aiDisplay s)) in
      if bServerSide s then
        (if \<not> bPaginate s \<or> len = -1 then start + records else min (start + len) (iRecordsDisplay s))
      else if \<not> bPaginate s \<or> calc > records \<or> len = -1 then records else calc)"

subsection \<open>Helpers\<close>

definition dt_empty :: "jsval \<Rightarrow> bool" where
  "dt_empty d \<longleftrightarrow> \<not> truthy d \<or> d = Bool True \<or> d = Str (u ''-'')"

definition dt_range :: "int \<Rightarrow> int option \<Rightarrow> int list" where
  "dt_range len start = (case start of None \<Rightarrow> [0..len - 1] | Some e \<Rightarrow> [len..e - 1])"

text \<open>\<open>_unique\<close>: the loop with its inner search.\<close>

fun unique_loop :: "'a list \<Rightarrow> 'a list \<Rightarrow> 'a list" where
  "unique_loop out [] = out"
| "unique_loop out (v # src) = (if v \<in> set out then unique_loop out src else unique_loop (out @ [v]) src)"

definition dt_unique :: "'a list \<Rightarrow> 'a list" where
  "dt_unique src = unique_loop [] src"

definition removeEmpty :: "jsval list \<Rightarrow> jsval list" where
  "removeEmpty a = filter truthy a"

subsection \<open>Columns\<close>

definition getColumns :: "(column \<Rightarrow> bool) \<Rightarrow> table \<Rightarrow> nat list" where
  "getColumns sParam s = map fst (filter (\<lambda>(i, c). sParam c) (enumerate 0 (aoColumns s)))"

definition visibleToColumnIndex :: "table \<Rightarrow> nat \<Rightarrow> nat option" where
  "visibleToColumnIndex s i = (let v = getColumns bVisible s in if i < length v then Some (v ! i) else None)"

fun inArray :: "'a \<Rightarrow> 'a list \<Rightarrow> nat option" where
  "inArray x [] = None"
| "inArray x (y # ys) = (if y = x then Some 0 else map_option Suc (inArray x ys))"

definition columnIndexToVisible :: "table \<Rightarrow> nat \<Rightarrow> nat option" where
  "columnIndexToVisible s i = inArray i (getColumns bVisible s)"

text \<open>
  \<open>_fnGetCellData\<close>. \<open>get\<close> stands for the columns' \<open>fnGetData\<close>, which the page's options define;
  a data source that is a function is part of it.
\<close>

definition getCellData :: "(nat \<Rightarrow> jsval \<Rightarrow> ustr \<Rightarrow> jsval) \<Rightarrow> table \<Rightarrow> nat \<Rightarrow> nat \<Rightarrow> ustr \<Rightarrow> jsval" where
  "getCellData get s rowIdx colIdx type =
     (let col = aoColumns s ! colIdx; rowData = aData (aoData s ! rowIdx);
          dflt = (case defaultContent col of None \<Rightarrow> Null | Some v \<Rightarrow> v);
          cell = get colIdx rowData type in
      if cell = Undefined then dflt
      else (let cell = (if (cell = rowData \<or> cell = Null) \<and> defaultContent col \<noteq> None then dflt else cell) in
        if cell = Null \<and> type = u ''display'' then Str [] else cell))"

text \<open>
  \<open>_fnColumnTypes\<close>. \<open>detect\<close> are the type detectors in order. A detector's verdict on a column is
  the value of \<open>detectedType\<close> after the loop over the rows, which starts from what the previous
  detector (or the previous column) left there.
\<close>

fun detect_rows :: "bool \<Rightarrow> (jsval \<Rightarrow> ustr option) \<Rightarrow> jsval list \<Rightarrow> ustr option \<Rightarrow> ustr option" where
  "detect_rows lst det [] d = d"
| "detect_rows lst det (v # vs) d =
     (let d' = det v in
      if d' = None \<and> \<not> lst then d'
      else if d' = Some (u ''html'') then d'
      else detect_rows lst det vs d')"

fun detect_types :: "(jsval \<Rightarrow> ustr option) list \<Rightarrow> jsval list \<Rightarrow> ustr option \<Rightarrow> ustr option \<times> ustr option" where
  "detect_types [] vs d = (None, d)"
| "detect_types (det # dets) vs d =
     (let d' = detect_rows (dets = []) det vs d in
      if d' \<noteq> None then (d', d') else detect_types dets vs d')"

fun column_types ::
    "(jsval \<Rightarrow> ustr option) list \<Rightarrow> (nat \<Rightarrow> jsval list) \<Rightarrow> nat \<Rightarrow> column list \<Rightarrow> ustr option \<Rightarrow> column list" where
  "column_types detect cells i [] d = []"
| "column_types detect cells i (col # cols) d =
     (case (sType col, manualType col) of
        (None, Some t) \<Rightarrow> col\<lparr>sType := Some t\<rparr> # column_types detect cells (Suc i) cols d
      | (None, None) \<Rightarrow>
          (let (t, d') = detect_types detect (cells i) d in
           col\<lparr>sType := Some (case t of Some x \<Rightarrow> x | None \<Rightarrow> u ''string'')\<rparr> # column_types detect cells (Suc i) cols d')
      | _ \<Rightarrow> col # column_types detect cells (Suc i) cols d)"

definition columnTypes ::
    "(nat \<Rightarrow> jsval \<Rightarrow> ustr \<Rightarrow> jsval) \<Rightarrow> (jsval \<Rightarrow> ustr option) list \<Rightarrow> table \<Rightarrow> table" where
  "columnTypes get detect s =
     s\<lparr>aoColumns := column_types detect
         (\<lambda>i. map (\<lambda>k. getCellData get s k i (u ''type'')) [0..<length (aoData s)]) 0 (aoColumns s) None\<rparr>"

subsection \<open>Sort entries\<close>

definition index_in :: "ustr \<Rightarrow> ustr list \<Rightarrow> int" where
  "index_in d ds = (case inArray d ds of Some i \<Rightarrow> int i | None \<Rightarrow> -1)"

text \<open>
  Flattening the order (\<open>_fnSortFlatten\<close>) leaves the index of the direction in each entry that has none: it is looked up
  in the directions of the first column whose data the entry sorts by.
\<close>

definition cache_idx :: "table \<Rightarrow> sorting \<Rightarrow> sorting" where
  "cache_idx s so =
     (case (so_idx so, aDataSort (aoColumns s ! so_col so)) of
        (None, c # _) \<Rightarrow> so\<lparr>so_idx := Some (index_in (so_dir so) (asSorting (aoColumns s ! c)))\<rparr>
      | _ \<Rightarrow> so)"

definition cache_indices :: "table \<Rightarrow> table" where
  "cache_indices s = s\<lparr>sort_pre := map (cache_idx s) (sort_pre s), aaSorting := map (cache_idx s) (aaSorting s),
     sort_post := map (cache_idx s) (sort_post s)\<rparr>"

lemma cache_indices_fields [simp]:
  "aoData (cache_indices s) = aoData s" "aiDisplayMaster (cache_indices s) = aiDisplayMaster s" "aiDisplay (cache_indices s) = aiDisplay s"
  "drawn (cache_indices s) = drawn s" "iDraw (cache_indices s) = iDraw s"
  by (simp_all add: cache_indices_def)

subsection \<open>Rows\<close>

definition new_row :: "jsval \<Rightarrow> row" where
  "new_row d = \<lparr>aData = d, aFilterData = None, sFilterRow = [], aSortData = [], rowStripe = [], rowClass = []\<rparr>"

definition forget_types :: "column list \<Rightarrow> column list" where
  "forget_types cols = map (\<lambda>c. c\<lparr>sType := None\<rparr>) cols"

definition addData :: "jsval \<Rightarrow> table \<Rightarrow> table" where
  "addData d s =
     s\<lparr>aoData := aoData s @ [new_row d], aoColumns := forget_types (aoColumns s),
       aiDisplayMaster := aiDisplayMaster s @ [length (aoData s)]\<rparr>"

definition clearTable :: "table \<Rightarrow> table" where
  "clearTable s = s\<lparr>aoData := [], aiDisplayMaster := [], aiDisplay := []\<rparr>"

text \<open>\<open>_fnDeleteIndex\<close>: the loop remembers the last hit and lowers the larger indexes in place.\<close>

fun lower_loop :: "nat \<Rightarrow> nat \<Rightarrow> nat list \<Rightarrow> nat option \<Rightarrow> nat list \<times> nat option" where
  "lower_loop target i [] hit = ([], hit)"
| "lower_loop target i (x # xs) hit =
     (let (ys, h) = lower_loop target (Suc i) xs (if x = target then Some i else hit)
      in ((if x \<noteq> target \<and> x > target then x - 1 else x) # ys, h))"

definition deleteIndex :: "nat \<Rightarrow> bool \<Rightarrow> nat list \<Rightarrow> nat list" where
  "deleteIndex target spl a =
     (let (ys, h) = lower_loop target 0 a None in
      case h of Some i \<Rightarrow> if spl then take i ys @ drop (Suc i) ys else ys | None \<Rightarrow> ys)"

text \<open>\<open>_fnLengthOverflow\<close>.\<close>

definition lengthOverflow :: "table \<Rightarrow> table" where
  "lengthOverflow s =
     (let end = fnDisplayEnd s; len = displayLength s;
          start = (if displayStart s \<ge> end then end - len else displayStart s);
          start = start - js_rem start len
      in s\<lparr>displayStart := (if len = -1 \<or> start < 0 then 0 else start)\<rparr>)"

text \<open>\<open>rows().remove()\<close> for one row, then for a selection, whose indexes are lowered as it goes.\<close>

definition removeRow :: "nat \<Rightarrow> table \<Rightarrow> table" where
  "removeRow r s =
     lengthOverflow (s\<lparr>aoData := take r (aoData s) @ drop (Suc r) (aoData s),
       aiDisplayMaster := deleteIndex r True (aiDisplayMaster s), aiDisplay := deleteIndex r True (aiDisplay s)\<rparr>)"

fun removeRows :: "nat \<Rightarrow> nat list \<Rightarrow> table \<Rightarrow> table" where
  "removeRows 0 sel s = s"
| "removeRows (Suc n) [] s = s"
| "removeRows (Suc n) (r # sel) s = removeRows n (deleteIndex r False sel) (removeRow r s)"

definition invalidate :: "nat \<Rightarrow> nat option \<Rightarrow> jsval \<Rightarrow> table \<Rightarrow> table" where
  "invalidate rowIdx colIdx d s =
     s\<lparr>aoData := (aoData s)[rowIdx := (aoData s ! rowIdx)\<lparr>aData := d, aSortData := [], aFilterData := None\<rparr>],
       aoColumns := (case colIdx of None \<Rightarrow> forget_types (aoColumns s)
         | Some c \<Rightarrow> (aoColumns s)[c := (aoColumns s ! c)\<lparr>sType := None\<rparr>])\<rparr>"

subsection \<open>The invariant of the index arrays\<close>

definition table_wf :: "table \<Rightarrow> bool" where
  "table_wf s \<longleftrightarrow> distinct (aiDisplayMaster s) \<and> set (aiDisplayMaster s) = {..<length (aoData s)} \<and>
     distinct (aiDisplay s) \<and> set (aiDisplay s) \<subseteq> {..<length (aoData s)}"

lemma table_wf_add: "table_wf s \<Longrightarrow> table_wf (addData d s)"
  by (auto simp: table_wf_def addData_def less_Suc_eq)

lemma table_wf_clear: "table_wf (clearTable s)"
  by (simp add: table_wf_def clearTable_def)

lemma lengthOverflow_keeps [simp]:
  "aoData (lengthOverflow s) = aoData s" "aiDisplayMaster (lengthOverflow s) = aiDisplayMaster s"
  "aiDisplay (lengthOverflow s) = aiDisplay s" "displayLength (lengthOverflow s) = displayLength s"
  "table_wf (lengthOverflow s) = table_wf s"
  by (simp_all add: lengthOverflow_def Let_def table_wf_def)

text \<open>On an array without repetitions, the loop is: drop the target, lower what is above it.\<close>

definition lower_above :: "nat \<Rightarrow> nat \<Rightarrow> nat" where
  "lower_above t x = (if x > t then x - 1 else x)"

lemma inArray_None: "inArray t xs = None \<longleftrightarrow> t \<notin> set xs"
  by (induction xs) auto

lemma lower_loop_spec:
  "distinct xs \<Longrightarrow> lower_loop t i xs h =
    (map (lower_above t) xs, case inArray t xs of Some j \<Rightarrow> Some (i + j) | None \<Rightarrow> h)"
proof (induction xs arbitrary: i h)
  case (Cons x xs)
  have "inArray t xs = None" if "x = t" using Cons.prems that by (simp add: inArray_None)
  with Cons show ?case by (auto simp: lower_above_def split: option.splits)
qed simp

lemma inArray_split:
  "distinct xs \<Longrightarrow> inArray t xs = Some j \<Longrightarrow> take j xs @ drop (Suc j) xs = removeAll t xs \<and> j < length xs"
proof (induction xs arbitrary: j)
  case (Cons x xs)
  then show ?case by (auto split: if_splits simp: removeAll_id)
qed simp

lemma deleteIndex_spec:
  assumes "distinct xs"
  shows "deleteIndex t True xs = map (lower_above t) (removeAll t xs)"
proof (cases "inArray t xs")
  case None
  then have "t \<notin> set xs" by (simp add: inArray_None)
  with None show ?thesis using lower_loop_spec [OF assms, of t 0 None]
    by (simp add: deleteIndex_def)
next
  case (Some j)
  then show ?thesis
    using lower_loop_spec [OF assms, of t 0 None] inArray_split [OF assms Some]
    by (simp add: deleteIndex_def take_map drop_map flip: map_append)
qed

lemma lower_above_inj: "inj_on (lower_above t) (- {t})"
  by (auto simp: inj_on_def lower_above_def split: if_splits)

lemma lower_above_image: "r < Suc n \<Longrightarrow> lower_above r ` ({..<Suc n} - {r}) = {..<n}"
proof
  show "{..<n} \<subseteq> lower_above r ` ({..<Suc n} - {r})" if "r < Suc n"
  proof
    fix x assume "x \<in> {..<n}"
    then show "x \<in> lower_above r ` ({..<Suc n} - {r})"
      by (intro image_eqI [of _ _ "if x < r then x else Suc x"]) (auto simp: lower_above_def)
  qed
qed (auto simp: lower_above_def)

lemma table_wf_remove:
  assumes "table_wf s" and "r < length (aoData s)"
  shows "table_wf (removeRow r s)"
proof -
  obtain n where n: "length (aoData s) = Suc n" using assms(2) by (cases "length (aoData s)") auto
  have d: "distinct (map (lower_above r) (removeAll r xs))" if "distinct xs" for xs
    using that inj_on_subset [OF lower_above_inj, of "set (removeAll r xs)" r] by (auto simp: distinct_map)
  have l: "length (take r (aoData s) @ drop (Suc r) (aoData s)) = n" using assms(2) n by simp
  have "lower_above r ` (set (aiDisplayMaster s) - {r}) = {..<n}"
    using assms n lower_above_image [of r n] by (simp add: table_wf_def)
  moreover have "lower_above r ` (set (aiDisplay s) - {r}) \<subseteq> {..<n}"
    using assms n lower_above_image [of r n] by (auto simp: table_wf_def)
  ultimately show ?thesis
    using assms(1) d l by (simp add: removeRow_def table_wf_def deleteIndex_spec)
qed

text \<open>The row that an index array entry stands for is the same after a removal.\<close>

lemma remove_nth:
  "x \<noteq> r \<Longrightarrow> x < length xs \<Longrightarrow> (take r xs @ drop (Suc r) xs) ! lower_above r x = xs ! x"
  by (auto simp: lower_above_def nth_append min_def)

lemma deleteIndex_no_splice: "distinct xs \<Longrightarrow> deleteIndex t False xs = map (lower_above t) xs"
  using lower_loop_spec [of xs t 0 None] by (simp add: deleteIndex_def split: option.splits)

lemma filter_lowered:
  assumes "r \<notin> set sel"
  shows "filter (\<lambda>x. x \<notin> set (map (lower_above r) sel)) (map (lower_above r) (removeAll r xs))
    = map (lower_above r) (filter (\<lambda>x. x \<notin> set (r # sel)) xs)"
proof -
  have i: "lower_above r x \<in> lower_above r ` set sel \<longleftrightarrow> x \<in> set sel" if "x \<noteq> r" for x
    using that assms inj_on_image_mem_iff [OF lower_above_inj [of r], of x "set sel"] by auto
  show ?thesis by (induction xs) (auto simp: i)
qed

text \<open>What the table shows after the removal of a selection, as rows rather than indexes.\<close>

definition rows_of :: "nat list \<Rightarrow> table \<Rightarrow> row list" where
  "rows_of ix s = map (nth (aoData s)) ix"

lemma rows_lowered:
  assumes "r \<notin> set ix" and "set ix \<subseteq> {..<length (aoData s)}"
  shows "rows_of (map (lower_above r) ix) (removeRow r s) = rows_of ix s"
  using assms by (auto simp: rows_of_def removeRow_def intro!: remove_nth)

lemma removeRows_spec:
  "table_wf s \<Longrightarrow> distinct sel \<Longrightarrow> set sel \<subseteq> {..<length (aoData s)} \<Longrightarrow> s' = removeRows (length sel) sel s \<Longrightarrow>
   table_wf s' \<and> rows_of (aiDisplayMaster s') s' = rows_of (filter (\<lambda>x. x \<notin> set sel) (aiDisplayMaster s)) s \<and>
   rows_of (aiDisplay s') s' = rows_of (filter (\<lambda>x. x \<notin> set sel) (aiDisplay s)) s"
proof (induction sel arbitrary: s s' rule: length_induct)
  case (1 sel)
  show ?case
  proof (cases sel)
    case Nil
    then show ?thesis using 1 by (simp add: table_wf_def)
  next
    case (Cons r rest)
    let ?s1 = "removeRow r s" and ?r1 = "map (lower_above r) rest"
    have r: "r < length (aoData s)" "r \<notin> set rest" "distinct rest" "set rest \<subseteq> {..<length (aoData s)}"
      using 1(3,4) Cons by auto
    obtain n where n: "length (aoData s) = Suc n" using r(1) by (cases "length (aoData s)") auto
    have wf: "table_wf ?s1" by (rule table_wf_remove [OF 1(2) r(1)])
    have l: "length (aoData ?s1) = n" using r(1) n by (simp add: removeRow_def)
    have d: "distinct ?r1" using r inj_on_subset [OF lower_above_inj, of "set rest" r] by (auto simp: distinct_map)
    have sub: "set ?r1 \<subseteq> {..<length (aoData ?s1)}" using r n l lower_above_image [of r n] by fastforce
    have s': "s' = removeRows (length ?r1) ?r1 ?s1"
      using 1(5) Cons deleteIndex_no_splice [OF r(3)] by simp
    have len: "length ?r1 < length sel" using Cons by simp
    have IH: "table_wf s' \<and> rows_of (aiDisplayMaster s') s' = rows_of (filter (\<lambda>x. x \<notin> set ?r1) (aiDisplayMaster ?s1)) ?s1 \<and>
      rows_of (aiDisplay s') s' = rows_of (filter (\<lambda>x. x \<notin> set ?r1) (aiDisplay ?s1)) ?s1"
      using 1(1) [rule_format, OF len, of ?s1 s'] wf d sub s' by blast
    have i: "aiDisplayMaster ?s1 = map (lower_above r) (removeAll r (aiDisplayMaster s))"
      "aiDisplay ?s1 = map (lower_above r) (removeAll r (aiDisplay s))"
      using 1(2) by (simp_all add: removeRow_def deleteIndex_spec table_wf_def)
    have f: "rows_of (filter (\<lambda>x. x \<notin> set ?r1) (map (lower_above r) (removeAll r ix))) ?s1
        = rows_of (filter (\<lambda>x. x \<notin> set sel) ix) s" if "set ix \<subseteq> {..<length (aoData s)}" for ix
      using that Cons rows_lowered [of r "filter (\<lambda>x. x \<notin> set sel) ix" s]
      by (simp only: filter_lowered [OF r(2)]) auto
    show ?thesis using IH f [of "aiDisplayMaster s"] f [of "aiDisplay s"] 1(2) unfolding i by (simp add: table_wf_def)
  qed
qed

text \<open>
  C29. Removing a selection of rows removes exactly these rows. Although every removal renumbers
  the rows behind it, after removing any selection of distinct rows the sorted and the filtered
  list still show every other row, in the same order, and the index arrays are again
  consistent with the rows.
\<close>

theorem removeRows_exact:
  assumes "table_wf s" and "distinct sel" and "set sel \<subseteq> {..<length (aoData s)}" and "s' = removeRows (length sel) sel s"
  shows "table_wf s' \<and>
    map (nth (aoData s')) (aiDisplayMaster s') = map (nth (aoData s)) (filter (\<lambda>x. x \<notin> set sel) (aiDisplayMaster s)) \<and>
    map (nth (aoData s')) (aiDisplay s') = map (nth (aoData s)) (filter (\<lambda>x. x \<notin> set sel) (aiDisplay s))"
  using removeRows_spec [OF assms] by (simp add: rows_of_def)

definition blank_search :: search where
  "blank_search = \<lparr>sSearch = [], bRegex = False, bSmart = True, bCaseInsensitive = True\<rparr>"

definition blank_table :: table where
  "blank_table = \<lparr>aoColumns = [], aoData = [], aiDisplayMaster = [], aiDisplay = [], aaSorting = [], sort_pre = [],
     sort_post = [], oPreviousSearch = blank_search, aoPreSearchCols = [], bServerSide = False, has_ajax = False,
     bSort = True, bFilter = True, bPaginate = True, bSortMulti = True, bStateSave = False, displayStart = 0,
     displayLength = 10, initDisplayStart = None, iRecordsTotal = 0, iRecordsDisplay = 0, iDraw = 0, bSorted = False,
     bFiltered = False, bDestroying = False, bDeferLoading = False, bAjaxDataGet = True, asStripeClasses = [], drawn = []\<rparr>"

lemma blank_table_wf: "table_wf blank_table"
  by (simp add: table_wf_def blank_table_def)

definition sample_table :: table where
  "sample_table = fold (\<lambda>i s. addData (Num i) s) [10, 20, 30, 40] blank_table"

lemma sample_table_wf: "table_wf sample_table"
  unfolding sample_table_def by (simp add: table_wf_add blank_table_wf)

lemma sample_table_fields:
  "aiDisplayMaster sample_table = [0, 1, 2, 3]" "aoData sample_table = map (\<lambda>i. new_row (Num i)) [10, 20, 30, 40]"
  "aiDisplay sample_table = []"
  by (simp_all add: sample_table_def addData_def blank_table_def)

theorem removeRows_exact_witness:
  "map (nth (aoData (removeRows 2 [0, 2] sample_table))) (aiDisplayMaster (removeRows 2 [0, 2] sample_table))
    = [new_row (Num 20), new_row (Num 40)]"
proof -
  have "distinct [0::nat, 2]" "set [0, 2] \<subseteq> {..<length (aoData sample_table)}" by (auto simp: sample_table_fields)
  from removeRows_exact [OF sample_table_wf this refl] show ?thesis
    by (simp add: sample_table_fields eval_nat_numeral)
qed

end
