(* ===== verification/DT_Paging.thy ===== *)
theory DT_Paging
  imports DT_Model JQuery_Classes
begin

text \<open>
  Paging and drawing in DataTables: \<open>_fnPageChange\<close>, \<open>_fnLengthChange\<close>, \<open>_fnDraw\<close>, the page
  numbers and the text of the information element. The theorems show that the pages partition
  the filtered rows, and which actions keep the table on the grid of pages.
\<close>

subsection \<open>Changing the page\<close>

text \<open>A page length of zero, with which the source computes NaN, is outside the model.\<close>

datatype page_action = Page int | First | Previous | Next | Last | Other ustr

definition page_start :: "page_action \<Rightarrow> table \<Rightarrow> int" where
  "page_start action s =
     (let start = displayStart s; len = displayLength s; records = fnRecordsDisplay s in
      if records = 0 \<or> len = -1 then 0
      else (case action of
          Page n \<Rightarrow> if n * len > records then 0 else n * len
        | First \<Rightarrow> 0
        | Previous \<Rightarrow> (let start = (if len \<ge> 0 then start - len else 0) in if start < 0 then 0 else start)
        | Next \<Rightarrow> if start + len < records then start + len else start
        | Last \<Rightarrow> (records - 1) div len * len
        | Other _ \<Rightarrow> start))"

definition lengthChange :: "int \<Rightarrow> table \<Rightarrow> table" where
  "lengthChange len s = lengthOverflow (s\<lparr>displayLength := len\<rparr>)"

subsection \<open>Drawing\<close>

definition draw_start :: "table \<Rightarrow> table" where
  "draw_start s =
     (case initDisplayStart s of
        None \<Rightarrow> s
      | Some i \<Rightarrow>
          if i \<noteq> -1
          then s\<lparr>displayStart := (if bServerSide s then i else if i \<ge> fnRecordsDisplay s then 0 else i),
                 initDisplayStart := Some (-1)\<rparr>
          else s)"

text \<open>The stripe of the \<open>k\<close>-th drawn row replaces the stripe the row had.\<close>

definition stripe_row :: "ustr list \<Rightarrow> nat \<Rightarrow> row \<Rightarrow> row" where
  "stripe_row stripes k r =
     (if stripes = [] then r
      else (let st = stripes ! (k mod length stripes) in
        if rowStripe r \<noteq> st
        then r\<lparr>rowClass := addClass st (removeClass (rowStripe r) (rowClass r)), rowStripe := st\<rparr>
        else r))"

fun stripe_all :: "ustr list \<Rightarrow> nat \<Rightarrow> nat list \<Rightarrow> row list \<Rightarrow> row list" where
  "stripe_all stripes k [] rows = rows"
| "stripe_all stripes k (i # is) rows = stripe_all stripes (Suc k) is (rows[i := stripe_row stripes k (rows ! i)])"

text \<open>
  The positions of \<open>aiDisplay\<close> that are drawn; outside the array an entry is undefined, and
  reading the row of it a TypeError.
\<close>

definition draw_positions :: "table \<Rightarrow> int list" where
  "draw_positions s = (if bServerSide s then [0..int (length (aoData s)) - 1] else [displayStart s..fnDisplayEnd s - 1])"

definition draw_rows :: "table \<Rightarrow> table js_result" where
  "draw_rows s =
     (if aiDisplay s = [] then Inr (s\<lparr>drawn := [], bSorted := False, bFiltered := False\<rparr>)
      else if \<exists>j \<in> set (draw_positions s). j < 0 \<or> int (length (aiDisplay s)) \<le> j then Inl TypeError
      else (let is = map (\<lambda>j. aiDisplay s ! nat j) (draw_positions s) in
        Inr (s\<lparr>drawn := is, aoData := stripe_all (asStripeClasses s) 0 is (aoData s), bSorted := False, bFiltered := False\<rparr>)))"

text \<open>
  \<open>_fnDraw\<close>; \<open>cancelled\<close> says that a callback before the draw returned false. With server-side
  processing it makes a request (\<open>_fnAjaxUpdate\<close>, whose parameters flatten the order) and draws nothing.
\<close>

definition fnDraw :: "bool \<Rightarrow> table \<Rightarrow> table js_result" where
  "fnDraw cancelled s =
     (if cancelled then Inr s
      else (let s = draw_start s in
        if bDeferLoading s then draw_rows (s\<lparr>bDeferLoading := False, iDraw := iDraw s + 1\<rparr>)
        else if \<not> bServerSide s then draw_rows (s\<lparr>iDraw := iDraw s + 1\<rparr>)
        else if \<not> bDestroying s \<and> bAjaxDataGet s then Inr (cache_indices (s\<lparr>iDraw := iDraw s + 1\<rparr>))
        else draw_rows s))"

definition pageChange :: "page_action \<Rightarrow> bool \<Rightarrow> table \<Rightarrow> (bool \<times> table) js_result" where
  "pageChange action redraw s =
     (let start = page_start action s; changed = (displayStart s \<noteq> start); s1 = s\<lparr>displayStart := start\<rparr> in
      if changed \<and> redraw then js_bind (fnDraw False s1) (\<lambda>s2. Inr (changed, s2)) else Inr (changed, s1))"

text \<open>The answer of a server-side request: one that is older than the last draw is dropped.\<close>

record reply =
  rp_draw :: "int option"      \<comment> \<open>None if absent or zero\<close>
  rp_total :: int
  rp_filtered :: int
  rp_rows :: "jsval list"

definition ajaxUpdateDraw :: "reply \<Rightarrow> table \<Rightarrow> table js_result" where
  "ajaxUpdateDraw rp s =
     (case rp_draw rp of
        Some d \<Rightarrow> if d < iDraw s then Inr s else
          (let s1 = fold addData (rp_rows rp) ((clearTable (s\<lparr>iDraw := d\<rparr>))\<lparr>iRecordsTotal := rp_total rp, iRecordsDisplay := rp_filtered rp\<rparr>);
               s2 = s1\<lparr>aiDisplay := aiDisplayMaster s1, bAjaxDataGet := False\<rparr> in
           js_bind (fnDraw False s2) (\<lambda>s3. Inr (s3\<lparr>bAjaxDataGet := True\<rparr>)))
      | None \<Rightarrow>
          (let s1 = fold addData (rp_rows rp) ((clearTable s)\<lparr>iRecordsTotal := rp_total rp, iRecordsDisplay := rp_filtered rp\<rparr>);
               s2 = s1\<lparr>aiDisplay := aiDisplayMaster s1, bAjaxDataGet := False\<rparr> in
           js_bind (fnDraw False s2) (\<lambda>s3. Inr (s3\<lparr>bAjaxDataGet := True\<rparr>))))"

subsection \<open>Page numbers and information\<close>

datatype page_button = Number int | Ellipsis

definition numbers_length :: int where
  "numbers_length = 7"

definition page_numbers :: "int \<Rightarrow> int \<Rightarrow> page_button list" where
  "page_numbers page pages =
     (let buttons = numbers_length; half = buttons div 2 in
      if pages \<le> buttons then map Number (dt_range 0 (Some pages))
      else if page \<le> half then map Number (dt_range 0 (Some (buttons - 2))) @ [Ellipsis, Number (pages - 1)]
      else if page \<ge> pages - 1 - half then
        [Number 0, Ellipsis] @ map Number (dt_range (pages - (buttons - 2)) (Some pages))
      else [Number 0, Ellipsis] @ map Number (dt_range (page - half + 2) (Some (page + half - 1)))
        @ [Ellipsis, Number (pages - 1)])"

definition ceil_div :: "int \<Rightarrow> int \<Rightarrow> int" where
  "ceil_div a b = - ((- a) div b)"

record page_info =
  pi_page :: int
  pi_pages :: int
  pi_start :: int
  pi_end :: int
  pi_length :: int
  pi_total :: int
  pi_display :: int

definition page_info_of :: "table \<Rightarrow> page_info" where
  "page_info_of s =
     (let start = displayStart s; len = (if bPaginate s then displayLength s else -1); vis = fnRecordsDisplay s; al = (len = -1) in
      \<lparr>pi_page = (if al then 0 else start div len), pi_pages = (if al then 1 else ceil_div vis len), pi_start = start,
       pi_end = fnDisplayEnd s, pi_length = len, pi_total = fnRecordsTotal s, pi_display = vis\<rparr>)"

definition replace_macro :: "ustr \<Rightarrow> ustr \<Rightarrow> ustr \<Rightarrow> ustr" where
  "replace_macro m r s = (case m of [] \<Rightarrow> s | c # cs \<Rightarrow> replace_all c cs r s)"

definition infoMacros :: "(int \<Rightarrow> ustr) \<Rightarrow> ustr \<Rightarrow> table \<Rightarrow> ustr" where
  "infoMacros fmt str s =
     (let start = displayStart s + 1; len = displayLength s; vis = fnRecordsDisplay s; al = (len = -1);
          s1 = replace_macro (u ''_START_'') (fmt start) str;
          s2 = replace_macro (u ''_END_'') (fmt (fnDisplayEnd s)) s1;
          s3 = replace_macro (u ''_MAX_'') (fmt (fnRecordsTotal s)) s2;
          s4 = replace_macro (u ''_TOTAL_'') (fmt vis) s3;
          s5 = replace_macro (u ''_PAGE_'') (fmt (if al then 1 else ceil_div start len)) s4
      in replace_macro (u ''_PAGES_'') (fmt (if al then 1 else ceil_div vis len)) s5)"

record info_lang =
  sInfo :: ustr
  sInfoEmpty :: ustr
  sInfoFiltered :: ustr
  sInfoPostFix :: ustr

definition updateInfo :: "(int \<Rightarrow> ustr) \<Rightarrow> info_lang \<Rightarrow> table \<Rightarrow> ustr" where
  "updateInfo fmt lang s =
     (let total = fnRecordsDisplay s;
          out = (if total \<noteq> 0 then sInfo lang else sInfoEmpty lang);
          out = (if total \<noteq> fnRecordsTotal s then out @ [32] @ sInfoFiltered lang else out)
      in infoMacros fmt (out @ sInfoPostFix lang) s)"

subsection \<open>The grid of pages\<close>

text \<open>A client-side table that pages, on a page boundary inside the records.\<close>

definition on_grid :: "table \<Rightarrow> bool" where
  "on_grid s \<longleftrightarrow> \<not> bServerSide s \<and> bPaginate s \<and> 0 < displayLength s \<and> 0 \<le> displayStart s \<and>
     displayStart s mod displayLength s = 0 \<and> (displayStart s < fnRecordsDisplay s \<or> displayStart s = 0)"

lemma records_client: "\<not> bServerSide s \<Longrightarrow> fnRecordsDisplay s = int (length (aiDisplay s))"
  by (simp add: fnRecordsDisplay_def dataSource_def)

lemma records_at [simp]: "fnRecordsDisplay (s\<lparr>displayStart := i\<rparr>) = fnRecordsDisplay s"
  by (simp add: fnRecordsDisplay_def dataSource_def)

text \<open>The rows shown: the slice of the filtered rows from the start, one page long.\<close>

lemma displayEnd_client:
  assumes "\<not> bServerSide s" and "bPaginate s" and "0 < displayLength s"
  shows "fnDisplayEnd s = min (displayStart s + displayLength s) (int (length (aiDisplay s)))"
  using assms by (auto simp: fnDisplayEnd_def Let_def)

lemma map_nth_upto:
  "0 \<le> a \<Longrightarrow> b \<le> int (length xs) \<Longrightarrow> map (\<lambda>j. xs ! nat j) [a..b - 1] = take (nat (b - a)) (drop (nat a) xs)"
proof (rule nth_equalityI)
  assume ab: "0 \<le> a" "b \<le> int (length xs)"
  then show "length (map (\<lambda>j. xs ! nat j) [a..b - 1]) = length (take (nat (b - a)) (drop (nat a) xs))"
    by (auto simp: min_def)
  fix i
  assume "i < length (map (\<lambda>j. xs ! nat j) [a..b - 1])"
  with ab show "map (\<lambda>j. xs ! nat j) [a..b - 1] ! i = take (nat (b - a)) (drop (nat a) xs) ! i"
    by (auto simp: nth_upto nat_add_distrib)
qed

lemma draw_rows_slice:
  assumes "on_grid s" and "draw_rows s = Inr s'"
  shows "drawn s' = take (nat (displayLength s)) (drop (nat (displayStart s)) (aiDisplay s))"
proof (cases "aiDisplay s = []")
  case True
  then show ?thesis using assms(2) by (auto simp: draw_rows_def)
next
  case False
  have g: "\<not> bServerSide s" "bPaginate s" "0 < displayLength s" "0 \<le> displayStart s" using assms(1) by (auto simp: on_grid_def)
  let ?e = "fnDisplayEnd s"
  have e: "?e = min (displayStart s + displayLength s) (int (length (aiDisplay s)))" using displayEnd_client g by simp
  have "drawn s' = map (\<lambda>j. aiDisplay s ! nat j) [displayStart s..?e - 1]"
    using assms(2) False g by (auto simp: draw_rows_def draw_positions_def Let_def split: if_splits)
  also have "\<dots> = take (nat (?e - displayStart s)) (drop (nat (displayStart s)) (aiDisplay s))"
    using g e by (intro map_nth_upto) auto
  also have "\<dots> = take (nat (displayLength s)) (drop (nat (displayStart s)) (aiDisplay s))"
    unfolding e using g by (auto simp: min_def nat_diff_distrib)
  finally show ?thesis .
qed

lemma draw_rows_ok: "on_grid s \<Longrightarrow> \<exists>s'. draw_rows s = Inr s'"
  using displayEnd_client [of s] by (auto simp: on_grid_def draw_rows_def draw_positions_def Let_def)

lemma grid_next:
  assumes "on_grid s"
  shows "on_grid (s\<lparr>displayStart := page_start Next s\<rparr>)"
  using assms by (auto simp: on_grid_def page_start_def Let_def)

lemma grid_other:
  assumes "on_grid s" and "a \<in> {First, Previous, Last}"
  shows "on_grid (s\<lparr>displayStart := page_start a s\<rparr>)"
proof -
  let ?l = "displayLength s" and ?n = "fnRecordsDisplay s"
  have g: "0 < ?l" "0 \<le> displayStart s" "displayStart s mod ?l = 0" "0 \<le> ?n" using assms(1) by (auto simp: on_grid_def records_client)
  have "(?n - 1) div ?l * ?l = ?n - 1 - (?n - 1) mod ?l" by (simp add: minus_mod_eq_div_mult)
  then have "(?n - 1) div ?l * ?l \<le> ?n - 1" using pos_mod_sign [OF g(1), of "?n - 1"] by linarith
  moreover have "0 \<le> (?n - 1) div ?l * ?l" if "0 < ?n" using that g(1) by (simp add: pos_imp_zdiv_nonneg_iff)
  moreover have "(displayStart s - ?l) mod ?l = 0" using g(3) by simp
  ultimately show ?thesis
    using assms g by (auto simp: on_grid_def page_start_def Let_def)
qed


lemma page_action_grid: "on_grid s \<Longrightarrow> a \<in> {First, Previous, Next, Last} \<Longrightarrow> on_grid (s\<lparr>displayStart := page_start a s\<rparr>)"
  using grid_next grid_other by auto

lemma pageChange_quiet:
  "pageChange a False s = Inr (displayStart s \<noteq> page_start a s, s\<lparr>displayStart := page_start a s\<rparr>)"
  by (simp add: pageChange_def Let_def)

text \<open>Walking through the pages, and what a draw shows on each.\<close>

definition turn :: "page_action \<Rightarrow> table \<Rightarrow> table" where
  "turn a s = (case pageChange a False s of Inr (_, t) \<Rightarrow> t | Inl _ \<Rightarrow> s)"

fun walk :: "nat \<Rightarrow> table \<Rightarrow> table" where
  "walk 0 s = turn First s"
| "walk (Suc k) s = turn Next (walk k s)"

definition shown_rows :: "table \<Rightarrow> nat list" where
  "shown_rows s = (case fnDraw False s of Inr t \<Rightarrow> drawn t | Inl _ \<Rightarrow> [])"

lemma turn_start: "turn a s = s\<lparr>displayStart := page_start a s\<rparr>"
  by (simp add: turn_def pageChange_quiet)

lemma ceil_div_bounds:
  assumes "0 < (l::int)"
  shows "n \<le> ceil_div n l * l" and "(ceil_div n l - 1) * l < n"
proof -
  have e: "(- n) div l * l + (- n) mod l = - n" by (rule div_mult_mod_eq)
  have m: "0 \<le> (- n) mod l" "(- n) mod l < l" using assms by simp_all
  have c: "ceil_div n l * l = - ((- n) div l * l)" by (simp add: ceil_div_def)
  show "n \<le> ceil_div n l * l" using e m c by linarith
  have "(ceil_div n l - 1) * l = ceil_div n l * l - l" by (simp add: left_diff_distrib)
  then show "(ceil_div n l - 1) * l < n" using e m c by linarith
qed

lemma page_start_empty: "aiDisplay s \<noteq> [] \<Longrightarrow> \<not> bServerSide s \<Longrightarrow> fnRecordsDisplay s \<noteq> 0"
  by (simp add: records_client)

lemma walk_start:
  assumes "on_grid s" and "aiDisplay s \<noteq> []" and "k < nat (ceil_div (fnRecordsDisplay s) (displayLength s))"
  shows "walk k s = s\<lparr>displayStart := int k * displayLength s\<rparr>"
  using assms(3)
proof (induction k)
  case 0
  have "displayLength s \<noteq> -1" using assms(1) by (auto simp: on_grid_def)
  then show ?case
    using assms(1,2) page_start_empty [of s] by (simp add: turn_start page_start_def Let_def)
next
  case (Suc k)
  let ?l = "displayLength s" and ?n = "fnRecordsDisplay s"
  have g: "0 < ?l" "\<not> bServerSide s" using assms(1) by (auto simp: on_grid_def)
  from Suc.prems have "int (Suc k) \<le> ceil_div ?n ?l - 1" by simp
  then have "int (Suc k) * ?l \<le> (ceil_div ?n ?l - 1) * ?l" using g(1) by (intro mult_right_mono) auto
  also have "\<dots> < ?n" using ceil_div_bounds(2) [OF g(1)] .
  finally have "int k * ?l + ?l < ?n" by (simp add: algebra_simps)
  then show ?case
    using Suc g page_start_empty [OF assms(2) g(2)]
    by (simp add: turn_start page_start_def Let_def algebra_simps)
qed

lemma concat_pages: "concat (map (\<lambda>k. take n (drop (k * n) xs)) [0..<m]) = take (m * n) xs"
proof (induction m)
  case (Suc m)
  have "take (Suc m * n) xs = take (m * n) xs @ take n (drop (m * n) xs)"
    using take_add [of "m * n" n xs] by (simp add: add.commute)
  with Suc show ?case by simp
qed simp

lemma shown_grid:
  assumes "on_grid s" and "initDisplayStart s = None" and "\<not> bDeferLoading s"
  shows "shown_rows s = take (nat (displayLength s)) (drop (nat (displayStart s)) (aiDisplay s))"
proof -
  let ?s = "s\<lparr>iDraw := iDraw s + 1\<rparr>"
  have g: "on_grid ?s" using assms(1) by (auto simp: on_grid_def records_client)
  then obtain t where t: "draw_rows ?s = Inr t" using draw_rows_ok by blast
  have "fnDraw False s = draw_rows ?s"
    using assms by (simp add: fnDraw_def draw_start_def on_grid_def)
  then show ?thesis using draw_rows_slice [OF g t] t by (simp add: shown_rows_def)
qed

lemma pages_partition:
  assumes "on_grid s" and "aiDisplay s \<noteq> []" and "initDisplayStart s = None" and "\<not> bDeferLoading s"
    and "n = nat (pi_pages (page_info_of s))"
  shows "concat (map (\<lambda>k. shown_rows (walk k s)) [0..<n]) = aiDisplay s \<and>
    (\<forall>k < n. displayStart (walk k s) = int k * displayLength s)"
proof -
  let ?l = "displayLength s"
  have g: "0 < ?l" "\<not> bServerSide s" "bPaginate s" using assms(1) by (auto simp: on_grid_def)
  have n: "n = nat (ceil_div (fnRecordsDisplay s) ?l)" using assms(5) g by (simp add: page_info_of_def Let_def)
  have w: "walk k s = s\<lparr>displayStart := int k * ?l\<rparr>" if "k < n" for k
    using walk_start [OF assms(1,2)] that n by simp
  have "shown_rows (walk k s) = take (nat ?l) (drop (k * nat ?l) (aiDisplay s))" if k: "k < n" for k
  proof -
    have "int k * ?l \<le> (ceil_div (fnRecordsDisplay s) ?l - 1) * ?l"
      using k n g(1) by (intro mult_right_mono) auto
    also have "\<dots> < fnRecordsDisplay s" using ceil_div_bounds(2) [OF g(1)] .
    finally have "on_grid (walk k s)" using assms(1) w [OF k] by (simp add: on_grid_def)
    then show ?thesis
      using shown_grid [of "walk k s"] assms(3,4) w [OF k] by (simp add: nat_mult_distrib)
  qed
  then have m: "map (\<lambda>k. shown_rows (walk k s)) [0..<n] = map (\<lambda>k. take (nat ?l) (drop (k * nat ?l) (aiDisplay s))) [0..<n]"
    by (intro map_cong) auto
  have "length (aiDisplay s) \<le> n * nat ?l"
  proof -
    have "fnRecordsDisplay s \<le> int n * ?l"
      using ceil_div_bounds(1) [OF g(1), of "fnRecordsDisplay s"] n g(1)
        mult_nonpos_nonneg [of "ceil_div (fnRecordsDisplay s) ?l" ?l]
      by (cases "0 \<le> ceil_div (fnRecordsDisplay s) ?l") auto
    then have "int (length (aiDisplay s)) \<le> int (n * nat ?l)" using g by (simp add: records_client)
    then show ?thesis by linarith
  qed
  then show ?thesis unfolding m concat_pages using w by simp
qed


definition paged_table :: table where
  "paged_table = blank_table\<lparr>aiDisplay := [4, 2, 7], displayLength := 2\<rparr>"


lemma overflow_grid:
  assumes "\<not> bServerSide s" and "bPaginate s" and "0 < displayLength s" and "0 \<le> displayStart s"
  shows "on_grid (lengthOverflow s)"
proof -
  let ?l = "displayLength s" and ?n = "int (length (aiDisplay s))"
  have e: "fnDisplayEnd s = min (displayStart s + ?l) ?n" using displayEnd_client assms by simp
  have r: "js_rem a ?l \<le> a" "0 \<le> js_rem a ?l" "(a - js_rem a ?l) mod ?l = 0" if "0 \<le> a" for a
    using that assms(3) by (simp_all add: js_rem_def zmod_le_nonneg_dividend minus_mod_eq_mult_div)
  have neg: "a - js_rem a ?l \<le> 0" if "a < 0" for a
  proof -
    have "(- a) mod ?l \<le> - a" using that assms(3) by (intro zmod_le_nonneg_dividend) simp
    then show ?thesis using that assms(3) by (simp add: js_rem_def)
  qed
  let ?a = "if displayStart s \<ge> fnDisplayEnd s then fnDisplayEnd s - ?l else displayStart s"
  have a: "?a < ?n \<or> ?a \<le> 0" using e assms by auto
  have s: "displayStart (lengthOverflow s) = (if ?a - js_rem ?a ?l < 0 then 0 else ?a - js_rem ?a ?l)"
    using assms(3) by (simp add: lengthOverflow_def Let_def)
  have keep: "\<not> bServerSide (lengthOverflow s)" "bPaginate (lengthOverflow s)"
    using assms by (simp_all add: lengthOverflow_def Let_def)
  show ?thesis
  proof (cases "?a < 0")
    case True
    then show ?thesis using neg [OF True] s keep assms(3) by (auto simp: on_grid_def)
  next
    case False
    then show ?thesis using r [of ?a] a s keep assms(3) by (auto simp: on_grid_def records_client)
  qed
qed

text \<open>
  The buttons first, previous, next and last, and a change of the page length, keep the table
  on a page boundary inside the records. A jump to a page number does not: the page after the
  last is accepted when the records fill the last page, and shows nothing although there are
  records.
\<close>

theorem paging_grid:
  "(on_grid s \<longrightarrow> a \<in> {First, Previous, Next, Last} \<longrightarrow> on_grid (turn a s)) \<and>
   (on_grid s \<longrightarrow> 0 < len \<longrightarrow> on_grid (lengthChange len s)) \<and>
   (on_grid s \<longrightarrow> n * displayLength s = fnRecordsDisplay s \<longrightarrow> 0 < n \<longrightarrow>
     displayStart (turn (Page n) s) = fnRecordsDisplay s \<and> fnDisplayEnd (turn (Page n) s) = fnRecordsDisplay s)"
proof (intro conjI impI)
  assume "on_grid s" "a \<in> {First, Previous, Next, Last}"
  then show "on_grid (turn a s)" using page_action_grid by (simp add: turn_start)
next
  assume "on_grid s" "0 < len"
  then show "on_grid (lengthChange len s)"
    unfolding lengthChange_def by (intro overflow_grid) (auto simp: on_grid_def)
next
  assume g: "on_grid s" and n: "n * displayLength s = fnRecordsDisplay s" "0 < n"
  have "fnRecordsDisplay s \<noteq> 0" using n g by (auto simp: on_grid_def)
  then show "displayStart (turn (Page n) s) = fnRecordsDisplay s"
    using n g by (auto simp: turn_start page_start_def Let_def on_grid_def)
  then show "fnDisplayEnd (turn (Page n) s) = fnRecordsDisplay s"
    using g displayEnd_client [of "turn (Page n) s"] by (auto simp: turn_start on_grid_def records_client)
qed

theorem paging_grid_witness:
  "displayStart (turn (Page 1) (blank_table\<lparr>aiDisplay := [5, 6], displayLength := 2\<rparr>)) = 2"
  using paging_grid [where s = "blank_table\<lparr>aiDisplay := [5, 6], displayLength := 2\<rparr>" and n = 1]
  by (simp add: on_grid_def blank_table_def fnRecordsDisplay_def dataSource_def)

lemma set_range: "set (dt_range a (Some b)) = {a..<b}"
  by (auto simp: dt_range_def)

text \<open>
  The page numbers offered: every number is a page, the current page is among them, as are
  the first and the last, and there are at most seven buttons.
\<close>

theorem page_numbers_offered:
  assumes "0 \<le> page" and "page < pages"
  shows "(\<forall>i. Number i \<in> set (page_numbers page pages) \<longrightarrow> 0 \<le> i \<and> i < pages) \<and>
    Number page \<in> set (page_numbers page pages) \<and> Number 0 \<in> set (page_numbers page pages) \<and>
    Number (pages - 1) \<in> set (page_numbers page pages) \<and> length (page_numbers page pages) \<le> 7"
  using assms
  by (auto simp: page_numbers_def numbers_length_def Let_def set_range image_iff dt_range_def)

theorem page_numbers_offered_witness: "Number 11 \<in> set (page_numbers 11 20) \<and> length (page_numbers 11 20) \<le> 7"
  using page_numbers_offered [of 11 20] by simp

end
