(* ===== verification/DT_Filter.thy ===== *)
theory DT_Filter
  imports DT_Model
begin

text \<open>
  Searching in DataTables: the construction of the search expression, the filter data of the
  rows, the global, the per-column and the custom filters, and the incremental search, which
  filters the rows already shown when the new search only extends the old one.

  The regular expressions themselves are evaluated by the language; \<open>test\<close> stands for
  \<open>new RegExp(pattern, flags).test(text)\<close>, with the pattern and the flag for case as its first
  argument.
\<close>

type_synonym pattern = "ustr \<times> bool"

subsection \<open>The search expression\<close>

definition regex_special :: "nat \<Rightarrow> bool" where
  "regex_special c \<longleftrightarrow> c \<in> set (u ''/.*+?|()[]{}'' @ [92] @ u ''$^-'')"

definition escapeRegex :: "ustr \<Rightarrow> ustr" where
  "escapeRegex s = concat (map (\<lambda>c. if regex_special c then [92, c] else [c]) s)"

text \<open>
  The matches of \<open>"[^"]+"|[^ ]+\<close>: quoted text if a quote opens it and another closes it with
  something between, else a run without blanks.
\<close>

function smart_tokens :: "ustr \<Rightarrow> ustr list" where
  "smart_tokens [] = []"
| "smart_tokens (c # s) =
     (let q = takeWhile (\<lambda>d. d \<noteq> 34) s; r = dropWhile (\<lambda>d. d \<noteq> 34) s in
      if c = 34 \<and> q \<noteq> [] \<and> r \<noteq> [] then ([34] @ q @ [34]) # smart_tokens (tl r)
      else if c \<noteq> 32 then takeWhile (\<lambda>d. d \<noteq> 32) (c # s) # smart_tokens (dropWhile (\<lambda>d. d \<noteq> 32) s)
      else smart_tokens s)"
  by pat_completeness auto

termination
proof (relation "measure length", goal_cases)
  case (2 c s q r)
  then show ?case using length_dropWhile_le [of "\<lambda>d. d \<noteq> 34" s] by (cases r) auto
next
  case (3 c s q r)
  then show ?case using length_dropWhile_le [of "\<lambda>d. d \<noteq> 32" s] by simp
qed auto

definition line_end :: "nat \<Rightarrow> bool" where
  "line_end c \<longleftrightarrow> c \<in> {10, 13, 8232, 8233}"

text \<open>The content of a quoted token (the dot of the expression does not match a line end).\<close>

definition smart_word :: "ustr \<Rightarrow> ustr" where
  "smart_word word =
     (let inner = butlast (tl word);
          word = (if word \<noteq> [] \<and> hd word = 34 \<and> 2 \<le> length word \<and> last word = 34 \<and> (\<forall>c \<in> set inner. \<not> line_end c)
                  then inner else word)
      in replace_first [34] [] word)"

definition smart_pattern :: "ustr \<Rightarrow> ustr" where
  "smart_pattern search =
     (let ts = smart_tokens search; a = map smart_word (if ts = [] then [[]] else ts) in
      u ''^(?=.*?'' @ join (u '')(?=.*?'') a @ u '').*$'')"

definition filterCreateSearch :: "ustr \<Rightarrow> bool \<Rightarrow> bool \<Rightarrow> bool \<Rightarrow> pattern" where
  "filterCreateSearch search regex smart caseInsensitive =
     (let search = (if regex then search else escapeRegex search) in
      (if smart then smart_pattern search else search, caseInsensitive))"

subsection \<open>Filter data\<close>

text \<open>
  The parameters: the cells (\<open>fnGetData\<close> of the columns), the search formatters by type, and the
  browser's decoding of HTML.
\<close>

record filter_env =
  fe_get :: "nat \<Rightarrow> jsval \<Rightarrow> ustr \<Rightarrow> jsval"
  fe_format :: "ustr \<Rightarrow> (jsval \<Rightarrow> jsval) option"
  fe_decode :: "ustr \<Rightarrow> ustr"
  fe_test :: "pattern \<Rightarrow> ustr \<Rightarrow> bool"
  fe_custom :: "(ustr list \<Rightarrow> nat \<Rightarrow> nat \<Rightarrow> bool) list"

definition cell_text :: "filter_env \<Rightarrow> table \<Rightarrow> nat \<Rightarrow> nat \<Rightarrow> ustr" where
  "cell_text env s i j =
     (let col = aoColumns s ! j;
          cell = (if bSearchable col then
              (let c = getCellData (fe_get env) s i j (u ''filter'');
                   c = (case fe_format env (case sType col of Some t \<Rightarrow> t | None \<Rightarrow> u ''null'') of Some f \<Rightarrow> f c | None \<Rightarrow> c)
               in if c = Null then [] else to_string c)
            else []);
          cell = (if 38 \<in> set cell then fe_decode env cell else cell)
      in filter (\<lambda>c. c \<noteq> 13 \<and> c \<noteq> 10) cell)"

definition filter_row :: "filter_env \<Rightarrow> table \<Rightarrow> nat \<Rightarrow> row \<Rightarrow> row" where
  "filter_row env s i r =
     (case aFilterData r of
        Some _ \<Rightarrow> r
      | None \<Rightarrow>
          (let fd = map (cell_text env s i) [0..<length (aoColumns s)]
           in r\<lparr>aFilterData := Some fd, sFilterRow := join (u ''  '') fd\<rparr>))"

definition fnFilterData :: "filter_env \<Rightarrow> table \<Rightarrow> bool \<times> table" where
  "fnFilterData env s =
     (\<exists>r \<in> set (aoData s). aFilterData r = None,
      s\<lparr>aoData := map (\<lambda>(i, r). filter_row env s i r) (enumerate 0 (aoData s))\<rparr>)"

subsection \<open>The filters\<close>

text \<open>The backward loop that splices out the entries which fail.\<close>

primrec splice_down :: "('a \<Rightarrow> bool) \<Rightarrow> nat \<Rightarrow> 'a list \<Rightarrow> 'a list" where
  "splice_down p 0 xs = xs"
| "splice_down p (Suc i) xs = splice_down p i (if p (xs ! i) then xs else take i xs @ drop (Suc i) xs)"

definition fnFilter :: "filter_env \<Rightarrow> ustr \<Rightarrow> bool \<Rightarrow> bool \<Rightarrow> bool \<Rightarrow> bool \<Rightarrow> table \<Rightarrow> table" where
  "fnFilter env input force regex smart caseInsensitive s =
     (let rp = filterCreateSearch input regex smart caseInsensitive;
          prevSearch = sSearch (oPreviousSearch s);
          force = (force \<or> fe_custom env \<noteq> []);
          (invalidated, s) = fnFilterData env s in
      if input = [] then s\<lparr>aiDisplay := aiDisplayMaster s\<rparr>
      else (let s = (if invalidated \<or> force \<or> length prevSearch > length input \<or> \<not> prefix prevSearch input \<or> bSorted s
                     then s\<lparr>aiDisplay := aiDisplayMaster s\<rparr> else s)
            in s\<lparr>aiDisplay := splice_down (\<lambda>i. fe_test env rp (sFilterRow (aoData s ! i))) (length (aiDisplay s)) (aiDisplay s)\<rparr>))"

definition column_data :: "row \<Rightarrow> nat \<Rightarrow> ustr" where
  "column_data r j = (case aFilterData r of Some fd \<Rightarrow> if j < length fd then fd ! j else u ''undefined'' | None \<Rightarrow> u ''undefined'')"

definition filterColumn :: "filter_env \<Rightarrow> search \<Rightarrow> nat \<Rightarrow> table \<Rightarrow> table" where
  "filterColumn env sr colIdx s =
     (if sSearch sr = [] then s
      else (let rp = filterCreateSearch (sSearch sr) (bRegex sr) (bSmart sr) (bCaseInsensitive sr) in
        s\<lparr>aiDisplay := splice_down (\<lambda>i. fe_test env rp (column_data (aoData s ! i) colIdx)) (length (aiDisplay s)) (aiDisplay s)\<rparr>))"

definition filterCustom :: "filter_env \<Rightarrow> table \<Rightarrow> table" where
  "filterCustom env s =
     s\<lparr>aiDisplay := fold (\<lambda>f ix. map snd (filter (\<lambda>(j, i). f (case aFilterData (aoData s ! i) of Some fd \<Rightarrow> fd | None \<Rightarrow> []) i j)
         (enumerate 0 ix))) (fe_custom env) (aiDisplay s)\<rparr>"

fun filter_columns :: "filter_env \<Rightarrow> nat \<Rightarrow> search list \<Rightarrow> table \<Rightarrow> table" where
  "filter_columns env i [] s = s"
| "filter_columns env i (sr # srs) s = filter_columns env (Suc i) srs (filterColumn env sr i s)"

text \<open>
  \<open>_fnFilterComplete\<close>, after the column types were resolved.
\<close>

definition filterComplete :: "filter_env \<Rightarrow> (table \<Rightarrow> table) \<Rightarrow> search \<Rightarrow> bool \<Rightarrow> table \<Rightarrow> table" where
  "filterComplete env types input force s =
     (let s = types s in
      if dataSource s \<noteq> SSP then
        (let s = fnFilter env (sSearch input) force (bRegex input) (bSmart input) (bCaseInsensitive input) s;
             s = s\<lparr>oPreviousSearch := input\<rparr>;
             s = filter_columns env 0 (aoPreSearchCols s) s
         in (filterCustom env s)\<lparr>bFiltered := True\<rparr>)
      else s\<lparr>oPreviousSearch := input, bFiltered := True\<rparr>)"

subsection \<open>Search settings in the two notations\<close>

record camel_search =
  cs_search :: ustr
  cs_smart :: bool
  cs_regex :: bool
  cs_caseInsensitive :: bool

definition searchToCamel :: "search \<Rightarrow> camel_search" where
  "searchToCamel o1 = \<lparr>cs_search = sSearch o1, cs_smart = bSmart o1, cs_regex = bRegex o1, cs_caseInsensitive = bCaseInsensitive o1\<rparr>"

definition searchToHung :: "camel_search \<Rightarrow> search" where
  "searchToHung o1 = \<lparr>sSearch = cs_search o1, bRegex = cs_regex o1, bSmart = cs_smart o1, bCaseInsensitive = cs_caseInsensitive o1\<rparr>"

subsection \<open>Lemmas\<close>

lemma splice_down_filter:
  "n \<le> length xs \<Longrightarrow> splice_down p n xs = filter p (take n xs) @ drop n xs"
proof (induction n arbitrary: xs)
  case (Suc i)
  then have x: "take (Suc i) xs = take i xs @ [xs ! i]" by (simp add: take_Suc_conv_app_nth)
  show ?case
  proof (cases "p (xs ! i)")
    case True
    then show ?thesis using Suc x by (simp add: Cons_nth_drop_Suc)
  next
    case False
    let ?ys = "take i xs @ drop (Suc i) xs"
    have "splice_down p i ?ys = filter p (take i ?ys) @ drop i ?ys" using Suc by simp
    then show ?thesis using False Suc.prems x by simp
  qed
qed simp

lemma splice_down_all: "splice_down p (length xs) xs = filter p xs"
  by (simp add: splice_down_filter)

text \<open>Escaped text can be read back, and has no special character without a backslash.\<close>

fun unescape :: "ustr \<Rightarrow> ustr" where
  "unescape [] = []"
| "unescape (c # s) = (if c = 92 then (case s of [] \<Rightarrow> [] | d # t \<Rightarrow> d # unescape t) else c # unescape s)"

lemma unescape_escape: "unescape (escapeRegex s @ t) = s @ unescape t"
proof (induction s)
  case (Cons c s)
  have "regex_special 92" by (simp add: regex_special_def)
  then show ?case using Cons by (auto simp: escapeRegex_def)
qed (simp add: escapeRegex_def)

lemma fnFilterData_fields [simp]:
  "aiDisplay (snd (fnFilterData env s)) = aiDisplay s" "aiDisplayMaster (snd (fnFilterData env s)) = aiDisplayMaster s"
  "bSorted (snd (fnFilterData env s)) = bSorted s" "length (aoData (snd (fnFilterData env s))) = length (aoData s)"
  "aoPreSearchCols (snd (fnFilterData env s)) = aoPreSearchCols s"
  by (simp_all add: fnFilterData_def)

definition matches :: "filter_env \<Rightarrow> search \<Rightarrow> table \<Rightarrow> nat \<Rightarrow> bool" where
  "matches env sr s i \<longleftrightarrow> sSearch sr = [] \<or>
     fe_test env (filterCreateSearch (sSearch sr) (bRegex sr) (bSmart sr) (bCaseInsensitive sr)) (sFilterRow (aoData s ! i))"

lemma map_enumerate_id: "\<forall>x \<in> set xs. \<forall>i. f i x = x \<Longrightarrow> map (\<lambda>(i, x). f i x) (enumerate n xs) = xs"
  by (induction xs arbitrary: n) auto

lemma fnFilterData_ready:
  assumes "\<forall>r \<in> set (aoData s). aFilterData r \<noteq> None"
  shows "fnFilterData env s = (False, s)"
proof -
  have "map (\<lambda>(i, r). filter_row env s i r) (enumerate 0 (aoData s)) = aoData s"
    using assms by (intro map_enumerate_id) (auto simp: filter_row_def)
  then show ?thesis using assms by (auto simp: fnFilterData_def)
qed

lemma fnFilter_fields [simp]:
  "aoPreSearchCols (fnFilter env input f r sm ci s) = aoPreSearchCols s"
  "aoData (fnFilter env input f r sm ci s) = aoData (snd (fnFilterData env s))"
proof -
  obtain b t where "fnFilterData env s = (b, t)" by force
  then show "aoPreSearchCols (fnFilter env input f r sm ci s) = aoPreSearchCols s"
    "aoData (fnFilter env input f r sm ci s) = aoData (snd (fnFilterData env s))"
    using fnFilterData_fields(5) [of env s] by (simp_all add: fnFilter_def Let_def)
qed

lemma fnFilter_display:
  assumes "sr = \<lparr>sSearch = input, bRegex = r, bSmart = sm, bCaseInsensitive = ci\<rparr>"
  shows "aiDisplay (fnFilter env input f r sm ci s) = filter (matches env sr (snd (fnFilterData env s)))
    (if input = [] \<or> fst (fnFilterData env s) \<or> f \<or> fe_custom env \<noteq> [] \<or> \<not> prefix (sSearch (oPreviousSearch s)) input \<or> bSorted s
     then aiDisplayMaster s else aiDisplay s)"
proof -
  have p: "length (sSearch (oPreviousSearch s)) > length input \<Longrightarrow> \<not> prefix (sSearch (oPreviousSearch s)) input"
    using prefix_length_le leD by blast
  obtain b t where bt: "fnFilterData env s = (b, t)" by force
  then have t: "aiDisplay t = aiDisplay s" "aiDisplayMaster t = aiDisplayMaster s" "bSorted t = bSorted s"
    using fnFilterData_fields [of env s] by auto
  show ?thesis
    using assms p by (auto simp: fnFilter_def bt t splice_down_all matches_def [abs_def] Let_def)
qed

definition col_matches :: "filter_env \<Rightarrow> search \<Rightarrow> nat \<Rightarrow> table \<Rightarrow> nat \<Rightarrow> bool" where
  "col_matches env sr j s i \<longleftrightarrow> sSearch sr = [] \<or>
     fe_test env (filterCreateSearch (sSearch sr) (bRegex sr) (bSmart sr) (bCaseInsensitive sr)) (column_data (aoData s ! i) j)"

lemma filterColumn_spec:
  "filterColumn env sr j s = s\<lparr>aiDisplay := filter (col_matches env sr j s) (aiDisplay s)\<rparr>"
  by (simp add: filterColumn_def col_matches_def [abs_def] splice_down_all)

lemma col_matches_display [simp]: "col_matches env sr j (s\<lparr>aiDisplay := ix\<rparr>) = col_matches env sr j s"
  by (simp add: col_matches_def fun_eq_iff)

lemma filter_columns_spec:
  "filter_columns env i srs s = s\<lparr>aiDisplay := filter (\<lambda>r. \<forall>k < length srs. col_matches env (srs ! k) (i + k) s r) (aiDisplay s)\<rparr>"
proof (induction srs arbitrary: i s)
  case (Cons sr srs)
  have "(\<forall>k < length (sr # srs). col_matches env ((sr # srs) ! k) (i + k) s r) \<longleftrightarrow>
    col_matches env sr i s r \<and> (\<forall>k < length srs. col_matches env (srs ! k) (Suc i + k) s r)" for r
    by (auto simp: less_Suc_eq_0_disj nth_Cons' all_conj_distrib)
  then show ?case by (simp add: Cons filterColumn_spec conj_commute)
qed simp

text \<open>What a table should show: the rows, in sort order, that match the search and every column search.\<close>

definition shown_by :: "filter_env \<Rightarrow> search \<Rightarrow> table \<Rightarrow> nat list" where
  "shown_by env input s = filter (\<lambda>i. matches env input s i \<and>
     (\<forall>k < length (aoPreSearchCols s). col_matches env (aoPreSearchCols s ! k) k s i)) (aiDisplayMaster s)"

lemma filterComplete_display:
  assumes "dataSource (types s) \<noteq> SSP" and "fe_custom env = []" and "sf = snd (fnFilterData env (types s))"
  shows "aiDisplay (filterComplete env types input force s) =
    filter (\<lambda>i. matches env input sf i \<and> (\<forall>k < length (aoPreSearchCols sf). col_matches env (aoPreSearchCols sf ! k) k sf i))
      (if sSearch input = [] \<or> fst (fnFilterData env (types s)) \<or> force \<or> \<not> prefix (sSearch (oPreviousSearch (types s))) (sSearch input)
          \<or> bSorted (types s) then aiDisplayMaster sf else aiDisplay sf)"
proof -
  have i: "input = \<lparr>sSearch = sSearch input, bRegex = bRegex input, bSmart = bSmart input, bCaseInsensitive = bCaseInsensitive input\<rparr>"
    by simp
  have c: "col_matches env sr j (t\<lparr>oPreviousSearch := x\<rparr>) r = col_matches env sr j t r" for sr j t x r
    by (simp add: col_matches_def)
  have d: "col_matches env sr j (fnFilter env a f b sm ci t) r = col_matches env sr j (snd (fnFilterData env t)) r" for sr j t a f b sm ci r
    by (simp add: col_matches_def)
  show ?thesis
    using assms by (simp add: filterComplete_def filterCustom_def filter_columns_spec c d fnFilter_display [OF i] conj_commute Let_def)
qed

text \<open>
  C28. A full search shows exactly the matching rows: when nothing limits the search to the rows
  shown before (it is forced, empty, not an extension of the last one, or the data or the order
  changed), the rows shown afterwards are those that match the search and each column search,
  in sort order.
\<close>

theorem full_search_exact:
  assumes "dataSource (types s) \<noteq> SSP" and "fe_custom env = []" and "sf = snd (fnFilterData env (types s))"
    and "force \<or> sSearch input = [] \<or> fst (fnFilterData env (types s)) \<or> bSorted (types s) \<or>
      \<not> prefix (sSearch (oPreviousSearch (types s))) (sSearch input)"
  shows "aiDisplay (filterComplete env types input force s) =
    filter (\<lambda>i. matches env input sf i \<and> (\<forall>k < length (aoPreSearchCols sf). col_matches env (aoPreSearchCols sf ! k) k sf i))
      (aiDisplayMaster sf)"
  using filterComplete_display [where types = types and s = s, OF assms(1-3)] assms(4) by auto

text \<open>A matcher for patterns of literal alternatives, as the language reads them.\<close>

definition alternatives_env :: filter_env where
  "alternatives_env = \<lparr>fe_get = (\<lambda>j d ty. d), fe_format = (\<lambda>_. None), fe_decode = (\<lambda>t. t),
     fe_test = (\<lambda>p t. \<exists>w \<in> set (split_on 124 [] (fst p)). contains w t), fe_custom = []\<rparr>"

definition text_row :: "string \<Rightarrow> row" where
  "text_row t = (new_row (Str (u t)))\<lparr>aFilterData := Some [u t], sFilterRow := u t\<rparr>"

definition search_table :: table where
  "search_table = blank_table\<lparr>aoData := [text_row ''xa'', text_row ''b'', text_row ''c''], aiDisplayMaster := [2, 1, 0],
     aiDisplay := [0], oPreviousSearch := \<lparr>sSearch = u ''a'', bRegex = True, bSmart = False, bCaseInsensitive = False\<rparr>\<rparr>"

definition regex_search :: "string \<Rightarrow> search" where
  "regex_search t = \<lparr>sSearch = u t, bRegex = True, bSmart = False, bCaseInsensitive = False\<rparr>"

lemma search_table_ready: "fnFilterData alternatives_env search_table = (False, search_table)"
  by (rule fnFilterData_ready) (simp add: search_table_def text_row_def)

lemma search_table_fields:
  "dataSource search_table \<noteq> SSP" "aoPreSearchCols search_table = []" "aiDisplayMaster search_table = [2, 1, 0]"
  "sFilterRow (aoData search_table ! 0) = u ''xa''" "sFilterRow (aoData search_table ! 1) = u ''b''"
  "sFilterRow (aoData search_table ! 2) = u ''c''"
  by (simp_all add: search_table_def blank_table_def dataSource_def text_row_def)

lemma alternatives_eval:
  "matches alternatives_env (regex_search ''a|b'') search_table 0" "matches alternatives_env (regex_search ''a|b'') search_table 1"
  "\<not> matches alternatives_env (regex_search ''a|b'') search_table 2" "\<not> matches alternatives_env (regex_search ''a'') search_table 1"
  using search_table_fields(4-6)
  by (simp_all add: matches_def regex_search_def alternatives_env_def filterCreateSearch_def split_on_def contains_def js_simps)

theorem full_search_exact_witness:
  "aiDisplay (filterComplete alternatives_env (\<lambda>s. s) (regex_search ''a|b'') True search_table) = [1, 0]"
proof -
  have "aiDisplay (filterComplete alternatives_env (\<lambda>s. s) (regex_search ''a|b'') True search_table) =
    filter (\<lambda>i. matches alternatives_env (regex_search ''a|b'') search_table i) [2, 1, 0]"
    using full_search_exact [where types = "\<lambda>s. s" and s = search_table and env = alternatives_env
        and sf = search_table and force = True and input = "regex_search ''a|b''"]
    by (simp add: search_table_fields search_table_ready) (simp add: alternatives_env_def)
  then show ?thesis using alternatives_eval by simp
qed

text \<open>
  When the incremental search is right. If the table shows what the last search should show
  and nothing changed since, then a search that extends the last one, and matches no row that
  the last one did not match, shows exactly what it should.
\<close>

theorem incremental_search_exact:
  assumes "dataSource s \<noteq> SSP" and "fe_custom env = []" and "\<forall>r \<in> set (aoData s). aFilterData r \<noteq> None"
    and "aiDisplay s = shown_by env (oPreviousSearch s) s"
    and "\<forall>i. matches env input s i \<longrightarrow> matches env (oPreviousSearch s) s i"
  shows "aiDisplay (filterComplete env (\<lambda>s. s) input False s) = shown_by env input s"
proof -
  have r: "fnFilterData env s = (False, s)" using fnFilterData_ready assms(3) by blast
  show ?thesis
    using filterComplete_display [of "\<lambda>s. s" s env s input False] assms r
    by (auto simp: shown_by_def intro!: filter_cong)
qed

theorem incremental_search_exact_witness:
  "aiDisplay (filterComplete alternatives_env (\<lambda>s. s) (regex_search ''a'') False search_table) = [0]"
proof -
  have p: "oPreviousSearch search_table = regex_search ''a''" by (simp add: search_table_def regex_search_def)
  have sh: "shown_by alternatives_env (regex_search ''a'') search_table = [0]"
    using search_table_fields
    by (simp add: shown_by_def matches_def regex_search_def alternatives_env_def filterCreateSearch_def split_on_def contains_def js_simps)
  then have "aiDisplay search_table = shown_by alternatives_env (oPreviousSearch search_table) search_table"
    unfolding p by (simp add: search_table_def)
  moreover have "\<forall>r \<in> set (aoData search_table). aFilterData r \<noteq> None" by (simp add: search_table_def text_row_def)
  ultimately show ?thesis
    using incremental_search_exact [of search_table alternatives_env "regex_search ''a''"] search_table_fields(1) p sh
    by (simp add: alternatives_env_def)
qed

text \<open>
  When it is wrong. If a search extends the last one but matches a row that the last one did
  not match (a regular expression that gains an alternative, say), this row is left out, although
  it matches.
\<close>

theorem incremental_search_misses:
  assumes "dataSource s \<noteq> SSP" and "fe_custom env = []" and "\<forall>r \<in> set (aoData s). aFilterData r \<noteq> None"
    and "aiDisplay s = shown_by env (oPreviousSearch s) s" and "\<not> bSorted s"
    and "sSearch input \<noteq> []" and "prefix (sSearch (oPreviousSearch s)) (sSearch input)"
    and "\<not> matches env (oPreviousSearch s) s i" and "i \<in> set (shown_by env input s)"
  shows "i \<notin> set (aiDisplay (filterComplete env (\<lambda>s. s) input False s))"
proof -
  have r: "fnFilterData env s = (False, s)" using fnFilterData_ready assms(3) by blast
  show ?thesis
    using filterComplete_display [of "\<lambda>s. s" s env s input False] assms r by (auto simp: shown_by_def)
qed

theorem incremental_search_misses_witness:
  "1 \<notin> set (aiDisplay (filterComplete alternatives_env (\<lambda>s. s) (regex_search ''a|b'') False search_table))"
proof -
  have p: "oPreviousSearch search_table = regex_search ''a''" by (simp add: search_table_def regex_search_def)
  have sh: "shown_by alternatives_env (regex_search ''a'') search_table = [0]"
    using search_table_fields
    by (simp add: shown_by_def matches_def regex_search_def alternatives_env_def filterCreateSearch_def split_on_def contains_def js_simps)
  have "aiDisplay search_table = shown_by alternatives_env (oPreviousSearch search_table) search_table"
    unfolding p sh by (simp add: search_table_def)
  moreover have "1 \<in> set (shown_by alternatives_env (regex_search ''a|b'') search_table)"
    using alternatives_eval(2) by (simp add: shown_by_def search_table_fields)
  moreover have "\<forall>r \<in> set (aoData search_table). aFilterData r \<noteq> None" "\<not> bSorted search_table" "fe_custom alternatives_env = []"
    by (simp_all add: search_table_def text_row_def blank_table_def alternatives_env_def)
  moreover have "prefix (sSearch (regex_search ''a'')) (sSearch (regex_search ''a|b''))" "sSearch (regex_search ''a|b'') \<noteq> []"
    by (simp_all add: regex_search_def js_simps)
  ultimately show ?thesis
    using incremental_search_misses [of search_table alternatives_env "regex_search ''a|b''" 1] search_table_fields(1) alternatives_eval(4)
    unfolding p by blast
qed

end
