(* ===== verification/DT_Sort.thy ===== *)
theory DT_Sort
  imports DT_Model "HOL-Library.Multiset"
begin

text \<open>
  Sorting in DataTables: the sort keys of the cells, the flattened list of sort columns, the
  comparison of two rows, the sort itself, and the cycle of sort directions that clicks on a
  header go through.

  \<open>Array.prototype.sort\<close> is modelled by an insertion sort. The language leaves the algorithm
  open; the theorem on \<open>fnSort\<close> shows that with this comparison the result does not depend on it.
\<close>

subsection \<open>Sort keys\<close>

record sort_env =
  se_get :: "nat \<Rightarrow> jsval \<Rightarrow> ustr \<Rightarrow> jsval"
  se_pre :: "ustr \<Rightarrow> (jsval \<Rightarrow> sortval) option"          \<comment> \<open>\<open>ext.type.order[type + '-pre']\<close>\<close>
  se_cmp :: "ustr \<Rightarrow> ustr \<Rightarrow> (sortval \<Rightarrow> sortval \<Rightarrow> int) option"  \<comment> \<open>\<open>ext.type.order[type + '-' + dir]\<close>\<close>

definition numToDecimal :: "jsval \<Rightarrow> ustr \<Rightarrow> jsval" where
  "numToDecimal num decimalPoint =
     (case (num, decimalPoint) of
        (Str s, c # cs) \<Rightarrow> if decimalPoint \<noteq> u ''.'' then Str (replace_all c cs [46] (removeAll 46 s)) else num
      | _ \<Rightarrow> num)"

fun jsval_number :: "jsval \<Rightarrow> jsnum" where
  "jsval_number Undefined = NaN"
| "jsval_number Null = Fin 0"
| "jsval_number (Bool b) = Fin (if b then 1 else 0)"
| "jsval_number (Num n) = Fin (of_int n)"
| "jsval_number (Str s) = to_number s"
| "jsval_number (Obj ps) = NaN"
| "jsval_number v = to_number (to_string v)"

text \<open>\<open>__numericReplace\<close>; \<open>strip\<close> removes what the two expressions match.\<close>

definition numericReplace :: "jsval \<Rightarrow> ustr \<Rightarrow> (ustr \<Rightarrow> ustr) \<Rightarrow> jsnum" where
  "numericReplace d decimalPlace strip =
     (if d \<noteq> Num 0 \<and> (\<not> truthy d \<or> d = Str (u ''-'')) then Infinite True
      else (let d = (if decimalPlace \<noteq> [] then numToDecimal d decimalPlace else d);
                d = (case d of Str s \<Rightarrow> Str (strip s) | _ \<Rightarrow> d)
            in jsval_number d))"

text \<open>\<open>string-pre\<close>; \<open>toLower\<close> is the language's \<open>toLowerCase\<close>.\<close>

definition string_pre :: "(ustr \<Rightarrow> ustr) \<Rightarrow> jsval \<Rightarrow> sortval" where
  "string_pre toLower a =
     (if dt_empty a then SStr []
      else (case a of Str s \<Rightarrow> SStr (toLower s) | _ \<Rightarrow> SStr (to_string a)))"

fun raw_sortval :: "jsval \<Rightarrow> sortval" where
  "raw_sortval (Str s) = SStr s"
| "raw_sortval (Arr vs) = SStr (to_string (Arr vs))"
| "raw_sortval (Obj ps) = SStr (to_string (Obj ps))"
| "raw_sortval v = SNum (jsval_number v)"

definition cell_sort_key :: "sort_env \<Rightarrow> table \<Rightarrow> nat \<Rightarrow> nat \<Rightarrow> sortval" where
  "cell_sort_key env s i idx =
     (let cell = getCellData (se_get env) s i idx (u ''sort'') in
      case se_pre env (case sType (aoColumns s ! idx) of Some t \<Rightarrow> t | None \<Rightarrow> u ''null'') of
        Some f \<Rightarrow> f cell | None \<Rightarrow> raw_sortval cell)"

fun key_truthy :: "sortval \<Rightarrow> bool" where
  "key_truthy (SStr s) = (s \<noteq> [])"
| "key_truthy (SNum n) = (n \<noteq> NaN \<and> n \<noteq> Fin 0)"

text \<open>\<open>_fnSortData\<close>: fill the cache of one column.\<close>

definition sortData :: "sort_env \<Rightarrow> nat \<Rightarrow> table \<Rightarrow> table" where
  "sortData env idx s =
     s\<lparr>aoData := map (\<lambda>(i, r). case map_of (aSortData r) idx of
         Some k \<Rightarrow> if key_truthy k then r else r\<lparr>aSortData := set_prop idx (cell_sort_key env s i idx) (aSortData r)\<rparr>
       | None \<Rightarrow> r\<lparr>aSortData := set_prop idx (cell_sort_key env s i idx) (aSortData r)\<rparr>) (enumerate 0 (aoData s))\<rparr>"

subsection \<open>The sort columns\<close>

record sort_entry =
  se_src :: nat
  se_col :: nat
  se_dir :: ustr
  se_index :: int
  se_type :: ustr
  se_formatter :: bool

definition flatten_one :: "sort_env \<Rightarrow> table \<Rightarrow> sorting \<Rightarrow> sort_entry list" where
  "flatten_one env s so =
     (let ds = aDataSort (aoColumns s ! so_col so);
          idx = (case so_idx so of Some i \<Rightarrow> i
            | None \<Rightarrow> (case ds of [] \<Rightarrow> -1 | c # _ \<Rightarrow> index_in (so_dir so) (asSorting (aoColumns s ! c))))
      in map (\<lambda>c. let ty = (case sType (aoColumns s ! c) of Some t \<Rightarrow> if t \<noteq> [] then t else u ''string'' | None \<Rightarrow> u ''string'') in
           \<lparr>se_src = so_col so, se_col = c, se_dir = so_dir so, se_index = idx, se_type = ty,
            se_formatter = (se_pre env ty \<noteq> None)\<rparr>) ds)"

definition sortFlatten :: "sort_env \<Rightarrow> table \<Rightarrow> sort_entry list" where
  "sortFlatten env s = concat (map (flatten_one env s) (sort_pre s @ aaSorting s @ sort_post s))"

subsection \<open>Comparing rows\<close>

fun num_lt :: "jsnum \<Rightarrow> jsnum \<Rightarrow> bool" where
  "num_lt (Fin a) (Fin b) = (a < b)"
| "num_lt (Fin a) (Infinite neg) = (\<not> neg)"
| "num_lt (Infinite neg) (Fin b) = neg"
| "num_lt (Infinite n1) (Infinite n2) = (n1 \<and> \<not> n2)"
| "num_lt _ _ = False"

fun str_lt :: "ustr \<Rightarrow> ustr \<Rightarrow> bool" where
  "str_lt _ [] = False"
| "str_lt [] (c # t) = True"
| "str_lt (a # s) (b # t) = (a < b \<or> a = b \<and> str_lt s t)"

fun key_number :: "sortval \<Rightarrow> jsnum" where
  "key_number (SNum n) = n"
| "key_number (SStr s) = to_number s"

fun js_lt :: "sortval \<Rightarrow> sortval \<Rightarrow> bool" where
  "js_lt (SStr s) (SStr t) = str_lt s t"
| "js_lt x y = num_lt (key_number x) (key_number y)"

definition three_way :: "sortval \<Rightarrow> sortval \<Rightarrow> int" where
  "three_way x y = (if js_lt x y then -1 else if js_lt y x then 1 else 0)"

definition key_of_row :: "table \<Rightarrow> nat \<Rightarrow> nat \<Rightarrow> sortval" where
  "key_of_row s c a = (case map_of (aSortData (aoData s ! a)) c of Some k \<Rightarrow> k | None \<Rightarrow> SNum NaN)"

definition position :: "nat list \<Rightarrow> nat \<Rightarrow> int" where
  "position master a = (case inArray a master of Some i \<Rightarrow> int i | None \<Rightarrow> -1)"

text \<open>The first comparison function: every sort column has a formatter.\<close>

fun row_cmp :: "table \<Rightarrow> sort_entry list \<Rightarrow> nat \<Rightarrow> nat \<Rightarrow> int" where
  "row_cmp s [] a b =
     (let x = position (aiDisplayMaster s) a; y = position (aiDisplayMaster s) b in if x < y then -1 else if x > y then 1 else 0)"
| "row_cmp s (e # es) a b =
     (let test = three_way (key_of_row s (se_col e) a) (key_of_row s (se_col e) b) in
      if test \<noteq> 0 then (if se_dir e = u ''asc'' then test else - test) else row_cmp s es a b)"

text \<open>The second: the comparison of the type and direction, or that of strings; None is a TypeError.\<close>

fun row_cmp_ext :: "sort_env \<Rightarrow> table \<Rightarrow> sort_entry list \<Rightarrow> nat \<Rightarrow> nat \<Rightarrow> int option" where
  "row_cmp_ext env s [] a b = Some (row_cmp s [] a b)"
| "row_cmp_ext env s (e # es) a b =
     (case (case se_cmp env (se_type e) (se_dir e) of Some f \<Rightarrow> Some f | None \<Rightarrow> se_cmp env (u ''string'') (se_dir e)) of
        None \<Rightarrow> None
      | Some f \<Rightarrow>
          (let test = f (key_of_row s (se_col e) a) (key_of_row s (se_col e) b) in
           if test \<noteq> 0 then Some test else row_cmp_ext env s es a b))"

subsection \<open>The sort\<close>

fun insert_by :: "('a \<Rightarrow> 'a \<Rightarrow> int) \<Rightarrow> 'a \<Rightarrow> 'a list \<Rightarrow> 'a list" where
  "insert_by cmp x [] = [x]"
| "insert_by cmp x (y # ys) = (if cmp x y \<le> 0 then x # y # ys else y # insert_by cmp x ys)"

definition js_sort :: "('a \<Rightarrow> 'a \<Rightarrow> int) \<Rightarrow> 'a list \<Rightarrow> 'a list" where
  "js_sort cmp xs = foldr (insert_by cmp) xs []"

definition load_keys :: "sort_env \<Rightarrow> sort_entry list \<Rightarrow> table \<Rightarrow> table" where
  "load_keys env aSort s = fold (\<lambda>e s. sortData env (se_col e) s) aSort s"

text \<open>\<open>_fnSort\<close>, after the column types were resolved; a missing comparison is a TypeError.\<close>

definition fnSort :: "sort_env \<Rightarrow> (table \<Rightarrow> table) \<Rightarrow> table \<Rightarrow> table js_result" where
  "fnSort env types s0 =
     (let s = types s0; aSort = sortFlatten env s; s = load_keys env aSort (cache_indices s) in
      if dataSource s \<noteq> SSP \<and> aSort \<noteq> [] then
        (if list_all se_formatter aSort
         then Inr (s\<lparr>aiDisplayMaster := js_sort (row_cmp s aSort) (aiDisplayMaster s), bSorted := True\<rparr>)
         else if \<exists>a \<in> set (aiDisplayMaster s). \<exists>b \<in> set (aiDisplayMaster s). row_cmp_ext env s aSort a b = None
         then Inl TypeError
         else Inr (s\<lparr>aiDisplayMaster := js_sort (\<lambda>a b. the (row_cmp_ext env s aSort a b)) (aiDisplayMaster s), bSorted := True\<rparr>))
      else Inr (s\<lparr>bSorted := True\<rparr>))"

subsection \<open>Clicks on a header\<close>

definition next_idx :: "ustr list \<Rightarrow> sorting \<Rightarrow> bool \<Rightarrow> int option" where
  "next_idx asS a overflow =
     (let idx = (case so_idx a of Some i \<Rightarrow> i | None \<Rightarrow> index_in (so_dir a) asS) in
      if idx + 1 < int (length asS) then Some (idx + 1) else if overflow then None else Some 0)"

definition set_dir :: "ustr list \<Rightarrow> int \<Rightarrow> sorting \<Rightarrow> sorting" where
  "set_dir asS i a = a\<lparr>so_dir := asS ! nat i, so_idx := Some i\<rparr>"

definition sortListener :: "nat \<Rightarrow> bool \<Rightarrow> table \<Rightarrow> sorting list" where
  "sortListener colIdx multi s =
     (let asS = asSorting (aoColumns s ! colIdx); so = aaSorting s;
          fresh = \<lparr>so_col = colIdx, so_dir = asS ! 0, so_idx = Some 0\<rparr> in
      if multi \<and> bSortMulti s then
        (case inArray colIdx (map so_col so) of
           Some i \<Rightarrow>
             (case next_idx asS (so ! i) True of
                None \<Rightarrow> if length so = 1 then so[i := set_dir asS 0 (so ! i)] else take i so @ drop (Suc i) so
              | Some n \<Rightarrow> so[i := set_dir asS n (so ! i)])
         | None \<Rightarrow> so @ [fresh])
      else if so \<noteq> [] \<and> so_col (hd so) = colIdx then
        (case next_idx asS (hd so) False of Some n \<Rightarrow> [set_dir asS n (hd so)] | None \<Rightarrow> [hd so])
      else [fresh])"

text \<open>The click itself: a column that is not sortable ignores it.\<close>

definition click_header :: "nat \<Rightarrow> bool \<Rightarrow> table \<Rightarrow> table" where
  "click_header colIdx shift s =
     (if bSortable (aoColumns s ! colIdx) then s\<lparr>aaSorting := sortListener colIdx shift s\<rparr> else s)"


subsection \<open>The interface of a comparison\<close>

text \<open>
  What \<open>sort\<close> needs: on the elements to be sorted, the comparison is antisymmetric, transitive,
  and zero only for equal elements. Then there is exactly one sorted arrangement.
\<close>

locale comparison =
  fixes cmp :: "'a \<Rightarrow> 'a \<Rightarrow> int"
    and carrier :: "'a set"
  assumes anti: "a \<in> carrier \<Longrightarrow> b \<in> carrier \<Longrightarrow> cmp b a = - cmp a b"
    and trans: "a \<in> carrier \<Longrightarrow> b \<in> carrier \<Longrightarrow> c \<in> carrier \<Longrightarrow> cmp a b < 0 \<Longrightarrow> cmp b c < 0 \<Longrightarrow> cmp a c < 0"
    and zero: "a \<in> carrier \<Longrightarrow> b \<in> carrier \<Longrightarrow> cmp a b = 0 \<Longrightarrow> a = b"
begin

abbreviation ordered :: "'a list \<Rightarrow> bool" where
  "ordered xs \<equiv> sorted_wrt (\<lambda>a b. cmp a b < 0) xs"

lemma insert_mset: "mset (insert_by cmp x xs) = add_mset x (mset xs)"
  by (induction xs) auto

lemma insert_set: "set (insert_by cmp x xs) = insert x (set xs)"
  using insert_mset [of x xs] by (metis set_mset_mset set_mset_add_mset_insert)

lemma insert_ordered:
  "ordered xs \<Longrightarrow> set xs \<subseteq> carrier \<Longrightarrow> x \<in> carrier \<Longrightarrow> x \<notin> set xs \<Longrightarrow> ordered (insert_by cmp x xs)"
proof (induction xs)
  case (Cons y ys)
  then have c: "x \<in> carrier" "y \<in> carrier" "x \<noteq> y" "set ys \<subseteq> carrier" by auto
  show ?case
  proof (cases "cmp x y \<le> 0")
    case True
    then have "cmp x y < 0" using zero [OF c(1,2)] c(3) by force
    moreover have "cmp x z < 0" if "z \<in> set ys" for z
      using trans [OF c(1,2), of z] calculation Cons.prems(1) that c(4) by auto
    ultimately show ?thesis using True Cons.prems(1) by simp
  next
    case False
    then have "cmp y x < 0" using anti [OF c(1,2)] by simp
    with False Cons c show ?thesis by (auto simp: insert_set)
  qed
qed simp

lemma sort_mset: "mset (js_sort cmp xs) = mset xs"
  by (induction xs) (simp_all add: js_sort_def insert_mset)

lemma sort_ordered: "distinct xs \<Longrightarrow> set xs \<subseteq> carrier \<Longrightarrow> ordered (js_sort cmp xs)"
proof (induction xs)
  case (Cons x xs)
  have "set (js_sort cmp xs) = set xs" using sort_mset [of xs] by (metis set_mset_mset)
  with Cons show ?case by (simp add: js_sort_def insert_ordered)
qed (simp add: js_sort_def)

lemma ordered_unique:
  "ordered xs \<Longrightarrow> ordered ys \<Longrightarrow> mset xs = mset ys \<Longrightarrow> set xs \<subseteq> carrier \<Longrightarrow> xs = ys"
proof (induction xs arbitrary: ys)
  case (Cons x xs)
  then obtain y ys' where ys: "ys = y # ys'" by (cases ys) auto
  have sets: "set (x # xs) = set ys" using Cons.prems(3) by (metis set_mset_mset)
  have "x = y"
  proof (rule ccontr)
    assume "x \<noteq> y"
    with sets ys have "y \<in> set xs" "x \<in> set ys'" by auto
    with Cons.prems(1,2) ys have "cmp x y < 0" "cmp y x < 0" by auto
    moreover have "x \<in> carrier" "y \<in> carrier" using Cons.prems(4) sets ys by auto
    ultimately show False using anti [of x y] by simp
  qed
  with Cons ys show ?case by simp
qed simp

end

subsection \<open>Comparing keys of one kind\<close>

lemma str_lt_irrefl: "\<not> str_lt s s"
  by (induction s) auto

lemma str_lt_trans: "str_lt s t \<Longrightarrow> str_lt t v \<Longrightarrow> str_lt s v"
proof (induction s t arbitrary: v rule: str_lt.induct)
  case (2 c t)
  then show ?case by (cases v) auto
next
  case (3 a s b t)
  then show ?case by (cases v) auto
qed simp

lemma str_lt_total: "str_lt s t \<or> s = t \<or> str_lt t s"
proof (induction s t rule: str_lt.induct)
  case (1 s)
  then show ?case by (cases s) auto
qed auto

lemma num_lt_trans: "num_lt a b \<Longrightarrow> num_lt b c \<Longrightarrow> num_lt a c"
  by (cases a; cases b; cases c) auto

lemma num_lt_irrefl: "\<not> num_lt a a"
  by (cases a) auto

lemma num_lt_total: "a \<noteq> NaN \<Longrightarrow> b \<noteq> NaN \<Longrightarrow> num_lt a b \<or> a = b \<or> num_lt b a"
  by (cases a; cases b) auto

definition text_key :: "sortval \<Rightarrow> bool" where
  "text_key k \<longleftrightarrow> (\<exists>s. k = SStr s)"

definition number_key :: "sortval \<Rightarrow> bool" where
  "number_key k \<longleftrightarrow> (\<exists>n. k = SNum n \<and> n \<noteq> NaN)"

interpretation text_keys: comparison three_way "Collect text_key"
proof
  fix a b c assume "a \<in> Collect text_key" "b \<in> Collect text_key"
  then obtain s t where st: "a = SStr s" "b = SStr t" by (auto simp: text_key_def)
  show "three_way b a = - three_way a b"
    using st str_lt_trans [of s t s] str_lt_irrefl [of s] by (auto simp: three_way_def)
  show "three_way a b = 0 \<Longrightarrow> a = b" using st str_lt_total [of s t] by (auto simp: three_way_def split: if_splits)
  assume "c \<in> Collect text_key"
  then obtain v where "c = SStr v" by (auto simp: text_key_def)
  then show "three_way a b < 0 \<Longrightarrow> three_way b c < 0 \<Longrightarrow> three_way a c < 0"
    using st str_lt_trans [of s t v] by (simp add: three_way_def split: if_splits)
qed

interpretation number_keys: comparison three_way "Collect number_key"
proof
  fix a b c assume "a \<in> Collect number_key" "b \<in> Collect number_key"
  then obtain m n where mn: "a = SNum m" "b = SNum n" "m \<noteq> NaN" "n \<noteq> NaN" by (auto simp: number_key_def)
  show "three_way b a = - three_way a b"
    using mn num_lt_trans [of m n m] num_lt_irrefl [of m] by (auto simp: three_way_def)
  show "three_way a b = 0 \<Longrightarrow> a = b" using mn num_lt_total [of m n] by (auto simp: three_way_def split: if_splits)
  assume "c \<in> Collect number_key"
  then obtain v where "c = SNum v" by (auto simp: number_key_def)
  then show "three_way a b < 0 \<Longrightarrow> three_way b c < 0 \<Longrightarrow> three_way a c < 0"
    using mn num_lt_trans [of m n v] by (simp add: three_way_def split: if_splits)
qed


subsection \<open>Comparing rows\<close>

text \<open>Every sort column has texts only, or numbers only (none of them NaN).\<close>

definition same_kind :: "sortval list \<Rightarrow> bool" where
  "same_kind ks \<longleftrightarrow> list_all text_key ks \<or> list_all number_key ks"

definition comparable :: "table \<Rightarrow> sort_entry list \<Rightarrow> bool" where
  "comparable s es \<longleftrightarrow> (\<forall>e \<in> set es. same_kind (map (key_of_row s (se_col e)) (aiDisplayMaster s)))"

definition sort_carrier :: "table \<Rightarrow> sort_entry list \<Rightarrow> nat set" where
  "sort_carrier s es = (if comparable s es then set (aiDisplayMaster s) else {})"

lemma key_laws:
  assumes "same_kind ks" and "x \<in> set ks" and "y \<in> set ks" and "z \<in> set ks"
  shows "three_way y x = - three_way x y" and "three_way x y = 0 \<Longrightarrow> x = y"
    and "three_way x y < 0 \<Longrightarrow> three_way y z < 0 \<Longrightarrow> three_way x z < 0"
    and "three_way x y > 0 \<Longrightarrow> three_way y z > 0 \<Longrightarrow> three_way x z > 0"
proof -
  have "(x \<in> Collect text_key \<and> y \<in> Collect text_key \<and> z \<in> Collect text_key) \<or>
    (x \<in> Collect number_key \<and> y \<in> Collect number_key \<and> z \<in> Collect number_key)"
    using assms by (auto simp: same_kind_def list_all_iff)
  then show "three_way y x = - three_way x y" and "three_way x y = 0 \<Longrightarrow> x = y"
    and "three_way x y < 0 \<Longrightarrow> three_way y z < 0 \<Longrightarrow> three_way x z < 0"
    and "three_way x y > 0 \<Longrightarrow> three_way y z > 0 \<Longrightarrow> three_way x z > 0"
    using text_keys.anti [of x y] text_keys.anti [of y z] text_keys.anti [of x z] text_keys.zero [of x y]
      text_keys.trans [of x y z] text_keys.trans [of z y x]
      number_keys.anti [of x y] number_keys.anti [of y z] number_keys.anti [of x z] number_keys.zero [of x y]
      number_keys.trans [of x y z] number_keys.trans [of z y x]
    by auto
qed

lemma inArray_Some: "inArray x xs = Some i \<Longrightarrow> i < length xs \<and> xs ! i = x"
  by (induction xs arbitrary: i) (auto split: if_splits)

lemma position_inj:
  assumes "a \<in> set m" and "b \<in> set m" and "position m a = position m b"
  shows "a = b"
proof -
  obtain i j where "inArray a m = Some i" "inArray b m = Some j"
    using assms(1,2) inArray_None [of a m] inArray_None [of b m] by auto
  with assms(3) inArray_Some [of a m i] inArray_Some [of b m j] show ?thesis by (simp add: position_def)
qed

lemma row_cmp_anti:
  "comparable s es \<Longrightarrow> a \<in> set (aiDisplayMaster s) \<Longrightarrow> b \<in> set (aiDisplayMaster s) \<Longrightarrow> row_cmp s es b a = - row_cmp s es a b"
proof (induction es)
  case (Cons e es)
  then have "three_way (key_of_row s (se_col e) b) (key_of_row s (se_col e) a)
      = - three_way (key_of_row s (se_col e) a) (key_of_row s (se_col e) b)"
    by (intro key_laws(1) [of "map (key_of_row s (se_col e)) (aiDisplayMaster s)" _ _ "key_of_row s (se_col e) a"])
      (auto simp: comparable_def)
  with Cons show ?case by (auto simp: comparable_def Let_def)
qed (simp add: Let_def)

lemma row_cmp_zero:
  "comparable s es \<Longrightarrow> a \<in> set (aiDisplayMaster s) \<Longrightarrow> b \<in> set (aiDisplayMaster s) \<Longrightarrow> row_cmp s es a b = 0 \<Longrightarrow> a = b"
proof (induction es)
  case Nil
  then show ?case using position_inj [of a "aiDisplayMaster s" b] by (auto simp: Let_def split: if_splits)
next
  case (Cons e es)
  then show ?case by (auto simp: comparable_def Let_def split: if_splits)
qed

lemma row_cmp_trans:
  "comparable s es \<Longrightarrow> a \<in> set (aiDisplayMaster s) \<Longrightarrow> b \<in> set (aiDisplayMaster s) \<Longrightarrow> c \<in> set (aiDisplayMaster s) \<Longrightarrow>
   row_cmp s es a b < 0 \<Longrightarrow> row_cmp s es b c < 0 \<Longrightarrow> row_cmp s es a c < 0"
proof (induction es)
  case Nil
  then show ?case by (auto simp: Let_def split: if_splits)
next
  case (Cons e es)
  let ?k = "key_of_row s (se_col e)"
  have sk: "same_kind (map ?k (aiDisplayMaster s))" using Cons.prems(1) by (simp add: comparable_def)
  have m: "?k a \<in> set (map ?k (aiDisplayMaster s))" "?k b \<in> set (map ?k (aiDisplayMaster s))"
    "?k c \<in> set (map ?k (aiDisplayMaster s))" using Cons.prems by auto
  note L = key_laws [OF sk m(1,2,3)] key_laws(2) [OF sk m(2,3,1)] key_laws(1) [OF sk m(1,1,1)]
  have rest: "row_cmp s es a b < 0 \<Longrightarrow> row_cmp s es b c < 0 \<Longrightarrow> row_cmp s es a c < 0"
    using Cons by (simp add: comparable_def)
  consider "three_way (?k a) (?k b) = 0" | "three_way (?k b) (?k c) = 0"
    | "three_way (?k a) (?k b) \<noteq> 0" "three_way (?k b) (?k c) \<noteq> 0" by blast
  then show ?case
  proof cases
    case 1
    then have "?k a = ?k b" using L(2) by blast
    with 1 Cons.prems(5,6) rest show ?thesis by (auto simp: Let_def split: if_splits)
  next
    case 2
    then have "?k b = ?k c" using L(5) by blast
    with 2 Cons.prems(5,6) rest show ?thesis by (auto simp: Let_def split: if_splits)
  next
    case 3
    with Cons.prems(5,6) L(3,4) show ?thesis by (auto simp: Let_def split: if_splits)
  qed
qed

interpretation rows: comparison "row_cmp s es" "sort_carrier s es" for s es
proof
  fix a b c assume "a \<in> sort_carrier s es" "b \<in> sort_carrier s es"
  then have ab: "comparable s es" "a \<in> set (aiDisplayMaster s)" "b \<in> set (aiDisplayMaster s)"
    by (auto simp: sort_carrier_def split: if_splits)
  show "row_cmp s es b a = - row_cmp s es a b" by (rule row_cmp_anti [OF ab])
  show "row_cmp s es a b = 0 \<Longrightarrow> a = b" by (rule row_cmp_zero [OF ab])
  assume "c \<in> sort_carrier s es"
  then have "c \<in> set (aiDisplayMaster s)" by (auto simp: sort_carrier_def split: if_splits)
  then show "row_cmp s es a b < 0 \<Longrightarrow> row_cmp s es b c < 0 \<Longrightarrow> row_cmp s es a c < 0"
    by (rule row_cmp_trans [OF ab])
qed

lemma fnSort_unique:
  assumes "aSort = sortFlatten env (types s0)" and "s = load_keys env aSort (cache_indices (types s0))" and "aSort \<noteq> []"
    and "dataSource s \<noteq> SSP" and "list_all se_formatter aSort" and "comparable s aSort" and "distinct (aiDisplayMaster s)"
  shows "\<exists>t. fnSort env types s0 = Inr t \<and> mset (aiDisplayMaster t) = mset (aiDisplayMaster s) \<and>
    sorted_wrt (\<lambda>a b. row_cmp s aSort a b < 0) (aiDisplayMaster t) \<and> bSorted t \<and>
    (\<forall>p. mset p = mset (aiDisplayMaster s) \<longrightarrow> sorted_wrt (\<lambda>a b. row_cmp s aSort a b < 0) p \<longrightarrow> p = aiDisplayMaster t)"
proof -
  let ?m = "js_sort (row_cmp s aSort) (aiDisplayMaster s)"
  have c: "sort_carrier s aSort = set (aiDisplayMaster s)" using assms(6) by (simp add: sort_carrier_def)
  have m: "mset ?m = mset (aiDisplayMaster s)" by (rule rows.sort_mset)
  have o: "sorted_wrt (\<lambda>a b. row_cmp s aSort a b < 0) ?m"
    using rows.sort_ordered [OF assms(7)] c by simp
  have "p = ?m" if "mset p = mset (aiDisplayMaster s)" "sorted_wrt (\<lambda>a b. row_cmp s aSort a b < 0) p" for p
  proof -
    have "mset p = mset ?m" using that(1) m by simp
    moreover have "set p \<subseteq> sort_carrier s aSort" using that(1) c by (metis order_refl set_mset_mset)
    ultimately show ?thesis by (rule rows.ordered_unique [OF that(2) o])
  qed
  then have u: "\<forall>p. mset p = mset (aiDisplayMaster s) \<longrightarrow> sorted_wrt (\<lambda>a b. row_cmp s aSort a b < 0) p \<longrightarrow> p = ?m" by blast
  have f: "fnSort env types s0 = Inr (s\<lparr>aiDisplayMaster := ?m, bSorted := True\<rparr>)"
    unfolding fnSort_def Let_def assms(1) [symmetric] assms(2) [symmetric] using assms(3-5) by simp
  define r where "r = s\<lparr>aiDisplayMaster := ?m, bSorted := True\<rparr>"
  have r: "aiDisplayMaster r = ?m" "bSorted r" by (simp_all add: r_def)
  show ?thesis unfolding f r_def [symmetric]
    by (rule exI [of _ r], unfold r(1), intro conjI) (rule HOL.refl m o r(2) u)+
qed

text \<open>
  C7. The sort. If every sort column holds texts only or numbers only, the new order of the rows
  is a permutation of the old one in which any two rows stand in the order of the comparison
  (the sort columns in turn, each in its direction, and the old order for rows that agree in all
  of them), and it is the only such permutation: the result does not depend on the browser's
  sorting algorithm.
\<close>

theorem fnSort_exact:
  assumes "aSort = sortFlatten env (types s0)" and "s = load_keys env aSort (cache_indices (types s0))" and "aSort \<noteq> []"
    and "dataSource s \<noteq> SSP" and "list_all se_formatter aSort" and "comparable s aSort" and "distinct (aiDisplayMaster s)"
  shows "\<exists>t. fnSort env types s0 = Inr t \<and> mset (aiDisplayMaster t) = mset (aiDisplayMaster s) \<and>
    sorted_wrt (\<lambda>a b. row_cmp s aSort a b < 0) (aiDisplayMaster t) \<and> bSorted t \<and>
    (\<forall>p. mset p = mset (aiDisplayMaster s) \<longrightarrow> sorted_wrt (\<lambda>a b. row_cmp s aSort a b < 0) p \<longrightarrow> p = aiDisplayMaster t)"
  using assms by (rule fnSort_unique)

definition number_env :: sort_env where
  "number_env = \<lparr>se_get = (\<lambda>j d ty. d), se_pre = (\<lambda>ty. Some (\<lambda>v. SNum (jsval_number v))), se_cmp = (\<lambda>_ _. None)\<rparr>"

definition number_column :: column where
  "number_column = \<lparr>c_name = [], bVisible = True, bSearchable = True, bSortable = True, sType = Some (u ''num''), manualType = None,
     asSorting = [u ''asc'', u ''desc''], aDataSort = [0], defaultContent = None\<rparr>"

definition number_table :: "int list \<Rightarrow> table" where
  "number_table ns = blank_table\<lparr>aoColumns := [number_column], aoData := map (\<lambda>n. new_row (Num n)) ns, aiDisplayMaster := [0..<length ns],
     aaSorting := [\<lparr>so_col = 0, so_dir = u ''desc'', so_idx = None\<rparr>]\<rparr>"

definition number_sort :: "sort_entry list" where
  "number_sort = [\<lparr>se_src = 0, se_col = 0, se_dir = u ''desc'', se_index = 1, se_type = u ''num'', se_formatter = True\<rparr>]"

lemma number_table_sort: "sortFlatten number_env (number_table [5, 9, 5]) = number_sort"
  by (simp add: number_sort_def sortFlatten_def flatten_one_def number_table_def number_column_def number_env_def blank_table_def index_in_def)

lemma number_table_keys:
  "map (key_of_row (load_keys number_env number_sort (cache_indices (number_table [5, 9, 5]))) 0) [0, 1, 2] = [SNum (Fin 5), SNum (Fin 9), SNum (Fin 5)]"
  "aiDisplayMaster (load_keys number_env number_sort (cache_indices (number_table [5, 9, 5]))) = [0, 1, 2]"
  "dataSource (load_keys number_env number_sort (cache_indices (number_table [5, 9, 5]))) \<noteq> SSP"
  by (simp_all add: load_keys_def number_sort_def cache_indices_def sortData_def key_of_row_def cell_sort_key_def getCellData_def new_row_def dataSource_def)
    (simp_all add: number_table_def number_env_def number_column_def blank_table_def new_row_def upt_rec cell_sort_key_def getCellData_def)

theorem fnSort_exact_witness:
  "\<exists>t. fnSort number_env (\<lambda>s. s) (number_table [5, 9, 5]) = Inr t \<and> aiDisplayMaster t = [1, 0, 2]"
proof -
  define s where s: "s = load_keys number_env number_sort (cache_indices (number_table [5, 9, 5]))"
  note keys = number_table_keys [folded s]
  have k: "key_of_row s 0 0 = SNum (Fin 5)" "key_of_row s 0 (Suc 0) = SNum (Fin 9)" "key_of_row s 0 2 = SNum (Fin 5)"
    using keys(1) by simp_all
  have c: "number_sort \<noteq> []" "comparable s number_sort" "list_all se_formatter number_sort" "distinct (aiDisplayMaster s)"
    by (simp_all add: comparable_def keys(2) k same_kind_def number_key_def number_sort_def)
  from fnSort_exact [where types = "\<lambda>s. s" and ?s0.0 = "number_table [5, 9, 5]" and env = number_env, OF
      number_table_sort [symmetric] s c(1) keys(3) c(3,2,4)]
  obtain t where t: "fnSort number_env (\<lambda>s. s) (number_table [5, 9, 5]) = Inr t"
    "\<forall>p. mset p = mset [0, 1, 2] \<longrightarrow> sorted_wrt (\<lambda>a b. row_cmp s number_sort a b < 0) p \<longrightarrow> p = aiDisplayMaster t"
    unfolding keys(2) by auto
  have "sorted_wrt (\<lambda>a b. row_cmp s number_sort a b < 0) [1, 0, 2]"
    by (simp add: k three_way_def keys(2) position_def number_sort_def)
  moreover have "mset [1, 0, 2] = mset [0, 1, 2::nat]" by simp
  ultimately have "aiDisplayMaster t = [1, 0, 2]" using t(2) by metis
  with t(1) show ?thesis by blast
qed

subsection \<open>The cycle of directions\<close>

text \<open>Some number of clicks on a header.\<close>

primrec clicks :: "nat \<Rightarrow> nat \<Rightarrow> bool \<Rightarrow> table \<Rightarrow> table" where
  "clicks 0 c multi s = s"
| "clicks (Suc n) c multi s = click_header c multi (clicks n c multi s)"

definition sort_state :: "nat \<Rightarrow> ustr list \<Rightarrow> nat \<Rightarrow> sorting" where
  "sort_state c ds k = \<lparr>so_col = c, so_dir = ds ! k, so_idx = Some (int k)\<rparr>"

lemma single_click_next:
  assumes "aaSorting s = [sort_state c ds k]" and "asSorting (aoColumns s ! c) = ds" and "k < length ds"
  shows "sortListener c False s = [sort_state c ds (Suc k mod length ds)]"
proof (cases "Suc k < length ds")
  case True
  then show ?thesis using assms
    by (simp add: sortListener_def next_idx_def sort_state_def set_dir_def nat_add_distrib)
next
  case False
  then have "Suc k = length ds" using assms(3) by simp
  then show ?thesis using assms
    by (simp add: sortListener_def next_idx_def sort_state_def set_dir_def)
qed

lemma multi_click_next:
  assumes "aaSorting s = so @ [sort_state c ds k]" and "asSorting (aoColumns s ! c) = ds" and "k < length ds"
    and "bSortMulti s" and "c \<notin> so_col ` set so" and "so \<noteq> []"
  shows "sortListener c True s = (if Suc k < length ds then so @ [sort_state c ds (Suc k)] else so)"
proof -
  have i: "inArray c (map so_col (so @ [sort_state c ds k])) = Some (length so)"
    using assms(5) by (induction so) (auto simp: sort_state_def)
  show ?thesis using assms(1-4,6) i
    by (cases "Suc k < length ds")
      (simp_all add: sortListener_def next_idx_def sort_state_def set_dir_def nat_add_distrib)
qed

text \<open>
  Clicking a header cycles through the column's directions. The first click on a column that
  does not lead the order sorts by it alone, in its first direction, and each further click takes
  the next direction, the first following the last; a click with shift appends a column
  behind the others in its first direction, and after one more click than it has directions the
  column is gone again and the order as before.
\<close>

theorem header_click_cycle:
  assumes "asSorting (aoColumns s ! c) = ds" and "ds \<noteq> []" and "bSortable (aoColumns s ! c)"
  shows "(aaSorting s = [] \<or> so_col (hd (aaSorting s)) \<noteq> c \<longrightarrow>
      aaSorting (clicks (Suc n) c False s) = [sort_state c ds (n mod length ds)]) \<and>
    (bSortMulti s \<and> aaSorting s \<noteq> [] \<and> c \<notin> so_col ` set (aaSorting s) \<longrightarrow>
      (n < length ds \<longrightarrow> aaSorting (clicks (Suc n) c True s) = aaSorting s @ [sort_state c ds n]) \<and>
      aaSorting (clicks (Suc (length ds)) c True s) = aaSorting s)"
proof -
  have keep: "aoColumns (clicks m c b s) = aoColumns s" "bSortMulti (clicks m c b s) = bSortMulti s" for m b
    by (induction m) (simp_all add: click_header_def)
  have l: "0 < length ds" using assms(2) by simp
  have click: "aaSorting (clicks (Suc m) c b s) = sortListener c b (clicks m c b s)" for m b
    using assms(3) keep by (simp add: click_header_def)
  have single: "aaSorting (clicks (Suc n) c False s) = [sort_state c ds (n mod length ds)]"
    if "aaSorting s = [] \<or> so_col (hd (aaSorting s)) \<noteq> c"
  proof (induction n)
    case 0
    then show ?case unfolding click using that assms by (auto simp: sortListener_def sort_state_def)
  next
    case (Suc n)
    then have "sortListener c False (clicks (Suc n) c False s) = [sort_state c ds (Suc (n mod length ds) mod length ds)]"
      using l keep assms(1) by (intro single_click_next) (simp_all del: clicks.simps)
    then show ?case unfolding click by (simp add: mod_Suc_eq del: clicks.simps)
  qed
  have multi: "aaSorting (clicks (Suc n) c True s) = aaSorting s @ [sort_state c ds n]"
    if "bSortMulti s" "aaSorting s \<noteq> []" "c \<notin> so_col ` set (aaSorting s)" "n < length ds" for n
    using that(4)
  proof (induction n)
    case 0
    have "inArray c (map so_col (aaSorting s)) = None" using that(3) by (simp add: inArray_None)
    then show ?case unfolding click using that assms by (simp add: sortListener_def sort_state_def)
  next
    case (Suc n)
    then have "sortListener c True (clicks (Suc n) c True s) = aaSorting s @ [sort_state c ds (Suc n)]"
      using that keep assms(1) multi_click_next [of "clicks (Suc n) c True s" "aaSorting s" c ds n] by (simp del: clicks.simps)
    then show ?case unfolding click .
  qed
  have gone: "aaSorting (clicks (Suc (length ds)) c True s) = aaSorting s"
    if m: "bSortMulti s" "aaSorting s \<noteq> []" "c \<notin> so_col ` set (aaSorting s)"
  proof -
    obtain k where k: "length ds = Suc k" using l by (cases "length ds") auto
    then have "sortListener c True (clicks (Suc k) c True s) = aaSorting s"
      using m keep assms(1) multi [OF m, of k] multi_click_next [of "clicks (Suc k) c True s" "aaSorting s" c ds k]
      by (simp del: clicks.simps)
    then show ?thesis unfolding k click .
  qed
  show ?thesis using single multi gone by blast
qed

theorem header_click_cycle_witness:
  "aaSorting (clicks 3 0 False (blank_table\<lparr>aoColumns := [number_column]\<rparr>)) = [sort_state 0 [u ''asc'', u ''desc''] 0]"
  using header_click_cycle [of "blank_table\<lparr>aoColumns := [number_column]\<rparr>" 0 "[u ''asc'', u ''desc'']" 2]
  by (simp add: number_column_def blank_table_def numeral_3_eq_3 numeral_2_eq_2 del: clicks.simps)

end
