(* ===== verification/DT_Redraw.thy ===== *)
theory DT_Redraw
  imports DT_Paging DT_Filter DT_Sort
begin

text \<open>
  \<open>_fnReDraw\<close> and what leads to it: the components of the table together. A redraw sorts the rows,
  filters them, goes to the first page and draws it. The theorems say what the user then sees on
  the pages, and that the index arrays stay well-formed through every operation.
\<close>

subsection \<open>Redrawing\<close>

text \<open>
  The parameters are those of the parts: the sort types, the filter and the type detectors, which
  the page may extend. A callback before the draw that cancels it is \<open>rd_cancel\<close>.
\<close>

record redraw_env =
  rd_sort :: sort_env
  rd_filter :: filter_env
  rd_detect :: "(jsval \<Rightarrow> ustr option) list"
  rd_cancel :: bool

definition resolve_types :: "redraw_env \<Rightarrow> table \<Rightarrow> table" where
  "resolve_types env = columnTypes (fe_get (rd_filter env)) (rd_detect env)"

definition reDraw :: "redraw_env \<Rightarrow> bool \<Rightarrow> table \<Rightarrow> table js_result" where
  "reDraw env holdPosition s =
     js_bind (if bSort s then fnSort (rd_sort env) (resolve_types env) s else Inr s) (\<lambda>s.
       let s = (if bFilter s then filterComplete (rd_filter env) (resolve_types env) (oPreviousSearch s) False s
                else s\<lparr>aiDisplay := aiDisplayMaster s\<rparr>);
           s = (if holdPosition then s else s\<lparr>displayStart := 0\<rparr>)
       in fnDraw (rd_cancel env) s)"

text \<open>A click on a column's header, with or without the shift key.\<close>

definition header_clicked :: "redraw_env \<Rightarrow> nat \<Rightarrow> bool \<Rightarrow> table \<Rightarrow> table js_result" where
  "header_clicked env colIdx shift s =
     (if bSortable (aoColumns s ! colIdx) then reDraw env False (click_header colIdx shift s) else Inr s)"

text \<open>
  The input of the search box (\<open>_fnFeatureHtmlFilter\<close>): a new value searches, goes to the first
  page and draws; the other settings of the last search stay.
\<close>

definition search_typed :: "redraw_env \<Rightarrow> ustr \<Rightarrow> table \<Rightarrow> table js_result" where
  "search_typed env val s =
     (if val \<noteq> sSearch (oPreviousSearch s)
      then fnDraw (rd_cancel env)
        ((filterComplete (rd_filter env) (resolve_types env) ((oPreviousSearch s)\<lparr>sSearch := val\<rparr>) False s)\<lparr>displayStart := 0\<rparr>)
      else Inr s)"

text \<open>The text of the one row of an empty table.\<close>

definition zero_text :: "ustr \<Rightarrow> ustr \<Rightarrow> ustr \<Rightarrow> table \<Rightarrow> ustr" where
  "zero_text sZeroRecords sLoadingRecords sEmptyTable s =
     (if iDraw s = 1 \<and> dataSource s = AJAX then sLoadingRecords
      else if sEmptyTable \<noteq> [] \<and> fnRecordsTotal s = 0 then sEmptyTable
      else sZeroRecords)"

subsection \<open>What each part leaves alone\<close>

lemma sortData_only: "\<exists>d. sortData env c s = s\<lparr>aoData := d\<rparr> \<and> length d = length (aoData s)"
  by (rule exI [of _ "aoData (sortData env c s)"]) (simp add: sortData_def)

lemma load_keys_only: "\<exists>d. load_keys env es s = s\<lparr>aoData := d\<rparr> \<and> length d = length (aoData s)"
proof (induction es arbitrary: s)
  case Nil
  then show ?case by (intro exI [of _ "aoData s"]) (simp add: load_keys_def)
next
  case (Cons e es)
  obtain d where d: "sortData env (se_col e) s = s\<lparr>aoData := d\<rparr>" "length d = length (aoData s)"
    using sortData_only by blast
  obtain d' where d': "load_keys env es (s\<lparr>aoData := d\<rparr>) = s\<lparr>aoData := d, aoData := d'\<rparr>" "length d' = length d"
    using Cons [of "s\<lparr>aoData := d\<rparr>"] by auto
  have "load_keys env (e # es) s = s\<lparr>aoData := d'\<rparr>" using d(1) d'(1) by (simp add: load_keys_def)
  then show ?case using d(2) d'(2) by (intro exI [of _ d']) simp
qed

lemma column_types_resolved: "\<forall>c \<in> set cols. sType c \<noteq> None \<Longrightarrow> column_types det cells i cols d = cols"
  by (induction cols arbitrary: i) (auto split: option.splits)

lemma resolve_types_resolved: "\<forall>c \<in> set (aoColumns s). sType c \<noteq> None \<Longrightarrow> resolve_types env s = s"
  by (simp add: resolve_types_def columnTypes_def column_types_resolved)

lemma resolve_types_only: "\<exists>cs. resolve_types env s = s\<lparr>aoColumns := cs\<rparr>"
  by (rule exI [of _ "aoColumns (resolve_types env s)"]) (simp add: resolve_types_def columnTypes_def)

lemma cache_indices_only: "\<exists>a b c. cache_indices s = s\<lparr>sort_pre := a, aaSorting := b, sort_post := c\<rparr>"
  by (auto simp: cache_indices_def)

lemma mem_js_sort [simp]: "set (js_sort cmp xs) = set xs"
proof (induction xs)
  case (Cons x xs)
  have "set (insert_by cmp x ys) = insert x (set ys)" for ys by (induction ys) auto
  with Cons show ?case by (simp add: js_sort_def)
qed (simp add: js_sort_def)

lemma distinct_js_sort [simp]: "distinct (js_sort cmp xs) = distinct xs"
proof (induction xs)
  case (Cons x xs)
  have s: "set (insert_by cmp x ys) = insert x (set ys)" for ys by (induction ys) auto
  have "distinct (insert_by cmp x ys) \<longleftrightarrow> x \<notin> set ys \<and> distinct ys" for ys by (induction ys) (auto simp: s)
  with Cons mem_js_sort [of cmp xs] show ?case by (simp add: js_sort_def)
qed (simp add: js_sort_def)

subsection \<open>Well-formed index arrays\<close>

text \<open>The invariant only looks at three fields.\<close>

lemma table_wf_cong:
  assumes "table_wf s" and "length (aoData t) = length (aoData s)" and "set (aiDisplayMaster t) = set (aiDisplayMaster s)"
    and "distinct (aiDisplayMaster t)" and "distinct (aiDisplay t)" and "set (aiDisplay t) \<subseteq> set (aiDisplayMaster s)"
  shows "table_wf t"
  using assms by (auto simp: table_wf_def)

lemma table_wf_master: "table_wf s \<Longrightarrow> set (aiDisplayMaster s) = {..<length (aoData s)} \<and> distinct (aiDisplayMaster s) \<and>
    distinct (aiDisplay s) \<and> set (aiDisplay s) \<subseteq> set (aiDisplayMaster s)"
  by (auto simp: table_wf_def)

lemma fnSort_wf:
  assumes "fnSort env (resolve_types renv) s = Inr t" and "table_wf s"
  shows "table_wf t"
proof -
  define es where "es = sortFlatten env (resolve_types renv s)"
  define r where "r = load_keys env es (cache_indices (resolve_types renv s))"
  obtain cs where cs: "resolve_types renv s = s\<lparr>aoColumns := cs\<rparr>" using resolve_types_only by blast
  obtain a b c where ci: "cache_indices (s\<lparr>aoColumns := cs\<rparr>) = s\<lparr>aoColumns := cs, sort_pre := a, aaSorting := b, sort_post := c\<rparr>"
    using cache_indices_only by blast
  obtain d where d: "r = s\<lparr>aoColumns := cs, sort_pre := a, aaSorting := b, sort_post := c, aoData := d\<rparr>" "length d = length (aoData s)"
    using load_keys_only [of env es "s\<lparr>aoColumns := cs, sort_pre := a, aaSorting := b, sort_post := c\<rparr>"] by (auto simp: r_def cs ci)
  have "fnSort env (resolve_types renv) s =
     (if dataSource r \<noteq> SSP \<and> es \<noteq> [] then
        (if list_all se_formatter es
         then Inr (r\<lparr>aiDisplayMaster := js_sort (row_cmp r es) (aiDisplayMaster r), bSorted := True\<rparr>)
         else if \<exists>a \<in> set (aiDisplayMaster r). \<exists>b \<in> set (aiDisplayMaster r). row_cmp_ext env r es a b = None
         then Inl TypeError
         else Inr (r\<lparr>aiDisplayMaster := js_sort (\<lambda>a b. the (row_cmp_ext env r es a b)) (aiDisplayMaster r), bSorted := True\<rparr>))
      else Inr (r\<lparr>bSorted := True\<rparr>))"
    by (simp only: fnSort_def Let_def es_def r_def)
  then have "length (aoData t) = length (aoData r) \<and> set (aiDisplayMaster t) = set (aiDisplayMaster r) \<and>
    distinct (aiDisplayMaster t) = distinct (aiDisplayMaster r) \<and> aiDisplay t = aiDisplay r"
    using assms(1) by (auto split: if_splits)
  then show ?thesis using d assms(2) by (auto simp: table_wf_def)
qed

lemma custom_rows:
  "set (fold (\<lambda>f ix. map snd (filter (\<lambda>(j, i). f (g i) i j) (enumerate 0 ix))) fs ix) \<subseteq> set ix \<and>
   (distinct ix \<longrightarrow> distinct (fold (\<lambda>f ix. map snd (filter (\<lambda>(j, i). f (g i) i j) (enumerate 0 ix))) fs ix))"
proof (induction fs arbitrary: ix)
  case (Cons f fs)
  let ?ix = "map snd (filter (\<lambda>(j, i). f (g i) i j) (enumerate 0 ix))"
  have "set ?ix \<subseteq> set ix" by (auto simp: in_set_enumerate_eq)
  moreover have "distinct ?ix" if "distinct ix" using that by (intro distinct_map_filter) simp
  ultimately show ?case using Cons [of ?ix] by auto
qed simp

lemma filterComplete_wf:
  assumes "table_wf s"
  shows "table_wf (filterComplete env (resolve_types renv) input force s)"
proof -
  obtain cs where cs: "resolve_types renv s = s\<lparr>aoColumns := cs\<rparr>" using resolve_types_only by blast
  let ?s = "s\<lparr>aoColumns := cs\<rparr>"
  have wf: "table_wf ?s" using assms by (simp add: table_wf_def)
  let ?f = "fnFilter env (sSearch input) force (bRegex input) (bSmart input) (bCaseInsensitive input) ?s"
  obtain bt where bt: "fnFilterData env ?s = bt" by blast
  have m: "aiDisplayMaster ?f = aiDisplayMaster s"
    using fnFilterData_fields(2) [of env ?s] by (cases bt) (simp add: fnFilter_def bt Let_def)
  have i: "input = \<lparr>sSearch = sSearch input, bRegex = bRegex input, bSmart = bSmart input, bCaseInsensitive = bCaseInsensitive input\<rparr>"
    by simp
  have f: "distinct (aiDisplay ?f) \<and> set (aiDisplay ?f) \<subseteq> set (aiDisplayMaster s)"
    using table_wf_master [OF wf] by (auto simp: fnFilter_display [OF i])
  show ?thesis
  proof (cases "dataSource ?s = SSP")
    case True
    then show ?thesis using wf by (simp add: filterComplete_def cs table_wf_def)
  next
    case False
    then show ?thesis
      using table_wf_master [OF assms] f m custom_rows
        [of "\<lambda>i. case aFilterData (aoData ?f ! i) of Some fd \<Rightarrow> fd | None \<Rightarrow> []" "fe_custom env"
          "filter (\<lambda>r. \<forall>k < length (aoPreSearchCols ?f). col_matches env (aoPreSearchCols ?f ! k) (0 + k) (?f\<lparr>oPreviousSearch := input\<rparr>) r) (aiDisplay ?f)"]
      by (intro table_wf_cong [OF assms]) (auto simp: filterComplete_def cs Let_def filter_columns_spec filterCustom_def)
  qed
qed

lemma stripe_all_length [simp]: "length (stripe_all st k is rows) = length rows"
  by (induction st k "is" rows rule: stripe_all.induct) simp_all

lemma draw_rows_shape:
  assumes "draw_rows s = Inr t"
  shows "\<exists>d is. t = s\<lparr>drawn := is, aoData := d, bSorted := False, bFiltered := False\<rparr> \<and> length d = length (aoData s) \<and> set is \<subseteq> set (aiDisplay s)"
proof (cases "aiDisplay s = []")
  case True
  then show ?thesis using assms by (intro exI [of _ "aoData s"] exI [of _ "[]"]) (auto simp: draw_rows_def)
next
  case False
  let ?is = "map (\<lambda>j. aiDisplay s ! nat j) (draw_positions s)"
  have ok: "\<not> (\<exists>j \<in> set (draw_positions s). j < 0 \<or> int (length (aiDisplay s)) \<le> j)"
    by (rule notI) (use assms False in \<open>simp add: draw_rows_def\<close>)
  then have "t = s\<lparr>drawn := ?is, aoData := stripe_all (asStripeClasses s) 0 ?is (aoData s), bSorted := False, bFiltered := False\<rparr>"
    using assms False by (simp add: draw_rows_def Let_def)
  moreover have "set ?is \<subseteq> set (aiDisplay s)" using ok by force
  ultimately show ?thesis by (intro exI [of _ "stripe_all (asStripeClasses s) 0 ?is (aoData s)"] exI [of _ ?is]) simp
qed

text \<open>What a draw can change: the rows in the body, and bookkeeping outside the index arrays.\<close>

definition same_indexes :: "table \<Rightarrow> table \<Rightarrow> bool" where
  "same_indexes s t \<longleftrightarrow> length (aoData t) = length (aoData s) \<and> aiDisplayMaster t = aiDisplayMaster s \<and> aiDisplay t = aiDisplay s"

lemma same_indexes_wf: "same_indexes s t \<Longrightarrow> table_wf s \<Longrightarrow> table_wf t"
  by (simp add: same_indexes_def table_wf_def)

lemma draw_start_indexes: "same_indexes s (draw_start s)" "drawn (draw_start s) = drawn s"
  by (auto simp: draw_start_def same_indexes_def split: option.splits)

lemma fnDraw_indexes:
  assumes "fnDraw cancelled s = Inr t"
  shows "same_indexes s t" and "drawn t = drawn s \<or> set (drawn t) \<subseteq> set (aiDisplay s)"
proof -
  have d: "same_indexes s t \<and> set (drawn t) \<subseteq> set (aiDisplay s)"
    if "draw_rows r = Inr t" "same_indexes s r" for r
    using draw_rows_shape [OF that(1)] that(2) by (auto simp: same_indexes_def)
  have r: "same_indexes s ((draw_start s)\<lparr>bDeferLoading := a, iDraw := n\<rparr>)" "same_indexes s ((draw_start s)\<lparr>iDraw := n\<rparr>)" for a n
    using draw_start_indexes(1) [of s] by (simp_all add: same_indexes_def)
  have "same_indexes s t \<and> (drawn t = drawn s \<or> set (drawn t) \<subseteq> set (aiDisplay s))"
    using assms draw_start_indexes [of s] d [OF _ r(1)] d [OF _ r(2)] d [OF _ draw_start_indexes(1)] r(2) [of "iDraw (draw_start s) + 1"]
    by (auto simp: fnDraw_def Let_def same_indexes_def split: if_splits)
  then show "same_indexes s t" "drawn t = drawn s \<or> set (drawn t) \<subseteq> set (aiDisplay s)" by auto
qed

lemma fnDraw_wf: "fnDraw cancelled s = Inr t \<Longrightarrow> table_wf s \<Longrightarrow> table_wf t"
  using fnDraw_indexes(1) same_indexes_wf by blast

lemma wf_bookkeeping [simp]:
  "table_wf (s\<lparr>displayStart := i\<rparr>) = table_wf s" "table_wf (s\<lparr>aaSorting := so\<rparr>) = table_wf s"
  "table_wf (s\<lparr>displayLength := l\<rparr>) = table_wf s" "table_wf (s\<lparr>aoColumns := cs\<rparr>) = table_wf s"
  by (simp_all add: table_wf_def)

lemma reDraw_wf:
  assumes "reDraw env hold s = Inr t" and "table_wf s"
  shows "table_wf t"
proof -
  obtain r where r: "(if bSort s then fnSort (rd_sort env) (resolve_types env) s else Inr s) = Inr r"
    using assms(1) by (auto simp: reDraw_def js_bind_eq_Inr)
  then have wf: "table_wf r" using assms(2) fnSort_wf by (auto split: if_splits)
  let ?f = "if bFilter r then filterComplete (rd_filter env) (resolve_types env) (oPreviousSearch r) False r else r\<lparr>aiDisplay := aiDisplayMaster r\<rparr>"
  have f: "table_wf ?f" using filterComplete_wf [OF wf] wf by (auto simp: table_wf_def)
  have "fnDraw (rd_cancel env) (if hold then ?f else ?f\<lparr>displayStart := 0\<rparr>) = Inr t"
    using assms(1) r by (simp add: reDraw_def js_bind_def Let_def)
  then show ?thesis by (rule fnDraw_wf) (use f in simp)
qed

subsection \<open>The life of a table\<close>

text \<open>
  What the page and the user do to a table: a click on a header, a search, a page button, a new
  page length, a redraw, rows that are added, removed, changed or cleared through the interface,
  and the answers of the server.
\<close>

datatype dt_event =
    Click nat bool | Typed ustr | Turn page_action | Length int | Redraw bool | Add jsval | Remove "nat list"
  | Change nat "nat option" jsval | Clear | Reply reply

fun enabled :: "dt_event \<Rightarrow> table \<Rightarrow> bool" where
  "enabled (Click c shift) s \<longleftrightarrow> c < length (aoColumns s)"
| "enabled (Remove sel) s \<longleftrightarrow> distinct sel \<and> set sel \<subseteq> {..<length (aoData s)}"
| "enabled (Change r c d) s \<longleftrightarrow> r < length (aoData s)"
| "enabled _ s \<longleftrightarrow> True"

fun handle :: "redraw_env \<Rightarrow> dt_event \<Rightarrow> table \<Rightarrow> table js_result" where
  "handle env (Click c shift) s = header_clicked env c shift s"
| "handle env (Typed val) s = search_typed env val s"
| "handle env (Turn a) s = js_bind (pageChange a True s) (\<lambda>(b, t). Inr t)"
| "handle env (Length l) s = fnDraw (rd_cancel env) (lengthChange l s)"
| "handle env (Redraw hold) s = reDraw env hold s"
| "handle env (Add d) s = Inr (addData d s)"
| "handle env (Remove sel) s = Inr (removeRows (length sel) sel s)"
| "handle env (Change r c d) s = Inr (invalidate r c d s)"
| "handle env Clear s = Inr (clearTable s)"
| "handle env (Reply rp) s = ajaxUpdateDraw rp s"

inductive table_run :: "redraw_env \<Rightarrow> table \<Rightarrow> dt_event list \<Rightarrow> table \<Rightarrow> bool" for env s0 where
  fresh: "table_run env s0 [] s0"
| event: "table_run env s0 es s \<Longrightarrow> enabled e s \<Longrightarrow> handle env e s = Inr t \<Longrightarrow> table_run env s0 (e # es) t"

lemma fold_addData_wf: "table_wf s \<Longrightarrow> table_wf (fold addData ds s)"
  by (induction ds arbitrary: s) (auto intro: table_wf_add)

lemma reply_filled:
  assumes "table_wf (clearTable s)"
  shows "table_wf (let r = fold addData ds ((clearTable s)\<lparr>iRecordsTotal := a, iRecordsDisplay := b\<rparr>)
    in r\<lparr>aiDisplay := aiDisplayMaster r, bAjaxDataGet := False\<rparr>)"
  using fold_addData_wf [of "(clearTable s)\<lparr>iRecordsTotal := a, iRecordsDisplay := b\<rparr>" ds] assms
  by (auto simp: table_wf_def Let_def)

lemma ajaxUpdateDraw_wf:
  assumes "ajaxUpdateDraw rp s = Inr t" and "table_wf s"
  shows "table_wf t"
proof -
  let ?filled = "\<lambda>s. let r = fold addData (rp_rows rp) ((clearTable s)\<lparr>iRecordsTotal := rp_total rp, iRecordsDisplay := rp_filtered rp\<rparr>)
    in r\<lparr>aiDisplay := aiDisplayMaster r, bAjaxDataGet := False\<rparr>"
  consider "t = s" | q r where "fnDraw False (?filled q) = Inr r" "t = r\<lparr>bAjaxDataGet := True\<rparr>"
    using assms(1) by (auto simp: ajaxUpdateDraw_def Let_def js_bind_eq_Inr split: option.splits if_splits)
  then show ?thesis
  proof cases
    case 2
    have "table_wf r" using fnDraw_wf [OF 2(1) reply_filled] table_wf_clear by blast
    with 2(2) show ?thesis by (simp add: table_wf_def)
  qed (use assms(2) in simp)
qed

lemma handle_wf:
  assumes "handle env e s = Inr t" and "enabled e s" and "table_wf s"
  shows "table_wf t"
proof (cases e)
  case (Click c shift)
  then have "header_clicked env c shift s = Inr t" using assms(1) by simp
  moreover have "table_wf (click_header c shift s)" using assms(3) by (simp add: click_header_def)
  ultimately show ?thesis using assms(3) reDraw_wf by (auto simp: header_clicked_def split: if_splits)
next
  case (Typed val)
  then have "search_typed env val s = Inr t" using assms(1) by simp
  then show ?thesis
    using assms(3) filterComplete_wf [OF assms(3)] by (auto simp: search_typed_def dest: fnDraw_wf split: if_splits)
next
  case (Turn a)
  then have "pageChange a True s \<in> {Inr (b, t) | b. True}" using assms(1) by (auto simp: js_bind_eq_Inr)
  then show ?thesis using assms(3) by (auto simp: pageChange_def Let_def js_bind_eq_Inr dest: fnDraw_wf split: if_splits)
next
  case (Length l)
  then have "fnDraw (rd_cancel env) (lengthChange l s) = Inr t" using assms(1) by simp
  then show ?thesis by (rule fnDraw_wf) (use assms(3) in \<open>simp add: lengthChange_def\<close>)
next
  case (Redraw hold)
  then show ?thesis using assms reDraw_wf by auto
next
  case (Remove sel)
  then show ?thesis using assms removeRows_spec(1) [OF assms(3), of sel t] by auto
next
  case (Reply rp)
  then show ?thesis using assms ajaxUpdateDraw_wf by auto
next
  case (Change r c d)
  then show ?thesis using assms(1,3) by (auto simp: invalidate_def table_wf_def)
qed (use assms in \<open>auto simp: table_wf_add table_wf_clear\<close>)

text \<open>
  C6. The index arrays stay sound. From a table whose arrays are well-formed, any sequence of
  events (clicks, searches, page changes, redraws, rows added, removed, changed or cleared,
  answers of the server) leads to a table whose sort order lists every row exactly once and
  whose filtered rows are rows of the table, none of them twice.
\<close>

theorem table_run_sound:
  assumes "table_run env s0 es s" and "table_wf s0"
  shows "distinct (aiDisplayMaster s) \<and> set (aiDisplayMaster s) = {..<length (aoData s)} \<and>
    distinct (aiDisplay s) \<and> set (aiDisplay s) \<subseteq> {..<length (aoData s)}"
proof -
  from assms have "table_wf s"
    by (induction rule: table_run.induct) (auto intro: handle_wf)
  then show ?thesis by (simp add: table_wf_def)
qed

definition plain_renv :: redraw_env where
  "plain_renv = \<lparr>rd_sort = number_env, rd_filter = alternatives_env, rd_detect = [], rd_cancel = False\<rparr>"

theorem table_run_sound_witness:
  "set (aiDisplayMaster (removeRows 2 [0, 2] (addData (Num 50) sample_table))) = {..<3}"
proof -
  let ?s = "addData (Num 50) sample_table"
  have "table_run plain_renv sample_table [Add (Num 50)] ?s"
    by (rule table_run.event [OF table_run.fresh]) simp_all
  then have "table_run plain_renv sample_table [Remove [0, 2], Add (Num 50)] (removeRows 2 [0, 2] ?s)"
    by (rule table_run.event) (simp_all add: addData_def sample_table_fields numeral_2_eq_2)
  from table_run_sound [OF this sample_table_wf]
  have "set (aiDisplayMaster (removeRows 2 [0, 2] ?s)) = {..<length (aoData (removeRows 2 [0, 2] ?s))}" by simp
  then show ?thesis by (simp add: numeral_2_eq_2 removeRow_def deleteIndex_def addData_def sample_table_fields)
qed

subsection \<open>What a redraw shows\<close>

text \<open>All rows that can be seen by paging through the table from its first page.\<close>

definition all_pages :: "table \<Rightarrow> nat list" where
  "all_pages t = concat (map (\<lambda>k. shown_rows (walk k t)) [0..<nat (pi_pages (page_info_of t))])"

lemma all_pages_display:
  assumes "on_grid t" and "initDisplayStart t = None" and "\<not> bDeferLoading t"
  shows "all_pages t = aiDisplay t"
proof (cases "aiDisplay t = []")
  case True
  then have "nat (pi_pages (page_info_of t)) = 0"
    using assms(1) by (simp add: on_grid_def page_info_of_def records_client ceil_div_def Let_def)
  then show ?thesis using True by (simp add: all_pages_def)
next
  case False
  then show ?thesis using pages_partition [OF assms(1) _ assms(2,3) HOL.refl] by (simp add: all_pages_def)
qed

text \<open>A row matches the search and all column searches of a table.\<close>

definition row_matches :: "filter_env \<Rightarrow> table \<Rightarrow> nat \<Rightarrow> bool" where
  "row_matches env s i \<longleftrightarrow> matches env (oPreviousSearch s) s i \<and>
     (\<forall>k < length (aoPreSearchCols s). col_matches env (aoPreSearchCols s ! k) k s i)"

lemma fnDraw_client:
  assumes "on_grid s" and "initDisplayStart s = None" and "\<not> bDeferLoading s"
  shows "\<exists>d is. fnDraw False s = Inr (s\<lparr>iDraw := iDraw s + 1, drawn := is, aoData := d, bSorted := False, bFiltered := False\<rparr>) \<and>
    is = take (nat (displayLength s)) (drop (nat (displayStart s)) (aiDisplay s))"
proof -
  let ?s = "s\<lparr>iDraw := iDraw s + 1\<rparr>"
  have g: "on_grid ?s" using assms(1) by (auto simp: on_grid_def records_client)
  obtain t where t: "draw_rows ?s = Inr t" using draw_rows_ok [OF g] by blast
  then obtain d "is" where "t = ?s\<lparr>drawn := is, aoData := d, bSorted := False, bFiltered := False\<rparr>"
    using draw_rows_shape by blast
  moreover from this have "is = take (nat (displayLength s)) (drop (nat (displayStart s)) (aiDisplay s))"
    using draw_rows_slice [OF g t] by simp
  moreover have "fnDraw False s = draw_rows ?s" using assms by (simp add: fnDraw_def draw_start_def on_grid_def)
  ultimately show ?thesis using t by auto
qed

lemma fnFilter_shape:
  "\<exists>ix. fnFilter env input force r sm ci s = s\<lparr>aoData := aoData (snd (fnFilterData env s)), aiDisplay := ix\<rparr>"
proof -
  have "snd (fnFilterData env s) = s\<lparr>aoData := aoData (snd (fnFilterData env s))\<rparr>" by (simp add: fnFilterData_def)
  then obtain b d where d: "fnFilterData env s = (b, s\<lparr>aoData := d\<rparr>)" by (metis prod.collapse)
  show ?thesis
    by (rule exI [of _ "aiDisplay (fnFilter env input force r sm ci s)"]) (simp add: fnFilter_def d Let_def)
qed

lemma filterComplete_shape:
  assumes "dataSource s \<noteq> SSP" and "types s = s" and "fe_custom env = []"
  shows "\<exists>ix. filterComplete env types input force s =
    s\<lparr>aoData := aoData (snd (fnFilterData env s)), aiDisplay := ix, oPreviousSearch := input, bFiltered := True\<rparr>"
proof -
  obtain ix where ix: "fnFilter env (sSearch input) force (bRegex input) (bSmart input) (bCaseInsensitive input) s =
    s\<lparr>aoData := aoData (snd (fnFilterData env s)), aiDisplay := ix\<rparr>" using fnFilter_shape by blast
  show ?thesis
    by (rule exI [of _ "aiDisplay (filterComplete env types input force s)"])
      (use assms in \<open>simp add: filterComplete_def ix filter_columns_spec filterCustom_def Let_def\<close>)
qed

text \<open>A client-side table with all three features and known column types, outside its first draw.\<close>

definition client_table :: "table \<Rightarrow> bool" where
  "client_table s \<longleftrightarrow> \<not> bServerSide s \<and> bSort s \<and> bFilter s \<and> bPaginate s \<and> 0 < displayLength s \<and>
     initDisplayStart s = None \<and> \<not> bDeferLoading s \<and> (\<forall>c \<in> set (aoColumns s). sType c \<noteq> None)"

lemma filter_data_cong:
  assumes "aoData t = aoData s" and "aoColumns t = aoColumns s"
  shows "aoData (snd (fnFilterData env t)) = aoData (snd (fnFilterData env s))"
proof -
  have "cell_text env t = cell_text env s" unfolding cell_text_def [abs_def] getCellData_def assms by (rule HOL.refl)
  then have "filter_row env t = filter_row env s" by (intro ext) (simp add: filter_row_def assms split: option.splits)
  then show ?thesis by (simp add: fnFilterData_def assms)
qed

lemma row_matches_cong:
  assumes "aoData t = aoData s" and "aoPreSearchCols t = aoPreSearchCols s" and "oPreviousSearch t = oPreviousSearch s"
  shows "row_matches env t = row_matches env s"
  by (intro ext) (simp add: row_matches_def matches_def col_matches_def assms)

text \<open>The filter step of a redraw, on a table that was just sorted.\<close>

lemma refilter:
  assumes "client_table r" and "bSorted r" and "fe_custom (rd_filter env) = []" and "sf = snd (fnFilterData (rd_filter env) r)"
  shows "filterComplete (rd_filter env) (resolve_types env) (oPreviousSearch r) False r =
    r\<lparr>aoData := aoData sf, aiDisplay := filter (row_matches (rd_filter env) sf) (aiDisplayMaster r), bFiltered := True\<rparr>"
proof -
  let ?f = "filterComplete (rd_filter env) (resolve_types env) (oPreviousSearch r) False r"
  have ty: "resolve_types env r = r" using assms(1) by (intro resolve_types_resolved) (auto simp: client_table_def)
  have src: "dataSource r \<noteq> SSP" using assms(1) by (simp add: client_table_def dataSource_def)
  obtain ix where ix: "?f = r\<lparr>aoData := aoData sf, aiDisplay := ix, oPreviousSearch := oPreviousSearch r, bFiltered := True\<rparr>"
    using filterComplete_shape [where types = "resolve_types env", OF src ty assms(3)] assms(4) by blast
  have p: "oPreviousSearch sf = oPreviousSearch r" using assms(4) by (simp add: fnFilterData_def)
  have "aiDisplay ?f = filter (row_matches (rd_filter env) sf) (aiDisplayMaster r)"
    using filterComplete_display [where types = "resolve_types env" and s = r, OF _ assms(3)] ty src assms(2,4) p
    by (simp add: row_matches_def [abs_def])
  then have "ix = filter (row_matches (rd_filter env) sf) (aiDisplayMaster r)" using ix by simp
  then show ?thesis using ix by simp
qed

lemma sorted_client:
  assumes "client_table s0" and "s = load_keys env es (cache_indices s0)"
  shows "client_table (s\<lparr>aiDisplayMaster := m, bSorted := q\<rparr>)" and "aiDisplayMaster s = aiDisplayMaster s0"
    and "length (aoData s) = length (aoData s0)" and "dataSource s \<noteq> SSP"
proof -
  obtain a b c where ci: "cache_indices s0 = s0\<lparr>sort_pre := a, aaSorting := b, sort_post := c\<rparr>" using cache_indices_only by blast
  obtain d where d: "s = s0\<lparr>sort_pre := a, aaSorting := b, sort_post := c, aoData := d\<rparr>" "length d = length (aoData s0)"
    using load_keys_only [of env es "s0\<lparr>sort_pre := a, aaSorting := b, sort_post := c\<rparr>"] assms(2) ci by auto
  then show "client_table (s\<lparr>aiDisplayMaster := m, bSorted := q\<rparr>)" "aiDisplayMaster s = aiDisplayMaster s0"
    "length (aoData s) = length (aoData s0)" "dataSource s \<noteq> SSP"
    using assms(1) by (simp_all add: client_table_def dataSource_def)
qed

lemma redraw_sorted:
  assumes "client_table s0" and "\<not> rd_cancel env" and "fe_custom (rd_filter env) = []"
    and "fnSort (rd_sort env) (resolve_types env) s0 = Inr r" and "client_table r" and "bSorted r"
    and "sf = snd (fnFilterData (rd_filter env) r)"
  shows "\<exists>t. reDraw env False s0 = Inr t \<and> all_pages t = filter (row_matches (rd_filter env) sf) (aiDisplayMaster r) \<and>
    drawn t = take (nat (displayLength r)) (all_pages t)"
proof -
  let ?ix = "filter (row_matches (rd_filter env) sf) (aiDisplayMaster r)"
  let ?u = "r\<lparr>aoData := aoData sf, aiDisplay := ?ix, bFiltered := True, displayStart := 0\<rparr>"
  have u: "on_grid ?u" "initDisplayStart ?u = None" "\<not> bDeferLoading ?u"
    using assms(5) by (simp_all add: client_table_def on_grid_def)
  obtain d "is" where d: "fnDraw False ?u = Inr (?u\<lparr>iDraw := iDraw ?u + 1, drawn := is, aoData := d, bSorted := False, bFiltered := False\<rparr>)"
    "is = take (nat (displayLength ?u)) (drop (nat (displayStart ?u)) (aiDisplay ?u))"
    using fnDraw_client [OF u] by blast
  define t where t: "t = ?u\<lparr>iDraw := iDraw ?u + 1, drawn := is, aoData := d, bSorted := False, bFiltered := False\<rparr>"
  have "reDraw env False s0 = fnDraw False ?u"
    using assms(1,2,4) refilter [OF assms(5,6,3,7)] assms(5) by (simp add: reDraw_def js_bind_def client_table_def)
  then have "reDraw env False s0 = Inr t" using d(1) t by simp
  moreover have "on_grid t" "initDisplayStart t = None" "\<not> bDeferLoading t"
    using u unfolding t by (simp_all add: on_grid_def records_client)
  then have "all_pages t = ?ix" using all_pages_display [of t] by (simp add: t)
  moreover have "drawn t = take (nat (displayLength r)) ?ix" using d(2) by (simp add: t)
  ultimately show ?thesis by auto
qed


definition shown_table :: table where
  "shown_table = (number_table [5, 9, 5])\<lparr>displayLength := 2\<rparr>"

lemma shown_table_sort: "sortFlatten number_env shown_table = number_sort"
  by (simp add: shown_table_def number_sort_def sortFlatten_def flatten_one_def number_table_def number_column_def number_env_def
      blank_table_def index_in_def)

lemma shown_table_keys:
  "map (key_of_row (load_keys number_env number_sort (cache_indices shown_table)) 0) [0, 1, 2] = [SNum (Fin 5), SNum (Fin 9), SNum (Fin 5)]"
  by (simp_all add: load_keys_def number_sort_def cache_indices_def sortData_def key_of_row_def)
    (simp_all add: shown_table_def number_table_def number_env_def number_column_def blank_table_def new_row_def upt_rec cell_sort_key_def getCellData_def)


end
