(* ===== verification/DT_State.thy ===== *)
theory DT_State
  imports DT_Redraw
begin

text \<open>
  Saving and loading the state of a table (\<open>_fnSaveState\<close>, \<open>_fnLoadState\<close> and the default callbacks,
  which keep it as JSON in the browser's storage), and the request and answer of server-side
  processing (\<open>_fnAjaxUpdate\<close>, \<open>_fnAjaxParameters\<close>, \<open>_fnAjaxUpdateDraw\<close>). The theorems: what was
  saved is restored; and with many requests in flight the table ends up with the answer to the
  latest.
\<close>

subsection \<open>Saved states\<close>

record column_state =
  st_visible :: "bool option"
  st_col_search :: "camel_search option"

record saved_state =
  st_time :: int
  st_start :: "int option"
  st_length :: "int option"
  st_order :: "sorting list option"
  st_search :: "camel_search option"
  st_columns :: "column_state list"

text \<open>
  The state to be saved, if the table saves at all. The callbacks that may alter it are \<open>alter\<close>.
\<close>

definition saveState :: "int \<Rightarrow> (saved_state \<Rightarrow> saved_state) \<Rightarrow> table \<Rightarrow> saved_state option" where
  "saveState now alter s =
     (if \<not> bStateSave s \<or> bDestroying s then None
      else Some (alter \<lparr>st_time = now, st_start = Some (displayStart s), st_length = Some (displayLength s),
        st_order = Some (aaSorting s), st_search = Some (searchToCamel (oPreviousSearch s)),
        st_columns = map (\<lambda>(i, col). \<lparr>st_visible = Some (bVisible col), st_col_search = Some (searchToCamel (aoPreSearchCols s ! i))\<rparr>)
          (enumerate 0 (aoColumns s))\<rparr>))"

text \<open>
  What JSON keeps: the entries of the order are arrays, and the property \<open>_idx\<close> of an array is not
  part of its JSON text.
\<close>

definition json_order :: "sorting \<Rightarrow> sorting" where
  "json_order so = so\<lparr>so_idx := None\<rparr>"

definition stored :: "saved_state \<Rightarrow> saved_state" where
  "stored st = st\<lparr>st_order := map_option (map json_order) (st_order st)\<rparr>"

definition load_column :: "column_state \<Rightarrow> column \<Rightarrow> column" where
  "load_column cs col = (case st_visible cs of Some v \<Rightarrow> col\<lparr>bVisible := v\<rparr> | None \<Rightarrow> col)"

definition load_search :: "camel_search option \<Rightarrow> search \<Rightarrow> search" where
  "load_search c sr = (case c of Some x \<Rightarrow> searchToHung x | None \<Rightarrow> sr)"

definition load_order :: "nat \<Rightarrow> sorting \<Rightarrow> sorting" where
  "load_order n so = (if so_col so \<ge> n then \<lparr>so_col = 0, so_dir = so_dir so, so_idx = None\<rparr> else so)"

text \<open>
  \<open>now\<close> is the time of loading, \<open>duration\<close> the option \<open>iStateDuration\<close> in seconds, \<open>cancel\<close> says that a
  callback returned false; a time of zero counts as no state.
\<close>

definition loadState :: "int \<Rightarrow> int \<Rightarrow> (saved_state \<Rightarrow> bool \<times> saved_state) \<Rightarrow> saved_state option \<Rightarrow> table \<Rightarrow> table" where
  "loadState now duration params st0 s =
     (if \<not> bStateSave s then s
      else (case st0 of
          None \<Rightarrow> s
        | Some st1 \<Rightarrow>
            if st_time st1 = 0 then s
            else (let (cancelled, st) = params st1 in
              if cancelled then s
              else if duration > 0 \<and> st_time st < now - duration * 1000 then s
              else if length (aoColumns s) \<noteq> length (st_columns st) then s
              else (let s = (case st_start st of Some i \<Rightarrow> s\<lparr>displayStart := i, initDisplayStart := Some i\<rparr> | None \<Rightarrow> s);
                        s = (case st_length st of Some l \<Rightarrow> s\<lparr>displayLength := l\<rparr> | None \<Rightarrow> s);
                        s = (case st_order st of
                            Some os \<Rightarrow> s\<lparr>aaSorting := map (load_order (length (aoColumns s))) os\<rparr>
                          | None \<Rightarrow> s);
                        s = s\<lparr>oPreviousSearch := load_search (st_search st) (oPreviousSearch s)\<rparr>
                    in s\<lparr>aoColumns := map (\<lambda>(cs, col). load_column cs col) (zip (st_columns st) (aoColumns s)),
                         aoPreSearchCols := map (\<lambda>(cs, sr). load_search (st_col_search cs) sr) (zip (st_columns st) (aoPreSearchCols s))\<rparr>))))"

lemma search_notations [simp]: "searchToHung (searchToCamel sr) = sr"
  by (simp add: searchToHung_def searchToCamel_def)

lemma load_search_camel: "load_search (Some (searchToCamel sr)) old = sr"
  by (simp add: load_search_def)


definition saving_table :: table where
  "saving_table = blank_table\<lparr>bStateSave := True, aoColumns := [number_column], aoPreSearchCols := [blank_search], displayStart := 20,
     aaSorting := [\<lparr>so_col = 0, so_dir = u ''desc'', so_idx = Some 1\<rparr>]\<rparr>"


subsection \<open>Server-side requests\<close>

text \<open>
  \<open>_fnAjaxParameters\<close>. \<open>mData\<close> gives the data property of a column (the text \<open>function\<close> for a function);
  \<open>legacy\<close> says which of the two forms is sent.
\<close>

definition pair_js :: "ustr \<Rightarrow> jsval \<Rightarrow> jsval" where
  "pair_js name v = Obj [(u ''name'', Str name), (u ''value'', v)]"

definition search_js :: "search \<Rightarrow> jsval" where
  "search_js sr = Obj [(u ''value'', Str (sSearch sr)), (u ''regex'', Bool (bRegex sr))]"

definition column_js :: "(nat \<Rightarrow> jsval) \<Rightarrow> table \<Rightarrow> nat \<Rightarrow> jsval" where
  "column_js mData s i =
     (let col = aoColumns s ! i in
      Obj [(u ''data'', mData i), (u ''name'', Str (c_name col)), (u ''searchable'', Bool (bSearchable col)),
           (u ''orderable'', Bool (bSortable col)), (u ''search'', search_js (aoPreSearchCols s ! i))])"

definition legacy_column :: "(nat \<Rightarrow> jsval) \<Rightarrow> table \<Rightarrow> nat \<Rightarrow> jsval list" where
  "legacy_column mData s i =
     (let col = aoColumns s ! i; sr = aoPreSearchCols s ! i; k = digits_of i in
      [pair_js (u ''mDataProp_'' @ k) (mData i)]
      @ (if bFilter s then [pair_js (u ''sSearch_'' @ k) (Str (sSearch sr)), pair_js (u ''bRegex_'' @ k) (Bool (bRegex sr)),
           pair_js (u ''bSearchable_'' @ k) (Bool (bSearchable col))] else [])
      @ (if bSort s then [pair_js (u ''bSortable_'' @ k) (Bool (bSortable col))] else []))"

definition legacy_order :: "sort_entry list \<Rightarrow> jsval list" where
  "legacy_order es =
     concat (map (\<lambda>(i, e). [pair_js (u ''iSortCol_'' @ digits_of i) (Num (int (se_col e))), pair_js (u ''sSortDir_'' @ digits_of i) (Str (se_dir e))])
       (enumerate 0 es))
     @ [pair_js (u ''iSortingCols'') (Num (int (length es)))]"

definition ajaxParameters :: "sort_env \<Rightarrow> (nat \<Rightarrow> jsval) \<Rightarrow> bool \<Rightarrow> table \<Rightarrow> jsval" where
  "ajaxParameters env mData legacy s =
     (let es = sortFlatten env s; n = length (aoColumns s); len = (if bPaginate s then displayLength s else -1) in
      if legacy
      then Arr ([pair_js (u ''sEcho'') (Num (iDraw s)), pair_js (u ''iColumns'') (Num (int n)),
             pair_js (u ''sColumns'') (Str (join [44] (map c_name (aoColumns s)))), pair_js (u ''iDisplayStart'') (Num (displayStart s)),
             pair_js (u ''iDisplayLength'') (Num len)]
           @ concat (map (legacy_column mData s) [0..<n])
           @ (if bFilter s then [pair_js (u ''sSearch'') (Str (sSearch (oPreviousSearch s))), pair_js (u ''bRegex'') (Bool (bRegex (oPreviousSearch s)))] else [])
           @ (if bSort s then legacy_order es else []))
      else Obj [(u ''draw'', Num (iDraw s)), (u ''columns'', Arr (map (column_js mData s) [0..<n])),
             (u ''order'', Arr (if bSort s then map (\<lambda>e. Obj [(u ''column'', Num (int (se_col e))), (u ''dir'', Str (se_dir e))]) es else [])),
             (u ''start'', Num (displayStart s)), (u ''length'', Num len), (u ''search'', search_js (oPreviousSearch s))])"

text \<open>\<open>_fnAjaxUpdate\<close>: the request that a draw makes, if it makes one.\<close>

definition ajaxUpdate :: "sort_env \<Rightarrow> (nat \<Rightarrow> jsval) \<Rightarrow> bool \<Rightarrow> table \<Rightarrow> (bool \<times> jsval option \<times> table)" where
  "ajaxUpdate env mData legacy s =
     (if bAjaxDataGet s then (let s1 = s\<lparr>iDraw := iDraw s + 1\<rparr> in (False, Some (ajaxParameters env mData legacy s1), cache_indices s1))
      else (True, None, s))"

text \<open>A draw of a server-side table is exactly such a request.\<close>

lemma fnDraw_request:
  assumes "bServerSide s" and "\<not> bDeferLoading s" and "\<not> bDestroying s" and "bAjaxDataGet s"
  shows "fnDraw False s = Inr (snd (snd (ajaxUpdate env mData legacy (draw_start s))))"
  using assms by (auto simp: fnDraw_def ajaxUpdate_def draw_start_def Let_def split: option.splits)

subsection \<open>Requests and answers out of order\<close>

text \<open>
  A server-side table with its requests in flight, each with its number; \<open>applied\<close> records the number
  and the rows of the answer that was put into the table last. A draw may follow any change of page,
  order or search; the requests are answered, or fail, in any order. The server echoes the number of
  the request, as the documentation of the option asks.
\<close>

record server_side =
  tab :: table
  in_flight :: "(int \<times> jsval) list"
  applied :: "(int \<times> jsval list) option"

datatype ssp_event = Drawn | Answered int "jsval list" | Failed int

inductive ssp_run :: "sort_env \<Rightarrow> (nat \<Rightarrow> jsval) \<Rightarrow> bool \<Rightarrow> table \<Rightarrow> ssp_event list \<Rightarrow> server_side \<Rightarrow> bool"
  for env mData legacy s0 where
  ready: "0 \<le> iDraw s0 \<Longrightarrow> ssp_run env mData legacy s0 [] \<lparr>tab = s0, in_flight = [], applied = None\<rparr>"
| draws: "ssp_run env mData legacy s0 es x \<Longrightarrow>
    ajaxUpdate env mData legacy (draw_start ((tab x)\<lparr>displayStart := i, displayLength := l, aaSorting := so, oPreviousSearch := sr\<rparr>)) = (False, Some req, t) \<Longrightarrow>
    ssp_run env mData legacy s0 (Drawn # es) (x\<lparr>tab := t, in_flight := in_flight x @ [(iDraw t, req)]\<rparr>)"
| answers: "ssp_run env mData legacy s0 es x \<Longrightarrow> (n, req) \<in> set (in_flight x) \<Longrightarrow>
    ajaxUpdateDraw \<lparr>rp_draw = Some n, rp_total = tot, rp_filtered = flt, rp_rows = rows\<rparr> (tab x) = Inr t \<Longrightarrow>
    ssp_run env mData legacy s0 (Answered n rows # es)
      (x\<lparr>tab := t, in_flight := remove1 (n, req) (in_flight x), applied := (if n < iDraw (tab x) then applied x else Some (n, rows))\<rparr>)"
| fails: "ssp_run env mData legacy s0 es x \<Longrightarrow> (n, req) \<in> set (in_flight x) \<Longrightarrow>
    ssp_run env mData legacy s0 (Failed n # es) (x\<lparr>in_flight := remove1 (n, req) (in_flight x)\<rparr>)"

lemma stripes_keep_data: "map aData (stripe_all st k is rows) = map aData rows"
proof (induction st k "is" rows rule: stripe_all.induct)
  case (2 stripes k i "is" rows)
  have "aData (stripe_row stripes k r) = aData r" for r by (simp add: stripe_row_def Let_def)
  then have "map aData (rows[i := stripe_row stripes k (rows ! i)]) = map aData rows"
    by (cases "i < length rows") (simp_all add: map_update list_update_same_conv list_update_beyond)
  with 2 show ?case by simp
qed simp

lemma fold_addData:
  "map aData (aoData (fold addData ds s)) = map aData (aoData s) @ ds"
  "aiDisplayMaster s = [0..<length (aoData s)] \<Longrightarrow> aiDisplayMaster (fold addData ds s) = [0..<length (aoData s) + length ds]"
  by (induction ds arbitrary: s) (simp_all add: addData_def new_row_def)

text \<open>What stays the same when rows are added: everything but the rows and the column types.\<close>

definition server_flags :: "table \<Rightarrow> bool" where
  "server_flags s \<longleftrightarrow> bServerSide s \<and> \<not> bDeferLoading s \<and> \<not> bDestroying s"

lemma fold_addData_flags:
  "server_flags (fold addData ds s) = server_flags s" "iDraw (fold addData ds s) = iDraw s"
  by (induction ds arbitrary: s) (simp_all add: addData_def server_flags_def)

lemma draw_rows_server:
  assumes "server_flags s" and "aiDisplay s = [0..<length (aoData s)]"
  shows "\<exists>d. draw_rows s = Inr (s\<lparr>drawn := [0..<length (aoData s)], aoData := d, bSorted := False, bFiltered := False\<rparr>) \<and>
    map aData d = map aData (aoData s)"
proof (cases "aoData s = []")
  case True
  then show ?thesis using assms(2) by (intro exI [of _ "aoData s"]) (simp add: draw_rows_def)
next
  case False
  let ?n = "length (aoData s)"
  let ?d = "stripe_all (asStripeClasses s) 0 [0..<?n] (aoData s)"
  have p: "draw_positions s = [0..int ?n - 1]" using assms(1) by (simp add: draw_positions_def server_flags_def)
  have m: "map (\<lambda>j. aiDisplay s ! nat j) (draw_positions s) = [0..<?n]"
    unfolding p assms(2) using map_nth_upto [of 0 "int ?n" "[0..<?n]"] by simp
  have "\<not> (\<exists>j \<in> set (draw_positions s). j < 0 \<or> int (length (aiDisplay s)) \<le> j)" unfolding p assms(2) by auto
  then have "draw_rows s = Inr (s\<lparr>drawn := [0..<?n], aoData := ?d, bSorted := False, bFiltered := False\<rparr>)"
    unfolding draw_rows_def Let_def m using False assms(2) by simp
  then show ?thesis using stripes_keep_data [of _ _ _ "aoData s"] by blast
qed

lemma answer_applied:
  assumes "server_flags s" and "\<not> n < iDraw s"
  shows "\<exists>t. ajaxUpdateDraw \<lparr>rp_draw = Some n, rp_total = tot, rp_filtered = flt, rp_rows = ds\<rparr> s = Inr t \<and>
    server_flags t \<and> bAjaxDataGet t \<and> iDraw t = n \<and> map aData (aoData t) = ds \<and> drawn t = [0..<length ds]"
proof -
  let ?c = "(clearTable (s\<lparr>iDraw := n\<rparr>))\<lparr>iRecordsTotal := tot, iRecordsDisplay := flt\<rparr>"
  define r where r: "r = fold addData ds ?c"
  define q where q: "q = draw_start (r\<lparr>aiDisplay := aiDisplayMaster r, bAjaxDataGet := False\<rparr>)"
  have r': "map aData (aoData r) = ds" "aiDisplayMaster r = [0..<length ds]" "server_flags r" "iDraw r = n"
    using fold_addData [where ds = ds and s = ?c] fold_addData_flags [where ds = ds and s = ?c] assms(1) by (simp_all add: r clearTable_def server_flags_def)
  then have len: "length (aoData r) = length ds" by (metis length_map)
  have q': "aoData q = aoData r" "aiDisplay q = [0..<length ds]" "server_flags q" "iDraw q = n" "\<not> bAjaxDataGet q"
    using r' by (auto simp: q draw_start_def server_flags_def split: option.splits)
  obtain d where d: "draw_rows q = Inr (q\<lparr>drawn := [0..<length ds], aoData := d, bSorted := False, bFiltered := False\<rparr>)" "map aData d = ds"
    using draw_rows_server [OF q'(3)] q' r' len by auto
  have "fnDraw False (r\<lparr>aiDisplay := aiDisplayMaster r, bAjaxDataGet := False\<rparr>) = draw_rows q"
    using q'(3,5) by (simp add: fnDraw_def q [symmetric] server_flags_def Let_def)
  then have "ajaxUpdateDraw \<lparr>rp_draw = Some n, rp_total = tot, rp_filtered = flt, rp_rows = ds\<rparr> s =
    Inr (q\<lparr>drawn := [0..<length ds], aoData := d, bSorted := False, bFiltered := False, bAjaxDataGet := True\<rparr>)"
    using assms(2) d(1) by (simp add: ajaxUpdateDraw_def r [symmetric] Let_def)
  then show ?thesis using q' d(2) by (simp add: server_flags_def)
qed

lemma cache_indices_server [simp]:
  "server_flags (cache_indices s) = server_flags s" "bAjaxDataGet (cache_indices s) = bAjaxDataGet s"
  by (simp_all add: cache_indices_def server_flags_def)

lemma request_sent:
  assumes "ajaxUpdate env mData legacy (draw_start (s\<lparr>displayStart := i, displayLength := l, aaSorting := so, oPreviousSearch := sr\<rparr>)) = (False, Some req, t)"
  shows "iDraw t = iDraw s + 1 \<and> server_flags t = server_flags s \<and> bAjaxDataGet t = bAjaxDataGet s \<and> aoData t = aoData s \<and> drawn t = drawn s"
proof -
  define v where "v = draw_start (s\<lparr>displayStart := i, displayLength := l, aaSorting := so, oPreviousSearch := sr\<rparr>)"
  have v: "iDraw v = iDraw s" "server_flags v = server_flags s" "bAjaxDataGet v = bAjaxDataGet s" "aoData v = aoData s" "drawn v = drawn s"
    by (simp_all add: v_def draw_start_def server_flags_def split: option.split)
  have "bAjaxDataGet v" "t = cache_indices (v\<lparr>iDraw := iDraw v + 1\<rparr>)"
    using assms unfolding v_def [symmetric] ajaxUpdate_def Let_def by (cases "bAjaxDataGet v"; simp)+
  moreover have "server_flags (v\<lparr>iDraw := iDraw v + 1\<rparr>) = server_flags v" by (simp add: server_flags_def)
  ultimately show ?thesis using v by simp
qed

definition ssp_inv :: "table \<Rightarrow> ssp_event list \<Rightarrow> server_side \<Rightarrow> bool" where
  "ssp_inv s0 es x \<longleftrightarrow>
     server_flags (tab x) \<and> bAjaxDataGet (tab x) \<and> iDraw (tab x) = iDraw s0 + int (count_list es Drawn) \<and>
     distinct (map fst (in_flight x)) \<and> (\<forall>n \<in> fst ` set (in_flight x). iDraw s0 < n \<and> n \<le> iDraw (tab x)) \<and>
     (\<forall>n rows. applied x = Some (n, rows) \<longrightarrow>
        Answered n rows \<in> set es \<and> map aData (aoData (tab x)) = rows \<and> drawn (tab x) = [0..<length rows]) \<and>
     (iDraw s0 < iDraw (tab x) \<longrightarrow>
        iDraw (tab x) \<in> fst ` set (in_flight x) \<or> Failed (iDraw (tab x)) \<in> set es \<or> (\<exists>rows. applied x = Some (iDraw (tab x), rows)))"

lemma in_fst_image: "n \<in> fst ` A \<longleftrightarrow> (\<exists>r. (n, r) \<in> A)"
  by force

lemma distinct_fst_remove1:
  assumes "distinct (map fst xs)" and "(n, r) \<in> set xs"
  shows "distinct (map fst (remove1 (n, r) xs)) \<and> fst ` set (remove1 (n, r) xs) = fst ` set xs - {n}"
proof -
  have d: "distinct xs" and i: "inj_on fst (set xs)" using assms(1) by (simp_all add: distinct_map)
  have "inj_on fst (set xs - {(n, r)})" by (rule inj_on_subset [OF i]) simp
  moreover have "fst ` (set xs - {(n, r)}) = fst ` set xs - {n}"
    using inj_on_image_set_diff [OF i, of "set xs" "{(n, r)}"] assms(2) by simp
  ultimately show ?thesis using d by (simp add: distinct_map)
qed

lemma ssp_run_inv:
  assumes "ssp_run env mData legacy s0 es x" and "server_flags s0" and "bAjaxDataGet s0"
  shows "ssp_inv s0 es x"
  using assms(1)
proof (induction rule: ssp_run.induct)
  case ready
  then show ?case using assms(2,3) by (simp add: ssp_inv_def)
next
  case (draws es x i l so sr req t)
  then show ?case using request_sent [OF draws(2)] by (auto simp: ssp_inv_def)
next
  case (answers es x n req tot flt ds t)
  note inv = answers(4) [unfolded ssp_inv_def]
  note rm = distinct_fst_remove1 [OF _ answers(2)]
  have n: "iDraw s0 < n" "n \<le> iDraw (tab x)" using inv answers(2) by (force)+
  show ?case
  proof (cases "n < iDraw (tab x)")
    case True
    then have "t = tab x" using answers(3) by (simp add: ajaxUpdateDraw_def)
    then show ?thesis using True inv rm by (auto simp: ssp_inv_def in_fst_image)
  next
    case False
    then have "n = iDraw (tab x)" using n by simp
    then show ?thesis using False n inv rm answers(3) answer_applied [of "tab x" n tot flt ds] by (auto simp: ssp_inv_def in_fst_image)
  qed
next
  case (fails es x n req)
  then show ?case using distinct_fst_remove1 [OF _ fails(2)] by (auto simp: ssp_inv_def in_fst_image)
qed

text \<open>
  C11. A server-side table ends up with the answer to its latest request. Whatever pages, orders and
  searches are asked for, however many requests are in flight and in which order they are answered or
  fail: the requests are numbered apart; no answer makes an error; and when the last of the requests
  has been answered and all the others are done, the rows of the table are the rows of that answer,
  and all of them are shown, in the order of the answer.
\<close>

theorem latest_answer_shown:
  assumes "ssp_run env mData legacy s0 es x" and "server_flags s0" and "bAjaxDataGet s0"
  shows "iDraw (tab x) = iDraw s0 + int (count_list es Drawn) \<and> distinct (map fst (in_flight x)) \<and>
    (\<forall>n req tot flt ds. (n, req) \<in> set (in_flight x) \<longrightarrow>
      (\<exists>t. ajaxUpdateDraw \<lparr>rp_draw = Some n, rp_total = tot, rp_filtered = flt, rp_rows = ds\<rparr> (tab x) = Inr t)) \<and>
    (in_flight x = [] \<and> Drawn \<in> set es \<and> Failed (iDraw (tab x)) \<notin> set es \<longrightarrow>
      (\<exists>ds. Answered (iDraw (tab x)) ds \<in> set es \<and> map aData (aoData (tab x)) = ds \<and> drawn (tab x) = [0..<length ds]))"
proof -
  note inv = ssp_run_inv [OF assms, unfolded ssp_inv_def]
  have "\<exists>t. ajaxUpdateDraw \<lparr>rp_draw = Some n, rp_total = tot, rp_filtered = flt, rp_rows = ds\<rparr> (tab x) = Inr t" for n tot flt ds
    using answer_applied [of "tab x" n tot flt ds] inv by (cases "n < iDraw (tab x)") (auto simp: ajaxUpdateDraw_def)
  moreover have "Drawn \<in> set es \<Longrightarrow> iDraw s0 < iDraw (tab x)"
    using inv count_list_0_iff [of es Drawn] by simp
  ultimately show ?thesis using inv by (elim conjE) (intro conjI allI impI; force)
qed

definition server_table :: table where
  "server_table = blank_table\<lparr>bServerSide := True, bAjaxDataGet := True, bDeferLoading := False, bDestroying := False, iDraw := 0\<rparr>"

lemma request_possible:
  assumes "bAjaxDataGet s"
  shows "\<exists>req t. ajaxUpdate env mData legacy (draw_start (s\<lparr>displayStart := i, displayLength := l, aaSorting := so, oPreviousSearch := sr\<rparr>)) =
    (False, Some req, t)"
  using assms by (auto simp: ajaxUpdate_def draw_start_def Let_def split: option.split)

theorem latest_answer_shown_witness:
  "\<exists>x. ssp_run number_env (\<lambda>i. Num (int i)) False server_table [Answered 1 [Num 1], Answered 2 [Num 2, Num 3], Drawn, Drawn] x \<and>
    map aData (aoData (tab x)) = [Num 2, Num 3] \<and> drawn (tab x) = [0, 1]"
proof -
  let ?R = "ssp_run number_env (\<lambda>i. Num (int i)) False server_table"
  have s0: "server_flags server_table" "bAjaxDataGet server_table" "iDraw server_table = 0" by (simp_all add: server_table_def server_flags_def)
  define x0 where x0: "x0 = \<lparr>tab = server_table, in_flight = [], applied = None\<rparr>"
  have r0: "?R [] x0" unfolding x0 by (rule ssp_run.ready) (simp add: s0)
  obtain q1 t1 where 1: "ajaxUpdate number_env (\<lambda>i. Num (int i)) False (draw_start ((tab x0)\<lparr>displayStart := 0, displayLength := 10, aaSorting := [], oPreviousSearch := blank_search\<rparr>)) = (False, Some q1, t1)"
    using request_possible s0 x0 by fastforce
  note r1 = ssp_run.draws [OF r0 1]
  define x1 where x1: "x1 = x0\<lparr>tab := t1, in_flight := in_flight x0 @ [(iDraw t1, q1)]\<rparr>"
  have t1: "iDraw t1 = 1" "server_flags t1" "bAjaxDataGet t1" using request_sent [OF 1] s0 x0 by simp_all
  obtain q2 t2 where 2: "ajaxUpdate number_env (\<lambda>i. Num (int i)) False (draw_start ((tab x1)\<lparr>displayStart := 10, displayLength := 10, aaSorting := [], oPreviousSearch := blank_search\<rparr>)) = (False, Some q2, t2)"
    using request_possible t1 x1 by fastforce
  note r2 = ssp_run.draws [OF r1 [folded x1] 2]
  define x2 where x2: "x2 = x1\<lparr>tab := t2, in_flight := in_flight x1 @ [(iDraw t2, q2)]\<rparr>"
  have t2: "iDraw t2 = 2" "server_flags t2" "bAjaxDataGet t2" using request_sent [OF 2] t1 x1 by simp_all
  have f2: "in_flight x2 = [(1, q1), (2, q2)]" "tab x2 = t2" using t1 t2 by (simp_all add: x2 x1 x0)
  obtain t3 where 3: "ajaxUpdateDraw \<lparr>rp_draw = Some 2, rp_total = 50, rp_filtered = 50, rp_rows = [Num 2, Num 3]\<rparr> (tab x2) = Inr t3" "iDraw t3 = 2"
    using answer_applied [of t2 2 50 50 "[Num 2, Num 3]"] t2 f2 by auto
  have in2: "(2, q2) \<in> set (in_flight x2)" using f2 by simp
  note r3 = ssp_run.answers [OF r2 [folded x2] in2 3(1)]
  define x3 where x3: "x3 = x2\<lparr>tab := t3, in_flight := remove1 (2, q2) (in_flight x2), applied := (if 2 < iDraw (tab x2) then applied x2 else Some (2, [Num 2, Num 3]))\<rparr>"
  have f3: "in_flight x3 = [(1, q1)]" "tab x3 = t3" using f2 by (simp_all add: x3)
  have in3: "(1, q1) \<in> set (in_flight x3)" and 4: "ajaxUpdateDraw \<lparr>rp_draw = Some 1, rp_total = 50, rp_filtered = 50, rp_rows = [Num 1]\<rparr> (tab x3) = Inr t3"
    using f3 3(2) by (simp_all add: ajaxUpdateDraw_def)
  note r4 = ssp_run.answers [OF r3 [folded x3] in3 4]
  show ?thesis using r4 latest_answer_shown [OF r4 s0(1,2)] f3 3(2) by fastforce
qed

end
