(* ===== verification/DT_Data.thy ===== *)
theory DT_Data
  imports Prelude
begin

text \<open>
  The data sources of DataTables' columns (\<open>plugins/datatables-new/datatables.js\<close>): the notation
  \<open>a.b[, ].c()\<close> by which an option names a place inside the data of a row, reading and writing such
  a place, and the data object that is read from the markup of a row. The code writes into objects
  that others may share, so objects live in a store and are referred to by address. Functions that
  are found in the data are a parameter of the model.
\<close>

subsection \<open>Objects\<close>

datatype hval = VUndef | VNull | VBool bool | VNum int | VStr ustr | VRef nat

text \<open>
  An object has a kind (an array knows its length) and its own properties; the elements of an array
  are the properties named by their index. A new object gets the next address.
\<close>

datatype kind = Plain | Vector nat | Callable

record obj =
  o_kind :: kind
  o_props :: "(ustr \<times> hval) list"

type_synonym heap = "obj list"

definition new_object :: obj where
  "new_object = \<lparr>o_kind = Plain, o_props = []\<rparr>"

definition heap_at :: "heap \<Rightarrow> nat \<Rightarrow> obj" where
  "heap_at h a = (if a < length h then h ! a else new_object)"

definition alloc :: "obj \<Rightarrow> heap \<Rightarrow> nat \<times> heap" where
  "alloc ob h = (length h, h @ [ob])"

definition key_length :: ustr where
  "key_length = u ''length''"

definition own :: "obj \<Rightarrow> ustr \<Rightarrow> hval" where
  "own ob k =
     (case o_kind ob of
        Vector n \<Rightarrow> if k = key_length then VNum (int n) else (case map_of (o_props ob) k of None \<Rightarrow> VUndef | Some v \<Rightarrow> v)
      | _ \<Rightarrow> (case map_of (o_props ob) k of None \<Rightarrow> VUndef | Some v \<Rightarrow> v))"

text \<open>A key is an index when it is the decimal text of a number.\<close>

definition index_of_key :: "ustr \<Rightarrow> nat option" where
  "index_of_key k = (if k \<noteq> [] \<and> list_all is_digit k \<and> digits_of (nat_of_digits 0 k) = k then Some (nat_of_digits 0 k) else None)"

text \<open>
  \<open>v[k]\<close>: null and undefined have no properties; a string has its characters and its length.
\<close>

definition get_v :: "heap \<Rightarrow> hval \<Rightarrow> ustr \<Rightarrow> hval js_result" where
  "get_v h v k =
     (case v of
        VUndef \<Rightarrow> Inl TypeError
      | VNull \<Rightarrow> Inl TypeError
      | VRef a \<Rightarrow> Inr (own (heap_at h a) k)
      | VStr s \<Rightarrow> Inr (if k = key_length then VNum (int (length s))
                       else (case index_of_key k of None \<Rightarrow> VUndef | Some i \<Rightarrow> if i < length s then VStr [s ! i] else VUndef))
      | _ \<Rightarrow> Inr VUndef)"

text \<open>
  \<open>v[k] = x\<close>. The script runs in strict mode, so a write to a value that is not an object raises an
  error. Writing to an index of an array may lengthen it. A write to the \<open>length\<close> of an array is
  outside the model.
\<close>

definition put_own :: "obj \<Rightarrow> ustr \<Rightarrow> hval \<Rightarrow> obj" where
  "put_own ob k x =
     \<lparr>o_kind = (case (o_kind ob, index_of_key k) of (Vector n, Some i) \<Rightarrow> Vector (max n (Suc i)) | (kd, _) \<Rightarrow> kd),
      o_props = set_prop k x (o_props ob)\<rparr>"

definition is_vector :: "obj \<Rightarrow> bool" where
  "is_vector ob = (case o_kind ob of Vector _ \<Rightarrow> True | _ \<Rightarrow> False)"

definition put_v :: "heap \<Rightarrow> hval \<Rightarrow> ustr \<Rightarrow> hval \<Rightarrow> heap js_result" where
  "put_v h v k x =
     (case v of
        VRef a \<Rightarrow> if is_vector (heap_at h a) \<and> k = key_length then Inl (Thrown (u ''unmodelled''))
                  else Inr (h[a := put_own (heap_at h a) k x])
      | _ \<Rightarrow> Inl TypeError)"

text \<open>\<open>$.isArray\<close> and the length it then has.\<close>

definition vector_length :: "heap \<Rightarrow> hval \<Rightarrow> nat option" where
  "vector_length h v = (case v of VRef a \<Rightarrow> (case o_kind (heap_at h a) of Vector n \<Rightarrow> Some n | _ \<Rightarrow> None) | _ \<Rightarrow> None)"

definition new_vector :: "hval list \<Rightarrow> obj" where
  "new_vector vs = \<lparr>o_kind = Vector (length vs), o_props = zip (map digits_of [0..<length vs]) vs\<rparr>"

text \<open>
  A method call \<open>v[k](args)\<close>. \<open>call\<close> gives what the function at an address does: its \<open>this\<close>, its
  arguments and the store before, the value and the store after.
\<close>

type_synonym calls = "nat \<Rightarrow> hval \<Rightarrow> hval list \<Rightarrow> heap \<Rightarrow> (hval \<times> heap) js_result"

definition call_method :: "calls \<Rightarrow> heap \<Rightarrow> hval \<Rightarrow> ustr \<Rightarrow> hval list \<Rightarrow> (hval \<times> heap) js_result" where
  "call_method call h v k args =
     (case get_v h v k of
        Inl e \<Rightarrow> Inl e
      | Inr (VRef f) \<Rightarrow> if o_kind (heap_at h f) = Callable then call f v args h else Inl TypeError
      | Inr _ \<Rightarrow> Inl TypeError)"

text \<open>\<open>v.push(x)\<close>.\<close>

definition push_v :: "calls \<Rightarrow> heap \<Rightarrow> hval \<Rightarrow> hval \<Rightarrow> heap js_result" where
  "push_v call h v x =
     (case vector_length h v of
        Some n \<Rightarrow> put_v h v (digits_of n) x
      | None \<Rightarrow> (case call_method call h v (u ''push'') [x] of Inl e \<Rightarrow> Inl e | Inr (_, h') \<Rightarrow> Inr h'))"

subsection \<open>The notation of a source\<close>

definition line_end :: "nat \<Rightarrow> bool" where
  "line_end c \<longleftrightarrow> c = 10 \<or> c = 13 \<or> c = 8232 \<or> c = 8233"

text \<open>
  \<open>_fnSplitObjNotation\<close>: the runs of \<open>/(\\.|[^\.])+/g\<close>, each with \<open>/\\./g\<close> replaced by a period.
\<close>

fun obj_runs :: "ustr \<Rightarrow> ustr \<Rightarrow> ustr list" where
  "obj_runs acc [] = (if acc = [] then [] else [rev acc])"
| "obj_runs acc [c] = (if c = 46 then (if acc = [] then [] else [rev acc]) else [rev (c # acc)])"
| "obj_runs acc (c # d # s) =
     (if c = 92 \<and> \<not> line_end d then obj_runs (d # c # acc) s
      else if c = 46 then (if acc = [] then obj_runs [] (d # s) else rev acc # obj_runs [] (d # s))
      else obj_runs (c # acc) (d # s))"

fun unescape :: "ustr \<Rightarrow> ustr" where
  "unescape [] = []"
| "unescape [c] = [c]"
| "unescape (c # d # s) = (if c = 92 \<and> \<not> line_end d then 46 # unescape s else c # unescape (d # s))"

definition splitObjNotation :: "ustr \<Rightarrow> ustr list" where
  "splitObjNotation str = map unescape (case obj_runs [] str of [] \<Rightarrow> [[]] | runs \<Rightarrow> runs)"

text \<open>\<open>__reArray\<close>, \<open>/\[.*?\]$/\<close>: the match is a suffix; \<open>__reFn\<close>, \<open>/\(\)$/\<close>.\<close>

fun reArray :: "ustr \<Rightarrow> ustr option" where
  "reArray [] = None"
| "reArray (c # s) =
     (if c = 91 \<and> s \<noteq> [] \<and> last s = 93 \<and> list_all (\<lambda>x. \<not> line_end x) (butlast s) then Some (c # s) else reArray s)"

definition strip_array :: "ustr \<Rightarrow> ustr" where
  "strip_array s = (case reArray s of None \<Rightarrow> s | Some m \<Rightarrow> take (length s - length m) s)"

definition reFn :: "ustr \<Rightarrow> bool" where
  "reFn s \<longleftrightarrow> suffix [40, 41] s"

definition strip_fn :: "ustr \<Rightarrow> ustr" where
  "strip_fn s = (if reFn s then take (length s - 2) s else s)"

subsection \<open>Facts about the notation\<close>

lemma length_unescape: "length (unescape s) \<le> length s"
  by (induction s rule: unescape.induct) auto

lemma length_join: "length (join [c] xs) = sum_list (map length xs) + (length xs - 1)"
  by (induction "[c]" xs rule: join.induct) auto

lemma length_obj_runs:
  "sum_list (map length (obj_runs acc s)) + (length (obj_runs acc s) - 1) \<le> length acc + length s"
proof (induction acc s rule: obj_runs.induct)
  case (3 acc c d s)
  consider "c = 92 \<and> \<not> line_end d" | "\<not> (c = 92 \<and> \<not> line_end d)" "c = 46" "acc = []"
    | "\<not> (c = 92 \<and> \<not> line_end d)" "c = 46" "acc \<noteq> []" | "\<not> (c = 92 \<and> \<not> line_end d)" "c \<noteq> 46"
    by blast
  then show ?case
  proof cases
    case 3
    with 3(1) "3.IH"(3) show ?thesis by (cases "obj_runs [] (d # s)") auto
  qed (use "3.IH" in \<open>auto simp del: obj_runs.simps(1,2) simp: obj_runs.simps(3)\<close>)
qed auto

lemma length_join_split: "length (join [46] (splitObjNotation s)) \<le> length s"
proof -
  have le: "sum_list (map length (map unescape xs)) \<le> sum_list (map length xs)" for xs
    by (induction xs) (auto intro: add_mono length_unescape)
  show ?thesis
    using length_obj_runs [of "[]" s] le [of "obj_runs [] s"]
    by (auto simp: splitObjNotation_def length_join simp del: map_map split: list.splits)
qed

lemma reArray_length: "reArray s = Some m \<Longrightarrow> 0 < length s"
  by (cases s) auto

lemma join_tail_le: "length (join [46] ps) \<le> length (join [46] (p # ps))"
  by (simp add: length_join)

lemma join_tail_less: "0 < length p \<Longrightarrow> length (join [46] ps) < length (join [46] (p # ps))"
  by (cases p) (simp_all add: length_join)

subsection \<open>Reading\<close>

text \<open>
  \<open>fetchData\<close>. \<open>fetch_parts\<close> is its loop over the parts of the source, \<open>fetch_elems\<close> the traversal of an
  array; the latter reads the length once and each element when its turn comes. \<open>elem_text\<close> is the text
  of an element in \<open>out.join\<close>; \<open>ref_text\<close> stands for the \<open>toString\<close> of objects.
\<close>

definition elem_text :: "(heap \<Rightarrow> nat \<Rightarrow> ustr) \<Rightarrow> heap \<Rightarrow> hval \<Rightarrow> ustr" where
  "elem_text ref_text h v =
     (case v of VUndef \<Rightarrow> [] | VNull \<Rightarrow> [] | VBool b \<Rightarrow> if b then u ''true'' else u ''false''
      | VNum n \<Rightarrow> num_str n | VStr s \<Rightarrow> s | VRef a \<Rightarrow> ref_text h a)"

definition array_out :: "(heap \<Rightarrow> nat \<Rightarrow> ustr) \<Rightarrow> ustr \<Rightarrow> hval list \<Rightarrow> heap \<Rightarrow> hval \<times> heap" where
  "array_out ref_text notation vs h =
     (let sep = butlast (tl notation) in
      if sep = [] then (let (a, h') = alloc (new_vector vs) h in (VRef a, h'))
      else (VStr (join sep (map (elem_text ref_text h) vs)), h))"

function (sequential) fetchData :: "calls \<Rightarrow> (heap \<Rightarrow> nat \<Rightarrow> ustr) \<Rightarrow> heap \<Rightarrow> hval \<Rightarrow> ustr \<Rightarrow> (hval \<times> heap) js_result"
  and fetch_parts :: "calls \<Rightarrow> (heap \<Rightarrow> nat \<Rightarrow> ustr) \<Rightarrow> heap \<Rightarrow> hval \<Rightarrow> ustr list \<Rightarrow> (hval \<times> heap) js_result"
  and fetch_elems :: "calls \<Rightarrow> (heap \<Rightarrow> nat \<Rightarrow> ustr) \<Rightarrow> heap \<Rightarrow> hval \<Rightarrow> nat \<Rightarrow> nat \<Rightarrow> ustr \<Rightarrow> (hval list \<times> heap) js_result"
where
  "fetchData call ref_text h data src =
     (if src \<noteq> [] then fetch_parts call ref_text h data (splitObjNotation src) else Inr (data, h))"
| "fetch_parts call ref_text h data [] = Inr (data, h)"
| "fetch_parts call ref_text h data (p # ps) =
     (case reArray p of
        Some notation \<Rightarrow>
          (case (if strip_array p \<noteq> [] then get_v h data (strip_array p) else Inr data) of
             Inl e \<Rightarrow> Inl e
           | Inr d \<Rightarrow>
               (case vector_length h d of
                  None \<Rightarrow> Inr (array_out ref_text notation [] h)
                | Some n \<Rightarrow>
                    (case fetch_elems call ref_text h d 0 n (join [46] ps) of
                       Inl e \<Rightarrow> Inl e
                     | Inr (out, h') \<Rightarrow> Inr (array_out ref_text notation out h'))))
      | None \<Rightarrow>
          if reFn p then
            (case call_method call h data (strip_fn p) [] of
               Inl e \<Rightarrow> Inl e
             | Inr (d, h') \<Rightarrow> fetch_parts call ref_text h' d ps)
          else if data = VNull then Inr (VUndef, h)
          else (case get_v h data p of
                  Inl e \<Rightarrow> Inl e
                | Inr d \<Rightarrow> if d = VUndef then Inr (VUndef, h) else fetch_parts call ref_text h d ps))"
| "fetch_elems call ref_text h data j n src =
     (if j < n then
        (case get_v h data (digits_of j) of
           Inl e \<Rightarrow> Inl e
         | Inr v \<Rightarrow>
             (case fetchData call ref_text h v src of
                Inl e \<Rightarrow> Inl e
              | Inr (x, h') \<Rightarrow>
                  (case fetch_elems call ref_text h' data (Suc j) n src of
                     Inl e \<Rightarrow> Inl e
                   | Inr (xs, h'') \<Rightarrow> Inr (x # xs, h''))))
      else Inr ([], h))"
  by pat_completeness auto
termination
proof (relation "inv_image (less_than <*lex*> less_than <*lex*> less_than)
   (\<lambda>x. case x of
      Inl (_, _, _, _, src) \<Rightarrow> (length src, 1::nat, 0::nat)
    | Inr (Inl (_, _, _, _, ps)) \<Rightarrow> (length (join [46] ps), 0, length ps)
    | Inr (Inr (_, _, _, _, j, n, src)) \<Rightarrow> (length src, 2, n - j))", goal_cases)
qed (auto simp: order_le_less[symmetric] dest!: reArray_length
     intro: join_tail_less le_neq_implies_less join_tail_le length_join_split)


subsection \<open>Writing\<close>

text \<open>
  \<open>setData\<close>, with its loop over the parts but the last, \<open>set_parts\<close>, and the traversal of an array of
  values, \<open>set_elems\<close>, which puts one new object per value into \<open>data[k]\<close>. After a function part the
  source goes on to the property of the same name of what the function returned.
\<close>

function (sequential) setData :: "calls \<Rightarrow> heap \<Rightarrow> hval \<Rightarrow> hval \<Rightarrow> ustr \<Rightarrow> heap js_result"
  and set_parts :: "calls \<Rightarrow> heap \<Rightarrow> hval \<Rightarrow> hval \<Rightarrow> ustr list \<Rightarrow> heap js_result"
  and set_elems :: "calls \<Rightarrow> heap \<Rightarrow> hval \<Rightarrow> ustr \<Rightarrow> hval \<Rightarrow> nat \<Rightarrow> nat \<Rightarrow> ustr \<Rightarrow> heap js_result"
where
  "setData call h data val src = set_parts call h data val (splitObjNotation src)"
| "set_parts call h data val [] = Inr h"
| "set_parts call h data val [p] =
     (if reFn p then map_sum id snd (call_method call h data (strip_fn p) [val])
      else put_v h data (strip_array p) val)"
| "set_parts call h data val (p # ps) =
     (case reArray p of
        Some _ \<Rightarrow>
          (let k = strip_array p; (a, h1) = alloc (new_vector []) h in
           case put_v h1 data k (VRef a) of
             Inl e \<Rightarrow> Inl e
           | Inr h2 \<Rightarrow>
               (case vector_length h2 val of
                  Some n \<Rightarrow> set_elems call h2 data k val 0 n (join [46] ps)
                | None \<Rightarrow> put_v h2 data k val))
      | None \<Rightarrow>
          (let k = strip_fn p in
           case (if reFn p then call_method call h data k [val] else Inr (data, h)) of
             Inl e \<Rightarrow> Inl e
           | Inr (d, h1) \<Rightarrow>
               (case get_v h1 d k of
                  Inl e \<Rightarrow> Inl e
                | Inr v \<Rightarrow>
                    if v = VNull \<or> v = VUndef then
                      (let (a, h2) = alloc new_object h1 in
                       case put_v h2 d k (VRef a) of
                         Inl e \<Rightarrow> Inl e
                       | Inr h3 \<Rightarrow> (case get_v h3 d k of Inl e \<Rightarrow> Inl e | Inr v' \<Rightarrow> set_parts call h3 v' val ps))
                    else set_parts call h1 v val ps)))"
| "set_elems call h data k val j n src =
     (if j < n then
        (case get_v h val (digits_of j) of
           Inl e \<Rightarrow> Inl e
         | Inr x \<Rightarrow>
             (let (a, h1) = alloc new_object h in
              case setData call h1 (VRef a) x src of
                Inl e \<Rightarrow> Inl e
              | Inr h2 \<Rightarrow>
                  (case get_v h2 data k of
                     Inl e \<Rightarrow> Inl e
                   | Inr arr \<Rightarrow>
                       (case push_v call h2 arr (VRef a) of
                          Inl e \<Rightarrow> Inl e
                        | Inr h3 \<Rightarrow> set_elems call h3 data k val (Suc j) n src))))
      else Inr h)"
  by pat_completeness auto
termination
proof (relation "inv_image (less_than <*lex*> less_than <*lex*> less_than)
   (\<lambda>x. case x of
      Inl (_, _, _, _, src) \<Rightarrow> (length src, 1::nat, 0::nat)
    | Inr (Inl (_, _, _, _, ps)) \<Rightarrow> (length (join [46] ps), 0, length ps)
    | Inr (Inr (_, _, _, _, _, j, n, src)) \<Rightarrow> (length src, 2, n - j))", goal_cases)
qed (auto simp: order_le_less[symmetric] dest!: reArray_length simp del: join.simps
     intro: join_tail_less [of _ "_ # _"] le_neq_implies_less join_tail_le [of "_ # _"] length_join_split)

subsection \<open>Getters and setters of a source\<close>

text \<open>
  The source of a column (\<open>mData\<close>, \<open>mRender\<close>): an object of sources by type, null, a function of the
  page, a text or an index; \<open>No_source\<close> is undefined. \<open>user\<close> stands for the page's functions: which one,
  the data, the type of the request (None is undefined; \<open>set\<close> for a write), the row or the value
  written, and the cell (None when it is not given).
\<close>

datatype data_src = No_source | Null_source | Fn_source nat | Text_source ustr | Num_source int
  | By_type "(ustr \<times> data_src) list"

type_synonym user_fns = "nat \<Rightarrow> hval \<Rightarrow> ustr option \<Rightarrow> hval \<Rightarrow> (nat \<times> nat) option \<Rightarrow> heap \<Rightarrow> (hval \<times> heap) js_result"

fun src_truthy :: "data_src \<Rightarrow> bool" where
  "src_truthy No_source = False"
| "src_truthy Null_source = False"
| "src_truthy (Text_source s) = (s \<noteq> [])"
| "src_truthy (Num_source n) = (n \<noteq> 0)"
| "src_truthy _ = True"

definition nested_source :: "ustr \<Rightarrow> bool" where
  "nested_source s \<longleftrightarrow> 46 \<in> set s \<or> 91 \<in> set s \<or> 40 \<in> set s"

definition type_key :: "ustr option \<Rightarrow> ustr" where
  "type_key type = (case type of None \<Rightarrow> u ''undefined'' | Some t \<Rightarrow> t)"

text \<open>The choice \<open>o[type] || o._\<close> among the entries whose source is truthy.\<close>

definition source_for :: "(ustr \<times> data_src) list \<Rightarrow> ustr \<Rightarrow> data_src option" where
  "source_for ps type =
     (let qs = filter (\<lambda>(_, s). src_truthy s) ps in
      case map_of qs type of Some t \<Rightarrow> Some t | None \<Rightarrow> map_of qs (u ''_''))"

lemma map_of_filter_size:
  assumes "map_of (filter P ps) k = Some (t :: data_src)"
  shows "size t < Suc (size_list (size_prod (\<lambda>_. 0) size) ps)"
proof -
  from assms have "(k, t) \<in> set ps" by (auto dest: map_of_SomeD)
  then show ?thesis by (induction ps) auto
qed

lemma source_for_size:
  "source_for ps type = Some t \<Longrightarrow> size t < Suc (size_list (size_prod (\<lambda>_. 0) size) ps)"
  by (auto simp: source_for_def Let_def map_of_filter_size split: option.splits)

function (sequential) getObjectDataFn ::
    "calls \<Rightarrow> (heap \<Rightarrow> nat \<Rightarrow> ustr) \<Rightarrow> user_fns \<Rightarrow> data_src \<Rightarrow> heap \<Rightarrow> hval \<Rightarrow> ustr option \<Rightarrow> hval \<Rightarrow> (nat \<times> nat) option \<Rightarrow> (hval \<times> heap) js_result" where
  "getObjectDataFn call ref_text user (By_type ps) h data type row meta =
     (case source_for ps (type_key type) of Some t \<Rightarrow> getObjectDataFn call ref_text user t h data type row meta | None \<Rightarrow> Inr (data, h))"
| "getObjectDataFn call ref_text user Null_source h data type row meta = Inr (data, h)"
| "getObjectDataFn call ref_text user (Fn_source f) h data type row meta = user f data type row meta h"
| "getObjectDataFn call ref_text user (Text_source s) h data type row meta =
     (if nested_source s then fetchData call ref_text h data s else map_sum id (\<lambda>v. (v, h)) (get_v h data s))"
| "getObjectDataFn call ref_text user (Num_source n) h data type row meta = map_sum id (\<lambda>v. (v, h)) (get_v h data (num_str n))"
| "getObjectDataFn call ref_text user No_source h data type row meta = map_sum id (\<lambda>v. (v, h)) (get_v h data (u ''undefined''))"
  by pat_completeness auto
termination
  by (relation "measure (\<lambda>(_, _, _, s, _). size s)") (auto dest: source_for_size)

function (sequential) setObjectDataFn ::
    "calls \<Rightarrow> user_fns \<Rightarrow> data_src \<Rightarrow> heap \<Rightarrow> hval \<Rightarrow> hval \<Rightarrow> (nat \<times> nat) option \<Rightarrow> heap js_result" where
  "setObjectDataFn call user (By_type ps) h data val meta =
     (case map_of ps (u ''_'') of
        Some t \<Rightarrow> setObjectDataFn call user t h data val meta
      | None \<Rightarrow> put_v h data (u ''undefined'') val)"
| "setObjectDataFn call user Null_source h data val meta = Inr h"
| "setObjectDataFn call user (Fn_source f) h data val meta = map_sum id snd (user f data (Some (u ''set'')) val meta h)"
| "setObjectDataFn call user (Text_source s) h data val meta =
     (if nested_source s then setData call h data val s else put_v h data s val)"
| "setObjectDataFn call user (Num_source n) h data val meta = put_v h data (num_str n) val"
| "setObjectDataFn call user No_source h data val meta = put_v h data (u ''undefined'') val"
  by pat_completeness auto
termination
  by (relation "measure (\<lambda>(_, _, s, _). size s)") (auto dest: map_of_filter_size [of "\<lambda>_. True", simplified])


subsection \<open>Cells\<close>

text \<open>
  The getter and the setter that \<open>_fnColumnOptions\<close> makes for a column, and \<open>_fnSetCellData\<close>; \<open>rows\<close> are
  the data of the rows (\<open>_aData\<close>).
\<close>

record hcolumn =
  mData :: data_src
  mRender :: data_src

definition fnGetData ::
    "calls \<Rightarrow> (heap \<Rightarrow> nat \<Rightarrow> ustr) \<Rightarrow> user_fns \<Rightarrow> hcolumn \<Rightarrow> heap \<Rightarrow> hval \<Rightarrow> ustr option \<Rightarrow> (nat \<times> nat) option \<Rightarrow> (hval \<times> heap) js_result" where
  "fnGetData call ref_text user col h rowData type meta =
     (case getObjectDataFn call ref_text user (mData col) h rowData type VUndef meta of
        Inl e \<Rightarrow> Inl e
      | Inr (inner, h') \<Rightarrow>
          if src_truthy (mRender col) \<and> type \<noteq> None \<and> type \<noteq> Some []
          then getObjectDataFn call ref_text user (mRender col) h' inner type rowData meta
          else Inr (inner, h'))"

definition fnSetData :: "calls \<Rightarrow> user_fns \<Rightarrow> hcolumn \<Rightarrow> heap \<Rightarrow> hval \<Rightarrow> hval \<Rightarrow> (nat \<times> nat) option \<Rightarrow> heap js_result" where
  "fnSetData call user col h rowData val meta = setObjectDataFn call user (mData col) h rowData val meta"

definition setCellData ::
    "calls \<Rightarrow> user_fns \<Rightarrow> hcolumn list \<Rightarrow> hval list \<Rightarrow> heap \<Rightarrow> nat \<Rightarrow> nat \<Rightarrow> hval \<Rightarrow> heap js_result" where
  "setCellData call user cols rows h rowIdx colIdx val =
     fnSetData call user (cols ! colIdx) h (rows ! rowIdx) val (Some (rowIdx, colIdx))"

subsection \<open>Facts about the store\<close>

lemma heap_at_append [simp]:
  "heap_at (h @ [ob]) a = (if a = length h then ob else heap_at h a)"
  by (simp add: heap_at_def nth_append)

lemma heap_at_update [simp]:
  "a < length h \<Longrightarrow> heap_at (h[a := ob]) b = (if b = a then ob else heap_at h b)"
  by (simp add: heap_at_def)

lemma heap_at_beyond: "length h \<le> a \<Longrightarrow> heap_at h a = new_object"
  by (simp add: heap_at_def)

lemma own_new_object [simp]: "own new_object k = VUndef"
  by (simp add: own_def new_object_def)

lemma is_vector_new_object [simp]: "\<not> is_vector new_object"
  by (simp add: is_vector_def new_object_def)

lemma is_vector_put_own [simp]: "is_vector (put_own ob k x) = is_vector ob"
  by (simp add: is_vector_def put_own_def split: kind.splits option.splits)

definition slot :: "heap \<Rightarrow> nat \<Rightarrow> ustr \<Rightarrow> bool" where
  "slot h a k \<longleftrightarrow> \<not> (is_vector (heap_at h a) \<and> k = key_length)"

lemma own_put_own:
  "\<not> (is_vector ob \<and> k' = key_length) \<Longrightarrow> own (put_own ob k x) k' = (if k' = k then x else own ob k')"
  by (auto simp: own_def put_own_def is_vector_def split: kind.splits option.splits)

lemma own_length_not_ref: "\<not> slot h a k \<Longrightarrow> \<exists>n. own (heap_at h a) k = VNum n"
  by (auto simp: slot_def own_def is_vector_def split: kind.splits)

lemma put_v_slot:
  "slot h a k \<Longrightarrow> put_v h (VRef a) k x = Inr (h[a := put_own (heap_at h a) k x])"
  by (simp add: put_v_def slot_def)

text \<open>
  What a write along \<open>ks\<close>, the last of which is \<open>l\<close>, does to the store: existing properties of another
  name keep their values, unless they were null or undefined and are on the way, where a new object
  goes; new objects only lead to new objects.
\<close>

definition set_effect :: "ustr set \<Rightarrow> ustr \<Rightarrow> heap \<Rightarrow> heap \<Rightarrow> bool" where
  "set_effect K l h h' \<longleftrightarrow>
     length h \<le> length h' \<and>
     (\<forall>a < length h. is_vector (heap_at h' a) = is_vector (heap_at h a) \<and>
        (\<forall>k. k \<noteq> l \<longrightarrow> slot h a k \<longrightarrow>
           own (heap_at h' a) k = own (heap_at h a) k \<or>
           own (heap_at h a) k \<in> {VNull, VUndef} \<and> k \<in> K \<and> (\<exists>b. own (heap_at h' a) k = VRef b \<and> length h \<le> b))) \<and>
     (\<forall>a \<ge> length h. \<not> is_vector (heap_at h' a) \<and>
        (\<forall>k. k \<noteq> l \<longrightarrow> own (heap_at h' a) k = VUndef \<or> k \<in> K \<and> (\<exists>b. own (heap_at h' a) k = VRef b \<and> length h \<le> b)))"

lemma set_effect_length: "set_effect K l h h' \<Longrightarrow> length h \<le> length h'"
  by (simp add: set_effect_def)

lemma set_effect_vector: "set_effect K l h h' \<Longrightarrow> a < length h \<Longrightarrow> is_vector (heap_at h' a) = is_vector (heap_at h a)"
  by (simp add: set_effect_def)

lemma set_effect_old:
  "set_effect K l h h' \<Longrightarrow> a < length h \<Longrightarrow> k \<noteq> l \<Longrightarrow> slot h a k \<Longrightarrow>
     own (heap_at h' a) k = own (heap_at h a) k \<or>
     own (heap_at h a) k \<in> {VNull, VUndef} \<and> k \<in> K \<and> (\<exists>b. own (heap_at h' a) k = VRef b \<and> length h \<le> b)"
  unfolding set_effect_def by blast

lemma set_effect_new:
  "set_effect K l h h' \<Longrightarrow> length h \<le> a \<Longrightarrow> k \<noteq> l \<Longrightarrow>
     own (heap_at h' a) k = VUndef \<or> k \<in> K \<and> (\<exists>b. own (heap_at h' a) k = VRef b \<and> length h \<le> b)"
  and set_effect_new_vector: "set_effect K l h h' \<Longrightarrow> length h \<le> a \<Longrightarrow> \<not> is_vector (heap_at h' a)"
  unfolding set_effect_def by blast+

lemma set_effect_mono: "set_effect K l h h' \<Longrightarrow> K \<subseteq> K' \<Longrightarrow> set_effect K' l h h'"
  unfolding set_effect_def by blast

lemma set_effect_put:
  assumes "a < length h" and "slot h a l"
  shows "set_effect K l h (h[a := put_own (heap_at h a) l x])"
  using assms by (auto simp: set_effect_def heap_at_beyond own_put_own slot_def)

lemma set_effect_create:
  assumes a: "a < length h" and v: "own (heap_at h a) k \<in> {VNull, VUndef}" and kK: "k \<in> K" and KK: "K' \<subseteq> K"
    and rest: "set_effect K' l ((h @ [new_object])[a := put_own (heap_at h a) k (VRef (length h))]) h'"
  shows "set_effect K l h h'"
proof -
  define h3 where "h3 = (h @ [new_object])[a := put_own (heap_at h a) k (VRef (length h))]"
  have len: "length h3 = Suc (length h)" by (simp add: h3_def)
  from v have sl: "slot h a k" by (rule contrapos_pp) (auto dest: own_length_not_ref)
  have at3: "heap_at h3 b = (if b = a then put_own (heap_at h a) k (VRef (length h)) else if b = length h then new_object else heap_at h b)" for b
    using a by (auto simp: h3_def)
  note R = rest [folded h3_def]
  show ?thesis
    unfolding set_effect_def
  proof (intro conjI allI impI)
    show "length h \<le> length h'" using set_effect_length [OF R] len by simp
  next
    fix b assume b: "b < length h"
    then have b3: "b < length h3" using len by simp
    show "is_vector (heap_at h' b) = is_vector (heap_at h b)"
      using set_effect_vector [OF R b3] b by (simp add: at3)
    fix k' assume k': "k' \<noteq> l" "slot h b k'"
    then have sl3: "slot h3 b k'" using b by (auto simp: slot_def at3)
    note * = set_effect_old [OF R b3 k'(1) sl3, unfolded len]
    show "own (heap_at h' b) k' = own (heap_at h b) k' \<or>
           own (heap_at h b) k' \<in> {VNull, VUndef} \<and> k' \<in> K \<and> (\<exists>c. own (heap_at h' b) k' = VRef c \<and> length h \<le> c)"
    proof (cases "b = a \<and> k' = k")
      case True
      then have "own (heap_at h3 b) k' = VRef (length h)"
        using sl by (simp add: at3 own_put_own slot_def)
      with * True v kK show ?thesis by auto
    next
      case False
      then have "own (heap_at h3 b) k' = own (heap_at h b) k'"
        using k' b by (auto simp: at3 own_put_own slot_def)
      with * KK show ?thesis by (auto dest: Suc_leD)
    qed
  next
    fix b assume b: "length h \<le> b"
    have old: "heap_at h3 (length h) = new_object" using a by (simp add: at3)
    then have sl3: "slot h3 (length h) k'" for k' by (simp add: slot_def)
    show "\<not> is_vector (heap_at h' b)"
      using b old len set_effect_vector [OF R, of "length h"] set_effect_new_vector [OF R, of b]
      by (cases "b = length h") simp_all
    fix k' assume k': "k' \<noteq> l"
    have "own (heap_at h' b) k' = VUndef \<or> k' \<in> K' \<and> (\<exists>c. own (heap_at h' b) k' = VRef c \<and> length h3 \<le> c)"
      using b old len set_effect_old [OF R _ k' sl3] set_effect_new [OF R _ k', of b]
      by (cases "b = length h") auto
    then show "own (heap_at h' b) k' = VUndef \<or> k' \<in> K \<and> (\<exists>c. own (heap_at h' b) k' = VRef c \<and> length h \<le> c)"
      using KK len by auto
  qed
qed

lemma set_effect_ref:
  assumes "set_effect K l h h'" and "a < length h" and "k \<noteq> l" and "own (heap_at h a) k = VRef b"
  shows "own (heap_at h' a) k = VRef b"
proof -
  have "slot h a k" using assms(4) own_length_not_ref [of h a k] by auto
  from set_effect_old [OF assms(1-3) this] assms(4) show ?thesis by auto
qed

subsection \<open>Writing and reading back\<close>

declare fetchData.simps [simp del] fetch_parts.simps(2) [simp del] fetch_elems.simps [simp del]
  setData.simps [simp del] set_parts.simps(2,3) [simp del] set_elems.simps [simp del]

definition plain_key :: "ustr \<Rightarrow> bool" where
  "plain_key p \<longleftrightarrow> reArray p = None \<and> \<not> reFn p"

lemma plain_key_strip: "plain_key p \<Longrightarrow> strip_array p = p" "plain_key p \<Longrightarrow> strip_fn p = p"
  by (simp_all add: plain_key_def strip_array_def strip_fn_def)

text \<open>
  A value can be written along the keys: as far as the way exists it leads through objects.
\<close>

fun writable :: "heap \<Rightarrow> hval \<Rightarrow> ustr list \<Rightarrow> bool" where
  "writable h v [] = False"
| "writable h v (k # ks) =
     (case v of
        VRef a \<Rightarrow> a < length h \<and>
          (if ks = [] then \<not> (is_vector (heap_at h a) \<and> k = key_length)
           else own (heap_at h a) k \<in> {VNull, VUndef} \<or> writable h (own (heap_at h a) k) ks)
      | _ \<Rightarrow> False)"

lemma fetch_parts_step:
  "plain_key p \<Longrightarrow> fetch_parts call rt h (VRef a) (p # ps) =
     (if own (heap_at h a) p = VUndef then Inr (VUndef, h) else fetch_parts call rt h (own (heap_at h a) p) ps)"
  by (simp add: plain_key_def get_v_def fetch_parts.simps(2))

lemma fetch_parts_last:
  "plain_key p \<Longrightarrow> fetch_parts call rt h (VRef a) [p] = Inr (own (heap_at h a) p, h)"
  by (simp add: fetch_parts_step)

lemma set_parts_last:
  "plain_key p \<Longrightarrow> set_parts call h (VRef a) val [p] = put_v h (VRef a) p val"
  using plain_key_strip [of p] by (simp add: plain_key_def set_parts.simps(2))

lemma set_parts_through:
  assumes "plain_key p" and "ps \<noteq> []" and "own (heap_at h a) p \<notin> {VNull, VUndef}"
  shows "set_parts call h (VRef a) val (p # ps) = set_parts call h (own (heap_at h a) p) val ps"
  using assms plain_key_strip [of p] by (cases ps) (auto simp: plain_key_def get_v_def set_parts.simps(3))

lemma set_parts_create:
  assumes "plain_key p" and "ps \<noteq> []" and "own (heap_at h a) p \<in> {VNull, VUndef}" and "a < length h"
  shows "set_parts call h (VRef a) val (p # ps) =
    set_parts call ((h @ [new_object])[a := put_own (heap_at h a) p (VRef (length h))]) (VRef (length h)) val ps"
proof -
  have sl: "slot h a p" using assms(3) by (rule contrapos_pp) (auto dest: own_length_not_ref)
  with assms(4) have "slot (h @ [new_object]) a p" by (simp add: slot_def)
  then show ?thesis
    using assms sl plain_key_strip [of p]
    by (cases ps) (auto simp: plain_key_def get_v_def set_parts.simps(3) alloc_def put_v_slot own_put_own slot_def)
qed

lemma writable_fresh:
  assumes "ks \<noteq> []" and "a < length h" and "heap_at h a = new_object"
  shows "writable h (VRef a) ks"
  using assms by (cases ks) auto

text \<open>Writing along plain keys, the last of which does not occur before, succeeds and is read back.\<close>

lemma set_parts_effect:
  assumes "writable h data ks" and "\<forall>k \<in> set ks. plain_key k" and "last ks \<notin> set (butlast ks)"
  shows "\<exists>h'. set_parts call h data val ks = Inr h' \<and> fetch_parts call rt h' data ks = Inr (val, h') \<and>
    writable h' data ks \<and> set_effect (set ks) (last ks) h h'"
  using assms
proof (induction ks arbitrary: h data)
  case (Cons k ks)
  obtain a where data: "data = VRef a" and a: "a < length h"
    using Cons.prems(1) by (auto split: hval.splits)
  have pk: "plain_key k" using Cons.prems(2) by simp
  show ?case
  proof (cases "ks = []")
    case True
    have sl: "slot h a k" using Cons.prems(1) data True by (simp add: slot_def)
    define h' where "h' = h[a := put_own (heap_at h a) k val]"
    have "own (heap_at h' a) k = val" using a sl by (simp add: h'_def own_put_own slot_def)
    moreover have "writable h' data [k]" using a sl data by (simp add: h'_def slot_def)
    moreover have "set_effect {k} k h h'" unfolding h'_def using a sl by (rule set_effect_put)
    ultimately show ?thesis
      using data True pk sl by (simp add: set_parts_last fetch_parts_last put_v_slot h'_def [symmetric])
  next
    case False
    then have lks: "last (k # ks) = last ks" and kl: "k \<noteq> last ks" and nl: "last ks \<notin> set (butlast ks)"
      using Cons.prems(3) by auto
    have pks: "\<forall>k \<in> set ks. plain_key k" using Cons.prems(2) by simp
    show ?thesis
    proof (cases "own (heap_at h a) k \<in> {VNull, VUndef}")
      case create: True
      define h3 where "h3 = (h @ [new_object])[a := put_own (heap_at h a) k (VRef (length h))]"
      have len3: "length h < length h3" and fresh: "heap_at h3 (length h) = new_object"
        using a by (simp_all add: h3_def)
      have sl: "slot h a k" using create by (rule contrapos_pp) (auto dest: own_length_not_ref)
      have own3: "own (heap_at h3 a) k = VRef (length h)"
        using a sl by (simp add: h3_def own_put_own slot_def)
      from Cons.IH [OF writable_fresh [OF False len3 fresh] pks nl] obtain h' where
        set': "set_parts call h3 (VRef (length h)) val ks = Inr h'"
        and get': "fetch_parts call rt h' (VRef (length h)) ks = Inr (val, h')"
        and wr': "writable h' (VRef (length h)) ks" and eff': "set_effect (set ks) (last ks) h3 h'" by blast
      have own': "own (heap_at h' a) k = VRef (length h)"
        using set_effect_ref [OF eff' _ kl own3] a len3 by simp
      have "set_effect (set (k # ks)) (last ks) h h'"
        by (rule set_effect_create [OF a create _ _ eff' [unfolded h3_def]]) auto
      then show ?thesis
        using set' get' wr' own' a False lks data pk create set_effect_length [OF eff'] len3
        by (simp add: set_parts_create fetch_parts_step h3_def [symmetric])
    next
      case through: False
      then have "writable h (own (heap_at h a) k) ks"
        using Cons.prems(1) data False by simp
      moreover then obtain b where b: "own (heap_at h a) k = VRef b" by (cases ks) (auto split: hval.splits)
      ultimately obtain h' where
        set': "set_parts call h (VRef b) val ks = Inr h'"
        and get': "fetch_parts call rt h' (VRef b) ks = Inr (val, h')"
        and wr': "writable h' (VRef b) ks" and eff': "set_effect (set ks) (last ks) h h'"
        using Cons.IH [OF _ pks nl] by metis
      have own': "own (heap_at h' a) k = VRef b" using set_effect_ref [OF eff' a kl b] .
      have "set_effect (set (k # ks)) (last ks) h h'"
        using eff' by (rule set_effect_mono) auto
      then show ?thesis
        using set' get' wr' own' a False lks data pk b set_effect_length [OF eff']
        by (simp add: set_parts_through fetch_parts_step)
    qed
  qed
qed simp


definition value_of :: "('a \<times> heap) js_result \<Rightarrow> 'a js_result" where
  "value_of r = (case r of Inl e \<Rightarrow> Inl e | Inr (v, _) \<Rightarrow> Inr v)"

lemma value_of_simps [simp]: "value_of (Inl e) = Inl e" "value_of (Inr (v, h)) = Inr v"
  by (simp_all add: value_of_def)

text \<open>A source that shares no end with what was written reads as before.\<close>

definition closed_heap :: "heap \<Rightarrow> bool" where
  "closed_heap h \<longleftrightarrow> (\<forall>ob \<in> set h. \<forall>(k, v) \<in> set (o_props ob). case v of VRef b \<Rightarrow> b < length h | _ \<Rightarrow> True)"

lemma closed_heap_own:
  assumes "closed_heap h" and "own (heap_at h a) k = VRef b"
  shows "b < length h"
proof -
  have "a < length h" using assms(2) by (rule contrapos_pp) (simp add: heap_at_beyond)
  moreover then have "(k, VRef b) \<in> set (o_props (h ! a))"
    using assms(2) by (auto simp: own_def heap_at_def dest: map_of_SomeD split: kind.splits option.splits if_splits)
  ultimately show ?thesis using assms(1) by (fastforce simp: closed_heap_def)
qed

lemma fetch_fresh:
  assumes eff: "set_effect K l h h'"
  shows "length h \<le> a \<Longrightarrow> ks \<noteq> [] \<Longrightarrow> \<forall>k \<in> set ks. plain_key k \<Longrightarrow> l \<notin> set ks \<Longrightarrow> last ks \<notin> K \<Longrightarrow>
    fetch_parts call rt h' (VRef a) ks = Inr (VUndef, h')"
proof (induction ks arbitrary: a)
  case (Cons k ks)
  then have pk: "plain_key k" and kl: "k \<noteq> l" by auto
  show ?case
    using set_effect_new [OF eff Cons.prems(1) kl]
  proof
    assume "k \<in> K \<and> (\<exists>b. own (heap_at h' a) k = VRef b \<and> length h \<le> b)"
    then obtain b where b: "k \<in> K" "own (heap_at h' a) k = VRef b" "length h \<le> b" by blast
    with Cons.prems(5) have "ks \<noteq> []" by auto
    with Cons.IH [OF b(3)] Cons.prems b pk show ?thesis by (simp add: fetch_parts_step)
  qed (simp add: fetch_parts_step pk)
qed simp

lemma fetch_unaffected:
  assumes eff: "set_effect K l h h'" and cl: "closed_heap h"
  shows "(\<And>a. v = VRef a \<Longrightarrow> a < length h) \<Longrightarrow> \<forall>k \<in> set ks. plain_key k \<and> k \<noteq> key_length \<Longrightarrow> l \<notin> set ks \<Longrightarrow>
    ks \<noteq> [] \<longrightarrow> last ks \<notin> K \<Longrightarrow>
    value_of (fetch_parts call rt h' v ks) = value_of (fetch_parts call rt h v ks)"
proof (induction ks arbitrary: v)
  case (Cons k ks)
  have pk: "plain_key k" and kl: "k \<noteq> l" and nk: "k \<noteq> key_length" using Cons.prems by auto
  have IH: "value_of (fetch_parts call rt h' w ks) = value_of (fetch_parts call rt h w ks)"
    if "\<And>a. w = VRef a \<Longrightarrow> a < length h" for w
    by (rule Cons.IH) (use that Cons.prems in auto)
  show ?case
  proof (cases v)
    case (VRef a)
    then have a: "a < length h" and sl: "slot h a k" using Cons.prems(1) nk by (auto simp: slot_def)
    show ?thesis
      using set_effect_old [OF eff a kl sl]
    proof
      assume "own (heap_at h' a) k = own (heap_at h a) k"
      then show ?thesis using IH [of "own (heap_at h a) k"] VRef pk closed_heap_own [OF cl, of a k]
        by (simp add: fetch_parts_step)
    next
      assume "own (heap_at h a) k \<in> {VNull, VUndef} \<and> k \<in> K \<and> (\<exists>b. own (heap_at h' a) k = VRef b \<and> length h \<le> b)"
      then obtain b where b: "own (heap_at h a) k \<in> {VNull, VUndef}" "k \<in> K" "own (heap_at h' a) k = VRef b" "length h \<le> b"
        by blast
      then obtain k2 ks2 where ks: "ks = k2 # ks2" using Cons.prems(4) by (cases ks) auto
      then have "fetch_parts call rt h VNull ks = Inr (VUndef, h)"
        using Cons.prems(2) by (simp add: fetch_parts.simps(2) plain_key_def)
      moreover have "fetch_parts call rt h' (VRef b) ks = Inr (VUndef, h')"
        by (rule fetch_fresh [OF eff b(4)]) (use Cons.prems ks in auto)
      ultimately show ?thesis using b VRef pk by (auto simp: fetch_parts_step)
    qed
  next
    case (VStr str)
    then show ?thesis using IH pk
      by (auto simp: fetch_parts.simps(2) plain_key_def get_v_def split: option.splits)
  qed (use IH pk in \<open>simp_all add: fetch_parts.simps(2) plain_key_def get_v_def\<close>)
qed simp

subsection \<open>Columns with a text or a number as source\<close>

fun src_keys :: "data_src \<Rightarrow> ustr list" where
  "src_keys (Text_source s) = (if nested_source s then splitObjNotation s else [s])"
| "src_keys (Num_source n) = [num_str n]"
| "src_keys No_source = [u ''undefined'']"
| "src_keys _ = []"

lemma reArray_None: "91 \<notin> set s \<Longrightarrow> reArray s = None"
  by (induction s) auto

lemma plain_keyI: "91 \<notin> set s \<Longrightarrow> 40 \<notin> set s \<Longrightarrow> plain_key s"
  by (auto simp: plain_key_def reArray_None reFn_def suffix_def)

lemma plain_num_str: "plain_key (num_str n)"
  by (rule plain_keyI) (auto simp: num_str_def is_digit_def dest: digits_of_digit)

lemma get_by_keys:
  assumes "src_keys src \<noteq> []"
  shows "getObjectDataFn call rt user src h (VRef a) type row meta = fetch_parts call rt h (VRef a) (src_keys src)"
proof (cases src)
  case (Text_source s)
  then show ?thesis
    by (auto simp: nested_source_def fetchData.simps fetch_parts_last plain_keyI get_v_def)
qed (use assms in \<open>simp_all add: fetch_parts_last get_v_def plain_num_str plain_keyI js_simps\<close>)

lemma set_by_keys:
  assumes "src_keys src \<noteq> []"
  shows "setObjectDataFn call user src h (VRef a) val meta = set_parts call h (VRef a) val (src_keys src)"
proof (cases src)
  case (Text_source s)
  then show ?thesis
    by (auto simp: nested_source_def setData.simps set_parts_last plain_keyI)
qed (use assms in \<open>simp_all add: set_parts_last plain_num_str plain_keyI js_simps\<close>)


subsection \<open>The contract of an accessor\<close>

text \<open>
  A place that can be written and read: where it is usable, a write succeeds, leaves it usable, and
  is what is read next.
\<close>

locale accessor =
  fixes rd :: "heap \<Rightarrow> hval js_result" and wr :: "hval \<Rightarrow> heap \<Rightarrow> heap js_result" and usable :: "heap \<Rightarrow> bool"
  assumes write_read: "usable h \<Longrightarrow> \<exists>h'. wr v h = Inr h' \<and> rd h' = Inr v \<and> usable h'"
begin

primrec write_all :: "hval list \<Rightarrow> heap \<Rightarrow> heap js_result" where
  "write_all [] h = Inr h"
| "write_all (v # vs) h = js_bind (wr v h) (write_all vs)"

lemma last_write_read:
  "usable h \<Longrightarrow> vs \<noteq> [] \<Longrightarrow> \<exists>h'. write_all vs h = Inr h' \<and> rd h' = Inr (last vs) \<and> usable h'"
proof (induction vs arbitrary: h)
  case (Cons v vs)
  from write_read [OF Cons.prems(1), of v] obtain h1 where "wr v h = Inr h1" "rd h1 = Inr v" "usable h1" by blast
  with Cons.IH [of h1] show ?case by (cases "vs = []") auto
qed simp

end

definition src_usable :: "data_src \<Rightarrow> nat \<Rightarrow> heap \<Rightarrow> bool" where
  "src_usable src a h \<longleftrightarrow> (let ks = src_keys src in
     writable h (VRef a) ks \<and> list_all plain_key ks \<and> last ks \<notin> set (butlast ks))"

lemma src_write_effect:
  assumes "src_usable src a h"
  shows "\<exists>h'. setObjectDataFn call user src h (VRef a) val meta = Inr h' \<and>
    getObjectDataFn call rt user src h' (VRef a) type row meta' = Inr (val, h') \<and> src_usable src a h' \<and>
    set_effect (set (src_keys src)) (last (src_keys src)) h h'"
proof -
  from assms have ne: "src_keys src \<noteq> []" by (auto simp: src_usable_def Let_def)
  from assms set_parts_effect [of h "VRef a" "src_keys src" call val rt] obtain h' where
    "set_parts call h (VRef a) val (src_keys src) = Inr h'" "fetch_parts call rt h' (VRef a) (src_keys src) = Inr (val, h')"
    "writable h' (VRef a) (src_keys src)" "set_effect (set (src_keys src)) (last (src_keys src)) h h'"
    by (auto simp: src_usable_def Let_def list_all_iff)
  with assms ne show ?thesis by (simp add: get_by_keys set_by_keys src_usable_def Let_def)
qed

interpretation source: accessor
    "\<lambda>h. value_of (getObjectDataFn call rt user src h (VRef a) type row meta)"
    "\<lambda>v h. setObjectDataFn call user src h (VRef a) v meta"
    "src_usable src a"
  for call rt user src a type row meta
proof
  fix h v assume "src_usable src a h"
  from src_write_effect [OF this, of call user v meta rt type row meta]
  show "\<exists>h'. setObjectDataFn call user src h (VRef a) v meta = Inr h' \<and>
      value_of (getObjectDataFn call rt user src h' (VRef a) type row meta) = Inr v \<and> src_usable src a h'"
    by fastforce
qed

lemma setCellData_eq:
  "setCellData call user cols rows h r c val = setObjectDataFn call user (mData (cols ! c)) h (rows ! r) val (Some (r, c))"
  by (simp add: setCellData_def fnSetData_def)

lemma fnGetData_raw:
  "fnGetData call rt user col h v None meta = getObjectDataFn call rt user (mData col) h v None VUndef meta"
  by (simp add: fnGetData_def split: sum.splits)

text \<open>Of any number of values written to one cell the last is read.\<close>

lemma cell_last_write:
  assumes "rows ! r = VRef a" and "src_usable (mData (cols ! c)) a h" and "vs \<noteq> []"
  shows "\<exists>h'. accessor.write_all (\<lambda>v h. setCellData call user cols rows h r c v) vs h = Inr h' \<and>
    value_of (fnGetData call rt user (cols ! c) h' (rows ! r) None (Some (r, c))) = Inr (last vs)"
  using source.last_write_read [OF assms(2,3), of call user "Some (r, c)" rt None VUndef] assms(1)
  by (auto simp: setCellData_eq fnGetData_raw)



definition demo_cols :: "hcolumn list" where
  "demo_cols = [\<lparr>mData = Text_source (u ''a.b''), mRender = No_source\<rparr>, \<lparr>mData = Text_source (u ''a.c''), mRender = No_source\<rparr>]"


subsection \<open>Keys with periods\<close>

text \<open>A period inside a key is written with a backslash.\<close>

definition escape_key :: "ustr \<Rightarrow> ustr" where
  "escape_key k = concat (map (\<lambda>c. if c = 46 then [92, 46] else [c]) k)"

lemma obj_runs_escape:
  "92 \<notin> set k \<Longrightarrow> obj_runs acc (escape_key k @ s) = obj_runs (rev (escape_key k) @ acc) s"
proof (induction k arbitrary: acc)
  case (Cons c k)
  then show ?case
  proof (cases "c = 46")
    case False
    have step: "obj_runs acc (c # t) = obj_runs (c # acc) t" for t
      using False Cons.prems by (cases t) auto
    from False Cons show ?thesis by (simp add: escape_key_def step)
  qed (simp add: escape_key_def line_end_def)
qed (simp add: escape_key_def)

lemma unescape_key: "92 \<notin> set k \<Longrightarrow> unescape (escape_key k) = k"
proof (induction k)
  case (Cons c k)
  have step: "unescape (c # t) = c # unescape t" if "c \<noteq> 92" for t
    using that by (cases t) auto
  from Cons show ?case
    by (cases "c = 46") (simp_all add: escape_key_def line_end_def step)
qed (simp add: escape_key_def)

lemma escape_key_Nil [simp]: "escape_key k = [] \<longleftrightarrow> k = []"
  by (cases k) (auto simp: escape_key_def)

lemma obj_runs_join:
  assumes "\<forall>k \<in> set ks. k \<noteq> [] \<and> 92 \<notin> set k" and "ks \<noteq> []"
  shows "obj_runs [] (join [46] (map escape_key ks)) = map escape_key ks"
  using assms
proof (induction ks rule: induct_list012)
  case (2 k)
  then show ?case using obj_runs_escape [of k "[]" "[]"] by simp
next
  case (3 k k2 ks)
  have dot: "obj_runs acc (46 # t) = rev acc # obj_runs [] t" if "acc \<noteq> []" for acc t
    using that by (cases t) auto
  from 3 show ?case by (simp add: obj_runs_escape dot)
qed simp

lemma split_escaped:
  assumes "ks \<noteq> []" and "\<forall>k \<in> set ks. k \<noteq> [] \<and> 92 \<notin> set k"
  shows "splitObjNotation (join [46] (map escape_key ks)) = ks"
proof -
  have "map (unescape \<circ> escape_key) ks = ks"
    using assms(2) by (intro map_idI) (simp add: unescape_key)
  with obj_runs_join [OF assms(2,1)] assms(1) show ?thesis
    by (cases ks) (simp_all add: splitObjNotation_def)
qed

text \<open>
  Keys joined by periods, each with its own periods escaped by a backslash, are split into the
  same keys again (\<open>_fnSplitObjNotation\<close>), for keys that are not empty and have no backslash.
\<close>

theorem split_round_trip:
  assumes "ks \<noteq> []" and "\<forall>k \<in> set ks. k \<noteq> [] \<and> 92 \<notin> set k"
  shows "splitObjNotation (join [46] (map escape_key ks)) = ks"
  using assms by (rule split_escaped)

theorem split_round_trip_witness:
  "splitObjNotation (join [46] (map escape_key [u ''a.b'', u ''c''])) = [u ''a.b'', u ''c'']"
  by (rule split_round_trip) code_simp+

lemma escape_key_id: "46 \<notin> set k \<Longrightarrow> escape_key k = k"
  by (induction k) (auto simp: escape_key_def)

lemma split_simple_keys:
  assumes "ks \<noteq> []" and "\<forall>k \<in> set ks. k \<noteq> [] \<and> 46 \<notin> set k \<and> 92 \<notin> set k"
  shows "splitObjNotation (join [46] ks) = ks"
proof -
  have "map escape_key ks = ks" using assms(2) by (intro map_idI) (simp add: escape_key_id)
  moreover have "unescape k = k" if "k \<in> set ks" for k
    using assms(2) that unescape_key [of k] escape_key_id [of k] by auto
  ultimately show ?thesis
    using obj_runs_join [of ks] assms by (cases ks) (auto simp: splitObjNotation_def intro: map_idI)
qed


subsection \<open>Array notation\<close>

lemma digits_of_inject [simp]: "digits_of m = digits_of n \<longleftrightarrow> m = n"
  by (metis nat_of_digits_of)

lemma index_of_key_digits [simp]: "index_of_key (digits_of n) = Some n"
  by (auto simp: index_of_key_def nat_of_digits_of list_all_iff dest: digits_of_digit)

lemma digits_not_length [simp]: "digits_of n \<noteq> key_length"
proof
  assume "digits_of n = key_length"
  then have "hd key_length \<in> set (digits_of n)" by (simp add: key_length_def js_simps)
  then have "is_digit (hd key_length)" by (rule digits_of_digit)
  then show False by (simp add: key_length_def js_simps is_digit_def)
qed

lemma map_of_zip_digits:
  "map_of (zip (map digits_of [0..<length vs]) vs) (digits_of j) = (if j < length vs then Some (vs ! j) else None)"
proof (cases "j < length vs")
  case True
  have "map_of (zip (map digits_of [0..<length vs]) vs) (map digits_of [0..<length vs] ! j) = Some (vs ! j)"
    by (rule map_of_zip_nth) (auto simp: True distinct_map inj_on_def)
  with True show ?thesis by simp
qed (auto simp: map_of_eq_None_iff dest!: set_zip_leftD)

lemma own_new_vector: "j < length vs \<Longrightarrow> own (new_vector vs) (digits_of j) = vs ! j"
  by (simp add: own_def new_vector_def map_of_zip_digits)

lemma push_new_vector: "put_own (new_vector vs) (digits_of (length vs)) x = new_vector (vs @ [x])"
proof -
  have "digits_of (length vs) \<notin> fst ` set (zip (map digits_of [0..<length vs]) vs)"
    by (auto dest!: set_zip_leftD)
  from set_prop_new [OF this, of x] show ?thesis by (simp add: put_own_def new_vector_def)
qed

lemma vector_length_new_vector [simp]: "heap_at h a = new_vector vs \<Longrightarrow> vector_length h (VRef a) = Some (length vs)"
  by (simp add: vector_length_def new_vector_def)

text \<open>
  A write into a new object changes only that object and newer ones, and is read back from any store
  that has them.
\<close>

definition same_at :: "nat set \<Rightarrow> heap \<Rightarrow> heap \<Rightarrow> bool" where
  "same_at A h h' \<longleftrightarrow> (\<forall>a \<in> A. heap_at h' a = heap_at h a)"

lemma set_parts_fresh:
  assumes "o1 < length h" and "heap_at h o1 = new_object" and "ks \<noteq> []" and "\<forall>k \<in> set ks. plain_key k"
  shows "\<exists>h'. set_parts call h (VRef o1) val ks = Inr h' \<and> length h \<le> length h' \<and> same_at ({..<length h} - {o1}) h h' \<and>
    (\<forall>g. same_at (insert o1 {length h..<length h'}) h' g \<longrightarrow> fetch_parts call rt g (VRef o1) ks = Inr (val, g))"
  using assms
proof (induction ks arbitrary: h o1)
  case (Cons k ks)
  have pk: "plain_key k" using Cons.prems(4) by simp
  have sl: "slot h o1 k" using Cons.prems(2) by (simp add: slot_def)
  show ?case
  proof (cases "ks = []")
    case True
    then show ?thesis
      using Cons.prems sl pk
      by (auto simp: set_parts_last put_v_slot same_at_def fetch_parts_last own_put_own slot_def)
  next
    case False
    define h3 where "h3 = (h @ [new_object])[o1 := put_own (heap_at h o1) k (VRef (length h))]"
    have len: "length h3 = Suc (length h)" and fresh: "heap_at h3 (length h) = new_object"
      and own3: "own (heap_at h3 o1) k = VRef (length h)"
      and same3: "a < length h \<Longrightarrow> a \<noteq> o1 \<Longrightarrow> heap_at h3 a = heap_at h a" for a
      using Cons.prems(1,2) by (simp_all add: h3_def own_put_own)
    have set_eq: "set_parts call h (VRef o1) val (k # ks) = set_parts call h3 (VRef (length h)) val ks"
      using Cons.prems(1,2) False pk by (simp add: set_parts_create h3_def)
    have "length h < length h3" "\<forall>k \<in> set ks. plain_key k" using len Cons.prems(4) by auto
    from Cons.IH [OF this(1) fresh False this(2)] obtain h' where h': "set_parts call h3 (VRef (length h)) val ks = Inr h'"
      "length h3 \<le> length h'" "same_at ({..<length h3} - {length h}) h3 h'"
      and rd: "\<And>g. same_at (insert (length h) {length h3..<length h'}) h' g \<Longrightarrow> fetch_parts call rt g (VRef (length h)) ks = Inr (val, g)"
      by blast
    have "own (heap_at h' o1) k = VRef (length h)"
      using h'(3) own3 Cons.prems(1) len by (simp add: same_at_def)
    then have "fetch_parts call rt g (VRef o1) (k # ks) = Inr (val, g)" if "same_at (insert o1 {length h..<length h'}) h' g" for g
      using that rd [of g] h'(2) len pk by (simp add: fetch_parts_step same_at_def)
    moreover have "same_at ({..<length h} - {o1}) h h'"
      using h'(3) same3 len by (simp add: same_at_def)
    ultimately show ?thesis using h' set_eq len by auto
  qed
qed simp


lemma set_elems_fresh:
  assumes "own (heap_at h a) k = VRef arr" and "heap_at h arr = new_vector os"
    and "a < length h" and "arr < length h" and "b < length h" and "a \<noteq> arr" and "b \<noteq> arr"
    and qs: "qs \<noteq> []" "\<forall>q \<in> set qs. plain_key q" "splitObjNotation (join [46] qs) = qs"
  shows "\<exists>h' ps. set_elems call h (VRef a) k (VRef b) j n (join [46] qs) = Inr h' \<and> length ps = n - j \<and>
    length h \<le> length h' \<and> same_at ({..<length h} - {arr}) h h' \<and> heap_at h' arr = new_vector (os @ ps) \<and>
    (\<forall>g i. same_at {length h..<length h'} h' g \<longrightarrow> i < n - j \<longrightarrow>
       fetch_parts call rt g (ps ! i) qs = Inr (own (heap_at h b) (digits_of (j + i)), g))"
  using assms(1-7)
proof (induction "n - j" arbitrary: j h os)
  case 0
  then show ?case by (auto simp: set_elems.simps same_at_def)
next
  case (Suc m)
  have jn: "j < n" using Suc.hyps(2) by simp
  define x where "x = own (heap_at h b) (digits_of j)"
  define h1 where "h1 = h @ [new_object]"
  have new: "length h < length h1" "heap_at h1 (length h) = new_object" by (simp_all add: h1_def)
  from set_parts_fresh [OF new qs(1,2)] obtain h2 where h2: "set_parts call h1 (VRef (length h)) x qs = Inr h2"
    "length h1 \<le> length h2" "same_at ({..<length h1} - {length h}) h1 h2"
    and rd: "\<And>g. same_at (insert (length h) {length h1..<length h2}) h2 g \<Longrightarrow> fetch_parts call rt g (VRef (length h)) qs = Inr (x, g)"
    by blast
  have old2: "heap_at h2 c = heap_at h c" if "c < length h" for c
    using h2(3) that by (simp add: same_at_def h1_def)
  define h3 where "h3 = h2[arr := new_vector (os @ [VRef (length h)])]"
  have len: "length h3 = length h2" "length h < length h3" "arr < length h2" using h2(2) Suc.prems(4) by (simp_all add: h3_def h1_def)
  have at3: "heap_at h3 c = (if c = arr then new_vector (os @ [VRef (length h)]) else heap_at h2 c)" for c
    using len by (simp add: h3_def)
  have push: "push_v call h2 (VRef arr) (VRef (length h)) = Inr h3"
    using Suc.prems(2,4) old2 [of arr]
    by (simp add: push_v_def put_v_def push_new_vector h3_def)
  have unfold1: "set_elems call h (VRef a) k (VRef b) j n (join [46] qs) = set_elems call h3 (VRef a) k (VRef b) (Suc j) n (join [46] qs)"
    using jn h2(1) old2 [OF Suc.prems(3)] Suc.prems(1) push
    by (subst set_elems.simps) (simp add: get_v_def alloc_def h1_def [symmetric] x_def [symmetric] setData.simps qs(3))
  have *: "m = n - Suc j" "own (heap_at h3 a) k = VRef arr" "heap_at h3 arr = new_vector (os @ [VRef (length h)])"
    "a < length h3" "arr < length h3" "b < length h3"
    using Suc.hyps(2) Suc.prems old2 len at3 by auto
  have b3: "own (heap_at h3 b) = own (heap_at h b)" using Suc.prems(5,7) at3 old2 by simp
  from Suc.hyps(1) [OF * Suc.prems(6,7)] obtain h' ps where
    h': "set_elems call h3 (VRef a) k (VRef b) (Suc j) n (join [46] qs) = Inr h'" "length ps = n - Suc j"
      "length h3 \<le> length h'" "same_at ({..<length h3} - {arr}) h3 h'" "heap_at h' arr = new_vector ((os @ [VRef (length h)]) @ ps)"
    and rd': "\<And>g i. same_at {length h3..<length h'} h' g \<Longrightarrow> i < n - Suc j \<Longrightarrow>
       fetch_parts call rt g (ps ! i) qs = Inr (own (heap_at h b) (digits_of (Suc j + i)), g)"
    unfolding b3 by blast
  have reads: "fetch_parts call rt g ((VRef (length h) # ps) ! i) qs = Inr (own (heap_at h b) (digits_of (j + i)), g)"
    if g: "same_at {length h..<length h'} h' g" and i: "i < n - j" for g i
  proof (cases i)
    case 0
    have "same_at (insert (length h) {length h1..<length h2}) h2 g"
      using g h'(3,4) len at3 Suc.prems(4) by (auto simp: same_at_def h1_def)
    from rd [OF this] show ?thesis by (simp add: 0 x_def)
  next
    case (Suc i')
    then show ?thesis using rd' [of g i'] g i len by (simp add: same_at_def)
  qed
  have "same_at ({..<length h} - {arr}) h h'"
    using h'(4) len old2 at3 by (auto simp: same_at_def)
  then show ?case
    using unfold1 h' reads len Suc.hyps(2) by (intro exI [of _ h'] exI [of _ "VRef (length h) # ps"]) simp
qed

lemma fetch_elems_pure:
  assumes "splitObjNotation (join [46] qs) = qs" and "join [46] qs \<noteq> []"
    and "\<And>i. i < n - j \<Longrightarrow> fetch_parts call rt h (own (heap_at h arr) (digits_of (j + i))) qs = Inr (f (j + i), h)"
  shows "fetch_elems call rt h (VRef arr) j n (join [46] qs) = Inr (map f [j..<n], h)"
  using assms(3)
proof (induction "n - j" arbitrary: j)
  case 0
  then show ?case by (simp add: fetch_elems.simps)
next
  case (Suc m)
  have jn: "j < n" using Suc.hyps(2) by simp
  have "fetch_elems call rt h (VRef arr) (Suc j) n (join [46] qs) = Inr (map f [Suc j..<n], h)"
    using Suc.hyps(2) Suc.prems [of "Suc _"] by (intro Suc.hyps(1)) auto
  moreover have "[j..<n] = j # [Suc j..<n]" using jn by (simp add: upt_conv_Cons)
  ultimately show ?case
    using jn Suc.prems [of 0] assms(1,2)
    by (subst fetch_elems.simps) (simp add: get_v_def fetchData.simps)
qed


lemma reArray_suffix: "91 \<notin> set k \<Longrightarrow> reArray (k @ [91, 93]) = Some [91, 93]"
  by (induction k) auto

lemma strip_array_suffix: "91 \<notin> set k \<Longrightarrow> strip_array (k @ [91, 93]) = k"
  by (simp add: strip_array_def reArray_suffix)

definition simple_key :: "ustr \<Rightarrow> bool" where
  "simple_key k \<longleftrightarrow> k \<noteq> [] \<and> 46 \<notin> set k \<and> 92 \<notin> set k \<and> 91 \<notin> set k \<and> 40 \<notin> set k"

lemma split_array_source:
  assumes "simple_key k" and "\<forall>q \<in> set qs. simple_key q"
  shows "splitObjNotation (join [46] ((k @ [91, 93]) # qs)) = (k @ [91, 93]) # qs"
  by (rule split_simple_keys) (use assms in \<open>auto simp: simple_key_def\<close>)

lemma split_simple: "qs \<noteq> [] \<Longrightarrow> \<forall>q \<in> set qs. simple_key q \<Longrightarrow> splitObjNotation (join [46] qs) = qs"
  by (rule split_simple_keys) (auto simp: simple_key_def)

lemma join_eq_Nil: "join sep xs = [] \<Longrightarrow> \<forall>x \<in> set xs. x \<noteq> [] \<Longrightarrow> xs = []"
  by (induction sep xs rule: join.induct) auto

text \<open>
  Writing an array of values through array notation, \<open>k[].q\<close> with any plain keys after it, makes
  one object per value; reading the same source gives a new array with exactly the values written,
  in their order.
\<close>

theorem array_write_read:
  assumes keys: "simple_key k" "\<forall>q \<in> set qs. simple_key q" "qs \<noteq> []"
    and obj: "a < length h" "\<not> is_vector (heap_at h a)"
    and vals: "b < length h" "vector_length h (VRef b) = Some n"
  shows "\<exists>h'. setData call h (VRef a) (VRef b) (join [46] ((k @ [91, 93]) # qs)) = Inr h' \<and>
    fetchData call rt h' (VRef a) (join [46] ((k @ [91, 93]) # qs)) =
      Inr (VRef (length h'), h' @ [new_vector (map (\<lambda>j. own (heap_at h b) (digits_of j)) [0..<n])])"
proof -
  have ab: "b \<noteq> a" using obj(2) vals(2) by (auto simp: vector_length_def is_vector_def split: kind.splits)
  have k91: "91 \<notin> set k" "k \<noteq> []" using keys(1) by (simp_all add: simple_key_def)
  have split: "splitObjNotation (join [46] qs) = qs" using keys(2,3) by (rule split_simple [rotated])
  have pq: "\<forall>q \<in> set qs. plain_key q" using keys(2) by (auto simp: simple_key_def intro: plain_keyI)
  have ne: "join [46] qs \<noteq> []" using join_eq_Nil [of "[46]" qs] keys(2,3) by (auto simp: simple_key_def)
  define arr where "arr = length h"
  define h2 where "h2 = (h @ [new_vector []])[a := put_own (heap_at h a) k (VRef arr)]"
  have at2: "heap_at h2 c = (if c = a then put_own (heap_at h a) k (VRef arr) else if c = arr then new_vector [] else heap_at h c)" for c
    using obj(1) by (auto simp: h2_def arr_def)
  have own2: "own (heap_at h2 a) k = VRef arr" using obj(2) by (simp add: at2 own_put_own)
  have bounds: "a < length h2" "arr < length h2" "b < length h2" "a \<noteq> arr" "b \<noteq> arr" "heap_at h2 arr = new_vector []"
    using obj vals at2 [of arr] by (simp_all add: h2_def arr_def)
  have b2: "heap_at h2 b = heap_at h b" using ab bounds by (simp add: at2)
  from set_elems_fresh [OF own2 bounds(6,1,2,3,4,5) keys(3) pq split, of call 0 n rt] obtain h' ps where
    h': "set_elems call h2 (VRef a) k (VRef b) 0 n (join [46] qs) = Inr h'" "length ps = n" "length h2 \<le> length h'"
      "same_at ({..<length h2} - {arr}) h2 h'" "heap_at h' arr = new_vector ps"
    and rd: "\<And>g i. same_at {length h2..<length h'} h' g \<Longrightarrow> i < n \<Longrightarrow> fetch_parts call rt g (ps ! i) qs = Inr (own (heap_at h b) (digits_of i), g)"
    by (auto simp: b2)
  have slot: "slot (h @ [new_vector []]) a k" using obj by (simp add: slot_def)
  have len_b: "vector_length h2 (VRef b) = Some n" using vals(2) b2 by (simp add: vector_length_def)
  have "set_parts call h (VRef a) (VRef b) ((k @ [91, 93]) # qs) = Inr h'"
    using keys(3) k91(1) slot h'(1) len_b obj(1)
    by (cases qs) (simp_all add: set_parts.simps(3) reArray_suffix strip_array_suffix alloc_def put_v_slot
        arr_def [symmetric] h2_def [symmetric])
  then have set': "setData call h (VRef a) (VRef b) (join [46] ((k @ [91, 93]) # qs)) = Inr h'"
    by (simp only: setData.simps split_array_source [OF keys(1,2)])
  have own': "own (heap_at h' a) k = VRef arr" using h'(4) own2 bounds by (simp add: same_at_def)
  have "fetch_elems call rt h' (VRef arr) 0 n (join [46] qs) = Inr (map (\<lambda>j. own (heap_at h b) (digits_of j)) [0..<n], h')"
    using rd [of h'] h'(2,5) by (intro fetch_elems_pure split ne) (simp add: own_new_vector same_at_def)
  then have "fetch_parts call rt h' (VRef a) ((k @ [91, 93]) # qs) =
      Inr (VRef (length h'), h' @ [new_vector (map (\<lambda>j. own (heap_at h b) (digits_of j)) [0..<n])])"
    using k91 own' h'(2,5)
    by (simp add: fetch_parts.simps(2) reArray_suffix strip_array_suffix get_v_def array_out_def alloc_def)
  moreover have "join [46] ((k @ [91, 93]) # qs) \<noteq> []" by (cases qs) simp_all
  ultimately show ?thesis
    using set' by (simp only: fetchData.simps split_array_source [OF keys(1,2)]) simp
qed

theorem array_write_read_witness:
  "\<exists>h'. setData (\<lambda>_ _ _ _. Inl TypeError) [new_object, new_vector [VNum 3, VNum 5]] (VRef 0) (VRef 1) (join [46] [u ''list'' @ [91, 93], u ''id'']) = Inr h' \<and>
     fetchData (\<lambda>_ _ _ _. Inl TypeError) (\<lambda>_ _. []) h' (VRef 0) (join [46] [u ''list'' @ [91, 93], u ''id'']) =
       Inr (VRef (length h'), h' @ [new_vector [VNum 3, VNum 5]])"
proof -
  have keys: "simple_key (u ''list'')" "\<forall>q \<in> set [u ''id'']. simple_key q" by code_simp+
  have at: "heap_at [new_object, new_vector [VNum 3, VNum 5]] 1 = new_vector [VNum 3, VNum 5]" by (simp add: heap_at_def)
  have obj: "\<not> is_vector (heap_at [new_object, new_vector [VNum 3, VNum 5]] 0)" by (simp add: heap_at_def)
  have len: "vector_length [new_object, new_vector [VNum 3, VNum 5]] (VRef 1) = Some 2"
    using vector_length_new_vector [OF at] by simp
  have vals: "map (\<lambda>j. own (new_vector [VNum 3, VNum 5]) (digits_of j)) [0..<2] = [VNum 3, VNum 5]" by code_simp
  show ?thesis
    using array_write_read [OF keys _ _ obj _ len, of "\<lambda>_ _ _ _. Inl TypeError" "\<lambda>_ _. []", unfolded at vals] by simp
qed


subsection \<open>Where the notation does not do what it says\<close>

lemma fetch_parts_array:
  "reArray p = Some m \<Longrightarrow> join [46] ps = join [46] qs \<Longrightarrow>
    fetch_parts call rt h data (p # ps) = fetch_parts call rt h data (p # qs)"
  by (simp add: fetch_parts.simps(2) split: sum.splits option.splits)

lemma simple_escape: "simple_key a \<Longrightarrow> simple_key b \<Longrightarrow> escape_key (a @ [46] @ b) = a @ [92, 46] @ b"
  using escape_key_id [of a] escape_key_id [of b] by (simp add: escape_key_def simple_key_def)

text \<open>
  After array notation an escaped period is lost: the rest of the source is joined again without
  the escapes, so \<open>k[].a\.b\<close>, which names the property \<open>a.b\<close> of each element, reads the property \<open>b\<close> of
  the property \<open>a\<close>, as \<open>k[].a.b\<close> does, in every store.
\<close>

theorem inner_escape_lost:
  assumes "simple_key k" and "simple_key a" and "simple_key b"
  shows "fetchData call rt h data (join [46] [k @ [91, 93], a @ [92, 46] @ b]) =
    fetchData call rt h data (join [46] [k @ [91, 93], a, b])"
proof -
  have "escape_key (k @ [91, 93]) = k @ [91, 93]" using assms(1) by (intro escape_key_id) (simp add: simple_key_def)
  with simple_escape [OF assms(2,3)] have "[k @ [91, 93], a @ [92, 46] @ b] = map escape_key [k @ [91, 93], a @ [46] @ b]"
    by simp
  moreover have "splitObjNotation (join [46] (map escape_key [k @ [91, 93], a @ [46] @ b])) = [k @ [91, 93], a @ [46] @ b]"
    by (rule split_escaped) (use assms in \<open>auto simp: simple_key_def\<close>)
  ultimately have "splitObjNotation (join [46] [k @ [91, 93], a @ [92, 46] @ b]) = [k @ [91, 93], a @ [46] @ b]" by simp
  moreover have "splitObjNotation (join [46] [k @ [91, 93], a, b]) = [k @ [91, 93], a, b]"
    using split_array_source [of k "[a, b]"] assms by simp
  moreover have "fetch_parts call rt h data [k @ [91, 93], a @ [46] @ b] = fetch_parts call rt h data [k @ [91, 93], a, b]"
    by (rule fetch_parts_array [OF reArray_suffix]) (use assms in \<open>simp_all add: simple_key_def\<close>)
  ultimately show ?thesis by (simp add: fetchData.simps)
qed

theorem inner_escape_lost_witness:
  "fetchData (\<lambda>_ _ _ _. Inl TypeError) (\<lambda>_ _. []) [put_own new_object (u ''k'') (VRef 1), new_vector [VRef 2], put_own new_object (u ''a.b'') (VNum 1)]
       (VRef 0) (join [46] [u ''k'' @ [91, 93], u ''a'' @ [92, 46] @ u ''b'']) =
   fetchData (\<lambda>_ _ _ _. Inl TypeError) (\<lambda>_ _. []) [put_own new_object (u ''k'') (VRef 1), new_vector [VRef 2], put_own new_object (u ''a.b'') (VNum 1)]
       (VRef 0) (join [46] [u ''k'' @ [91, 93], u ''a'', u ''b''])"
  by (rule inner_escape_lost) code_simp+

lemma null_parent_raises:
  assumes "simple_key x" and "simple_key k" and "own (heap_at h a) x = VNull"
  shows "fetchData call rt h (VRef a) (join [46] [x, k @ [91, 93]]) = Inl TypeError"
    and "fetchData call rt h (VRef a) (join [46] [x, k]) = Inr (VUndef, h)"
proof -
  have px: "plain_key x" and pk: "plain_key k" using assms by (auto simp: simple_key_def intro: plain_keyI)
  have "splitObjNotation (join [46] [x, k @ [91, 93]]) = [x, k @ [91, 93]]"
    by (rule split_simple_keys) (use assms in \<open>auto simp: simple_key_def\<close>)
  moreover have "fetch_parts call rt h (VRef a) [x, k @ [91, 93]] = Inl TypeError"
    using assms px by (simp add: fetch_parts_step) (simp add: fetch_parts.simps(2) reArray_suffix strip_array_suffix simple_key_def get_v_def)
  ultimately show "fetchData call rt h (VRef a) (join [46] [x, k @ [91, 93]]) = Inl TypeError"
    by (simp add: fetchData.simps)
  have "splitObjNotation (join [46] [x, k]) = [x, k]"
    by (rule split_simple) (use assms in auto)
  moreover have "fetch_parts call rt h (VRef a) [x, k] = Inr (VUndef, h)"
    using assms px pk by (simp add: fetch_parts_step) (simp add: fetch_parts.simps(2) plain_key_def)
  ultimately show "fetchData call rt h (VRef a) (join [46] [x, k]) = Inr (VUndef, h)"
    by (simp add: fetchData.simps)
qed


lemma reFn_suffix: "reFn (f @ [40, 41])" "strip_fn (f @ [40, 41]) = f"
  by (simp_all add: reFn_def strip_fn_def suffix_def)

text \<open>
  Function notation reads and writes different places. Where \<open>f\<close> is a function of the data that
  returns an object, \<open>f().p\<close> reads the property \<open>p\<close> of that object; but a write makes a new object,
  puts it under the name \<open>f\<close> into what the function returned and stores the value there, so the
  property that is read keeps its old value.
\<close>

theorem fn_source_set_elsewhere:
  assumes keys: "simple_key f" "simple_key p" "f \<noteq> p"
    and fn: "own (heap_at h a) f = VRef m" "o_kind (heap_at h m) = Callable"
    and call: "call m (VRef a) [] = (\<lambda>g. Inr (VRef d, g))" "call m (VRef a) [val] = (\<lambda>g. Inr (VRef d, g))"
    and ret: "d < length h" "d \<noteq> a" "own (heap_at h d) f = VUndef" "\<not> is_vector (heap_at h d)"
  shows "\<exists>h'. setData call h (VRef a) val (join [46] [f @ [40, 41], p]) = Inr h' \<and>
    own (heap_at h' (length h)) p = val \<and>
    fetchData call rt h' (VRef a) (join [46] [f @ [40, 41], p]) = Inr (own (heap_at h d) p, h')"
proof -
  have pp: "plain_key p" using keys by (auto simp: simple_key_def intro: plain_keyI)
  have noarr: "reArray (f @ [40, 41]) = None" using keys(1) by (intro reArray_None) (simp add: simple_key_def)
  have split: "splitObjNotation (join [46] [f @ [40, 41], p]) = [f @ [40, 41], p]"
    by (rule split_simple_keys) (use keys in \<open>auto simp: simple_key_def\<close>)
  define h3 where "h3 = (h @ [new_object])[d := put_own (heap_at h d) f (VRef (length h))]"
  define h' where "h' = h3[length h := put_own new_object p val]"
  have at3: "heap_at h3 c = (if c = d then put_own (heap_at h d) f (VRef (length h)) else if c = length h then new_object else heap_at h c)" for c
    using ret(1) by (auto simp: h3_def)
  have at': "heap_at h' c = (if c = length h then put_own new_object p val else heap_at h3 c)" for c
    by (auto simp: h'_def h3_def)
  have d: "length h \<noteq> d" "m < length h" "a < length h"
    using ret(1) fn by (auto simp: heap_at_def new_object_def own_def split: if_splits)
  have slots: "slot (h @ [new_object]) d f" "slot h3 (length h) p"
    using ret d(1) by (simp_all add: slot_def at3)
  have own3: "own (heap_at h3 d) f = VRef (length h)" using ret(4) by (simp add: at3 own_put_own)
  have m: "m \<noteq> d \<or> o_kind (heap_at h3 m) = Callable" "o_kind (heap_at h' m) = Callable"
    using fn(2) d at3 at' ret(1) by (auto simp: put_own_def)
  have call1: "call_method call h (VRef a) f [val] = Inr (VRef d, h)"
    using fn call(2) by (simp add: call_method_def get_v_def)
  have call2: "call_method call h' (VRef a) f [] = Inr (VRef d, h')"
    using fn call(1) m(2) ret(2) d by (simp add: call_method_def get_v_def at' at3)
  have "set_parts call h (VRef a) val [f @ [40, 41], p] = Inr h'"
    using call1 slots own3 pp ret(1,3) d
    by (simp add: set_parts.simps(3) noarr reFn_suffix get_v_def alloc_def put_v_slot set_parts_last at3
        h3_def [symmetric] h'_def [symmetric])
  moreover have "fetch_parts call rt h' (VRef a) [f @ [40, 41], p] = Inr (own (heap_at h d) p, h')"
    using call2 keys(3) ret(4) d by (simp add: fetch_parts.simps(2) [of _ _ _ _ "f @ [40, 41]"] noarr reFn_suffix fetch_parts_last pp at' at3 own_put_own)
  ultimately show ?thesis
    using split by (intro exI [of _ h']) (simp add: setData.simps fetchData.simps at' own_put_own)
qed

definition demo_fn_heap :: heap where
  "demo_fn_heap = [put_own new_object (u ''f'') (VRef 1), \<lparr>o_kind = Callable, o_props = []\<rparr>, put_own new_object (u ''p'') (VNum 1)]"

theorem fn_source_set_elsewhere_witness:
  "\<exists>h'. setData (\<lambda>_ _ _ g. Inr (VRef 2, g)) demo_fn_heap (VRef 0) (VNum 9) (join [46] [u ''f'' @ [40, 41], u ''p'']) = Inr h' \<and>
    own (heap_at h' (length demo_fn_heap)) (u ''p'') = VNum 9 \<and>
    fetchData (\<lambda>_ _ _ g. Inr (VRef 2, g)) (\<lambda>_ _. []) h' (VRef 0) (join [46] [u ''f'' @ [40, 41], u ''p'']) = Inr (VNum 1, h')"
proof -
  have p1: "own (heap_at demo_fn_heap 2) (u ''p'') = VNum 1" by code_simp
  show ?thesis
    unfolding p1 [symmetric]
  proof (rule fn_source_set_elsewhere)
    show "own (heap_at demo_fn_heap 0) (u ''f'') = VRef 1" by code_simp
  qed ((rule HOL.refl | code_simp)+)
qed

end
