(* ===== verification/DT_Markup.thy ===== *)
theory DT_Markup
  imports DT_Data
begin

text \<open>
  Reading a table that is already in the page (\<open>plugins/datatables-new/datatables.js\<close>): the data
  object that \<open>_fnGetRowElements\<close> builds from the cells of a row.
\<close>

subsection \<open>Rows of the document\<close>

record cell =
  innerHTML :: ustr
  attributes :: "(ustr \<times> ustr) list"

datatype child = Cell cell | Other_node

text \<open>
  The argument is either a \<open>tr\<close> element with its children and attributes, or the table's own record of
  a row: its cells and, once it was drawn, the attributes of its element.
\<close>

datatype row_in = Tr "child list" "(ustr \<times> ustr) list" | Row_object "cell list" "(ustr \<times> ustr) list option"

text \<open>\<open>attrTest\<close> and \<open>_bAttrSrc\<close> of \<open>_fnColumnOptions\<close>, and its \<open>_rowReadObject\<close> over all columns.\<close>

definition attrTest :: "data_src option \<Rightarrow> bool" where
  "attrTest src = (case src of Some (Text_source s) \<Rightarrow> 64 \<in> set s | _ \<Rightarrow> False)"

definition bAttrSrc :: "hcolumn \<Rightarrow> bool" where
  "bAttrSrc col =
     (case mData col of
        By_type ps \<Rightarrow> attrTest (map_of ps (u ''sort'')) \<or> attrTest (map_of ps (u ''type'')) \<or> attrTest (map_of ps (u ''filter''))
      | _ \<Rightarrow> False)"

definition rowReadObject :: "hcolumn list \<Rightarrow> bool" where
  "rowReadObject cols = list_ex (\<lambda>col. case mData col of Num_source _ \<Rightarrow> False | _ \<Rightarrow> True) cols"

definition getAttribute :: "(ustr \<times> ustr) list \<Rightarrow> ustr \<Rightarrow> hval" where
  "getAttribute as k = (case map_of as k of None \<Rightarrow> VNull | Some v \<Rightarrow> VStr v)"

text \<open>The inner function \<open>attr\<close>: what follows the first \<open>@\<close> of a text source names the attribute.\<close>

definition read_attr :: "calls \<Rightarrow> user_fns \<Rightarrow> hval \<Rightarrow> data_src option \<Rightarrow> cell \<Rightarrow> heap \<Rightarrow> heap js_result" where
  "read_attr call user d src td h =
     (case src of
        Some (Text_source s) \<Rightarrow>
          if 64 \<in> set s
          then setObjectDataFn call user (Text_source s) h d (getAttribute (attributes td) (tl (dropWhile (\<lambda>c. c \<noteq> 64) s))) None
          else Inr h
      | _ \<Rightarrow> Inr h)"

text \<open>\<open>cellProcess\<close>; \<open>i\<close> counts the cells. A cell beyond the last column has no column object.\<close>

definition source_at :: "(ustr \<times> data_src) list \<Rightarrow> string \<Rightarrow> data_src" where
  "source_at ps k = (case map_of ps (u k) of None \<Rightarrow> No_source | Some s \<Rightarrow> s)"

definition cellProcess ::
    "calls \<Rightarrow> user_fns \<Rightarrow> hcolumn list \<Rightarrow> bool \<Rightarrow> nat option \<Rightarrow> hval \<Rightarrow> nat \<Rightarrow> cell \<Rightarrow> heap \<Rightarrow> heap js_result" where
  "cellProcess call user cols objectRead colIdx d i c h =
     (if colIdx = None \<or> colIdx = Some i then
        (let contents = VStr (js_trim (innerHTML c)) in
         if i < length cols \<and> bAttrSrc (cols ! i) then
           (case mData (cols ! i) of
              By_type ps \<Rightarrow>
                js_bind (setObjectDataFn call user (source_at ps ''_'') h d contents None) (\<lambda>h.
                js_bind (read_attr call user d (map_of ps (u ''sort'')) c h) (\<lambda>h.
                js_bind (read_attr call user d (map_of ps (u ''type'')) c h) (\<lambda>h.
                read_attr call user d (map_of ps (u ''filter'')) c h)))
            | _ \<Rightarrow> Inr h)
         else if objectRead then
           (if i < length cols then setObjectDataFn call user (mData (cols ! i)) h d contents None else Inl TypeError)
         else put_v h d (digits_of i) contents)
      else Inr h)"

fun process_cells ::
    "calls \<Rightarrow> user_fns \<Rightarrow> hcolumn list \<Rightarrow> bool \<Rightarrow> nat option \<Rightarrow> hval \<Rightarrow> nat \<Rightarrow> cell list \<Rightarrow> heap \<Rightarrow> heap js_result" where
  "process_cells call user cols objectRead colIdx d i [] h = Inr h"
| "process_cells call user cols objectRead colIdx d i (c # cs) h =
     js_bind (cellProcess call user cols objectRead colIdx d i c h) (process_cells call user cols objectRead colIdx d (Suc i) cs)"

fun td_cells :: "child list \<Rightarrow> cell list" where
  "td_cells [] = []"
| "td_cells (Cell c # ns) = c # td_cells ns"
| "td_cells (Other_node # ns) = td_cells ns"

text \<open>
  \<open>_fnGetRowElements\<close>. A \<open>tr\<close> element without children is taken for a row object and has no cells to
  read. The result is the data, the cells and the store.
\<close>

definition row_cells :: "row_in \<Rightarrow> cell list js_result" where
  "row_cells row = (case row of Tr [] _ \<Rightarrow> Inl TypeError | Tr ns _ \<Rightarrow> Inr (td_cells ns) | Row_object cs _ \<Rightarrow> Inr cs)"

definition row_attributes :: "row_in \<Rightarrow> (ustr \<times> ustr) list option" where
  "row_attributes row = (case row of Tr [] _ \<Rightarrow> None | Tr _ as \<Rightarrow> Some as | Row_object _ as \<Rightarrow> as)"

definition read_id :: "calls \<Rightarrow> user_fns \<Rightarrow> data_src \<Rightarrow> hval \<Rightarrow> row_in \<Rightarrow> heap \<Rightarrow> heap js_result" where
  "read_id call user rowId d row h =
     (case row_attributes row of
        None \<Rightarrow> Inr h
      | Some as \<Rightarrow>
          (case map_of as (u ''id'') of
             None \<Rightarrow> Inr h
           | Some v \<Rightarrow> if v = [] then Inr h else setObjectDataFn call user rowId h d (VStr v) None))"

definition getRowElements ::
    "calls \<Rightarrow> user_fns \<Rightarrow> hcolumn list \<Rightarrow> data_src \<Rightarrow> row_in \<Rightarrow> nat option \<Rightarrow> hval option \<Rightarrow> heap \<Rightarrow> (hval \<times> cell list \<times> heap) js_result" where
  "getRowElements call user cols rowId row colIdx d0 h =
     (let objectRead = rowReadObject cols;
          (d, h) = (case d0 of
                      Some d \<Rightarrow> (d, h)
                    | None \<Rightarrow> (let (a, h') = alloc (if objectRead then new_object else new_vector []) h in (VRef a, h'))) in
      js_bind (row_cells row) (\<lambda>tds.
      js_bind (process_cells call user cols objectRead colIdx d 0 tds h) (\<lambda>h.
      js_bind (read_id call user rowId d row h) (\<lambda>h. Inr (d, tds, h)))))"


subsection \<open>What is read can be found again\<close>

text \<open>
  The key under which the text of the \<open>i\<close>-th cell is kept: the column's own, or its index when all
  columns are named by numbers.
\<close>

definition cell_key :: "hcolumn list \<Rightarrow> nat \<Rightarrow> ustr" where
  "cell_key cols i = (if rowReadObject cols then hd (src_keys (mData (cols ! i))) else digits_of i)"

definition flat_columns :: "hcolumn list \<Rightarrow> bool" where
  "flat_columns cols \<longleftrightarrow>
     list_all (\<lambda>i. src_keys (mData (cols ! i)) = [cell_key cols i] \<and> plain_key (cell_key cols i)) [0..<length cols] \<and>
     distinct (map (cell_key cols) [0..<length cols])"

lemma flat_columns_key:
  assumes "flat_columns cols" and "i < length cols"
  shows "src_keys (mData (cols ! i)) = [cell_key cols i]" and "plain_key (cell_key cols i)"
  using assms by (simp_all add: flat_columns_def list_all_iff)

lemma flat_columns_inj: "flat_columns cols \<Longrightarrow> inj_on (cell_key cols) {0..<length cols}"
  by (simp add: flat_columns_def distinct_map)

lemma not_bAttrSrc: "src_keys (mData col) \<noteq> [] \<Longrightarrow> \<not> bAttrSrc col"
  by (cases "mData col") (simp_all add: bAttrSrc_def)

lemma cellProcess_flat:
  assumes "flat_columns cols" and "i < length cols"
  shows "cellProcess call user cols (rowReadObject cols) None (VRef a) i c h = put_v h (VRef a) (cell_key cols i) (VStr (js_trim (innerHTML c)))"
  using assms flat_columns_key [OF assms] not_bAttrSrc [of "cols ! i"]
  by (simp add: cellProcess_def Let_def set_by_keys set_parts_last) (simp add: cell_key_def)

lemma process_cells_flat:
  assumes "flat_columns cols" and "i + length cs \<le> length cols" and "a < length h"
    and "is_vector (heap_at h a) \<Longrightarrow> \<not> rowReadObject cols"
  shows "\<exists>h'. process_cells call user cols (rowReadObject cols) None (VRef a) i cs h = Inr h' \<and> length h' = length h \<and>
    is_vector (heap_at h' a) = is_vector (heap_at h a) \<and>
    (\<forall>j < length cs. own (heap_at h' a) (cell_key cols (i + j)) = VStr (js_trim (innerHTML (cs ! j)))) \<and>
    (\<forall>k. slot h a k \<longrightarrow> k \<notin> cell_key cols ` {i..<i + length cs} \<longrightarrow> own (heap_at h' a) k = own (heap_at h a) k)"
  using assms
proof (induction cs arbitrary: i h)
  case (Cons c cs)
  define k where "k = cell_key cols i"
  define x where "x = VStr (js_trim (innerHTML c))"
  define g where "g = h[a := put_own (heap_at h a) k x]"
  have i: "i < length cols" using Cons.prems(2) by simp
  have sl: "slot h a k" using Cons.prems(4) by (auto simp: slot_def k_def cell_key_def)
  have step: "cellProcess call user cols (rowReadObject cols) None (VRef a) i c h = Inr g"
    using cellProcess_flat [OF Cons.prems(1) i] put_v_slot [OF sl] by (simp add: g_def k_def x_def)
  have g: "length g = length h" "is_vector (heap_at g a) = is_vector (heap_at h a)"
    and own_g: "slot h a k' \<Longrightarrow> own (heap_at g a) k' = (if k' = k then x else own (heap_at h a) k')" for k'
    using Cons.prems(3) by (simp_all add: g_def own_put_own slot_def)
  have pre: "Suc i + length cs \<le> length cols" "a < length g" "is_vector (heap_at g a) \<Longrightarrow> \<not> rowReadObject cols"
    using Cons.prems g by auto
  obtain h' where h': "process_cells call user cols (rowReadObject cols) None (VRef a) (Suc i) cs g = Inr h'" "length h' = length g"
      "is_vector (heap_at h' a) = is_vector (heap_at g a)"
    and rd: "\<And>j. j < length cs \<Longrightarrow> own (heap_at h' a) (cell_key cols (Suc i + j)) = VStr (js_trim (innerHTML (cs ! j)))"
    and keep: "\<And>k. slot g a k \<Longrightarrow> k \<notin> cell_key cols ` {Suc i..<Suc i + length cs} \<Longrightarrow> own (heap_at h' a) k = own (heap_at g a) k"
    using Cons.IH [OF Cons.prems(1) pre] by blast
  have sg: "slot g a k' = slot h a k'" for k' using g(2) by (simp add: slot_def)
  have "k \<notin> cell_key cols ` {Suc i..<Suc i + length cs}"
  proof
    assume "k \<in> cell_key cols ` {Suc i..<Suc i + length cs}"
    then obtain j where "j \<in> {Suc i..<Suc i + length cs}" "cell_key cols j = cell_key cols i" by (auto simp: k_def)
    with inj_onD [OF flat_columns_inj [OF Cons.prems(1)], of j i] i Cons.prems(2) show False by simp
  qed
  then have "own (heap_at h' a) k = x" using keep [of k] sl own_g [OF sl] sg by simp
  then have reads: "own (heap_at h' a) (cell_key cols (i + j)) = VStr (js_trim (innerHTML ((c # cs) ! j)))" if "j < length (c # cs)" for j
    using that rd [of "j - 1"] by (cases j) (simp_all add: k_def x_def)
  have "own (heap_at h' a) k' = own (heap_at h a) k'" if "slot h a k'" "k' \<notin> cell_key cols ` {i..<i + length (c # cs)}" for k'
  proof -
    have "{i..<i + length (c # cs)} = insert i {Suc i..<Suc i + length cs}" by auto
    with that(2) have "k' \<noteq> k" "k' \<notin> cell_key cols ` {Suc i..<Suc i + length cs}" by (simp_all add: k_def)
    with that(1) keep [of k'] own_g [of k'] sg show ?thesis by simp
  qed
  with reads show ?case using step h' g by auto
qed auto


definition plain_id :: "hcolumn list \<Rightarrow> data_src \<Rightarrow> bool" where
  "plain_id cols rowId \<longleftrightarrow> (\<exists>k. src_keys rowId = [k] \<and> plain_key k \<and> k \<noteq> key_length \<and> k \<notin> cell_key cols ` {0..<length cols})"

lemma read_id_flat:
  assumes "plain_id cols rowId" and "a < length h"
  shows "\<exists>h'. read_id call user rowId (VRef a) row h = Inr h' \<and> is_vector (heap_at h' a) = is_vector (heap_at h a) \<and>
    (\<forall>k \<in> cell_key cols ` {0..<length cols}. slot h a k \<longrightarrow> own (heap_at h' a) k = own (heap_at h a) k)"
proof -
  from assms(1) obtain k where k: "src_keys rowId = [k]" "plain_key k" "k \<noteq> key_length" "k \<notin> cell_key cols ` {0..<length cols}"
    by (auto simp: plain_id_def)
  have "setObjectDataFn call user rowId h (VRef a) v None = Inr (h[a := put_own (heap_at h a) k v])" for v
    using k by (simp add: set_by_keys set_parts_last put_v_slot slot_def)
  then show ?thesis
    using k(4) assms(2) by (auto simp: read_id_def own_put_own slot_def split: option.splits)
qed


definition demo_row :: row_in where
  "demo_row = Tr [Other_node, Cell \<lparr>innerHTML = u '' x '', attributes = []\<rparr>, Cell \<lparr>innerHTML = u ''y'', attributes = []\<rparr>] [(u ''id'', u ''r1'')]"

definition demo_flat :: "hcolumn list" where
  "demo_flat = [\<lparr>mData = Text_source (u ''name''), mRender = No_source\<rparr>, \<lparr>mData = Num_source 1, mRender = No_source\<rparr>]"


text \<open>A row with more cells than the table has columns raises an error when the data are objects.\<close>

lemma extra_cell_raises:
  assumes "flat_columns cols" and "rowReadObject cols" and "length cols < length tds" and "row_cells row = Inr tds"
  shows "getRowElements call user cols rowId row None None h = Inl TypeError"
proof -
  define n where "n = length cols"
  have split: "process_cells call user cols r None d i (xs @ ys) g =
      js_bind (process_cells call user cols r None d i xs g) (process_cells call user cols r None d (i + length xs) ys)" for r d i xs ys g
  proof (induction xs arbitrary: i g)
    case (Cons x xs)
    then show ?case by (cases "cellProcess call user cols r None d i x g") simp_all
  qed simp
  obtain c cs where tds: "tds = take n tds @ c # cs"
    using assms(3) id_take_nth_drop [of n tds] by (auto simp: n_def)
  have "\<exists>h'. process_cells call user cols True None (VRef (length h)) 0 (take n tds) (h @ [new_object]) = Inr h'"
    using process_cells_flat [OF assms(1), of 0 "take n tds" "length h" "h @ [new_object]" call user] assms(2,3)
    by (auto simp: n_def)
  then obtain h' where "process_cells call user cols True None (VRef (length h)) 0 (take n tds) (h @ [new_object]) = Inr h'" ..
  moreover have "length (take n tds) = length cols" using assms(3) by (simp add: n_def)
  ultimately have "process_cells call user cols True None (VRef (length h)) 0 tds (h @ [new_object]) = Inl TypeError"
    by (subst tds) (simp only: split, simp add: cellProcess_def)
  then show ?thesis using assms(2,4) by (simp add: getRowElements_def alloc_def Let_def)
qed

end
