(* ===== verification/DT_Header.thy ===== *)
theory DT_Header
  imports Prelude
begin

text \<open>
  The header of a table in DataTables (\<open>plugins/datatables-new/datatables.js\<close>): the layout grid that
  \<open>_fnDetectHeader\<close> makes of header cells with row and column spans, the header that \<open>_fnDrawHead\<close>
  draws from the grid without the hidden columns, and \<open>_fnGetUniqueThs\<close>.
\<close>

subsection \<open>The layout grid\<close>

text \<open>
  An entry names the cell that covers the place and whether it covers one column only. A row of the
  grid may have holes (None) and refers to an element \<open>tr\<close> by its number.
\<close>

record entry =
  hc :: nat
  hu :: bool

record lrow =
  l_cells :: "entry option list"
  l_tr :: "nat option"

definition entry_at :: "'a option list \<Rightarrow> nat \<Rightarrow> 'a option" where
  "entry_at xs j = (if j < length xs then xs ! j else None)"

definition write_at :: "nat \<Rightarrow> 'a \<Rightarrow> 'a option list \<Rightarrow> 'a option list" where
  "write_at j v xs = (if j < length xs then xs[j := Some v] else xs @ replicate (j - length xs) None @ [Some v])"

text \<open>A header cell with its attributes \<open>colspan\<close> and \<open>rowspan\<close> as numbers (None is not a number).\<close>

record hcell =
  h_cell :: nat
  h_colspan :: "int option"
  h_rowspan :: "int option"

definition sanitise :: "int option \<Rightarrow> int" where
  "sanitise n = (case n of None \<Rightarrow> 1 | Some k \<Rightarrow> if k = 0 \<or> k = 1 then 1 else k)"

text \<open>\<open>fnShiftCol\<close>.\<close>

function shiftCol :: "entry option list \<Rightarrow> nat \<Rightarrow> nat" where
  "shiftCol k j = (if j < length k \<and> k ! j \<noteq> None then shiftCol k (Suc j) else j)"
  by pat_completeness auto
termination
  by (relation "measure (\<lambda>(k, j). length k - j)") auto

declare shiftCol.simps [simp del]

text \<open>The two loops that copy a cell into the grid; a row span beyond the last row raises an error.\<close>

definition put_entry :: "nat \<Rightarrow> nat \<Rightarrow> entry \<Rightarrow> nat \<Rightarrow> lrow list \<Rightarrow> lrow list js_result" where
  "put_entry x y e i lay =
     (if x < length lay
      then Inr (lay[x := (lay ! x)\<lparr>l_cells := write_at y e (l_cells (lay ! x)), l_tr := Some i\<rparr>])
      else Inl TypeError)"

fun fill_down :: "nat list \<Rightarrow> nat \<Rightarrow> entry \<Rightarrow> nat \<Rightarrow> lrow list \<Rightarrow> lrow list js_result" where
  "fill_down [] y e i lay = Inr lay"
| "fill_down (k # ks) y e i lay = js_bind (put_entry (i + k) y e i lay) (fill_down ks y e i)"

fun fill_right :: "nat list \<Rightarrow> nat list \<Rightarrow> nat \<Rightarrow> entry \<Rightarrow> nat \<Rightarrow> lrow list \<Rightarrow> lrow list js_result" where
  "fill_right [] ks y e i lay = Inr lay"
| "fill_right (l # ls) ks y e i lay = js_bind (fill_down ks (y + l) e i lay) (fill_right ls ks y e i)"

fun detect_cells :: "nat \<Rightarrow> hcell list \<Rightarrow> lrow list \<Rightarrow> lrow list js_result" where
  "detect_cells i [] lay = Inr lay"
| "detect_cells i (c # cs) lay =
     (let iColspan = sanitise (h_colspan c); iRowspan = sanitise (h_rowspan c);
          iColShifted = shiftCol (l_cells (lay ! i)) 0 in
      js_bind (fill_right [0..<nat iColspan] [0..<nat iRowspan] iColShifted \<lparr>hc = h_cell c, hu = (iColspan = 1)\<rparr> i lay)
        (detect_cells i cs))"

fun detect_rows :: "nat \<Rightarrow> hcell list list \<Rightarrow> lrow list \<Rightarrow> lrow list js_result" where
  "detect_rows i [] lay = Inr lay"
| "detect_rows i (r # rs) lay = js_bind (detect_cells i r lay) (detect_rows (Suc i) rs)"

definition detectHeader :: "hcell list list \<Rightarrow> lrow list js_result" where
  "detectHeader trs = detect_rows 0 trs (replicate (length trs) \<lparr>l_cells = [], l_tr = None\<rparr>)"

text \<open>\<open>_fnGetUniqueThs\<close> for a given layout; a hole in the grid raises an error.\<close>

fun unique_row :: "bool \<Rightarrow> nat \<Rightarrow> entry option list \<Rightarrow> nat option list \<Rightarrow> nat option list js_result" where
  "unique_row first j [] ret = Inr ret"
| "unique_row first j (None # es) ret = Inl TypeError"
| "unique_row first j (Some e # es) ret =
     unique_row first (Suc j) es (if hu e \<and> (entry_at ret j = None \<or> \<not> first) then write_at j (hc e) ret else ret)"

fun unique_rows :: "bool \<Rightarrow> lrow list \<Rightarrow> nat option list \<Rightarrow> nat option list js_result" where
  "unique_rows first [] ret = Inr ret"
| "unique_rows first (r # rs) ret = js_bind (unique_row first 0 (l_cells r) ret) (unique_rows first rs)"

definition getUniqueThs :: "bool \<Rightarrow> lrow list \<Rightarrow> nat option list js_result" where
  "getUniqueThs bSortCellsTop aLayout = unique_rows bSortCellsTop aLayout []"

subsection \<open>Drawing the header\<close>

text \<open>The columns that are hidden are spliced out from the right.\<close>

fun remove_hidden :: "bool list \<Rightarrow> nat \<Rightarrow> 'a list \<Rightarrow> 'a list" where
  "remove_hidden vis 0 xs = xs"
| "remove_hidden vis (Suc j) xs = remove_hidden vis j (if vis ! j then xs else take j xs @ drop (Suc j) xs)"

text \<open>
  The header element: the cells in each \<open>tr\<close>, the spans set so far, and the places of the grid that
  are covered (\<open>aApplied\<close>).
\<close>

record head =
  tr_cells :: "nat list list"
  spans :: "(nat \<times> nat \<times> nat) list"
  applied :: "(nat \<times> nat) list"

text \<open>\<open>appendChild\<close> moves the cell out of where it was.\<close>

definition appendChild :: "nat \<Rightarrow> nat \<Rightarrow> head \<Rightarrow> head" where
  "appendChild t c s = (let rows = map (removeAll c) (tr_cells s) in s\<lparr>tr_cells := rows[t := (rows ! t) @ [c]]\<rparr>)"

function row_span :: "entry option list list \<Rightarrow> nat \<Rightarrow> nat \<Rightarrow> nat \<Rightarrow> nat \<Rightarrow> nat js_result" where
  "row_span g c i j r =
     (if i + r < length g then
        (case entry_at (g ! (i + r)) j of
           None \<Rightarrow> Inl TypeError
         | Some e \<Rightarrow> if hc e = c then row_span g c i j (Suc r) else Inr r)
      else Inr r)"
  by pat_completeness auto
termination
  by (relation "measure (\<lambda>(g, c, i, j, r). length g - (i + r))") auto

function col_span :: "entry option list \<Rightarrow> nat \<Rightarrow> nat \<Rightarrow> nat \<Rightarrow> nat" where
  "col_span r c j n = (if j + n < length r \<and> map_option hc (r ! (j + n)) = Some c then col_span r c j (Suc n) else n)"
  by pat_completeness auto
termination
  by (relation "measure (\<lambda>(r, c, j, n). length r - (j + n))") auto

declare row_span.simps [simp del] col_span.simps [simp del]

definition draw_cell :: "entry option list list \<Rightarrow> nat option \<Rightarrow> nat \<Rightarrow> nat \<Rightarrow> head \<Rightarrow> head js_result" where
  "draw_cell g tr i j s =
     (if (i, j) \<in> set (applied s) then Inr s
      else (case (tr, entry_at (g ! i) j) of
        (Some t, Some e) \<Rightarrow>
          (let s1 = (appendChild t (hc e) s) in
           js_bind (row_span g (hc e) i j 1) (\<lambda>iRowspan.
             let iColspan = col_span (g ! i) (hc e) j 1 in
             Inr (s1\<lparr>applied := [(i + k, j + n). n \<leftarrow> [0..<iColspan], k \<leftarrow> [0..<iRowspan]] @ applied s1,
                     spans := set_prop (hc e) (iRowspan, iColspan) (spans s1)\<rparr>)))
      | _ \<Rightarrow> Inl TypeError))"

fun draw_cells :: "entry option list list \<Rightarrow> nat option \<Rightarrow> nat \<Rightarrow> nat list \<Rightarrow> head \<Rightarrow> head js_result" where
  "draw_cells g tr i [] s = Inr s"
| "draw_cells g tr i (j # js) s = js_bind (draw_cell g tr i j s) (draw_cells g tr i js)"

definition empty_row :: "nat option \<Rightarrow> head \<Rightarrow> head" where
  "empty_row tr s = (case tr of None \<Rightarrow> s | Some t \<Rightarrow> s\<lparr>tr_cells := (tr_cells s)[t := []]\<rparr>)"

fun draw_rows :: "entry option list list \<Rightarrow> nat option list \<Rightarrow> nat list \<Rightarrow> head \<Rightarrow> head js_result" where
  "draw_rows g trs [] s = Inr s"
| "draw_rows g trs (i # ls) s =
     js_bind (draw_cells g (trs ! i) i [0..<length (g ! i)] (empty_row (trs ! i) s)) (draw_rows g trs ls)"

definition drawHead :: "bool list \<Rightarrow> lrow list \<Rightarrow> bool \<Rightarrow> nat list list \<Rightarrow> (nat \<times> nat \<times> nat) list \<Rightarrow> head js_result" where
  "drawHead vis aoSource bIncludeHidden rows sp =
     (let aoLocal = map (\<lambda>r. remove_hidden (if bIncludeHidden then map (\<lambda>_. True) vis else vis) (length vis) (l_cells r)) aoSource in
      draw_rows aoLocal (map l_tr aoSource) [0..<length aoLocal] \<lparr>tr_cells = rows, spans = sp, applied = []\<rparr>)"


subsection \<open>Grids in which every cell covers a box\<close>

record box =
  b_top :: nat
  b_left :: nat
  b_rows :: nat
  b_cols :: nat

definition in_box :: "box \<Rightarrow> nat \<Rightarrow> nat \<Rightarrow> bool" where
  "in_box b x y \<longleftrightarrow> b_top b \<le> x \<and> x < b_top b + b_rows b \<and> b_left b \<le> y \<and> y < b_left b + b_cols b"

definition tiling :: "nat \<Rightarrow> nat \<Rightarrow> (nat \<Rightarrow> nat \<Rightarrow> nat) \<Rightarrow> (nat \<Rightarrow> box) \<Rightarrow> bool" where
  "tiling R C G B \<longleftrightarrow>
     (\<forall>i < R. \<forall>j < C. b_top (B (G i j)) + b_rows (B (G i j)) \<le> R \<and> b_left (B (G i j)) + b_cols (B (G i j)) \<le> C \<and>
        (\<forall>x < R. \<forall>y < C. G x y = G i j \<longleftrightarrow> in_box (B (G i j)) x y))"

definition grid_of :: "entry option list list \<Rightarrow> nat \<Rightarrow> nat \<Rightarrow> (nat \<Rightarrow> nat \<Rightarrow> nat) \<Rightarrow> bool" where
  "grid_of g R C G \<longleftrightarrow> length g = R \<and>
     (\<forall>i < R. length (g ! i) = C \<and> (\<forall>j < C. map_option hc (g ! i ! j) = Some (G i j)))"

definition corner :: "box \<Rightarrow> nat \<times> nat" where
  "corner b = (b_top b, b_left b)"

definition before :: "nat \<times> nat \<Rightarrow> nat \<Rightarrow> nat \<Rightarrow> bool" where
  "before p i j \<longleftrightarrow> fst p < i \<or> fst p = i \<and> snd p < j"

text \<open>The places whose cell has its corner before the place \<open>(i, j)\<close>, row by row.\<close>

definition done_at :: "nat \<Rightarrow> nat \<Rightarrow> (nat \<Rightarrow> nat \<Rightarrow> nat) \<Rightarrow> (nat \<Rightarrow> box) \<Rightarrow> nat \<Rightarrow> nat \<Rightarrow> (nat \<times> nat) set" where
  "done_at R C G B i j = {(x, y). x < R \<and> y < C \<and> before (corner (B (G x y))) i j}"

lemma tilingD:
  assumes "tiling R C G B" and "i < R" and "j < C"
  shows "b_top (B (G i j)) + b_rows (B (G i j)) \<le> R" and "b_left (B (G i j)) + b_cols (B (G i j)) \<le> C"
    and "x < R \<Longrightarrow> y < C \<Longrightarrow> G x y = G i j \<longleftrightarrow> in_box (B (G i j)) x y"
    and "in_box (B (G i j)) i j"
  using assms unfolding tiling_def by blast+

lemma corner_in_grid:
  assumes "tiling R C G B" and "i < R" and "j < C"
  shows "b_top (B (G i j)) \<le> i" and "b_left (B (G i j)) \<le> j"
    and "G (b_top (B (G i j))) (b_left (B (G i j))) = G i j"
proof -
  note D = tilingD [OF assms]
  from D(4) show le: "b_top (B (G i j)) \<le> i" "b_left (B (G i j)) \<le> j" by (simp_all add: in_box_def)
  from D(4) have "in_box (B (G i j)) (b_top (B (G i j))) (b_left (B (G i j)))" by (auto simp: in_box_def)
  with D(3) [of "b_top (B (G i j))" "b_left (B (G i j))"] le assms(2,3)
  show "G (b_top (B (G i j))) (b_left (B (G i j))) = G i j" by simp
qed

lemma corner_le:
  assumes "tiling R C G B" and "i < R" and "j < C"
  shows "corner (B (G i j)) = (i, j) \<or> before (corner (B (G i j))) i j"
  using corner_in_grid(1,2) [OF assms] by (auto simp: corner_def before_def)

text \<open>Passing a place that is not a corner changes nothing; passing a corner adds its box.\<close>

lemma done_at_step:
  assumes t: "tiling R C G B" and "i < R" and "j < C"
  shows "done_at R C G B i (Suc j) =
    (if corner (B (G i j)) = (i, j) then done_at R C G B i j \<union> {(x, y). in_box (B (G i j)) x y} else done_at R C G B i j)"
proof -
  have eq: "corner (B (G x y)) = (i, j) \<longleftrightarrow> G x y = G i j \<and> corner (B (G i j)) = (i, j)" if "x < R" "y < C" for x y
    using corner_in_grid(3) [OF t that] by (auto simp: corner_def)
  have "before p i (Suc j) \<longleftrightarrow> before p i j \<or> p = (i, j)" for p by (cases p) (auto simp: before_def)
  then have "done_at R C G B i (Suc j) = done_at R C G B i j \<union> {(x, y). x < R \<and> y < C \<and> G x y = G i j \<and> corner (B (G i j)) = (i, j)}"
    using eq by (auto simp: done_at_def)
  moreover have "{(x, y). x < R \<and> y < C \<and> G x y = G i j} = {(x, y). in_box (B (G i j)) x y}"
    using tilingD [OF assms] by (fastforce simp: in_box_def)
  ultimately show ?thesis by auto
qed

lemma done_at_row: "tiling R C G B \<Longrightarrow> done_at R C G B i C = done_at R C G B (Suc i) 0"
  using corner_in_grid(2) by (fastforce simp: done_at_def before_def corner_def)

lemma done_at_iff: "tiling R C G B \<Longrightarrow> i < R \<Longrightarrow> j < C \<Longrightarrow> (i, j) \<in> done_at R C G B i j \<longleftrightarrow> corner (B (G i j)) \<noteq> (i, j)"
  using corner_le [of R C G B i j] by (auto simp: done_at_def before_def)


subsection \<open>What is drawn\<close>

lemma grid_of_at:
  assumes "grid_of g R C G" and "i < R"
  shows "length (g ! i) = C" and "j < C \<Longrightarrow> map_option hc (g ! i ! j) = Some (G i j)"
  using assms by (simp_all add: grid_of_def)

lemma grid_of_entry:
  assumes "grid_of g R C G" and "i < R" and "j < C"
  shows "\<exists>e. entry_at (g ! i) j = Some e \<and> hc e = G i j"
  using grid_of_at [OF assms(1,2)] assms(3) by (auto simp: entry_at_def)

lemma row_span_box:
  assumes "grid_of g R C G" and "tiling R C G B" and "i < R" and "j < C" and "b_top (B (G i j)) = i" and "r \<le> b_rows (B (G i j))"
  shows "row_span g (G i j) i j r = Inr (b_rows (B (G i j)))"
  using assms(6)
proof (induction "b_rows (B (G i j)) - r" arbitrary: r)
  case 0
  let ?n = "b_rows (B (G i j))"
  have "row_span g (G i j) i j ?n = Inr ?n"
  proof (cases "i + ?n < R")
    case True
    then obtain e where e: "entry_at (g ! (i + ?n)) j = Some e" "hc e = G (i + ?n) j"
      using grid_of_entry [OF assms(1) _ assms(4)] by blast
    have "G (i + ?n) j \<noteq> G i j"
      using tilingD(3) [OF assms(2-4), of "i + ?n" j] True assms(4,5) by (simp add: in_box_def)
    with e True assms(1) show ?thesis by (subst row_span.simps) (simp add: grid_of_def)
  qed (use assms(1) in \<open>subst row_span.simps, simp add: grid_of_def\<close>)
  with 0 show ?case by simp
next
  case (Suc m)
  then have r: "r < b_rows (B (G i j))" by simp
  then have lt: "i + r < R" using tilingD(1) [OF assms(2-4)] assms(5) by simp
  then obtain e where e: "entry_at (g ! (i + r)) j = Some e" "hc e = G (i + r) j"
    using grid_of_entry [OF assms(1) _ assms(4)] by blast
  have "G (i + r) j = G i j"
    using tilingD(3) [OF assms(2-4), of "i + r" j] tilingD(4) [OF assms(2-4)] lt r assms(4,5) by (simp add: in_box_def)
  with e lt assms(1) Suc show ?case by (subst row_span.simps) (simp add: grid_of_def)
qed

lemma col_span_box:
  assumes "grid_of g R C G" and "tiling R C G B" and "i < R" and "j < C" and "b_left (B (G i j)) = j" and "n \<le> b_cols (B (G i j))"
  shows "col_span (g ! i) (G i j) j n = b_cols (B (G i j))"
  using assms(6)
proof (induction "b_cols (B (G i j)) - n" arbitrary: n)
  case 0
  let ?n = "b_cols (B (G i j))"
  have "\<not> (j + ?n < C \<and> G i (j + ?n) = G i j)"
    using tilingD(3) [OF assms(2-4), of i "j + ?n"] assms(3,5) by (auto simp: in_box_def)
  then have nn: "\<not> (j + ?n < length (g ! i) \<and> map_option hc (g ! i ! (j + ?n)) = Some (G i j))"
    using grid_of_at(1) [OF assms(1,3)] grid_of_at(2) [OF assms(1,3), of "j + ?n"] by auto
  have "col_span (g ! i) (G i j) j ?n = ?n" by (subst col_span.simps, rule if_not_P, rule nn)
  with 0 show ?case by simp
next
  case (Suc m)
  then have n: "n < b_cols (B (G i j))" by simp
  then have lt: "j + n < C" using tilingD(2) [OF assms(2-4)] assms(5) by simp
  have "G i (j + n) = G i j"
    using tilingD(3) [OF assms(2-4), of i "j + n"] tilingD(4) [OF assms(2-4)] lt n assms(3,5) by (simp add: in_box_def)
  with lt grid_of_at(1) [OF assms(1,3)] grid_of_at(2) [OF assms(1,3), of "j + n"] Suc show ?case
    by (subst col_span.simps) auto
qed

definition corners_in :: "(nat \<Rightarrow> nat \<Rightarrow> nat) \<Rightarrow> (nat \<Rightarrow> box) \<Rightarrow> nat \<Rightarrow> nat list \<Rightarrow> nat list" where
  "corners_in G B i js = map (G i) (filter (\<lambda>j. corner (B (G i j)) = (i, j)) js)"

definition drawn_to :: "nat \<Rightarrow> nat \<Rightarrow> (nat \<Rightarrow> nat \<Rightarrow> nat) \<Rightarrow> (nat \<Rightarrow> box) \<Rightarrow> nat \<Rightarrow> nat \<Rightarrow> head \<Rightarrow> bool" where
  "drawn_to R C G B i j s \<longleftrightarrow>
     set (applied s) = done_at R C G B i j \<and> length (tr_cells s) = R \<and>
     (\<forall>k < i. tr_cells s ! k = corners_in G B k [0..<C]) \<and>
     (0 < j \<longrightarrow> tr_cells s ! i = corners_in G B i [0..<j]) \<and>
     (\<forall>x y. (x, y) \<in> done_at R C G B i j \<longrightarrow> map_of (spans s) (G x y) = Some (b_rows (B (G x y)), b_cols (B (G x y))))"

text \<open>The corner of a cell lies in one row only, so a cell that is drawn now is in no row drawn before.\<close>

lemma corners_in_fresh:
  assumes "corner (B c) = (i, j)" and "k \<noteq> i \<or> j \<notin> set js"
  shows "c \<notin> set (corners_in G B k js)"
  using assms by (auto simp: corners_in_def)

lemma box_places:
  "corner b = (i, j) \<Longrightarrow> set [(i + k, j + n). n \<leftarrow> [0..<b_cols b], k \<leftarrow> [0..<b_rows b]] = {(x, y). in_box b x y}"
proof -
  assume b: "corner b = (i, j)"
  have mem: "(i + k0, j + n0) \<in> set [(i + k, j + n). n \<leftarrow> [0..<b_cols b], k \<leftarrow> [0..<b_rows b]]" if "k0 < b_rows b" "n0 < b_cols b" for k0 n0
    using that by (auto intro!: bexI [of _ n0])
  have "(x, y) \<in> set [(i + k, j + n). n \<leftarrow> [0..<b_cols b], k \<leftarrow> [0..<b_rows b]]" if "in_box b x y" for x y
  proof -
    from that b have "y - j < b_cols b" "x - i < b_rows b" "i + (x - i) = x" "j + (y - j) = y" by (auto simp: in_box_def corner_def)
    with mem [of "x - i" "y - j"] show ?thesis by simp
  qed
  then show ?thesis using b by (auto simp: in_box_def corner_def)
qed


lemma appendChild_row:
  assumes "length (tr_cells s) = R" and "i < R" and "k < R"
  shows "tr_cells (appendChild i c s) ! k = removeAll c (tr_cells s ! k) @ (if k = i then [c] else [])"
    and "length (tr_cells (appendChild i c s)) = R"
    and "applied (appendChild i c s) = applied s" and "spans (appendChild i c s) = spans s"
  using assms by (simp_all add: appendChild_def Let_def)

lemma draw_cell_step:
  assumes g: "grid_of g R C G" and t: "tiling R C G B" and ij: "i < R" "j < C" and d: "drawn_to R C G B i j s"
    and row: "tr_cells s ! i = corners_in G B i [0..<j]"
  shows "\<exists>s'. draw_cell g (Some i) i j s = Inr s' \<and> drawn_to R C G B i (Suc j) s'"
proof (cases "corner (B (G i j)) = (i, j)")
  case False
  then have "(i, j) \<in> set (applied s)" using d done_at_iff [OF t ij] by (simp add: drawn_to_def)
  moreover have "drawn_to R C G B i (Suc j) s"
    using d row False done_at_step [OF t ij] by (simp add: drawn_to_def corners_in_def)
  ultimately show ?thesis by (simp add: draw_cell_def)
next
  case True
  define c where "c = G i j"
  obtain e where e: "entry_at (g ! i) j = Some e" "hc e = c" using grid_of_entry [OF g ij] by (auto simp: c_def)
  have cor: "b_top (B c) = i" "b_left (B c) = j" using True by (simp_all add: corner_def c_def)
  have one: "1 \<le> b_rows (B c)" "1 \<le> b_cols (B c)" using tilingD(4) [OF t ij] by (auto simp: in_box_def c_def)
  define s' where "s' = (appendChild i c s)\<lparr>applied := [(i + k, j + n). n \<leftarrow> [0..<b_cols (B c)], k \<leftarrow> [0..<b_rows (B c)]] @ applied s,
     spans := set_prop c (b_rows (B c), b_cols (B c)) (spans s)\<rparr>"
  have len: "length (tr_cells s) = R" using d by (simp add: drawn_to_def)
  have "(i, j) \<notin> set (applied s)" using d done_at_iff [OF t ij] True by (simp add: drawn_to_def)
  then have step: "draw_cell g (Some i) i j s = Inr s'"
    using e row_span_box [OF g t ij _ one(1) [unfolded c_def]] col_span_box [OF g t ij _ one(2) [unfolded c_def]] cor
      appendChild_row(3,4) [OF len ij(1) ij(1)]
    by (simp add: draw_cell_def s'_def c_def Let_def)
  have app: "set (applied s') = done_at R C G B i (Suc j)"
    using d done_at_step [OF t ij] True box_places [OF True]
    by (simp only: s'_def drawn_to_def c_def set_append head.simps) auto
  have rows: "tr_cells s' ! k = removeAll c (tr_cells s ! k) @ (if k = i then [c] else [])" if "k < R" for k
    using appendChild_row(1) [OF len ij(1) that] by (simp add: s'_def)
  have "c \<notin> set (corners_in G B k [0..<C])" if "k < i" for k
    using corners_in_fresh [of B c i j k "[0..<C]" G] True that by (simp add: c_def)
  then have old: "tr_cells s' ! k = corners_in G B k [0..<C]" if "k < i" for k
    using rows [of k] d that ij by (simp add: drawn_to_def)
  have "c \<notin> set (corners_in G B i [0..<j])" using corners_in_fresh [of B c i j i "[0..<j]" G] True by (simp add: c_def)
  then have now: "tr_cells s' ! i = corners_in G B i [0..<Suc j]"
    using rows [OF ij(1)] row True by (simp add: corners_in_def c_def)
  have sp: "map_of (spans s') (G x y) = Some (b_rows (B (G x y)), b_cols (B (G x y)))" if "(x, y) \<in> done_at R C G B i (Suc j)" for x y
  proof (cases "G x y = c")
    case False
    then have "\<not> in_box (B c) x y" using that tilingD(3) [OF t ij, of x y] by (simp add: done_at_def c_def)
    then have "(x, y) \<in> done_at R C G B i j" using that done_at_step [OF t ij] True by (simp add: c_def)
    with d False show ?thesis by (simp add: s'_def drawn_to_def)
  qed (simp add: s'_def)
  have "length (tr_cells s') = R" using appendChild_row(2) [OF len ij(1) ij(1)] by (simp add: s'_def)
  then show ?thesis using step app old now sp by (intro exI [of _ s']) (simp add: drawn_to_def)
qed


lemma draw_cells_row:
  assumes g: "grid_of g R C G" and t: "tiling R C G B" and i: "i < R"
  shows "j \<le> C \<Longrightarrow> drawn_to R C G B i j s \<Longrightarrow> tr_cells s ! i = corners_in G B i [0..<j] \<Longrightarrow>
    \<exists>s'. draw_cells g (Some i) i [j..<C] s = Inr s' \<and> drawn_to R C G B i C s' \<and> tr_cells s' ! i = corners_in G B i [0..<C]"
proof (induction "C - j" arbitrary: j s)
  case 0
  then have "j = C" by simp
  with 0 show ?case by (intro exI [of _ s]) simp
next
  case (Suc m)
  then have j: "j < C" by simp
  from draw_cell_step [OF g t i j Suc.prems(2,3)] obtain s1 where s1: "draw_cell g (Some i) i j s = Inr s1" "drawn_to R C G B i (Suc j) s1"
    by blast
  then have "tr_cells s1 ! i = corners_in G B i [0..<Suc j]" by (simp only: drawn_to_def)
  with Suc.hyps(1) [of "Suc j" s1] Suc.hyps(2) j s1 show ?case by (simp add: upt_conv_Cons)
qed

lemma drawn_next_row:
  assumes "tiling R C G B" and "drawn_to R C G B i C s" and "tr_cells s ! i = corners_in G B i [0..<C]"
  shows "drawn_to R C G B (Suc i) 0 s"
  using assms done_at_row [OF assms(1), of i] by (simp add: drawn_to_def less_Suc_eq)

lemma draw_rows_grid:
  assumes g: "grid_of g R C G" and t: "tiling R C G B" and trs: "trs = map Some [0..<R]"
  shows "i \<le> R \<Longrightarrow> drawn_to R C G B i 0 s \<Longrightarrow> \<exists>s'. draw_rows g trs [i..<R] s = Inr s' \<and> drawn_to R C G B R 0 s'"
proof (induction "R - i" arbitrary: i s)
  case 0
  then have "i = R" by simp
  with 0 show ?case by (intro exI [of _ s]) simp
next
  case (Suc m)
  then have i: "i < R" by simp
  then have tr: "trs ! i = Some i" by (simp add: trs del: upt_Suc)
  define s0 where "s0 = empty_row (Some i) s"
  have s0: "drawn_to R C G B i 0 s0" "tr_cells s0 ! i = corners_in G B i [0..<0]"
    using Suc.prems(2) i by (simp_all add: drawn_to_def s0_def empty_row_def corners_in_def)
  from draw_cells_row [OF g t i _ s0] obtain s1 where s1: "draw_cells g (Some i) i [0..<C] s0 = Inr s1"
    "drawn_to R C G B i C s1" "tr_cells s1 ! i = corners_in G B i [0..<C]" by auto
  from drawn_next_row [OF t s1(2,3)] have "drawn_to R C G B (Suc i) 0 s1" .
  with Suc.hyps(1) [of "Suc i" s1] Suc.hyps(2) i s1(1) grid_of_at(1) [OF g i] show ?case
    by (simp add: upt_conv_Cons [OF i] tr s0_def)
qed

subsection \<open>What is detected\<close>

lemma entry_write_at: "entry_at (write_at j v xs) y = (if y = j then Some v else entry_at xs y)"
  by (auto simp: entry_at_def write_at_def nth_append)

lemma length_write_at: "length (write_at j v xs) = max (length xs) (Suc j)"
  by (auto simp: write_at_def)

definition cell_at :: "lrow list \<Rightarrow> nat \<Rightarrow> nat \<Rightarrow> nat option" where
  "cell_at lay x y = map_option hc (entry_at (l_cells (lay ! x)) y)"

definition narrow :: "nat \<Rightarrow> nat \<Rightarrow> lrow list \<Rightarrow> bool" where
  "narrow R C lay \<longleftrightarrow> length lay = R \<and> (\<forall>x < R. length (l_cells (lay ! x)) \<le> C)"

lemma put_entry_cell:
  assumes "narrow R C lay" and "x < R" and "y < C"
  shows "\<exists>lay'. put_entry x y e i lay = Inr lay' \<and> narrow R C lay' \<and>
    (\<forall>x' < R. \<forall>y'. cell_at lay' x' y' = (if x' = x \<and> y' = y then Some (hc e) else cell_at lay x' y'))"
  using assms by (auto simp: put_entry_def narrow_def cell_at_def nth_list_update entry_write_at length_write_at)

lemma fill_down_cells:
  assumes "narrow R C lay" and "\<forall>k \<in> set ks. i + k < R" and "y < C"
  shows "\<exists>lay'. fill_down ks y e i lay = Inr lay' \<and> narrow R C lay' \<and>
    (\<forall>x' < R. \<forall>y'. cell_at lay' x' y' = (if y' = y \<and> (\<exists>k \<in> set ks. x' = i + k) then Some (hc e) else cell_at lay x' y'))"
  using assms(1,2)
proof (induction ks arbitrary: lay)
  case (Cons k ks)
  from put_entry_cell [OF Cons.prems(1), of "i + k" y e i] Cons.prems(2) assms(3) obtain l1 where
    l1: "put_entry (i + k) y e i lay = Inr l1" "narrow R C l1"
      "\<And>x' y'. x' < R \<Longrightarrow> cell_at l1 x' y' = (if x' = i + k \<and> y' = y then Some (hc e) else cell_at lay x' y')" by auto
  from Cons.IH [OF l1(2)] Cons.prems(2) obtain l2 where
    l2: "fill_down ks y e i l1 = Inr l2" "narrow R C l2"
      "\<And>x' y'. x' < R \<Longrightarrow> cell_at l2 x' y' = (if y' = y \<and> (\<exists>k \<in> set ks. x' = i + k) then Some (hc e) else cell_at l1 x' y')" by auto
  then show ?case using l1 by (intro exI [of _ l2]) auto
qed simp

lemma fill_right_cells:
  assumes "narrow R C lay" and "\<forall>k \<in> set ks. i + k < R" and "\<forall>l \<in> set ls. y + l < C"
  shows "\<exists>lay'. fill_right ls ks y e i lay = Inr lay' \<and> narrow R C lay' \<and>
    (\<forall>x' < R. \<forall>y'. cell_at lay' x' y' =
       (if (\<exists>l \<in> set ls. y' = y + l) \<and> (\<exists>k \<in> set ks. x' = i + k) then Some (hc e) else cell_at lay x' y'))"
  using assms(1,3)
proof (induction ls arbitrary: lay)
  case (Cons l ls)
  from fill_down_cells [OF Cons.prems(1) assms(2), of "y + l" e] Cons.prems(2) obtain l1 where
    l1: "fill_down ks (y + l) e i lay = Inr l1" "narrow R C l1"
      "\<And>x' y'. x' < R \<Longrightarrow> cell_at l1 x' y' = (if y' = y + l \<and> (\<exists>k \<in> set ks. x' = i + k) then Some (hc e) else cell_at lay x' y')" by auto
  from Cons.IH [OF l1(2)] Cons.prems(2) obtain l2 where
    l2: "fill_right ls ks y e i l1 = Inr l2" "narrow R C l2"
      "\<And>x' y'. x' < R \<Longrightarrow> cell_at l2 x' y' =
         (if (\<exists>l \<in> set ls. y' = y + l) \<and> (\<exists>k \<in> set ks. x' = i + k) then Some (hc e) else cell_at l1 x' y')" by auto
  then show ?case using l1 by (intro exI [of _ l2]) auto
qed simp

lemma shiftCol_first:
  assumes "\<forall>y < j. entry_at k y \<noteq> None" and "entry_at k j = None"
  shows "n \<le> j \<Longrightarrow> shiftCol k n = j"
proof (induction "j - n" arbitrary: n)
  case 0
  then show ?case using assms(2) by (subst shiftCol.simps) (auto simp: entry_at_def split: if_splits)
next
  case (Suc m)
  then have "entry_at k n \<noteq> None" using assms(1) by simp
  then have "n < length k \<and> k ! n \<noteq> None" by (simp add: entry_at_def split: if_splits)
  with Suc show ?case by (subst shiftCol.simps) simp
qed


text \<open>The header as it is drawn: the cells of each row with the spans they were given.\<close>

definition hcell_of :: "(nat \<times> nat \<times> nat) list \<Rightarrow> nat \<Rightarrow> hcell" where
  "hcell_of sp c = \<lparr>h_cell = c, h_colspan = map_option (int \<circ> snd) (map_of sp c), h_rowspan = map_option (int \<circ> fst) (map_of sp c)\<rparr>"

definition header_cells :: "head \<Rightarrow> hcell list list" where
  "header_cells s = map (map (hcell_of (spans s))) (tr_cells s)"

definition detected_to :: "nat \<Rightarrow> nat \<Rightarrow> (nat \<Rightarrow> nat \<Rightarrow> nat) \<Rightarrow> (nat \<Rightarrow> box) \<Rightarrow> nat \<Rightarrow> nat \<Rightarrow> lrow list \<Rightarrow> bool" where
  "detected_to R C G B i j lay \<longleftrightarrow> narrow R C lay \<and>
     (\<forall>x < R. \<forall>y < C. cell_at lay x y = (if (x, y) \<in> done_at R C G B i j then Some (G x y) else None))"

lemma detect_corner:
  assumes t: "tiling R C G B" and ij: "i < R" "j < C" and d: "detected_to R C G B i j lay" and cor: "corner (B (G i j)) = (i, j)"
    and sp: "map_of sp (G i j) = Some (b_rows (B (G i j)), b_cols (B (G i j)))"
  shows "\<exists>lay'. detect_cells i (hcell_of sp (G i j) # cs) lay = detect_cells i cs lay' \<and> detected_to R C G B i (Suc j) lay'"
proof -
  let ?b = "B (G i j)"
  have one: "1 \<le> b_rows ?b" "1 \<le> b_cols ?b" using tilingD(4) [OF t ij] by (auto simp: in_box_def)
  have san: "nat (sanitise (Some (int n))) = n" if "1 \<le> n" for n using that by (auto simp: sanitise_def)
  have "entry_at (l_cells (lay ! i)) y \<noteq> None" if "y < j" for y
  proof -
    have "y < C" using that ij by simp
    with corner_le [OF t ij(1) this] that ij(1) have "(i, y) \<in> done_at R C G B i j" by (auto simp: done_at_def before_def)
    with d ij(1) \<open>y < C\<close> have "cell_at lay i y = Some (G i y)" by (simp add: detected_to_def)
    then show ?thesis by (auto simp: cell_at_def)
  qed
  moreover have "entry_at (l_cells (lay ! i)) j = None"
  proof -
    have "cell_at lay i j = None" using d ij done_at_iff [OF t ij] cor by (simp add: detected_to_def)
    then show ?thesis by (simp add: cell_at_def)
  qed
  ultimately have shift: "shiftCol (l_cells (lay ! i)) 0 = j" by (intro shiftCol_first) auto
  define e where "e = \<lparr>hc = G i j, hu = (sanitise (Some (int (b_cols ?b))) = 1)\<rparr>"
  have bounds: "\<forall>k \<in> set [0..<b_rows ?b]. i + k < R" "\<forall>l \<in> set [0..<b_cols ?b]. j + l < C"
    using tilingD(1,2) [OF t ij] cor by (auto simp: corner_def)
  have nar: "narrow R C lay" using d by (simp add: detected_to_def)
  from fill_right_cells [OF nar bounds, of e] obtain lay' where
    l: "fill_right [0..<b_cols ?b] [0..<b_rows ?b] j e i lay = Inr lay'" "narrow R C lay'"
      "\<And>x y. x < R \<Longrightarrow> cell_at lay' x y =
        (if (\<exists>l \<in> set [0..<b_cols ?b]. y = j + l) \<and> (\<exists>k \<in> set [0..<b_rows ?b]. x = i + k) then Some (hc e) else cell_at lay x y)"
    by blast
  have box: "(\<exists>l \<in> set [0..<b_cols ?b]. y = j + l) \<and> (\<exists>k \<in> set [0..<b_rows ?b]. x = i + k) \<longleftrightarrow> in_box ?b x y" for x y
    using cor by (auto simp: in_box_def corner_def dest: le_Suc_ex)
  have "cell_at lay' x y = (if (x, y) \<in> done_at R C G B i (Suc j) then Some (G x y) else None)" if "x < R" "y < C" for x y
    using l(3) [OF that(1), of y, unfolded box] d that tilingD(3) [OF t ij that] done_at_step [OF t ij] cor
    by (cases "in_box ?b x y") (simp_all add: detected_to_def e_def)
  then have "detected_to R C G B i (Suc j) lay'" using l(2) by (simp add: detected_to_def)
  moreover have "detect_cells i (hcell_of sp (G i j) # cs) lay = detect_cells i cs lay'"
    using l(1) shift sp san [OF one(1)] san [OF one(2)] by (simp add: hcell_of_def Let_def e_def)
  ultimately show ?thesis by blast
qed

lemma detect_cells_row:
  assumes t: "tiling R C G B" and i: "i < R"
    and sp: "\<And>x y. x < R \<Longrightarrow> y < C \<Longrightarrow> map_of sp (G x y) = Some (b_rows (B (G x y)), b_cols (B (G x y)))"
  shows "j \<le> C \<Longrightarrow> detected_to R C G B i j lay \<Longrightarrow>
    \<exists>lay'. detect_cells i (map (hcell_of sp) (corners_in G B i [j..<C])) lay = Inr lay' \<and> detected_to R C G B i C lay'"
proof (induction "C - j" arbitrary: j lay)
  case 0
  then have "j = C" by simp
  with 0 show ?case by (intro exI [of _ lay]) (simp add: corners_in_def)
next
  case (Suc m)
  then have j: "j < C" by simp
  then have upt: "[j..<C] = j # [Suc j..<C]" by (rule upt_conv_Cons)
  have m: "m = C - Suc j" "Suc j \<le> C" using Suc.hyps(2) j by auto
  show ?case
  proof (cases "corner (B (G i j)) = (i, j)")
    case True
    from detect_corner [OF t i j Suc.prems(2) True sp [OF i j], of "map (hcell_of sp) (corners_in G B i [Suc j..<C])"]
    obtain l1 where "detect_cells i (map (hcell_of sp) (corners_in G B i [j..<C])) lay =
        detect_cells i (map (hcell_of sp) (corners_in G B i [Suc j..<C])) l1" "detected_to R C G B i (Suc j) l1"
      using True by (auto simp: corners_in_def upt)
    with Suc.hyps(1) [OF m] show ?thesis by simp
  next
    case False
    then have "detected_to R C G B i (Suc j) lay" using Suc.prems(2) done_at_step [OF t i j] by (simp add: detected_to_def)
    with Suc.hyps(1) [OF m] False show ?thesis by (simp add: corners_in_def upt)
  qed
qed

lemma detect_rows_grid:
  assumes t: "tiling R C G B"
    and sp: "\<And>x y. x < R \<Longrightarrow> y < C \<Longrightarrow> map_of sp (G x y) = Some (b_rows (B (G x y)), b_cols (B (G x y)))"
  shows "i \<le> R \<Longrightarrow> detected_to R C G B i 0 lay \<Longrightarrow>
    \<exists>lay'. detect_rows i (map (\<lambda>k. map (hcell_of sp) (corners_in G B k [0..<C])) [i..<R]) lay = Inr lay' \<and> detected_to R C G B R 0 lay'"
proof (induction "R - i" arbitrary: i lay)
  case 0
  then have "i = R" by simp
  with 0 show ?case by (intro exI [of _ lay]) simp
next
  case (Suc m)
  then have i: "i < R" and m: "m = R - Suc i" "Suc i \<le> R" by auto
  from detect_cells_row [OF t i sp] Suc.prems(2) obtain l1 where
    l1: "detect_cells i (map (hcell_of sp) (corners_in G B i [0..<C])) lay = Inr l1" "detected_to R C G B i C l1"
    by blast
  then have "detected_to R C G B (Suc i) 0 l1" using done_at_row [OF t, of i] by (simp add: detected_to_def)
  with Suc.hyps(1) [OF m] l1(1) show ?case by (simp add: upt_conv_Cons [OF i])
qed


subsection \<open>Hidden columns\<close>

lemma remove_hidden_map: "remove_hidden vis n (map f xs) = map f (remove_hidden vis n xs)"
proof (induction n arbitrary: xs)
  case (Suc n)
  show ?case using Suc [of xs] Suc [of "take n xs @ drop (Suc n) xs"] by (simp add: take_map drop_map)
qed simp

lemma remove_hidden_filter:
  "n \<le> length xs \<Longrightarrow> remove_hidden vis n xs = map ((!) xs) (filter ((!) vis) [0..<n]) @ drop n xs"
proof (induction n arbitrary: xs)
  case (Suc n)
  define ys where "ys = (if vis ! n then xs else take n xs @ drop (Suc n) xs)"
  have "map ((!) ys) (filter ((!) vis) [0..<n]) = map ((!) xs) (filter ((!) vis) [0..<n])"
    using Suc.prems by (auto simp: ys_def nth_append)
  moreover have "drop n ys = (if vis ! n then xs ! n # drop (Suc n) xs else drop (Suc n) xs)"
    using Suc.prems by (simp add: ys_def Cons_nth_drop_Suc)
  moreover have "n \<le> length ys" using Suc.prems by (auto simp: ys_def)
  ultimately show ?case using Suc.IH [of ys] Suc.prems by (simp add: ys_def)
qed simp

definition below :: "nat list \<Rightarrow> nat \<Rightarrow> nat" where
  "below vs k = length (filter (\<lambda>v. v < k) vs)"

lemma below_iff: "sorted_wrt (<) vs \<Longrightarrow> y < length vs \<Longrightarrow> vs ! y < k \<longleftrightarrow> y < below vs k"
proof (induction vs arbitrary: y)
  case (Cons v vs)
  show ?case
  proof (cases "v < k")
    case False
    then have "filter (\<lambda>v. v < k) (v # vs) = []" using Cons.prems(1) by (auto simp: filter_empty_conv)
    moreover have "\<not> (v # vs) ! y < k" using Cons.prems False by (cases y) (auto dest!: nth_mem)
    ultimately show ?thesis by (simp add: below_def)
  qed (use Cons in \<open>cases y; auto simp: below_def\<close>)
qed simp

lemma below_mono: "k \<le> k' \<Longrightarrow> below vs k \<le> below vs k'"
  unfolding below_def by (induction vs) auto

lemma below_le: "below vs k \<le> length vs"
  by (simp add: below_def)

definition hide_box :: "nat list \<Rightarrow> box \<Rightarrow> box" where
  "hide_box vs b = b\<lparr>b_left := below vs (b_left b), b_cols := below vs (b_left b + b_cols b) - below vs (b_left b)\<rparr>"

lemma in_hide_box:
  assumes "sorted_wrt (<) vs" and "y < length vs"
  shows "in_box (hide_box vs b) x y \<longleftrightarrow> in_box b x (vs ! y)"
  using below_iff [OF assms] below_mono [of "b_left b" "b_left b + b_cols b" vs]
  by (simp add: in_box_def hide_box_def not_less [symmetric])

lemma tiling_hide:
  assumes "tiling R C G B" and "sorted_wrt (<) vs" and "\<forall>v \<in> set vs. v < C"
  shows "tiling R (length vs) (\<lambda>i y. G i (vs ! y)) (hide_box vs \<circ> B)"
  unfolding tiling_def
proof (intro allI impI conjI)
  fix i j assume ij: "i < R" "j < length vs"
  then have v: "vs ! j < C" using assms(3) by simp
  note D = tilingD [OF assms(1) ij(1) v]
  show "b_top ((hide_box vs \<circ> B) (G i (vs ! j))) + b_rows ((hide_box vs \<circ> B) (G i (vs ! j))) \<le> R"
    using D(1) by (simp add: hide_box_def)
  show "b_left ((hide_box vs \<circ> B) (G i (vs ! j))) + b_cols ((hide_box vs \<circ> B) (G i (vs ! j))) \<le> length vs"
    using below_le [of vs] below_mono [of "b_left (B (G i (vs ! j)))" "b_left (B (G i (vs ! j))) + b_cols (B (G i (vs ! j)))" vs]
    by (simp add: hide_box_def)
  fix x y assume xy: "x < R" "y < length vs"
  show "(G x (vs ! y) = G i (vs ! j)) = in_box ((hide_box vs \<circ> B) (G i (vs ! j))) x y"
    using D(3) [OF xy(1), of "vs ! y"] assms(3) xy in_hide_box [OF assms(2) xy(2)] by simp
qed

lemma detected_all:
  assumes t: "tiling R C G B" and d: "detected_to R C G B R 0 lay"
  shows "map (map (map_option hc) \<circ> l_cells) lay = map (\<lambda>x. map (\<lambda>y. Some (G x y)) [0..<C]) [0..<R]"
proof (rule nth_equalityI)
  have nar: "narrow R C lay" using d by (simp add: detected_to_def)
  then show "length (map (map (map_option hc) \<circ> l_cells) lay) = length (map (\<lambda>x. map (\<lambda>y. Some (G x y)) [0..<C]) [0..<R])"
    by (simp add: narrow_def)
  fix x assume "x < length (map (map (map_option hc) \<circ> l_cells) lay)"
  then have x: "x < R" using nar by (simp add: narrow_def)
  have cell: "cell_at lay x y = Some (G x y)" if "y < C" for y
    using d x that corner_in_grid(1) [OF t x that] by (simp add: detected_to_def done_at_def before_def corner_def)
  have "y < length (l_cells (lay ! x))" if "y < C" for y
    using cell [OF that] by (auto simp: cell_at_def entry_at_def split: if_splits)
  then have len: "length (l_cells (lay ! x)) = C"
    using nar x by (metis narrow_def nat_neq_iff not_le order_less_irrefl)
  have "map (map_option hc) (l_cells (lay ! x)) = map (\<lambda>y. Some (G x y)) [0..<C]"
    using cell len by (intro nth_equalityI) (simp_all add: cell_at_def entry_at_def)
  then show "map (map (map_option hc) \<circ> l_cells) lay ! x = map (\<lambda>x. map (\<lambda>y. Some (G x y)) [0..<C]) [0..<R] ! x"
    using x nar by (simp add: narrow_def)
qed


lemma visible_grid:
  assumes "grid_of (map l_cells src) R C G" and "length vis = C"
  defines "vs \<equiv> filter ((!) vis) [0..<C]"
  shows "grid_of (map (\<lambda>r. remove_hidden vis C (l_cells r)) src) R (length vs) (\<lambda>i y. G i (vs ! y))"
    and "map (remove_hidden vis C \<circ> map (map_option hc) \<circ> l_cells) src = map (\<lambda>x. map (\<lambda>y. Some (G x (vs ! y))) [0..<length vs]) [0..<R]"
proof -
  have len: "length src = R" using assms(1) by (simp add: grid_of_def)
  have row: "remove_hidden vis C (l_cells (src ! i)) = map ((!) (l_cells (src ! i))) vs" if "i < R" for i
    using grid_of_at(1) [OF assms(1) that] remove_hidden_filter [of C "l_cells (src ! i)" vis] that len by (simp add: vs_def)
  have bound: "vs ! y < C" if "y < length vs" for y using nth_mem [OF that] by (simp add: vs_def)
  have cell: "map_option hc (l_cells (src ! i) ! (vs ! y)) = Some (G i (vs ! y))" if "i < R" "y < length vs" for i y
    using grid_of_at(2) [OF assms(1) that(1) bound [OF that(2)]] that len by simp
  show "grid_of (map (\<lambda>r. remove_hidden vis C (l_cells r)) src) R (length vs) (\<lambda>i y. G i (vs ! y))"
    using row cell len by (simp add: grid_of_def)
  show "map (remove_hidden vis C \<circ> map (map_option hc) \<circ> l_cells) src = map (\<lambda>x. map (\<lambda>y. Some (G x (vs ! y))) [0..<length vs]) [0..<R]"
    using row cell len by (intro nth_equalityI) (auto simp: remove_hidden_map intro!: nth_equalityI)
qed


text \<open>A header of two rows: a cell over both rows, a cell over two columns with two cells below.\<close>

definition demo_header :: "hcell list list" where
  "demo_header =
     [[\<lparr>h_cell = 0, h_colspan = None, h_rowspan = Some 2\<rparr>, \<lparr>h_cell = 1, h_colspan = Some 2, h_rowspan = None\<rparr>],
      [\<lparr>h_cell = 2, h_colspan = None, h_rowspan = None\<rparr>, \<lparr>h_cell = 3, h_colspan = None, h_rowspan = None\<rparr>]]"

definition demo_layout :: "lrow list" where
  "demo_layout = [\<lparr>l_cells = [Some \<lparr>hc = 0, hu = True\<rparr>, Some \<lparr>hc = 1, hu = False\<rparr>, Some \<lparr>hc = 1, hu = False\<rparr>], l_tr = Some 0\<rparr>,
     \<lparr>l_cells = [Some \<lparr>hc = 0, hu = True\<rparr>, Some \<lparr>hc = 2, hu = True\<rparr>, Some \<lparr>hc = 3, hu = True\<rparr>], l_tr = Some 1\<rparr>]"

definition demo_grid :: "nat \<Rightarrow> nat \<Rightarrow> nat" where
  "demo_grid i j = (if j = 0 then 0 else if i = 0 then 1 else Suc j)"

definition demo_box :: "nat \<Rightarrow> box" where
  "demo_box c = (if c = 0 then \<lparr>b_top = 0, b_left = 0, b_rows = 2, b_cols = 1\<rparr> else if c = 1 then \<lparr>b_top = 0, b_left = 1, b_rows = 1, b_cols = 2\<rparr>
     else \<lparr>b_top = 1, b_left = c - 1, b_rows = 1, b_cols = 1\<rparr>)"

lemma demo_header_detected: "detectHeader demo_header = Inr demo_layout"
  by code_simp


text \<open>
  A row whose places are all covered from the row above has no cell of its own: its \<open>nTr\<close> stays the
  element of that row, and drawing it empties the row that was just drawn.
\<close>

lemma covered_row_loses_header:
  "\<exists>lay s. detectHeader [[\<lparr>h_cell = 0, h_colspan = None, h_rowspan = Some 2\<rparr>], []] = Inr lay \<and>
     map l_tr lay = [Some 0, Some 0] \<and> drawHead [True] lay False [[0], []] [] = Inr s \<and> tr_cells s = [[], []]"
proof -
  let ?row = "\<lparr>l_cells = [Some \<lparr>hc = 0, hu = True\<rparr>], l_tr = Some 0\<rparr>"
  have "detectHeader [[\<lparr>h_cell = 0, h_colspan = None, h_rowspan = Some 2\<rparr>], []] = Inr [?row, ?row]" by code_simp
  moreover have "map_sum id tr_cells (drawHead [True] [?row, ?row] False [[0], []] []) = Inr [[], []]" by code_simp
  ultimately show ?thesis by (cases "drawHead [True] [?row, ?row] False [[0], []] []") auto
qed


subsection \<open>One cell per column\<close>

text \<open>The cells that stand for column \<open>j\<close> alone, from the first row to the last.\<close>

definition column_ths :: "nat \<Rightarrow> lrow list \<Rightarrow> nat list" where
  "column_ths j lay = concat (map (\<lambda>r. case entry_at (l_cells r) j of Some e \<Rightarrow> if hu e then [hc e] else [] | None \<Rightarrow> []) lay)"

lemma entry_at_Nil [simp]: "entry_at [] j = None"
  by (simp add: entry_at_def)

lemma unique_row_entries:
  "None \<notin> set es \<Longrightarrow> \<exists>ret'. unique_row first j es ret = Inr ret' \<and>
     (\<forall>y. entry_at ret' y =
        (if j \<le> y \<and> y < j + length es \<and> hu (the (es ! (y - j))) \<and> (entry_at ret y = None \<or> \<not> first)
         then Some (hc (the (es ! (y - j)))) else entry_at ret y))"
proof (induction first j es ret rule: unique_row.induct)
  case (3 first j e es ret)
  define r1 where "r1 = (if hu e \<and> (entry_at ret j = None \<or> \<not> first) then write_at j (hc e) ret else ret)"
  have old: "entry_at r1 y = (if y = j \<and> hu e \<and> (entry_at ret j = None \<or> \<not> first) then Some (hc e) else entry_at ret y)" for y
    by (auto simp: r1_def entry_write_at)
  have "None \<notin> set es" using "3.prems" by simp
  from "3.IH" [folded r1_def, OF this] obtain ret' where r: "unique_row first (Suc j) es r1 = Inr ret'"
    "\<And>y. entry_at ret' y = (if Suc j \<le> y \<and> y < Suc j + length es \<and> hu (the (es ! (y - Suc j))) \<and> (entry_at r1 y = None \<or> \<not> first)
         then Some (hc (the (es ! (y - Suc j)))) else entry_at r1 y)"
    by blast
  have "entry_at ret' y = (if j \<le> y \<and> y < j + length (Some e # es) \<and> hu (the ((Some e # es) ! (y - j))) \<and> (entry_at ret y = None \<or> \<not> first)
         then Some (hc (the ((Some e # es) ! (y - j)))) else entry_at ret y)" for y
  proof (cases "j < y")
    case True
    then obtain k where y: "y = Suc (j + k)" using less_iff_Suc_add by blast
    have "entry_at r1 y = entry_at ret y" using old [of y] by (simp add: y)
    with r(2) [of y] show ?thesis by (auto simp: y)
  next
    case False
    then have "entry_at ret' y = entry_at r1 y" using r(2) [of y] by simp
    with False old [of y] show ?thesis by (cases "y = j") auto
  qed
  moreover have "unique_row first j (Some e # es) ret = Inr ret'" using r(1) by (simp add: r1_def)
  ultimately show ?case by blast
qed auto

lemma getUniqueThs_spec:
  assumes "\<forall>r \<in> set lay. None \<notin> set (l_cells r)"
  shows "\<exists>ret. getUniqueThs first lay = Inr ret \<and>
    (\<forall>j. entry_at ret j = (let us = column_ths j lay in if us = [] then None else Some (if first then hd us else last us)))"
proof -
  have "\<exists>ret. unique_rows first lay ret0 = Inr ret \<and> (\<forall>j. entry_at ret j =
      (let us = column_ths j lay in if us = [] \<or> first \<and> entry_at ret0 j \<noteq> None then entry_at ret0 j else Some (if first then hd us else last us)))" for ret0
    using assms
  proof (induction lay arbitrary: ret0)
    case (Cons r lay)
    obtain r1 where r1: "unique_row first 0 (l_cells r) ret0 = Inr r1"
      "\<And>y. entry_at r1 y = (if y < length (l_cells r) \<and> hu (the (l_cells r ! y)) \<and> (entry_at ret0 y = None \<or> \<not> first)
         then Some (hc (the (l_cells r ! y))) else entry_at ret0 y)"
      using unique_row_entries [of "l_cells r" first 0 ret0, unfolded diff_zero add_0] Cons.prems by auto
    from Cons.IH [of r1] Cons.prems obtain ret where ret: "unique_rows first lay r1 = Inr ret"
      "\<And>j. entry_at ret j = (let us = column_ths j lay in if us = [] \<or> first \<and> entry_at r1 j \<noteq> None then entry_at r1 j else Some (if first then hd us else last us))"
      by auto
    have "column_ths j (r # lay) = (if j < length (l_cells r) \<and> hu (the (l_cells r ! j)) then [hc (the (l_cells r ! j))] else []) @ column_ths j lay" for j
    proof (cases "j < length (l_cells r)")
      case True
      then have "l_cells r ! j \<noteq> None" using Cons.prems by (metis list.set_intros(1) nth_mem)
      with True show ?thesis by (auto simp: column_ths_def entry_at_def)
    qed (simp add: column_ths_def entry_at_def)
    then have "entry_at ret j = (let us = column_ths j (r # lay) in if us = [] \<or> first \<and> entry_at ret0 j \<noteq> None then entry_at ret0 j
        else Some (if first then hd us else last us))" for j
      using ret(2) [of j] r1(2) [of j] by (auto simp: Let_def)
    then show ?case using r1(1) ret(1) by auto
  qed (simp add: column_ths_def)
  from this [of "[]", unfolded entry_at_Nil] show ?thesis unfolding getUniqueThs_def by (simp add: Let_def)
qed

end
