(* ===== verification/DT_Select.thy ===== *)
theory DT_Select
  imports DT_Paging
begin

text \<open>
  Row selectors of DataTables and its extension Select (\<open>plugins/datatables-new/datatables.js\<close>), by
  which the pages let users choose the rows that a button then sends to the server. The selector
  functions (\<open>_selector_opts\<close>, \<open>_selector_row_indexes\<close>, \<open>_selector_run\<close>, \<open>__row_selector\<close>) give the indexes of
  rows; Select keeps a flag for every row and column and the class of the row elements, and changes
  them on clicks. Rows and columns are handled by the same code, which relies on what the locale
  \<open>item_set\<close> says. Single cells as items are not modelled.
\<close>

subsection \<open>Selectors\<close>

text \<open>The options of a selector as they are given (None is undefined), and with their defaults.\<close>

record given_opts =
  g_search :: "ustr option"
  g_filter :: "ustr option"
  g_order :: "ustr option"
  g_page :: "ustr option"
  g_selected :: "bool option"

record sel_opts =
  o_search :: ustr
  o_order :: ustr
  o_page :: ustr
  o_selected :: "bool option"

definition no_given :: given_opts where
  "no_given = \<lparr>g_search = None, g_filter = None, g_order = None, g_page = None, g_selected = None\<rparr>"

definition or_default :: "string \<Rightarrow> ustr option \<Rightarrow> ustr" where
  "or_default d x = (case x of Some v \<Rightarrow> v | None \<Rightarrow> u d)"

definition selector_opts :: "given_opts \<Rightarrow> sel_opts" where
  "selector_opts g =
     (let search = (case (g_filter g, g_search g) of (Some f, None) \<Rightarrow> if f \<noteq> [] then Some f else None | (_, x) \<Rightarrow> x) in
      \<lparr>o_search = or_default ''none'' search, o_order = or_default ''current'' (g_order g),
       o_page = or_default ''all'' (g_page g), o_selected = g_selected g\<rparr>)"

definition selector_row_indexes :: "table \<Rightarrow> sel_opts \<Rightarrow> nat list" where
  "selector_row_indexes s opts =
     (if dataSource s = SSP then (if o_search opts = u ''removed'' then [] else [0..<length (aiDisplayMaster s)])
      else if o_page opts = u ''current'' then map (\<lambda>i. aiDisplay s ! nat i) [displayStart s..fnDisplayEnd s - 1]
      else if o_order opts = u ''current'' \<or> o_order opts = u ''applied'' then
        (if o_search opts = u ''none'' then aiDisplayMaster s
         else if o_search opts = u ''applied'' then aiDisplay s
         else filter (\<lambda>i. i \<notin> set (aiDisplay s)) (aiDisplayMaster s))
      else if o_order opts = u ''index'' \<or> o_order opts = u ''original'' then
        filter (\<lambda>i. o_search opts = u ''none'' \<or> (i \<notin> set (aiDisplay s) \<and> o_search opts = u ''removed'') \<or>
                    (i \<in> set (aiDisplay s) \<and> o_search opts = u ''applied'')) [0..<length (aoData s)]
      else [])"

text \<open>
  A selector: nothing, an index, a text, a test by the page, or an element of the document, of which
  the row it belongs to is what counts.
\<close>

datatype selector = No_selector | Index int | Text ustr | Test "nat \<Rightarrow> jsval \<Rightarrow> bool" | Node "nat option"

text \<open>\<open>_intVal\<close>: the integer at the start of a text that as a whole is a finite number.\<close>

definition intVal :: "selector \<Rightarrow> int option" where
  "intVal sel =
     (case sel of
        Index n \<Rightarrow> Some n
      | Text t \<Rightarrow> (case to_number t of Fin q \<Rightarrow> parseInt10 t | _ \<Rightarrow> None)
      | _ \<Rightarrow> None)"

text \<open>
  What the selector of rows looks up: the ids of rows (\<open>aIds\<close>), and jQuery's selector engine, which
  says whether a row element matches a text; and the columns that a name, a test or an element stands for (a text that is no selector raises an error there, which
  is not modelled).
\<close>

record lookup =
  row_of_id :: "ustr \<Rightarrow> nat option"
  matches_row :: "ustr \<Rightarrow> row \<Rightarrow> bool"
  columns_of :: "selector \<Rightarrow> nat list"

text \<open>The inner function \<open>run\<close> of \<open>__row_selector\<close>.\<close>

definition row_run :: "lookup \<Rightarrow> table \<Rightarrow> sel_opts \<Rightarrow> selector \<Rightarrow> nat list" where
  "row_run env s opts sel =
     (let rows = selector_row_indexes s opts in
      case intVal sel of
        Some n \<Rightarrow>
          if 0 \<le> n \<and> nat n \<in> set rows then [nat n]
          else (case sel of
              Index k \<Rightarrow> if k = 0 then rows else []
            | Text t \<Rightarrow> filter (\<lambda>i. matches_row env t (aoData s ! i)) rows
            | _ \<Rightarrow> [])
      | None \<Rightarrow>
          (case sel of
             No_selector \<Rightarrow> rows
           | Index k \<Rightarrow> []
           | Test f \<Rightarrow> filter (\<lambda>i. f i (aData (aoData s ! i))) rows
           | Node r \<Rightarrow> (case r of None \<Rightarrow> [] | Some i \<Rightarrow> [i])
           | Text t \<Rightarrow>
               if t = [] then rows
               else (case if hd t = 35 then row_of_id env (tl t) else None of
                   Some i \<Rightarrow> [i]
                 | None \<Rightarrow> filter (\<lambda>i. matches_row env t (aoData s ! i)) rows)))"

text \<open>\<open>_selector_run\<close>: texts are split at commas and trimmed; an extension filters the result.\<close>

fun pieces :: "selector \<Rightarrow> selector list" where
  "pieces (Text t) = map (\<lambda>p. Text (js_trim p)) (split_on 44 [] t)"
| "pieces sel = [sel]"

definition selector_run :: "(selector \<Rightarrow> 'i list) \<Rightarrow> ('i list \<Rightarrow> 'i list) \<Rightarrow> selector list \<Rightarrow> 'i list" where
  "selector_run selectFn ext sels = dt_unique (ext (concat (map selectFn (concat (map pieces sels)))))"

text \<open>The extension of Select for the option \<open>selected\<close>.\<close>

definition keep_selected :: "bool option \<Rightarrow> bool list \<Rightarrow> nat list \<Rightarrow> nat list" where
  "keep_selected selected flags is =
     (case selected of None \<Rightarrow> is | Some b \<Rightarrow> filter (\<lambda>i. (i < length flags \<and> flags ! i) = b) is)"

subsection \<open>Selected rows and columns\<close>

record selecting =
  tbl :: table
  rowFlags :: "bool list"           \<comment> \<open>\<open>_select_selected\<close> of the rows\<close>
  colFlags :: "bool list"           \<comment> \<open>\<open>_select_selected\<close> of the columns\<close>
  sel_style :: ustr
  sel_items :: ustr
  className :: ustr
  lastCell :: "(nat \<times> nat) option"

definition rows_api :: "lookup \<Rightarrow> selector list \<Rightarrow> given_opts \<Rightarrow> selecting \<Rightarrow> nat list" where
  "rows_api env sels g s =
     (let opts = selector_opts g in selector_run (row_run env (tbl s) opts) (keep_selected (o_selected opts) (rowFlags s)) sels)"

text \<open>Columns are selected by nothing (all of them) or by an index, from the right if it is negative.\<close>

definition column_run :: "lookup \<Rightarrow> table \<Rightarrow> selector \<Rightarrow> nat list" where
  "column_run env s sel =
     (if sel = No_selector \<or> sel = Text [] then [0..<length (aoColumns s)]
      else (case intVal sel of
          Some n \<Rightarrow> [nat (if 0 \<le> n then n else int (length (aoColumns s)) + n)]
        | None \<Rightarrow> columns_of env sel))"

definition columns_api :: "lookup \<Rightarrow> selector list \<Rightarrow> given_opts \<Rightarrow> selecting \<Rightarrow> nat list" where
  "columns_api env sels g s = selector_run (column_run env (tbl s)) (keep_selected (g_selected g) (colFlags s)) sels"

definition set_row :: "bool \<Rightarrow> nat \<Rightarrow> selecting \<Rightarrow> selecting" where
  "set_row b i s =
     (let r = aoData (tbl s) ! i; r' = r\<lparr>rowClass := (if b then addClass else removeClass) (className s) (rowClass r)\<rparr> in
      s\<lparr>rowFlags := (rowFlags s)[i := b], tbl := (tbl s)\<lparr>aoData := (aoData (tbl s))[i := r']\<rparr>\<rparr>)"

definition rows_deselect :: "nat list \<Rightarrow> selecting \<Rightarrow> selecting" where
  "rows_deselect is s = fold (set_row False) is s"

definition columns_deselect :: "nat list \<Rightarrow> selecting \<Rightarrow> selecting" where
  "columns_deselect is s = fold (\<lambda>i s. s\<lparr>colFlags := (colFlags s)[i := False]\<rparr>) is s"

definition sel_only :: given_opts where
  "sel_only = no_given\<lparr>g_selected := Some True\<rparr>"

definition clear :: "lookup \<Rightarrow> bool \<Rightarrow> selecting \<Rightarrow> selecting" where
  "clear env force s =
     (if force \<or> sel_style s = u ''single''
      then (let s = rows_deselect (rows_api env [No_selector] sel_only s) s in
            columns_deselect (columns_api env [No_selector] sel_only s) s)
      else s)"

definition rows_select :: "lookup \<Rightarrow> nat list \<Rightarrow> selecting \<Rightarrow> selecting" where
  "rows_select env is s = fold (\<lambda>i s. set_row True i (clear env False s)) is s"

definition columns_select :: "lookup \<Rightarrow> nat list \<Rightarrow> selecting \<Rightarrow> selecting" where
  "columns_select env is s = fold (\<lambda>i s. let s = clear env False s in s\<lparr>colFlags := (colFlags s)[i := True]\<rparr>) is s"

subsection \<open>Clicks\<close>

text \<open>What the code uses of \<open>dt[type]\<close> and \<open>dt[type + 's']\<close>, for rows and for columns.\<close>

record 's item_ops =
  i_applied :: "'s \<Rightarrow> nat list"               \<comment> \<open>\<open>({search: 'applied'}).indexes()\<close>\<close>
  i_selected :: "'s \<Rightarrow> nat list"              \<comment> \<open>\<open>({selected: true})\<close>\<close>
  i_chosen :: "nat \<Rightarrow> 's \<Rightarrow> bool"             \<comment> \<open>\<open>(idx, {selected: true}).any()\<close>\<close>
  i_select :: "nat list \<Rightarrow> 's \<Rightarrow> 's"
  i_deselect :: "nat list \<Rightarrow> 's \<Rightarrow> 's"

definition applied_only :: given_opts where
  "applied_only = no_given\<lparr>g_search := Some (u ''applied'')\<rparr>"

definition by_index :: "nat list \<Rightarrow> selector list" where
  "by_index is = map (\<lambda>i. Index (int i)) is"

definition row_items :: "lookup \<Rightarrow> selecting item_ops" where
  "row_items env =
     \<lparr>i_applied = rows_api env [No_selector] applied_only, i_selected = rows_api env [No_selector] sel_only,
      i_chosen = (\<lambda>i s. take 1 (rows_api env (by_index [i]) sel_only s) \<noteq> []),
      i_select = (\<lambda>is s. rows_select env (rows_api env (by_index is) no_given s) s),
      i_deselect = (\<lambda>is s. rows_deselect (rows_api env (by_index is) no_given s) s)\<rparr>"

definition column_items :: "lookup \<Rightarrow> selecting item_ops" where
  "column_items env =
     \<lparr>i_applied = columns_api env [No_selector] applied_only, i_selected = columns_api env [No_selector] sel_only,
      i_chosen = (\<lambda>i s. take 1 (columns_api env (by_index [i]) sel_only s) \<noteq> []),
      i_select = (\<lambda>is s. columns_select env (columns_api env (by_index is) no_given s) s),
      i_deselect = (\<lambda>is s. columns_deselect (columns_api env (by_index is) no_given s) s)\<rparr>"

text \<open>\<open>$.inArray\<close> as a number, and the two forms of \<open>splice\<close> that are used.\<close>

definition pos_in :: "nat option \<Rightarrow> nat list \<Rightarrow> int" where
  "pos_in x is = (case x of None \<Rightarrow> -1 | Some i \<Rightarrow> (case inArray i is of None \<Rightarrow> -1 | Some k \<Rightarrow> int k))"

definition remove_at :: "int \<Rightarrow> 'a list \<Rightarrow> 'a list" where
  "remove_at k xs = (if k < 0 then butlast xs else take (nat k) xs @ drop (Suc (nat k)) xs)"

definition rowColumnRange :: "'s item_ops \<Rightarrow> nat \<Rightarrow> nat option \<Rightarrow> 's \<Rightarrow> 's" where
  "rowColumnRange ops idx prev s =
     (let indexes = i_applied ops s; idx1 = pos_in prev indexes; idx2 = pos_in (Some idx) indexes;
          indexes = (if i_selected ops s = [] \<and> idx1 = -1 then take (nat (idx2 + 1)) indexes
                     else drop (nat (min idx1 idx2)) (take (nat (max idx1 idx2 + 1)) indexes)) in
      if \<not> i_chosen ops idx s then i_select ops indexes s
      else i_deselect ops (remove_at (pos_in (Some idx) indexes) indexes) s)"

record click =
  ctrl :: bool                      \<comment> \<open>the control or the meta key\<close>
  shift :: bool

definition typeSelect :: "'s item_ops \<Rightarrow> ustr \<Rightarrow> click \<Rightarrow> nat \<Rightarrow> nat option \<Rightarrow> 's \<Rightarrow> 's" where
  "typeSelect ops style e idx prev s =
     (let isSelected = i_chosen ops idx s;
          toggle = (if isSelected then i_deselect ops [idx] s else i_select ops [idx] s) in
      if style = u ''os'' then
        (if ctrl e then toggle
         else if shift e then rowColumnRange ops idx prev s
         else (let selected = i_selected ops s in
               if isSelected \<and> length selected = 1 then i_deselect ops [idx] s
               else i_select ops [idx] (i_deselect ops selected s)))
      else if style = u ''multi+shift'' then (if shift e then rowColumnRange ops idx prev s else toggle)
      else toggle)"

text \<open>The handler of a click on the cell of a row and a column, once the page has not prevented it.\<close>

definition select_click :: "lookup \<Rightarrow> click \<Rightarrow> nat \<Rightarrow> nat \<Rightarrow> selecting \<Rightarrow> selecting" where
  "select_click env e row col s =
     (let s' = (if sel_items s = u ''row'' then typeSelect (row_items env) (sel_style s) e row (map_option fst (lastCell s)) s
                else if sel_items s = u ''column'' then typeSelect (column_items env) (sel_style s) e col (map_option snd (lastCell s)) s
                else s) in
      s'\<lparr>lastCell := Some (row, col)\<rparr>)"

subsection \<open>What a click should do\<close>

definition rank :: "'a list \<Rightarrow> 'a \<Rightarrow> nat" where
  "rank L x = length (takeWhile (\<lambda>y. y \<noteq> x) L)"

text \<open>The items from the one clicked before to this one; from the top if that one is not shown.\<close>

definition segment :: "nat list \<Rightarrow> nat option \<Rightarrow> nat \<Rightarrow> nat set" where
  "segment L prev idx =
     (let a = (case prev of Some p \<Rightarrow> if p \<in> set L then rank L p else 0 | None \<Rightarrow> 0); b = rank L idx in
      {x \<in> set L. min a b \<le> rank L x \<and> rank L x \<le> max a b})"

definition range_spec :: "nat list \<Rightarrow> nat option \<Rightarrow> nat \<Rightarrow> nat set \<Rightarrow> nat set" where
  "range_spec L prev idx S = (if idx \<in> S then S - (segment L prev idx - {idx}) else S \<union> segment L prev idx)"

definition click_spec :: "ustr \<Rightarrow> click \<Rightarrow> nat list \<Rightarrow> nat option \<Rightarrow> nat \<Rightarrow> nat set \<Rightarrow> nat set" where
  "click_spec style e L prev idx S =
     (let toggled = (if idx \<in> S then S - {idx} else if style = u ''single'' then {idx} else insert idx S) in
      if style = u ''os'' then
        (if ctrl e then toggled else if shift e then range_spec L prev idx S else if S = {idx} then {} else {idx})
      else if style = u ''multi+shift'' then (if shift e then range_spec L prev idx S else toggled)
      else toggled)"

lemma rank_less: "x \<in> set L \<Longrightarrow> rank L x < length L"
  by (induction L) (auto simp: rank_def)

lemma nth_rank: "x \<in> set L \<Longrightarrow> L ! rank L x = x"
  by (induction L) (auto simp: rank_def)

lemma rank_nth: "distinct L \<Longrightarrow> k < length L \<Longrightarrow> rank L (L ! k) = k"
  using nth_rank [of "L ! k" L] rank_less [of "L ! k" L] nth_eq_iff_index_eq [of L "rank L (L ! k)" k] by simp

lemma inArray_rank: "inArray x L = (if x \<in> set L then Some (rank L x) else None)"
  by (induction L) (auto simp: rank_def)

lemma set_slice:
  assumes "distinct L"
  shows "set (drop i (take j L)) = {x \<in> set L. i \<le> rank L x \<and> rank L x < j}"
proof -
  have "x \<in> set (drop i (take j L)) \<longleftrightarrow> (\<exists>k. i \<le> k \<and> k < j \<and> k < length L \<and> L ! k = x)" for x
  proof
    assume "x \<in> set (drop i (take j L))"
    then obtain n where "n < length (drop i (take j L))" "drop i (take j L) ! n = x" by (auto simp only: in_set_conv_nth)
    moreover from this have "drop i (take j L) ! n = L ! (i + n)" by (subst nth_drop) auto
    ultimately show "\<exists>k. i \<le> k \<and> k < j \<and> k < length L \<and> L ! k = x" by (intro exI [of _ "i + n"]) auto
  next
    assume "\<exists>k. i \<le> k \<and> k < j \<and> k < length L \<and> L ! k = x"
    then obtain k where "i \<le> k" "k < j" "k < length L" "L ! k = x" by blast
    then have "drop i (take j L) ! (k - i) = x" "k - i < length (drop i (take j L))" by auto
    then show "x \<in> set (drop i (take j L))" using nth_mem by blast
  qed
  moreover have "(\<exists>k. i \<le> k \<and> k < j \<and> k < length L \<and> L ! k = x) \<longleftrightarrow> x \<in> set L \<and> i \<le> rank L x \<and> rank L x < j" for x
    using rank_nth [OF assms] nth_rank [of x L] rank_less [of x L] by (metis nth_mem)
  ultimately show ?thesis by auto
qed

lemma set_remove_at:
  assumes "distinct L" and "x \<in> set L"
  shows "set (remove_at (pos_in (Some x) L) L) = set L - {x}" and "distinct (remove_at (pos_in (Some x) L) L)"
proof -
  let ?k = "rank L x"
  have k: "pos_in (Some x) L = int ?k" using assms(2) by (simp add: pos_in_def inArray_rank)
  have L: "L = take ?k L @ x # drop (Suc ?k) L" using id_take_nth_drop [OF rank_less [OF assms(2)]] nth_rank [OF assms(2)] by simp
  have r: "remove_at (pos_in (Some x) L) L = take ?k L @ drop (Suc ?k) L" unfolding k by (simp add: remove_at_def)
  from assms(1) L have "distinct (take ?k L @ x # drop (Suc ?k) L)" by simp
  then have d: "distinct (take ?k L @ drop (Suc ?k) L)" "x \<notin> set (take ?k L @ drop (Suc ?k) L)" by auto
  have "set L = insert x (set (take ?k L @ drop (Suc ?k) L))" using arg_cong [OF L, of set] by simp
  then show "set (remove_at (pos_in (Some x) L) L) = set L - {x}" unfolding r using d(2) by blast
  show "distinct (remove_at (pos_in (Some x) L) L)" unfolding r by (rule d(1))
qed

locale item_set =
  fixes ops :: "'s item_ops" and inv :: "'s \<Rightarrow> bool" and sel :: "'s \<Rightarrow> nat set" and vis :: "'s \<Rightarrow> nat list"
    and univ :: "'s \<Rightarrow> nat set" and style :: "'s \<Rightarrow> ustr"
  assumes applied: "inv s \<Longrightarrow> i_applied ops s = vis s \<and> distinct (vis s) \<and> set (vis s) \<subseteq> univ s"
    and selected: "inv s \<Longrightarrow> set (i_selected ops s) = sel s \<and> distinct (i_selected ops s) \<and> sel s \<subseteq> univ s"
    and chosen: "inv s \<Longrightarrow> i \<in> univ s \<Longrightarrow> i_chosen ops i s \<longleftrightarrow> i \<in> sel s"
    and select: "inv s \<Longrightarrow> set is \<subseteq> univ s \<Longrightarrow> distinct is \<Longrightarrow> inv (i_select ops is s) \<and> univ (i_select ops is s) = univ s \<and>
      sel (i_select ops is s) = (if is = [] then sel s else if style s = u ''single'' then {last is} else sel s \<union> set is)"
    and deselect: "inv s \<Longrightarrow> set is \<subseteq> univ s \<Longrightarrow> distinct is \<Longrightarrow> inv (i_deselect ops is s) \<and> univ (i_deselect ops is s) = univ s \<and>
      style (i_deselect ops is s) = style s \<and> sel (i_deselect ops is s) = sel s - set is"
begin

lemma range_exact:
  assumes "inv s" and "idx \<in> set (vis s)" and "style s \<noteq> u ''single''"
  shows "inv (rowColumnRange ops idx prev s) \<and> sel (rowColumnRange ops idx prev s) = range_spec (vis s) prev idx (sel s)"
proof -
  note a = applied [OF assms(1)]
  define i1 where "i1 = pos_in prev (vis s)"
  define i2 where "i2 = pos_in (Some idx) (vis s)"
  define R where "R = drop (nat (min i1 i2)) (take (nat (max i1 i2 + 1)) (vis s))"
  have i2: "i2 = int (rank (vis s) idx)" using assms(2) by (simp add: i2_def pos_in_def inArray_rank)
  have i1: "i1 = (case prev of Some p \<Rightarrow> if p \<in> set (vis s) then int (rank (vis s) p) else -1 | None \<Rightarrow> -1)"
    by (simp add: i1_def pos_in_def inArray_rank split: option.split)
  have cut: "(if i_selected ops s = [] \<and> i1 = -1 then take (nat (i2 + 1)) (vis s) else R) = R"
    by (simp add: R_def i2)
  have R: "set R = segment (vis s) prev idx" "distinct R"
    using a assms(2) by (auto simp: R_def set_slice segment_def i1 i2 Let_def nat_le_iff zless_nat_eq_int_zless split: option.splits if_splits)
  have in_R: "idx \<in> set R" "set R \<subseteq> univ s"
    using a assms(2) by (auto simp: R(1) segment_def Let_def)
  have u: "idx \<in> univ s" using a assms(2) by auto
  note rm = set_remove_at [OF R(2) in_R(1)]
  have eq: "rowColumnRange ops idx prev s =
      (if \<not> i_chosen ops idx s then i_select ops R s else i_deselect ops (remove_at (pos_in (Some idx) R) R) s)"
    by (simp only: rowColumnRange_def Let_def conjunct1 [OF a] i1_def [symmetric] i2_def [symmetric] R_def [symmetric] cut)
  show ?thesis
    using select [OF assms(1) in_R(2) R(2)] deselect [OF assms(1) _ rm(2)] rm(1) in_R assms(3) chosen [OF assms(1) u]
    by (auto simp: eq range_spec_def R(1) [symmetric])
qed

lemma click_exact:
  assumes "inv s" and "idx \<in> set (vis s)"
  shows "inv (typeSelect ops (style s) e idx prev s) \<and>
    sel (typeSelect ops (style s) e idx prev s) = click_spec (style s) e (vis s) prev idx (sel s)"
proof -
  have u: "idx \<in> univ s" using applied [OF assms(1)] assms(2) by auto
  note c = chosen [OF assms(1) u] and S = selected [OF assms(1)]
  define T where "T = (if i_chosen ops idx s then i_deselect ops [idx] s else i_select ops [idx] s)"
  have T: "inv T" "sel T = (if idx \<in> sel s then sel s - {idx} else if style s = u ''single'' then {idx} else insert idx (sel s))"
    using select [OF assms(1), of "[idx]"] deselect [OF assms(1), of "[idx]"] u c by (auto simp: T_def)
  define D where "D = i_deselect ops (i_selected ops s) s"
  have D: "inv D" "univ D = univ s" "sel D = {}" "style D = style s" using deselect [OF assms(1), of "i_selected ops s"] S by (auto simp: D_def)
  have one: "i_chosen ops idx s \<and> length (i_selected ops s) = 1 \<longleftrightarrow> sel s = {idx}"
    using S c by (metis distinct_card card_1_singletonE is_singletonI' One_nat_def card.empty card.insert empty_iff finite.emptyI insertI1 singletonD)
  have plain: "inv (if sel s = {idx} then i_deselect ops [idx] s else i_select ops [idx] D)"
    "sel (if sel s = {idx} then i_deselect ops [idx] s else i_select ops [idx] D) = (if sel s = {idx} then {} else {idx})"
    using deselect [OF assms(1), of "[idx]"] select [OF D(1), of "[idx]"] u D by auto
  have eq: "typeSelect ops (style s) e idx prev s =
      (if style s = u ''os'' then
         (if ctrl e then T else if shift e then rowColumnRange ops idx prev s
          else if sel s = {idx} then i_deselect ops [idx] s else i_select ops [idx] D)
       else if style s = u ''multi+shift'' then (if shift e then rowColumnRange ops idx prev s else T) else T)"
    using one by (simp add: typeSelect_def Let_def T_def D_def)
  have styles: "u ''os'' \<noteq> u ''single''" "u ''multi+shift'' \<noteq> u ''single''" by (simp_all add: js_simps)
  show ?thesis
    using T plain range_exact [OF assms] styles unfolding eq click_spec_def Let_def by auto
qed

end

subsection \<open>Rows and columns are such items\<close>

definition selected_rows :: "selecting \<Rightarrow> nat set" where
  "selected_rows s = {i. i < length (rowFlags s) \<and> rowFlags s ! i}"

definition selected_columns :: "selecting \<Rightarrow> nat set" where
  "selected_columns s = {i. i < length (colFlags s) \<and> colFlags s ! i}"

text \<open>The rows on which ranges are taken: those that match the search, in the order shown.\<close>

definition offered_rows :: "selecting \<Rightarrow> nat list" where
  "offered_rows s = (if dataSource (tbl s) = SSP then [0..<length (aiDisplayMaster (tbl s))] else aiDisplay (tbl s))"

definition table_rows :: "selecting \<Rightarrow> nat list" where
  "table_rows s = (if dataSource (tbl s) = SSP then [0..<length (aiDisplayMaster (tbl s))] else aiDisplayMaster (tbl s))"

text \<open>
  A row element has the class of selected rows exactly if its flag is set; there is a flag for every row and column.
\<close>

definition marks_ok :: "selecting \<Rightarrow> bool" where
  "marks_ok s \<longleftrightarrow> is_word (className s) \<and> length (rowFlags s) = length (aoData (tbl s)) \<and> length (colFlags s) = length (aoColumns (tbl s)) \<and>
     (\<forall>i < length (aoData (tbl s)). plain (rowClass (aoData (tbl s) ! i)) \<and>
        (className s \<in> set (class_list (rowClass (aoData (tbl s) ! i))) \<longleftrightarrow> rowFlags s ! i))"

definition sel_ok :: "selecting \<Rightarrow> bool" where
  "sel_ok s \<longleftrightarrow> table_wf (tbl s) \<and> marks_ok s"

text \<open>What selecting leaves alone.\<close>

definition same_rest :: "selecting \<Rightarrow> selecting \<Rightarrow> bool" where
  "same_rest s t \<longleftrightarrow> aoColumns (tbl t) = aoColumns (tbl s) \<and> length (aoData (tbl t)) = length (aoData (tbl s)) \<and>
     map aData (aoData (tbl t)) = map aData (aoData (tbl s)) \<and>
     aiDisplayMaster (tbl t) = aiDisplayMaster (tbl s) \<and> aiDisplay (tbl t) = aiDisplay (tbl s) \<and> dataSource (tbl t) = dataSource (tbl s) \<and>
     sel_style t = sel_style s \<and> sel_items t = sel_items s \<and> className t = className s \<and> lastCell t = lastCell s"

lemma same_rest_refl [simp]: "same_rest s s"
  by (simp add: same_rest_def)

lemma same_rest_trans: "same_rest s t \<Longrightarrow> same_rest t v \<Longrightarrow> same_rest s v"
  by (simp add: same_rest_def)

lemma dt_unique_id: "distinct xs \<Longrightarrow> dt_unique xs = xs"
proof -
  have "distinct (out @ xs) \<Longrightarrow> unique_loop out xs = out @ xs" for out
    by (induction xs arbitrary: out) auto
  from this [of "[]"] show "distinct xs \<Longrightarrow> dt_unique xs = xs" by (simp add: dt_unique_def)
qed

lemma table_rows_ok:
  assumes "table_wf (tbl s)"
  shows "distinct (table_rows s)" "set (table_rows s) = {..<length (aoData (tbl s))}"
    "distinct (offered_rows s)" "set (offered_rows s) \<subseteq> {..<length (aoData (tbl s))}"
proof -
  have "length (aiDisplayMaster (tbl s)) = length (aoData (tbl s))"
    using assms distinct_card [of "aiDisplayMaster (tbl s)"] by (simp add: table_wf_def)
  then show "distinct (table_rows s)" "set (table_rows s) = {..<length (aoData (tbl s))}"
    "distinct (offered_rows s)" "set (offered_rows s) \<subseteq> {..<length (aoData (tbl s))}"
    using assms by (auto simp: table_rows_def offered_rows_def table_wf_def)
qed

lemma selector_rows:
  "selector_row_indexes (tbl s) (selector_opts no_given) = table_rows s"
  "selector_row_indexes (tbl s) (selector_opts sel_only) = table_rows s"
  "selector_row_indexes (tbl s) (selector_opts applied_only) = offered_rows s"
  by (simp_all add: selector_row_indexes_def selector_opts_def no_given_def sel_only_def applied_only_def or_default_def
      table_rows_def offered_rows_def js_simps)

lemma opts_selected [simp]:
  "o_selected (selector_opts no_given) = None" "o_selected (selector_opts sel_only) = Some True"
  "o_selected (selector_opts applied_only) = None"
  by (simp_all add: selector_opts_def no_given_def sel_only_def applied_only_def Let_def)

lemma rows_api_all:
  assumes "table_wf (tbl s)"
  shows "rows_api env [No_selector] applied_only s = offered_rows s"
    and "rows_api env [No_selector] sel_only s = filter (\<lambda>i. i \<in> selected_rows s) (table_rows s)"
  using table_rows_ok [OF assms]
  by (auto simp: rows_api_def Let_def selector_run_def row_run_def intVal_def selector_rows keep_selected_def dt_unique_id
      selected_rows_def intro!: filter_cong)

lemma concat_by_index: "concat (map pieces (by_index is)) = by_index is"
  by (induction "is") (simp_all add: by_index_def)

lemma row_run_index:
  assumes "i \<in> set (selector_row_indexes t opts)"
  shows "row_run env t opts (Index (int i)) = [i]"
  using assms by (simp add: row_run_def intVal_def Let_def)

lemma rows_api_index:
  assumes "table_wf (tbl s)" and "set is \<subseteq> {..<length (aoData (tbl s))}" and "distinct is"
  shows "rows_api env (by_index is) no_given s = is"
    and "rows_api env (by_index is) sel_only s = filter (\<lambda>i. i \<in> selected_rows s) is"
proof -
  have "concat (map (row_run env (tbl s) opts) (by_index is)) = is"
    if "selector_row_indexes (tbl s) opts = table_rows s" for opts
    using assms(2) table_rows_ok(2) [OF assms(1)] that by (induction "is") (simp_all add: by_index_def row_run_index)
  note c = this [OF selector_rows(1)] this [OF selector_rows(2)]
  show "rows_api env (by_index is) no_given s = is" "rows_api env (by_index is) sel_only s = filter (\<lambda>i. i \<in> selected_rows s) is"
    using assms(3) c by (auto simp: rows_api_def Let_def selector_run_def concat_by_index keep_selected_def dt_unique_id selected_rows_def
        intro!: filter_cong)
qed

lemma set_row_ok:
  assumes "sel_ok s" and "i < length (aoData (tbl s))"
  shows "sel_ok (set_row b i s)" and "same_rest s (set_row b i s)"
    and "selected_rows (set_row b i s) = (if b then insert i (selected_rows s) else selected_rows s - {i})"
    and "selected_columns (set_row b i s) = selected_columns s"
proof -
  let ?r = "aoData (tbl s) ! i"
  have m: "marks_ok s" "is_word (className s)" "length (rowFlags s) = length (aoData (tbl s))" "plain (rowClass ?r)"
    using assms by (auto simp: sel_ok_def marks_ok_def)
  have c: "plain ((if b then addClass else removeClass) (className s) (rowClass ?r))"
    "className s \<in> set (class_list ((if b then addClass else removeClass) (className s) (rowClass ?r))) \<longleftrightarrow> b"
    using addClass_refines [OF m(4), of "className s"] removeClass_refines [OF m(4), of "className s"] words_single [OF m(2)]
    by (auto simp: add_classes_def remove_classes_def)
  show "sel_ok (set_row b i s)"
    using assms m c by (auto simp: sel_ok_def marks_ok_def set_row_def Let_def table_wf_def nth_list_update)
  show "same_rest s (set_row b i s)"
    using assms(2) by (auto simp: same_rest_def set_row_def Let_def dataSource_def map_update intro!: list_update_same_conv [THEN iffD2])
  show "selected_rows (set_row b i s) = (if b then insert i (selected_rows s) else selected_rows s - {i})"
    using assms(2) m(3) by (auto simp: selected_rows_def set_row_def Let_def nth_list_update)
  show "selected_columns (set_row b i s) = selected_columns s" by (simp add: selected_columns_def set_row_def Let_def)
qed

lemma rows_deselect_ok:
  assumes "sel_ok s" and "set is \<subseteq> {..<length (aoData (tbl s))}"
  shows "sel_ok (rows_deselect is s) \<and> same_rest s (rows_deselect is s) \<and> selected_rows (rows_deselect is s) = selected_rows s - set is \<and>
    selected_columns (rows_deselect is s) = selected_columns s"
  using assms
proof (induction "is" arbitrary: s)
  case (Cons i "is")
  have i: "i < length (aoData (tbl s))" using Cons.prems(2) by simp
  note r = set_row_ok [OF Cons.prems(1) i, of False]
  have "set is \<subseteq> {..<length (aoData (tbl (set_row False i s)))}" using Cons.prems(2) r(2) by (simp add: same_rest_def)
  from Cons.IH [OF r(1) this] r show ?case by (auto simp: rows_deselect_def intro: same_rest_trans)
qed (simp add: rows_deselect_def)

lemma flag_cleared: "x < length fs \<Longrightarrow> fs[i := False] ! x \<longleftrightarrow> x \<noteq> i \<and> fs ! x"
  by (cases "i = x") simp_all

lemma columns_deselect_ok:
  assumes "sel_ok s"
  shows "sel_ok (columns_deselect is s) \<and> same_rest s (columns_deselect is s) \<and> selected_columns (columns_deselect is s) = selected_columns s - set is \<and>
    selected_rows (columns_deselect is s) = selected_rows s"
  using assms
proof (induction "is" arbitrary: s)
  case (Cons i "is")
  let ?s = "s\<lparr>colFlags := (colFlags s)[i := False]\<rparr>"
  have "sel_ok ?s" "same_rest s ?s" "selected_columns ?s = selected_columns s - {i}" "selected_rows ?s = selected_rows s"
    using Cons.prems by (auto simp: sel_ok_def marks_ok_def same_rest_def selected_columns_def selected_rows_def flag_cleared)
  with Cons.IH [of ?s] show ?case by (auto simp: columns_deselect_def intro: same_rest_trans)
qed (simp add: columns_deselect_def)

lemma columns_api_all:
  assumes "sel_ok s"
  shows "columns_api env [No_selector] applied_only s = [0..<length (aoColumns (tbl s))]"
    and "columns_api env [No_selector] sel_only s = filter (\<lambda>i. i \<in> selected_columns s) [0..<length (aoColumns (tbl s))]"
  using assms
  by (auto simp: columns_api_def column_run_def selector_run_def keep_selected_def applied_only_def sel_only_def no_given_def dt_unique_id
      selected_columns_def intro!: filter_cong)

lemma columns_api_index:
  assumes "distinct is"
  shows "columns_api env (by_index is) no_given s = is"
    and "columns_api env (by_index is) sel_only s = filter (\<lambda>i. i \<in> selected_columns s) is"
proof -
  have "concat (map (column_run env (tbl s)) (by_index is)) = is" by (induction "is") (simp_all add: by_index_def column_run_def intVal_def)
  then show "columns_api env (by_index is) no_given s = is" "columns_api env (by_index is) sel_only s = filter (\<lambda>i. i \<in> selected_columns s) is"
    using assms by (auto simp: columns_api_def selector_run_def concat_by_index keep_selected_def sel_only_def no_given_def dt_unique_id
        selected_columns_def intro!: filter_cong)
qed

lemma selected_in_table:
  assumes "sel_ok s"
  shows "selected_rows s \<subseteq> {..<length (aoData (tbl s))}" "selected_columns s \<subseteq> {..<length (aoColumns (tbl s))}"
  using assms by (auto simp: sel_ok_def marks_ok_def selected_rows_def selected_columns_def)

lemma clear_ok:
  assumes "sel_ok s"
  shows "sel_ok (clear env force s) \<and> same_rest s (clear env force s) \<and>
    selected_rows (clear env force s) = (if force \<or> sel_style s = u ''single'' then {} else selected_rows s) \<and>
    selected_columns (clear env force s) = (if force \<or> sel_style s = u ''single'' then {} else selected_columns s)"
proof (cases "force \<or> sel_style s = u ''single''")
  case True
  have wf: "table_wf (tbl s)" using assms by (simp add: sel_ok_def)
  define t where "t = rows_deselect (rows_api env [No_selector] sel_only s) s"
  have "set (rows_api env [No_selector] sel_only s) = selected_rows s" "set (rows_api env [No_selector] sel_only s) \<subseteq> {..<length (aoData (tbl s))}"
    using table_rows_ok(2) [OF wf] selected_in_table(1) [OF assms] by (auto simp: rows_api_all [OF wf])
  then have t: "sel_ok t" "same_rest s t" "selected_rows t = {}" "selected_columns t = selected_columns s"
    using rows_deselect_ok [OF assms, of "rows_api env [No_selector] sel_only s"] by (auto simp: t_def)
  have "set (columns_api env [No_selector] sel_only t) = selected_columns t"
    using selected_in_table(2) [OF t(1)] by (auto simp: columns_api_all [OF t(1)])
  moreover have "clear env force s = columns_deselect (columns_api env [No_selector] sel_only t) t" using True by (simp add: clear_def t_def Let_def)
  ultimately show ?thesis using columns_deselect_ok [OF t(1), of "columns_api env [No_selector] sel_only t"] t True by (auto intro: same_rest_trans)
qed (use assms in \<open>auto simp: clear_def\<close>)

lemma rows_select_ok:
  assumes "sel_ok s" and "set is \<subseteq> {..<length (aoData (tbl s))}"
  shows "sel_ok (rows_select env is s) \<and> same_rest s (rows_select env is s) \<and>
    selected_rows (rows_select env is s) = (if is = [] then selected_rows s else if sel_style s = u ''single'' then {last is} else selected_rows s \<union> set is)"
  using assms
proof (induction "is" arbitrary: s)
  case (Cons i "is")
  note c = clear_ok [OF Cons.prems(1), of env False]
  have i: "i < length (aoData (tbl (clear env False s)))" using Cons.prems(2) c by (simp add: same_rest_def)
  note r = set_row_ok [of "clear env False s", OF _ i, of True]
  let ?t = "set_row True i (clear env False s)"
  have t: "sel_ok ?t" "same_rest s ?t" "selected_rows ?t = insert i (if sel_style s = u ''single'' then {} else selected_rows s)"
    using r c by (auto intro: same_rest_trans)
  have "set is \<subseteq> {..<length (aoData (tbl ?t))}" "sel_style ?t = sel_style s" using Cons.prems(2) t(2) by (simp_all add: same_rest_def)
  with Cons.IH [OF t(1)] t show ?case by (auto simp: rows_select_def intro: same_rest_trans)
qed (simp add: rows_select_def)

lemma columns_select_ok:
  assumes "sel_ok s" and "set is \<subseteq> {..<length (aoColumns (tbl s))}"
  shows "sel_ok (columns_select env is s) \<and> same_rest s (columns_select env is s) \<and>
    selected_columns (columns_select env is s) = (if is = [] then selected_columns s else if sel_style s = u ''single'' then {last is} else selected_columns s \<union> set is) \<and>
    selected_rows (columns_select env is s) \<subseteq> selected_rows s"
  using assms
proof (induction "is" arbitrary: s)
  case (Cons i "is")
  note c = clear_ok [OF Cons.prems(1), of env False]
  let ?c = "clear env False s"
  let ?t = "?c\<lparr>colFlags := (colFlags ?c)[i := True]\<rparr>"
  have i: "i < length (colFlags ?c)" using Cons.prems c by (auto simp: same_rest_def sel_ok_def marks_ok_def)
  then have "sel_ok ?t" "same_rest ?c ?t" "selected_columns ?t = insert i (selected_columns ?c)"
    using c by (auto simp: sel_ok_def marks_ok_def same_rest_def selected_columns_def nth_list_update)
  moreover have "selected_rows ?t = selected_rows ?c" by (simp add: selected_rows_def)
  ultimately have t: "sel_ok ?t" "same_rest s ?t" "selected_columns ?t = insert i (if sel_style s = u ''single'' then {} else selected_columns s)"
    "selected_rows ?t \<subseteq> selected_rows s"
    using c by (auto intro: same_rest_trans)
  have "set is \<subseteq> {..<length (aoColumns (tbl ?t))}" "sel_style ?t = sel_style s" using Cons.prems(2) t(2) by (simp_all add: same_rest_def)
  with Cons.IH [OF t(1)] t show ?case by (auto simp: columns_select_def Let_def intro: same_rest_trans)
qed (simp add: columns_select_def)

text \<open>The invariant of a selection that started as \<open>s0\<close>.\<close>

definition sel_from :: "selecting \<Rightarrow> selecting \<Rightarrow> bool" where
  "sel_from s0 s \<longleftrightarrow> sel_ok s \<and> same_rest s0 s"

definition sel_from_col :: "selecting \<Rightarrow> selecting \<Rightarrow> bool" where
  "sel_from_col s0 s \<longleftrightarrow> sel_from s0 s \<and> selected_rows s \<subseteq> selected_rows s0"

lemma sel_from_start: "sel_ok s \<Longrightarrow> sel_from s s" "sel_ok s \<Longrightarrow> sel_from_col s s"
  by (simp_all add: sel_from_def sel_from_col_def)

interpretation rows: item_set "row_items env" "sel_from s0" selected_rows offered_rows "\<lambda>s. {..<length (aoData (tbl s))}" sel_style
  for env s0
proof
  fix s "is" i
  assume ok0: "sel_from s0 s"
  then have ok: "sel_ok s" "table_wf (tbl s)" by (simp_all add: sel_from_def sel_ok_def)
  note all = rows_api_all [OF ok(2)] and tr = table_rows_ok [OF ok(2)]
  show "i_applied (row_items env) s = offered_rows s \<and> distinct (offered_rows s) \<and> set (offered_rows s) \<subseteq> {..<length (aoData (tbl s))}"
    using tr all by (simp add: row_items_def)
  show "set (i_selected (row_items env) s) = selected_rows s \<and> distinct (i_selected (row_items env) s) \<and> selected_rows s \<subseteq> {..<length (aoData (tbl s))}"
    using tr selected_in_table(1) [OF ok(1)] by (auto simp: row_items_def all)
  show "i_chosen (row_items env) i s \<longleftrightarrow> i \<in> selected_rows s" if "i \<in> {..<length (aoData (tbl s))}"
    using rows_api_index(2) [OF ok(2), of "[i]" env] that by (simp add: row_items_def)
  assume "is": "set is \<subseteq> {..<length (aoData (tbl s))}" "distinct is"
  note sub = rows_api_index(1) [OF ok(2) "is", of env]
  show "sel_from s0 (i_select (row_items env) is s) \<and> {..<length (aoData (tbl (i_select (row_items env) is s)))} = {..<length (aoData (tbl s))} \<and>
      selected_rows (i_select (row_items env) is s) =
        (if is = [] then selected_rows s else if sel_style s = u ''single'' then {last is} else selected_rows s \<union> set is)"
    using rows_select_ok [OF ok(1) "is"(1), of env] ok0 by (simp add: row_items_def sub same_rest_def sel_from_def)
  show "sel_from s0 (i_deselect (row_items env) is s) \<and> {..<length (aoData (tbl (i_deselect (row_items env) is s)))} = {..<length (aoData (tbl s))} \<and>
      sel_style (i_deselect (row_items env) is s) = sel_style s \<and> selected_rows (i_deselect (row_items env) is s) = selected_rows s - set is"
    using rows_deselect_ok [OF ok(1) "is"(1)] ok0 by (simp add: row_items_def sub same_rest_def sel_from_def)
qed

interpretation columns: item_set "column_items env" "sel_from_col s0" selected_columns "\<lambda>s. [0..<length (aoColumns (tbl s))]"
    "\<lambda>s. {..<length (aoColumns (tbl s))}" sel_style
  for env s0
proof
  fix s "is" i
  assume ok0: "sel_from_col s0 s"
  then have ok: "sel_ok s" by (simp add: sel_from_col_def sel_from_def)
  note all = columns_api_all [OF ok]
  show "i_applied (column_items env) s = [0..<length (aoColumns (tbl s))] \<and> distinct [0..<length (aoColumns (tbl s))] \<and>
      set [0..<length (aoColumns (tbl s))] \<subseteq> {..<length (aoColumns (tbl s))}"
    using all by (auto simp: column_items_def)
  show "set (i_selected (column_items env) s) = selected_columns s \<and> distinct (i_selected (column_items env) s) \<and>
      selected_columns s \<subseteq> {..<length (aoColumns (tbl s))}"
    using selected_in_table(2) [OF ok] by (auto simp: column_items_def all)
  show "i_chosen (column_items env) i s \<longleftrightarrow> i \<in> selected_columns s" if "i \<in> {..<length (aoColumns (tbl s))}"
    using columns_api_index(2) [of "[i]" env s] by (simp add: column_items_def)
  assume "is": "set is \<subseteq> {..<length (aoColumns (tbl s))}" "distinct is"
  note sub = columns_api_index(1) [OF "is"(2)]
  show "sel_from_col s0 (i_select (column_items env) is s) \<and> {..<length (aoColumns (tbl (i_select (column_items env) is s)))} = {..<length (aoColumns (tbl s))} \<and>
      selected_columns (i_select (column_items env) is s) =
        (if is = [] then selected_columns s else if sel_style s = u ''single'' then {last is} else selected_columns s \<union> set is)"
    using columns_select_ok [OF ok "is"(1), of env] ok0 by (auto simp: column_items_def sub same_rest_def sel_from_col_def sel_from_def)
  show "sel_from_col s0 (i_deselect (column_items env) is s) \<and> {..<length (aoColumns (tbl (i_deselect (column_items env) is s)))} = {..<length (aoColumns (tbl s))} \<and>
      sel_style (i_deselect (column_items env) is s) = sel_style s \<and> selected_columns (i_deselect (column_items env) is s) = selected_columns s - set is"
    using columns_deselect_ok [OF ok, of "is"] ok0 by (auto simp: column_items_def sub same_rest_def sel_from_col_def sel_from_def)
qed

subsection \<open>Clicks and the life of a selection\<close>

lemma sel_ok_last [simp]: "sel_ok (s\<lparr>lastCell := c\<rparr>) = sel_ok s" "selected_rows (s\<lparr>lastCell := c\<rparr>) = selected_rows s"
  "selected_columns (s\<lparr>lastCell := c\<rparr>) = selected_columns s"
  by (simp_all add: sel_ok_def marks_ok_def selected_rows_def selected_columns_def)

lemma select_click_ok:
  assumes "sel_ok s" and "row \<in> set (offered_rows s)" and "col < length (aoColumns (tbl s))"
  shows "sel_ok (select_click env e row col s) \<and> same_rest (s\<lparr>lastCell := Some (row, col)\<rparr>) (select_click env e row col s) \<and>
    (sel_items s = u ''row'' \<longrightarrow> selected_rows (select_click env e row col s) =
       click_spec (sel_style s) e (offered_rows s) (map_option fst (lastCell s)) row (selected_rows s)) \<and>
    (sel_items s = u ''column'' \<longrightarrow> selected_columns (select_click env e row col s) =
       click_spec (sel_style s) e [0..<length (aoColumns (tbl s))] (map_option snd (lastCell s)) col (selected_columns s)) \<and>
    (sel_items s \<noteq> u ''row'' \<longrightarrow> selected_rows (select_click env e row col s) \<subseteq> selected_rows s)"
proof -
  have differ: "u ''row'' \<noteq> u ''column''" by (simp add: js_simps)
  have last: "same_rest s t \<Longrightarrow> same_rest (s\<lparr>lastCell := c\<rparr>) (t\<lparr>lastCell := c\<rparr>)" for t c by (simp add: same_rest_def)
  note r = rows.click_exact [OF sel_from_start(1) [OF assms(1)] assms(2), of env e]
  have "col \<in> set [0..<length (aoColumns (tbl s))]" using assms(3) by simp
  note c = columns.click_exact [OF sel_from_start(2) [OF assms(1)] this, of env e]
  consider "sel_items s = u ''row''" | "sel_items s = u ''column''" | "sel_items s \<noteq> u ''row''" "sel_items s \<noteq> u ''column''" by blast
  then show ?thesis
  proof cases
    case 1
    then show ?thesis using r [of "map_option fst (lastCell s)"] differ by (simp add: select_click_def sel_from_def sel_from_col_def last)
  next
    case 2
    then show ?thesis using c [of "map_option snd (lastCell s)"] differ by (simp add: select_click_def sel_from_def sel_from_col_def last)
  qed (use assms(1) last [of s] in \<open>simp add: select_click_def\<close>)
qed

text \<open>
  C4. A click selects what users of lists expect. In a table whose rows (or columns) can be selected, and in which what is
  marked is what is selected: with the style \<open>os\<close> a click selects the item alone, or deselects it if it
  was the only one; a click with the control key toggles the item; a click with the shift key selects all
  items from the one clicked before to this one, in the order shown (from the top if that one is not
  shown), or, if this one is selected, deselects the others of them. The style \<open>multi+shift\<close> toggles
  otherwise, \<open>single\<close> keeps one item at most, any other style toggles. The marks of the rows follow.
\<close>

theorem click_selects:
  assumes "sel_ok s" and "row \<in> set (offered_rows s)" and "col < length (aoColumns (tbl s))"
  shows "sel_ok (select_click env e row col s) \<and> lastCell (select_click env e row col s) = Some (row, col) \<and>
    (sel_items s = u ''row'' \<longrightarrow> selected_rows (select_click env e row col s) =
       click_spec (sel_style s) e (offered_rows s) (map_option fst (lastCell s)) row (selected_rows s)) \<and>
    (sel_items s = u ''column'' \<longrightarrow> selected_columns (select_click env e row col s) =
       click_spec (sel_style s) e [0..<length (aoColumns (tbl s))] (map_option snd (lastCell s)) col (selected_columns s))"
  using select_click_ok [OF assms, of env e] by (simp add: same_rest_def)

definition demo_column :: column where
  "demo_column = \<lparr>c_name = [], bVisible = True, bSearchable = True, bSortable = True, sType = None, manualType = None,
     asSorting = [], aDataSort = [0], defaultContent = None\<rparr>"

definition demo_select :: selecting where
  "demo_select = \<lparr>tbl = sample_table\<lparr>aiDisplay := [3, 1, 0], aoColumns := [demo_column]\<rparr>, rowFlags = [False, False, False, False],
     colFlags = [False], sel_style = u ''os'', sel_items = u ''row'', className = u ''selected'', lastCell = Some (3, 0)\<rparr>"

lemma demo_select_ok: "sel_ok demo_select"
proof -
  have "is_word (u ''selected'')" by (auto simp: is_word_def js_ws_def js_simps)
  then show ?thesis
    by (auto simp: sel_ok_def marks_ok_def table_wf_def demo_select_def sample_table_fields new_row_def less_Suc_eq numeral_eq_Suc plain_def class_list_def
        atLeast0LessThan [symmetric] atLeast0_lessThan_Suc)
qed

theorem click_selects_witness:
  "selected_rows (select_click \<lparr>row_of_id = \<lambda>_. None, matches_row = \<lambda>_ _. False, columns_of = \<lambda>_. []\<rparr> \<lparr>ctrl = False, shift = True\<rparr> 0 0 demo_select) = {3, 1, 0}"
proof -
  have "0 \<in> set (offered_rows demo_select)" "0 < length (aoColumns (tbl demo_select))" "sel_items demo_select = u ''row''"
    by (simp_all add: demo_select_def offered_rows_def dataSource_def sample_table_def addData_def blank_table_def)
  moreover have "click_spec (sel_style demo_select) \<lparr>ctrl = False, shift = True\<rparr> (offered_rows demo_select) (map_option fst (lastCell demo_select)) 0
      (selected_rows demo_select) = {3, 1, 0}"
    by (auto simp: click_spec_def range_spec_def segment_def Let_def rank_def selected_rows_def demo_select_def offered_rows_def dataSource_def
        sample_table_def addData_def blank_table_def less_Suc_eq numeral_eq_Suc js_simps)
  ultimately show ?thesis using click_selects [OF demo_select_ok, of 0 0 "\<lparr>row_of_id = \<lambda>_. None, matches_row = \<lambda>_ _. False, columns_of = \<lambda>_. []\<rparr>" "\<lparr>ctrl = False, shift = True\<rparr>"]
    by simp
qed

text \<open>
  What happens to a selection: clicks on cells that are shown, calls of the interface by the page,
  and searching and sorting, which rearrange the index arrays of the table.
\<close>

datatype sel_event = Click click nat nat | Rearrange "nat list" "nat list" | Choose "nat list" | Drop "nat list" | Clear_all

fun sel_step :: "lookup \<Rightarrow> sel_event \<Rightarrow> selecting \<Rightarrow> selecting" where
  "sel_step env (Click e row col) s = select_click env e row col s"
| "sel_step env (Rearrange m d) s = s\<lparr>tbl := (tbl s)\<lparr>aiDisplayMaster := m, aiDisplay := d\<rparr>\<rparr>"
| "sel_step env (Choose is) s = rows_select env (rows_api env (by_index is) no_given s) s"
| "sel_step env (Drop is) s = rows_deselect (rows_api env (by_index is) no_given s) s"
| "sel_step env Clear_all s = clear env True s"

fun sel_enabled :: "sel_event \<Rightarrow> selecting \<Rightarrow> bool" where
  "sel_enabled (Click e row col) s \<longleftrightarrow> row \<in> set (offered_rows s) \<and> col < length (aoColumns (tbl s))"
| "sel_enabled (Rearrange m d) s \<longleftrightarrow> table_wf ((tbl s)\<lparr>aiDisplayMaster := m, aiDisplay := d\<rparr>)"
| "sel_enabled (Choose is) s \<longleftrightarrow> set is \<subseteq> {..<length (aoData (tbl s))} \<and> distinct is"
| "sel_enabled (Drop is) s \<longleftrightarrow> set is \<subseteq> {..<length (aoData (tbl s))} \<and> distinct is"
| "sel_enabled Clear_all s \<longleftrightarrow> True"

inductive sel_run :: "lookup \<Rightarrow> selecting \<Rightarrow> sel_event list \<Rightarrow> selecting \<Rightarrow> bool" for env s0 where
  begins: "sel_run env s0 [] s0"
| goes_on: "sel_run env s0 es s \<Longrightarrow> sel_enabled e s \<Longrightarrow> sel_run env s0 (e # es) (sel_step env e s)"

definition at_most_one :: "selecting \<Rightarrow> bool" where
  "at_most_one s \<longleftrightarrow> (\<exists>i. selected_rows s \<subseteq> {i})"

lemma sel_step_ok:
  assumes "sel_ok s" and "sel_enabled e s"
  shows "sel_ok (sel_step env e s) \<and> sel_style (sel_step env e s) = sel_style s \<and> className (sel_step env e s) = className s \<and>
    sel_items (sel_step env e s) = sel_items s"
proof (cases e)
  case (Click e row col)
  then show ?thesis using select_click_ok [OF assms(1), of row col env e] assms(2) by (simp add: same_rest_def)
next
  case (Rearrange m d)
  then show ?thesis using assms by (simp add: sel_ok_def marks_ok_def)
next
  case (Choose "is")
  have wf: "table_wf (tbl s)" using assms(1) by (simp add: sel_ok_def)
  show ?thesis using Choose assms(2) rows_select_ok [OF assms(1), of "is" env] rows_api_index(1) [OF wf, of "is" env] by (simp add: same_rest_def)
next
  case (Drop "is")
  have wf: "table_wf (tbl s)" using assms(1) by (simp add: sel_ok_def)
  show ?thesis using Drop assms(2) rows_deselect_ok [OF assms(1), of "is"] rows_api_index(1) [OF wf, of "is" env] by (simp add: same_rest_def)
next
  case Clear_all
  then show ?thesis using clear_ok [OF assms(1), of env True] by (simp add: same_rest_def)
qed

lemma sel_run_ok:
  assumes "sel_run env s0 es s" and "sel_ok s0"
  shows "sel_ok s \<and> sel_style s = sel_style s0 \<and> className s = className s0 \<and> sel_items s = sel_items s0"
  using assms by (induction rule: sel_run.induct) (use sel_step_ok in \<open>auto\<close>)

lemma at_most_one_step:
  assumes "sel_ok s" and "sel_enabled e s" and style: "sel_style s = u ''single''" and one: "at_most_one s"
  shows "at_most_one (sel_step env e s)"
proof -
  have wf: "table_wf (tbl s)" using assms(1) by (simp add: sel_ok_def)
  have less: "selected_rows t \<subseteq> selected_rows s \<Longrightarrow> at_most_one t" for t using one by (auto simp: at_most_one_def)
  show ?thesis
  proof (cases e)
    case (Click c row col)
    note click = select_click_ok [OF assms(1), of row col env c]
    have "u ''single'' \<noteq> u ''os''" "u ''single'' \<noteq> u ''multi+shift''" by (simp_all add: js_simps)
    moreover have "\<exists>i. selected_rows s - {row} \<subseteq> {i}" using one by (auto simp: at_most_one_def)
    ultimately show ?thesis
      using Click click assms(2) style less by (cases "sel_items s = u ''row''") (simp_all add: at_most_one_def click_spec_def Let_def)
  next
    case (Rearrange m d)
    then show ?thesis by (intro less) (simp add: selected_rows_def)
  next
    case (Choose "is")
    then show ?thesis using assms(2) rows_select_ok [OF assms(1), of "is" env] rows_api_index(1) [OF wf, of "is" env] style one
      by (auto simp: at_most_one_def)
  next
    case (Drop "is")
    then show ?thesis using assms(2) rows_deselect_ok [OF assms(1), of "is"] rows_api_index(1) [OF wf, of "is" env] by (intro less) auto
  next
    case Clear_all
    then show ?thesis using clear_ok [OF assms(1), of env True] by (simp add: at_most_one_def)
  qed
qed


definition plain_env :: lookup where
  "plain_env = \<lparr>row_of_id = \<lambda>_. None, matches_row = \<lambda>t r. hasClass (tl t) (rowClass r), columns_of = \<lambda>_. []\<rparr>"

lemma demo_run: "sel_run plain_env (demo_select\<lparr>sel_style := u ''single''\<rparr>) [Click \<lparr>ctrl = False, shift = False\<rparr> 1 0]
    (sel_step plain_env (Click \<lparr>ctrl = False, shift = False\<rparr> 1 0) (demo_select\<lparr>sel_style := u ''single''\<rparr>))"
  by (rule sel_run.goes_on [OF sel_run.begins])
    (simp add: demo_select_def offered_rows_def dataSource_def sample_table_def addData_def blank_table_def)


subsection \<open>What is sent to the server\<close>

text \<open>
  The handler of \<open>js/datatables-helpers.js\<close> asks for the rows by their class, \<open>dt.rows('.selected').data()\<close>.
\<close>

definition row_fields :: "jsval \<Rightarrow> (ustr \<times> jsval) list" where
  "row_fields d = (case d of Obj ps \<Rightarrow> ps | _ \<Rightarrow> [])"

definition send_selected :: "handler \<Rightarrow> ustr \<Rightarrow> lookup \<Rightarrow> selecting \<Rightarrow> request" where
  "send_selected h token env s =
     click_selected h token (map (\<lambda>i. row_fields (aData (aoData (tbl s) ! i))) (rows_api env [Text (u ''.selected'')] no_given s))"

lemma intVal_mark:
  "intVal (Text (46 # w)) = None" "intVal (Text (35 # w)) = None"
  by (simp_all add: intVal_def parseInt10_def Let_def is_digit_def js_ws_def split: jsnum.splits)

lemma rows_by_class:
  assumes "sel_ok s" and "className s = u ''selected''"
    and "\<And>r. matches_row env (u ''.selected'') r \<longleftrightarrow> hasClass (u ''selected'') (rowClass r)"
  shows "rows_api env [Text (u ''.selected'')] no_given s = filter (\<lambda>i. i \<in> selected_rows s) (table_rows s)"
proof -
  have wf: "table_wf (tbl s)" using assms(1) by (simp add: sel_ok_def)
  note tr = table_rows_ok [OF wf]
  have t: "u ''.selected'' = 46 # u ''selected''" "js_trim (u ''.selected'') = u ''.selected''" "split_on 44 [] (u ''.selected'') = [u ''.selected'']"
    by (simp_all add: js_simps js_trim_def js_ws_def split_on_def)
  have m: "matches_row env (u ''.selected'') (aoData (tbl s) ! i) \<longleftrightarrow> i \<in> selected_rows s" if "i < length (aoData (tbl s))" for i
    using hasClass_refines [of "rowClass (aoData (tbl s) ! i)" "u ''selected''"] assms that
    by (auto simp: sel_ok_def marks_ok_def selected_rows_def)
  have "row_run env (tbl s) (selector_opts no_given) (Text (u ''.selected'')) =
      filter (\<lambda>i. matches_row env (u ''.selected'') (aoData (tbl s) ! i)) (table_rows s)"
    using intVal_mark(1) [of "u ''selected''"] by (simp add: row_run_def Let_def selector_rows t(1))
  also have "\<dots> = filter (\<lambda>i. i \<in> selected_rows s) (table_rows s)" using m tr(2) by (intro filter_cong) auto
  finally show ?thesis using tr(1) by (simp add: rows_api_def Let_def selector_run_def t(2,3) keep_selected_def dt_unique_id)
qed


lemma demo_clicked:
  defines "s \<equiv> sel_step plain_env (Click \<lparr>ctrl = False, shift = True\<rparr> 0 0) demo_select"
  shows "sel_run plain_env demo_select [Click \<lparr>ctrl = False, shift = True\<rparr> 0 0] s" "selected_rows s = {0, 1, 3}"
    "table_rows s = [0, 1, 2, 3]" "map aData (aoData (tbl s)) = [Num 10, Num 20, Num 30, Num 40]"
proof -
  have en: "0 \<in> set (offered_rows demo_select)" "0 < length (aoColumns (tbl demo_select))" "sel_items demo_select = u ''row''"
    by (simp_all add: demo_select_def offered_rows_def dataSource_def sample_table_def addData_def blank_table_def)
  then show "sel_run plain_env demo_select [Click \<lparr>ctrl = False, shift = True\<rparr> 0 0] s"
    unfolding s_def by (intro sel_run.goes_on sel_run.begins) simp
  note c = select_click_ok [OF demo_select_ok en(1,2), of plain_env "\<lparr>ctrl = False, shift = True\<rparr>"]
  have "click_spec (sel_style demo_select) \<lparr>ctrl = False, shift = True\<rparr> (offered_rows demo_select) (map_option fst (lastCell demo_select)) 0
      (selected_rows demo_select) = {0, 1, 3}"
    by (auto simp: click_spec_def range_spec_def segment_def Let_def rank_def selected_rows_def demo_select_def offered_rows_def dataSource_def
        sample_table_def addData_def blank_table_def less_Suc_eq numeral_eq_Suc js_simps)
  with c en(3) show "selected_rows s = {0, 1, 3}" by (simp add: s_def)
  from c show "table_rows s = [0, 1, 2, 3]" "map aData (aoData (tbl s)) = [Num 10, Num 20, Num 30, Num 40]"
    by (simp_all add: s_def same_rest_def table_rows_def demo_select_def dataSource_def sample_table_def addData_def blank_table_def new_row_def)
qed


subsection \<open>Reloading the table\<close>

text \<open>
  Before a request Select keeps the ids of the selected rows (\<open>rows({selected: true}).ids(true)\<close>), and selects them again when the
  answer is drawn. \<open>f\<close> is the table's \<open>rowIdFn\<close>.
\<close>

definition row_id :: "(jsval \<Rightarrow> jsval) \<Rightarrow> selecting \<Rightarrow> nat \<Rightarrow> ustr" where
  "row_id f s i = to_string (f (aData (aoData (tbl s) ! i)))"

definition selected_ids :: "(jsval \<Rightarrow> jsval) \<Rightarrow> lookup \<Rightarrow> selecting \<Rightarrow> ustr list" where
  "selected_ids f env s = map (\<lambda>i. 35 # row_id f s i) (rows_api env [No_selector] sel_only s)"

definition reselect :: "lookup \<Rightarrow> ustr list \<Rightarrow> selecting \<Rightarrow> selecting" where
  "reselect env ids s = rows_select env (rows_api env (map Text ids) no_given s) s"

lemma set_unique: "set (dt_unique xs) = set xs"
proof -
  have "set (unique_loop out xs) = set out \<union> set xs" for out by (induction xs arbitrary: out) auto
  then show ?thesis by (simp add: dt_unique_def)
qed

text \<open>An id that the selector does not take apart: without commas, and without blanks at its end.\<close>

definition whole_id :: "ustr \<Rightarrow> bool" where
  "whole_id x \<longleftrightarrow> 44 \<notin> set x \<and> js_trim (35 # x) = 35 # x"

definition ids_of_table :: "(jsval \<Rightarrow> jsval) \<Rightarrow> lookup \<Rightarrow> selecting \<Rightarrow> bool" where
  "ids_of_table f env s \<longleftrightarrow> (\<forall>x i. row_of_id env x = Some i \<longleftrightarrow> i < length (aoData (tbl s)) \<and> row_id f s i = x) \<and>
     (\<forall>x. row_of_id env x = None \<longrightarrow> (\<forall>r \<in> set (aoData (tbl s)). \<not> matches_row env (35 # x) r))"

lemma id_run:
  assumes "ids_of_table f env s" and "table_wf (tbl s)"
  shows "row_run env (tbl s) (selector_opts no_given) (Text (35 # x)) = (case row_of_id env x of Some i \<Rightarrow> [i] | None \<Rightarrow> [])"
proof -
  have "\<not> matches_row env (35 # x) (aoData (tbl s) ! i)" if "row_of_id env x = None" "i \<in> set (table_rows s)" for i
    using assms(1) that table_rows_ok(2) [OF assms(2)] by (auto simp: ids_of_table_def)
  then show ?thesis by (auto simp: row_run_def Let_def intVal_mark selector_rows split: option.splits intro!: filter_False)
qed

lemma rows_by_id:
  assumes "ids_of_table f env s" and "table_wf (tbl s)" and "\<forall>x \<in> set xs. whole_id x"
  shows "set (rows_api env (map (\<lambda>x. Text (35 # x)) xs) no_given s) = {i. i < length (aoData (tbl s)) \<and> row_id f s i \<in> set xs}"
proof -
  have "concat (map pieces (map (\<lambda>x. Text (35 # x)) xs)) = map (\<lambda>x. Text (35 # x)) xs"
    using assms(3) by (induction xs) (auto simp: whole_id_def split_on_fresh)
  then have "set (rows_api env (map (\<lambda>x. Text (35 # x)) xs) no_given s) = (\<Union>x \<in> set xs. set (case row_of_id env x of Some i \<Rightarrow> [i] | None \<Rightarrow> []))"
    by (simp add: rows_api_def Let_def selector_run_def keep_selected_def set_unique id_run [OF assms(1,2)])
  also have "\<dots> = {i. \<exists>x \<in> set xs. row_of_id env x = Some i}" by (auto split: option.splits)
  finally show ?thesis using assms(1) by (auto simp: ids_of_table_def)
qed


lemma js_trim_hash: "x \<noteq> [] \<Longrightarrow> \<not> js_ws (last x) \<Longrightarrow> js_trim (35 # x) = 35 # x"
proof -
  have "\<not> js_ws 35" by (simp add: js_ws_def)
  then show "x \<noteq> [] \<Longrightarrow> \<not> js_ws (last x) \<Longrightarrow> js_trim (35 # x) = 35 # x"
    by (cases x rule: rev_cases) (simp_all add: js_trim_def)
qed

definition id_env :: "selecting \<Rightarrow> lookup" where
  "id_env s = \<lparr>row_of_id = (\<lambda>x. find (\<lambda>i. row_id id s i = x) [0..<length (aoData (tbl s))]), matches_row = (\<lambda>_ _. False), columns_of = (\<lambda>_. [])\<rparr>"

lemma find_unique:
  assumes "inj_on f {..<n}"
  shows "find (\<lambda>i. f i = x) [0..<n] = Some i \<longleftrightarrow> i < n \<and> f i = x"
proof
  assume i: "i < n \<and> f i = x"
  then have "\<forall>j < i. f ([0..<n] ! j) \<noteq> x" using inj_onD [OF assms] by force
  with i show "find (\<lambda>i. f i = x) [0..<n] = Some i" unfolding find_Some_iff by (intro exI [of _ i]) simp
qed (auto simp: find_Some_iff)

lemma demo_row_ids: "map (row_id id demo_select) [0, 1, 2, 3] = map u [''10'', ''20'', ''30'', ''40'']"
  by (simp add: row_id_def demo_select_def sample_table_fields new_row_def num_str_def js_simps)

lemma below_4: "{..<4} = set [0::nat, 1, 2, 3]"
  by auto

lemma demo_ids: "ids_of_table id (id_env demo_select) demo_select"
proof -
  have len: "length (aoData (tbl demo_select)) = 4" by (simp add: demo_select_def sample_table_fields)
  have "distinct (map (row_id id demo_select) [0, 1, 2, 3])" unfolding demo_row_ids by (simp add: js_simps)
  then have inj: "inj_on (row_id id demo_select) {..<4}" unfolding distinct_map below_4 by simp
  show ?thesis using find_unique [OF inj] by (simp add: ids_of_table_def len) (simp add: id_env_def len)
qed

lemma demo_whole: "j \<in> set [0, 1, 2, 3] \<Longrightarrow> whole_id (row_id id demo_select j)"
proof -
  have "\<forall>x \<in> set (map u [''10'', ''20'', ''30'', ''40'']). whole_id x" by (simp add: whole_id_def js_trim_def js_ws_def js_simps)
  then show "j \<in> set [0, 1, 2, 3] \<Longrightarrow> whole_id (row_id id demo_select j)" unfolding demo_row_ids [symmetric] by auto
qed


text \<open>An id with a comma is taken apart, so that the row is not selected again.\<close>

lemma comma_id_not_found:
  assumes "ids_of_table f env s" and "table_wf (tbl s)" and "44 \<notin> set a" and "whole_id a" and "row_of_id env a = None"
    and "js_trim b \<noteq> []" and "intVal (Text (js_trim b)) = None" and "hd (js_trim b) \<noteq> 35" and "\<And>r. \<not> matches_row env (js_trim b) r" and "44 \<notin> set b"
  shows "rows_api env [Text (35 # a @ [44] @ b)] no_given s = []"
proof -
  have "split_on 44 [] (join [44] [35 # a, b]) = [35 # a, b]" using assms(3,10) by (intro split_on_join) auto
  then have p: "split_on 44 [] (35 # a @ [44] @ b) = [35 # a, b]" by simp
  have "row_run env (tbl s) (selector_opts no_given) (Text (35 # a)) = []" using id_run [OF assms(1,2), of a] assms(5) by simp
  moreover have "row_run env (tbl s) (selector_opts no_given) (Text (js_trim b)) = []"
    using assms(6-9) by (simp add: row_run_def Let_def)
  ultimately show ?thesis using assms(4) p by (simp add: rows_api_def Let_def selector_run_def whole_id_def keep_selected_def dt_unique_def)
qed

text \<open>The index 0, when the search hides that row, counts as no selector: all rows shown are taken.\<close>

lemma row_zero_takes_all:
  assumes "table_wf (tbl s)" and "0 \<notin> set (offered_rows s)"
  shows "rows_api env (by_index [0]) applied_only s = offered_rows s"
  using assms table_rows_ok(3) [OF assms(1)]
  by (simp add: rows_api_def Let_def selector_run_def by_index_def row_run_def intVal_def selector_rows keep_selected_def dt_unique_id)

end
