(* ===== verification/JQuery_Callbacks.thy ===== *)
theory JQuery_Callbacks
  imports Main
begin

text \<open>
  \<open>jQuery.Callbacks\<close> and \<open>jQuery.Deferred\<close> (\<open>plugins/jquery/dist/jquery.js\<close>), on which the answers of
  requests and the uploads of the form plugin rest. A callback is an identity; while one runs, the
  code it contains may use the list it was called from, so a run of a list is a sequence of events:
  operations, at any time, and the return of the callback that is running. The log \<open>calls\<close> records
  which callback was called with which arguments.
\<close>

subsection \<open>A callback list\<close>

record ('c, 'd) cbs =
  opt_once :: bool
  opt_memory :: bool
  opt_unique :: bool
  opt_stopOnFalse :: bool
  lst :: "'c list option"           \<comment> \<open>None once disabled\<close>
  stk :: "'d list option"           \<comment> \<open>None is false or undefined\<close>
  memory :: "'d option"
  fired :: bool
  firing :: bool
  firingStart :: nat                \<comment> \<open>undefined counts as 0\<close>
  firingLength :: int
  firingIndex :: int
  firingData :: "'d option"         \<comment> \<open>the argument of the running call of \<open>fire\<close>\<close>
  calls :: "('c \<times> 'd) list"

definition Callbacks :: "bool \<Rightarrow> bool \<Rightarrow> bool \<Rightarrow> bool \<Rightarrow> ('c, 'd) cbs" where
  "Callbacks once mem uniq stopOnFalse =
     \<lparr>opt_once = once, opt_memory = mem, opt_unique = uniq, opt_stopOnFalse = stopOnFalse, lst = Some [],
      stk = (if once then None else Some []), memory = None, fired = False, firing = False, firingStart = 0,
      firingLength = 0, firingIndex = 0, firingData = None, calls = []\<rparr>"

definition disable :: "('c, 'd) cbs \<Rightarrow> ('c, 'd) cbs" where
  "disable s = s\<lparr>lst := None, stk := None, memory := None\<rparr>"

text \<open>The start of \<open>fire\<close>, up to its loop.\<close>

definition begin_fire :: "'d \<Rightarrow> ('c, 'd) cbs \<Rightarrow> ('c, 'd) cbs" where
  "begin_fire d s =
     s\<lparr>memory := (if opt_memory s then Some d else None), fired := True, firingIndex := int (firingStart s),
       firingStart := 0, firingLength := (case lst s of Some l \<Rightarrow> int (length l) | None \<Rightarrow> 0), firing := True,
       firingData := Some d\<rparr>"

text \<open>
  From the test of the loop to the next call of a callback, or to the end of \<open>fire\<close>, which may fire
  again from the stack. \<open>brk\<close> says that the loop was left by \<open>break\<close>.
\<close>

function fire_loop :: "bool \<Rightarrow> ('c, 'd) cbs \<Rightarrow> ('c, 'd) cbs" where
  "fire_loop brk s =
     (case lst s of
        None \<Rightarrow> s\<lparr>firing := False\<rparr>
      | Some l \<Rightarrow>
          if \<not> brk \<and> firingIndex s < firingLength s
          then s\<lparr>calls := calls s @ [(l ! nat (firingIndex s), the (firingData s))]\<rparr>
          else (case stk s of
              Some [] \<Rightarrow> s\<lparr>firing := False\<rparr>
            | Some (d # ds) \<Rightarrow> fire_loop False (begin_fire d (s\<lparr>firing := False, stk := Some ds\<rparr>))
            | None \<Rightarrow> if memory s \<noteq> None then s\<lparr>firing := False, lst := Some []\<rparr> else disable (s\<lparr>firing := False\<rparr>)))"
  by pat_completeness auto

termination
  by (relation "measure (\<lambda>(brk, s). case stk s of Some ds \<Rightarrow> length ds | None \<Rightarrow> 0)") (auto simp: begin_fire_def)

declare fire_loop.simps [simp del]

definition fire :: "'d \<Rightarrow> ('c, 'd) cbs \<Rightarrow> ('c, 'd) cbs" where
  "fire d s = fire_loop False (begin_fire d s)"

text \<open>The running callback returns; \<open>is_false\<close> says that its value is false.\<close>

definition returned :: "bool \<Rightarrow> ('c, 'd) cbs \<Rightarrow> ('c, 'd) cbs" where
  "returned is_false s =
     (if is_false \<and> opt_stopOnFalse s then fire_loop True (s\<lparr>memory := None\<rparr>)
      else fire_loop False (s\<lparr>firingIndex := firingIndex s + 1\<rparr>))"

definition push :: "'c \<Rightarrow> bool \<Rightarrow> 'c list \<Rightarrow> 'c list" where
  "push c uniq l = (if \<not> uniq \<or> c \<notin> set l then l @ [c] else l)"

definition add :: "'c list \<Rightarrow> ('c, 'd) cbs \<Rightarrow> ('c, 'd) cbs" where
  "add cs s =
     (case lst s of
        None \<Rightarrow> s
      | Some l \<Rightarrow>
          (let l' = fold (\<lambda>c. push c (opt_unique s)) cs l; s1 = s\<lparr>lst := Some l'\<rparr> in
           if firing s then s1\<lparr>firingLength := int (length l')\<rparr>
           else (case memory s of Some d \<Rightarrow> fire d (s1\<lparr>firingStart := length l\<rparr>) | None \<Rightarrow> s1)))"

text \<open>
  The loop of \<open>remove\<close> for one callback: every occurrence is spliced out, and the indexes of a
  running \<open>fire\<close> are lowered.
\<close>

fun remove_loop :: "'c \<Rightarrow> bool \<Rightarrow> nat \<Rightarrow> 'c list \<Rightarrow> int \<Rightarrow> int \<Rightarrow> 'c list \<times> int \<times> int" where
  "remove_loop c fg i [] len idx = ([], len, idx)"
| "remove_loop c fg i (x # xs) len idx =
     (if x = c
      then remove_loop c fg i xs (if fg \<and> int i \<le> len then len - 1 else len) (if fg \<and> int i \<le> idx then idx - 1 else idx)
      else (let (ys, r) = remove_loop c fg (Suc i) xs len idx in (x # ys, r)))"

definition remove_one :: "'c \<Rightarrow> ('c, 'd) cbs \<Rightarrow> ('c, 'd) cbs" where
  "remove_one c s =
     (case lst s of
        None \<Rightarrow> s
      | Some l \<Rightarrow> (let (l', len, idx) = remove_loop c (firing s) 0 l (firingLength s) (firingIndex s)
                   in s\<lparr>lst := Some l', firingLength := len, firingIndex := idx\<rparr>))"

definition remove :: "'c list \<Rightarrow> ('c, 'd) cbs \<Rightarrow> ('c, 'd) cbs" where
  "remove cs s = fold remove_one cs s"

definition has :: "'c \<Rightarrow> ('c, 'd) cbs \<Rightarrow> bool" where
  "has c s \<longleftrightarrow> (case lst s of Some l \<Rightarrow> c \<in> set l | None \<Rightarrow> False)"

definition empty_list :: "('c, 'd) cbs \<Rightarrow> ('c, 'd) cbs" where
  "empty_list s = s\<lparr>lst := Some [], firingLength := 0\<rparr>"

definition lock :: "('c, 'd) cbs \<Rightarrow> ('c, 'd) cbs" where
  "lock s = (let s = s\<lparr>stk := None\<rparr> in if memory s = None then disable s else s)"

definition fireWith :: "'d \<Rightarrow> ('c, 'd) cbs \<Rightarrow> ('c, 'd) cbs" where
  "fireWith d s =
     (if lst s \<noteq> None \<and> (\<not> fired s \<or> stk s \<noteq> None)
      then (if firing s then s\<lparr>stk := map_option (\<lambda>ds. ds @ [d]) (stk s)\<rparr> else fire d s)
      else s)"

subsection \<open>Runs of a list\<close>

datatype ('c, 'd) cb_event = Add "'c list" | Remove "'c list" | Empty | Disable | Lock | Fire 'd | Return bool

fun cb_step :: "('c, 'd) cb_event \<Rightarrow> ('c, 'd) cbs \<Rightarrow> ('c, 'd) cbs" where
  "cb_step (Add cs) s = add cs s"
| "cb_step (Remove cs) s = remove cs s"
| "cb_step Empty s = empty_list s"
| "cb_step Disable s = disable s"
| "cb_step Lock s = lock s"
| "cb_step (Fire d) s = fireWith d s"
| "cb_step (Return b) s = returned b s"

text \<open>A callback can only return while one is running. The latest event comes first.\<close>

inductive cb_run :: "('c, 'd) cbs \<Rightarrow> ('c, 'd) cb_event list \<Rightarrow> ('c, 'd) cbs \<Rightarrow> bool" for s0 where
  created: "cb_run s0 [] s0"
| happens: "cb_run s0 es s \<Longrightarrow> (\<forall>b. e = Return b \<longrightarrow> firing s) \<Longrightarrow> cb_run s0 (e # es) (cb_step e s)"

fun added_by :: "('c, 'd) cb_event \<Rightarrow> 'c list" where
  "added_by (Add cs) = cs"
| "added_by _ = []"

text \<open>All callbacks that were ever passed to \<open>add\<close>, in order.\<close>

definition all_added :: "('c, 'd) cb_event list \<Rightarrow> 'c list" where
  "all_added es = concat (map added_by (rev es))"

lemma all_added_simps [simp]: "all_added [] = []" "all_added (e # es) = all_added es @ added_by e"
  by (simp_all add: all_added_def)

subsection \<open>Only what was added is called\<close>

fun fired_by :: "('c, 'd) cb_event \<Rightarrow> 'd list" where
  "fired_by (Fire d) = [d]"
| "fired_by _ = []"

definition all_fired :: "('c, 'd) cb_event list \<Rightarrow> 'd list" where
  "all_fired es = concat (map fired_by (rev es))"

lemma all_fired_simps [simp]: "all_fired [] = []" "all_fired (e # es) = all_fired es @ fired_by e"
  by (simp_all add: all_fired_def)

text \<open>The sources of callbacks and arguments, and the indexes of a running \<open>fire\<close>.\<close>

definition from_sets :: "'c set \<Rightarrow> 'd set \<Rightarrow> ('c, 'd) cbs \<Rightarrow> bool" where
  "from_sets A D s \<longleftrightarrow> (\<forall>l. lst s = Some l \<longrightarrow> set l \<subseteq> A) \<and> fst ` set (calls s) \<subseteq> A \<and> snd ` set (calls s) \<subseteq> D \<and>
     (\<forall>ds. stk s = Some ds \<longrightarrow> set ds \<subseteq> D) \<and> set_option (memory s) \<subseteq> D"

definition indexes_ok :: "int \<Rightarrow> 'd set \<Rightarrow> ('c, 'd) cbs \<Rightarrow> bool" where
  "indexes_ok low D s \<longleftrightarrow> (\<forall>l. lst s = Some l \<longrightarrow> firingLength s = int (length l)) \<and> low \<le> firingIndex s \<and>
     (\<exists>d \<in> D. firingData s = Some d)"

lemma begin_fire_ok:
  "from_sets A D s \<Longrightarrow> d \<in> D \<Longrightarrow> from_sets A D (begin_fire d s) \<and> indexes_ok 0 D (begin_fire d s) \<and> firing (begin_fire d s)"
  by (auto simp: from_sets_def indexes_ok_def begin_fire_def)

lemma fire_loop_ok:
  "from_sets A D s \<Longrightarrow> indexes_ok 0 D s \<Longrightarrow> firing s \<Longrightarrow>
    from_sets A D (fire_loop brk s) \<and> (firing (fire_loop brk s) \<longrightarrow> indexes_ok 0 D (fire_loop brk s))"
proof (induction brk s rule: fire_loop.induct)
  case (1 brk s)
  show ?case
  proof (cases "lst s")
    case None
    then show ?thesis using 1 by (subst (1 2 3) fire_loop.simps) (simp add: from_sets_def)
  next
    case (Some l)
    note l = Some
    show ?thesis
    proof (cases "\<not> brk \<and> firingIndex s < firingLength s")
      case True
      then have "nat (firingIndex s) < length l" using 1(3) l by (auto simp: indexes_ok_def)
      then have "l ! nat (firingIndex s) \<in> A" using 1(2) l by (auto simp: from_sets_def)
      then show ?thesis using 1(2,3) l True by (subst (1 2 3) fire_loop.simps) (auto simp: from_sets_def indexes_ok_def)
    next
      case False
      show ?thesis
      proof (cases "stk s")
        case None
        then show ?thesis using 1(2,3) l False
          by (subst (1 2 3) fire_loop.simps) (auto simp: from_sets_def indexes_ok_def disable_def)
      next
        case (Some ds)
        show ?thesis
        proof (cases ds)
          case Nil
          then show ?thesis using 1(2,3) l False Some
            by (subst (1 2 3) fire_loop.simps) (auto simp: from_sets_def indexes_ok_def)
        next
          case (Cons d ds')
          let ?s = "s\<lparr>firing := False, stk := Some ds'\<rparr>"
          have "from_sets A D ?s" "d \<in> D" using 1(2) Some Cons by (auto simp: from_sets_def)
          from begin_fire_ok [OF this] 1(1) [OF l False Some Cons] show ?thesis
            using l False Some Cons by (subst (1 2 3) fire_loop.simps) auto
        qed
      qed
    qed
  qed
qed

lemma fire_ok:
  "from_sets A D s \<Longrightarrow> d \<in> D \<Longrightarrow> from_sets A D (fire d s) \<and> (firing (fire d s) \<longrightarrow> indexes_ok 0 D (fire d s))"
  unfolding fire_def using begin_fire_ok [of A D s d] fire_loop_ok [of A D "begin_fire d s" False] by simp

lemma set_pushes: "set (fold (\<lambda>c. push c u) cs l) \<subseteq> set l \<union> set cs"
proof (induction cs arbitrary: l)
  case (Cons c cs)
  have "set (push c u l) \<subseteq> insert c (set l)" by (auto simp: push_def)
  with Cons [of "push c u l"] show ?case by auto
qed simp

lemma remove_loop_spec:
  "remove_loop c fg i l len idx = (l', len', idx') \<Longrightarrow>
    l' = removeAll c l \<and> (fg \<longrightarrow> len = int i + int (length l) \<longrightarrow> len' = int i + int (length l')) \<and> (-1 \<le> idx \<longrightarrow> -1 \<le> idx')"
proof (induction c fg i l len idx arbitrary: l' rule: remove_loop.induct)
  case (2 c fg i x xs len idx)
  show ?case
  proof (cases "x = c")
    case True
    then show ?thesis using 2(1) [OF True] 2(3) by (cases fg) (auto split: if_splits)
  next
    case False
    then obtain ys where "remove_loop c fg (Suc i) xs len idx = (ys, len', idx')" "l' = x # ys"
      using 2(3) by (auto split: prod.splits)
    then show ?thesis using 2(2) [OF False, of ys] False by auto
  qed
qed simp

text \<open>The invariant of a list: it holds after every event, with the callbacks and arguments seen so far.\<close>

definition cbs_ok :: "'c set \<Rightarrow> 'd set \<Rightarrow> ('c, 'd) cbs \<Rightarrow> bool" where
  "cbs_ok A D s \<longleftrightarrow> from_sets A D s \<and> (firing s \<longrightarrow> indexes_ok (-1) D s)"

lemma indexes_ok_low: "indexes_ok 0 D s \<Longrightarrow> indexes_ok (-1) D s"
  by (auto simp: indexes_ok_def)

lemma cbs_ok_fire: "from_sets A D s \<Longrightarrow> d \<in> D \<Longrightarrow> cbs_ok A D (fire d s)"
  using fire_ok [of A D s d] indexes_ok_low [of D "fire d s"] by (simp add: cbs_ok_def)

lemma cbs_ok_mono:
  assumes "cbs_ok A D s" and "A \<subseteq> A'" and "D \<subseteq> D'"
  shows "cbs_ok A' D' s"
proof -
  have "x \<in> A \<Longrightarrow> x \<in> A'" "y \<in> D \<Longrightarrow> y \<in> D'" for x y using assms(2,3) by auto
  then show ?thesis using assms(1) by (simp add: cbs_ok_def from_sets_def indexes_ok_def subset_iff Bex_def image_iff) blast
qed

lemma cbs_ok_add:
  assumes "cbs_ok A D s" and "set cs \<subseteq> A"
  shows "cbs_ok A D (add cs s)"
proof (cases "lst s")
  case (Some l)
  let ?l = "fold (\<lambda>c. push c (opt_unique s)) cs l"
  have "set ?l \<subseteq> A" using set_pushes [of "opt_unique s" cs l] assms Some by (auto simp: cbs_ok_def from_sets_def)
  then have f: "from_sets A D (s\<lparr>lst := Some ?l, firingStart := k\<rparr>)" "from_sets A D (s\<lparr>lst := Some ?l, firingLength := n\<rparr>)"
    "from_sets A D (s\<lparr>lst := Some ?l\<rparr>)" for k n
    using assms(1) by (auto simp: cbs_ok_def from_sets_def)
  show ?thesis
  proof (cases "firing s")
    case True
    then have "add cs s = s\<lparr>lst := Some ?l, firingLength := int (length ?l)\<rparr>" using Some by (simp add: add_def Let_def)
    then show ?thesis using f(2) assms(1) True by (simp add: cbs_ok_def indexes_ok_def)
  next
    case idle: False
    show ?thesis
    proof (cases "memory s")
      case None
      then have "add cs s = s\<lparr>lst := Some ?l\<rparr>" using Some idle by (simp add: add_def Let_def)
      then show ?thesis using f(3) idle by (simp add: cbs_ok_def)
    next
      case m: (Some d)
      then have "add cs s = fire d (s\<lparr>lst := Some ?l, firingStart := length l\<rparr>)" using Some idle by (simp add: add_def Let_def)
      moreover have "d \<in> D" using m assms(1) by (simp add: cbs_ok_def from_sets_def)
      ultimately show ?thesis using cbs_ok_fire [OF f(1)] by simp
    qed
  qed
qed (use assms in \<open>simp add: add_def\<close>)

lemma cbs_ok_remove:
  assumes "cbs_ok A D s"
  shows "cbs_ok A D (remove cs s)"
proof -
  have "cbs_ok A D (remove_one c s)" if "cbs_ok A D s" for c and s :: "('a, 'b) cbs"
  proof (cases "lst s")
    case (Some l)
    obtain l' len idx where r: "remove_loop c (firing s) 0 l (firingLength s) (firingIndex s) = (l', len, idx)" by (metis prod_cases3)
    show ?thesis using remove_loop_spec [OF r] that Some r
      by (auto simp: remove_one_def cbs_ok_def from_sets_def indexes_ok_def)
  qed (use that in \<open>simp add: remove_one_def\<close>)
  then show ?thesis using assms unfolding remove_def by (induction cs arbitrary: s) auto
qed

lemma cbs_ok_returned:
  assumes "cbs_ok A D s" and "firing s"
  shows "cbs_ok A D (returned b s)"
proof -
  let ?m = "s\<lparr>memory := None\<rparr>" and ?n = "s\<lparr>firingIndex := firingIndex s + 1\<rparr>"
  have n: "from_sets A D ?n" "indexes_ok 0 D ?n" "firing ?n"
    using assms by (auto simp: cbs_ok_def from_sets_def indexes_ok_def)
  have brk: "cbs_ok A D (fire_loop True ?m)"
  proof (cases "stk s")
    case (Some ds)
    show ?thesis
    proof (cases ds)
      case (Cons d ds')
      have "from_sets A D (?m\<lparr>firing := False, stk := Some ds'\<rparr>)" "d \<in> D" using assms(1) Some Cons by (auto simp: cbs_ok_def from_sets_def)
      from cbs_ok_fire [OF this] show ?thesis using Some Cons assms(1)
        by (subst fire_loop.simps) (auto simp: fire_def cbs_ok_def from_sets_def split: option.splits)
    qed (use Some assms(1) in \<open>subst fire_loop.simps, auto simp: cbs_ok_def from_sets_def split: option.splits\<close>)
  qed (use assms(1) in \<open>subst fire_loop.simps, auto simp: cbs_ok_def from_sets_def disable_def split: option.splits\<close>)
  have "cbs_ok A D (fire_loop False ?n)"
    using fire_loop_ok [OF n, of False] indexes_ok_low [of D "fire_loop False ?n"] by (simp add: cbs_ok_def)
  with brk show ?thesis by (simp add: returned_def)
qed

lemma cbs_ok_step:
  assumes "cbs_ok A D s" and "\<forall>b. e = Return b \<longrightarrow> firing s" and "set (added_by e) \<subseteq> A" and "set (fired_by e) \<subseteq> D"
  shows "cbs_ok A D (cb_step e s)"
proof (cases e)
  case (Fire d)
  have f: "from_sets A D s" "d \<in> D" using assms(1,4) Fire by (auto simp: cbs_ok_def)
  show ?thesis using cbs_ok_fire [OF f] assms(1) Fire f
    by (auto simp: fireWith_def cbs_ok_def from_sets_def indexes_ok_def)
next
  case (Add cs)
  then show ?thesis using cbs_ok_add [OF assms(1), of cs] assms(3) by simp
next
  case (Remove cs)
  then show ?thesis using cbs_ok_remove [OF assms(1)] by simp
next
  case (Return b)
  then show ?thesis using cbs_ok_returned [OF assms(1)] assms(2) by simp
qed (use assms(1) in \<open>auto simp: empty_list_def disable_def lock_def cbs_ok_def from_sets_def indexes_ok_def Let_def\<close>)

lemma cb_run_ok:
  assumes "cb_run (Callbacks once mem uniq stop) es s"
  shows "cbs_ok (set (all_added es)) (set (all_fired es)) s"
  using assms
proof (induction rule: cb_run.induct)
  case created
  then show ?case by (auto simp: cbs_ok_def from_sets_def Callbacks_def)
next
  case (happens es s e)
  show ?case by (rule cbs_ok_step [OF cbs_ok_mono [OF happens.IH] happens.hyps(2)]) auto
qed

text \<open>
  A callback list calls nothing but what was added to it, with arguments that it was fired
  with. Whatever the options, and however callbacks add, remove, fire, lock or disable while the
  list is being fired, every entry of the log is a callback passed to \<open>add\<close> before, and its
  arguments were passed to \<open>fireWith\<close> before; the indexes of a running \<open>fire\<close> never leave the list.
\<close>

theorem callbacks_only_added:
  assumes "cb_run (Callbacks once mem uniq stop) es s"
  shows "fst ` set (calls s) \<subseteq> set (all_added es) \<and> snd ` set (calls s) \<subseteq> set (all_fired es) \<and>
    (\<forall>l. firing s \<longrightarrow> lst s = Some l \<longrightarrow> -1 \<le> firingIndex s \<and> firingLength s = int (length l))"
  using cb_run_ok [OF assms] by (auto simp: cbs_ok_def from_sets_def indexes_ok_def)

theorem callbacks_only_added_witness:
  "fst ` set (calls (fireWith True (add [1, 2::nat] (Callbacks False False False False)))) \<subseteq> {1, 2}"
proof -
  let ?c = "Callbacks False False False False :: (nat, bool) cbs"
  have "cb_run ?c [Add [1, 2]] (cb_step (Add [1, 2]) ?c)" by (rule cb_run.happens [OF cb_run.created]) simp
  from cb_run.happens [OF this, of "Fire True"] have "cb_run ?c [Fire True, Add [1, 2]] (fireWith True (add [1, 2] ?c))" by simp
  from callbacks_only_added [OF this] show ?thesis by simp
qed

subsection \<open>Firing ends\<close>

text \<open>
  How many returns a running \<open>fire\<close> can still take if the list is left alone: the rest of this round,
  and a round and a step for every call that waits on the stack.
\<close>

definition waiting :: "('c, 'd) cbs \<Rightarrow> nat" where
  "waiting s = (case stk s of Some ds \<Rightarrow> length ds | None \<Rightarrow> 0)"

definition firing_work :: "('c, 'd) cbs \<Rightarrow> nat" where
  "firing_work s = (case lst s of Some l \<Rightarrow> nat (firingLength s - firingIndex s) + waiting s * Suc (length l) | None \<Rightarrow> 0)"

lemma fire_loop_work:
  assumes "lst s = Some l" and "firing (fire_loop brk s)" and "brk \<or> firingLength s \<le> firingIndex s"
  shows "firing_work (fire_loop brk s) < waiting s * Suc (length l)"
  using assms
proof (induction brk s rule: fire_loop.induct)
  case (1 brk s)
  have out: "\<not> (\<not> brk \<and> firingIndex s < firingLength s)" using 1(4) by auto
  then obtain d ds where stk: "stk s = Some (d # ds)" using 1(2,3)
    by (auto simp: fire_loop.simps [of brk] disable_def split: option.splits list.splits if_splits)
  let ?n = "begin_fire d (s\<lparr>firing := False, stk := Some ds\<rparr>)"
  have eq: "fire_loop brk s = fire_loop False ?n" using 1(2) out stk by (subst fire_loop.simps) auto
  have n: "lst ?n = Some l" "waiting ?n = length ds" "firingLength ?n = int (length l)" "0 \<le> firingIndex ?n"
    using 1(2) by (simp_all add: begin_fire_def waiting_def)
  show ?case
  proof (cases "firingIndex ?n < firingLength ?n")
    case True
    then have "fire_loop False ?n = ?n\<lparr>calls := calls ?n @ [(l ! nat (firingIndex ?n), the (firingData ?n))]\<rparr>"
      using n(1) by (simp add: fire_loop.simps [of False])
    then have "firing_work (fire_loop brk s) = nat (firingLength ?n - firingIndex ?n) + length ds * Suc (length l)"
      using n(1,2) eq by (simp add: firing_work_def waiting_def)
    then show ?thesis using n(3,4) stk by (simp add: waiting_def)
  next
    case False
    then have "firing_work (fire_loop False ?n) < length ds * Suc (length l)"
      using 1(1) [OF 1(2) out stk HOL.refl n(1)] 1(3) eq n(2) by auto
    then show ?thesis using eq stk by (simp add: waiting_def)
  qed
qed

lemma returned_work:
  assumes "cbs_ok A D s" and "firing s" and "firing (returned b s)"
  shows "firing_work (returned b s) < firing_work s"
proof (cases "lst s")
  case None
  then show ?thesis using assms(3) by (auto simp: returned_def fire_loop.simps split: if_splits)
next
  case (Some l)
  let ?m = "s\<lparr>memory := None\<rparr>" and ?n = "s\<lparr>firingIndex := firingIndex s + 1\<rparr>"
  have w: "waiting s * Suc (length l) \<le> firing_work s" using Some by (simp add: firing_work_def)
  have go: "fire_loop False ?n = ?n\<lparr>calls := calls ?n @ [(l ! nat (firingIndex ?n), the (firingData ?n))]\<rparr>" if "firingIndex ?n < firingLength ?n"
    using that Some by (simp add: fire_loop.simps [of False ?n])
  consider "returned b s = fire_loop True ?m" | "returned b s = fire_loop False ?n" "firingLength ?n \<le> firingIndex ?n" |
      "returned b s = ?n\<lparr>calls := calls ?n @ [(l ! nat (firingIndex ?n), the (firingData ?n))]\<rparr>" "firingIndex ?n < firingLength ?n"
    using go by (cases "b \<and> opt_stopOnFalse s"; cases "firingIndex ?n < firingLength ?n") (auto simp: returned_def)
  then show ?thesis
  proof cases
    case 1
    then have "firing_work (returned b s) < waiting ?m * Suc (length l)" using fire_loop_work [of ?m l True] Some assms(3) by simp
    then show ?thesis using w by (simp add: waiting_def)
  next
    case 2
    then have "firing_work (returned b s) < waiting ?n * Suc (length l)" using fire_loop_work [of ?n l False] Some assms(3) by simp
    then show ?thesis using w by (simp add: waiting_def)
  next
    case 3
    then show ?thesis using Some by (simp add: firing_work_def waiting_def)
  qed
qed

lemma firing_ends:
  "cbs_ok A D s \<Longrightarrow> \<exists>k \<le> Suc (firing_work s). (\<forall>j < k. firing (fold returned (map bs [0..<j]) s)) \<and> \<not> firing (fold returned (map bs [0..<k]) s)"
proof (induction "firing_work s" arbitrary: s bs rule: less_induct)
  case less
  show ?case
  proof (cases "firing s")
    case True
    let ?t = "returned (bs 0) s"
    have t: "cbs_ok A D ?t" using less.prems True by (rule cbs_ok_returned)
    have shift: "fold returned (map bs [0..<Suc j]) s = fold returned (map (\<lambda>i. bs (Suc i)) [0..<j]) ?t" for j
      by (simp add: upt_conv_Cons map_Suc_upt [symmetric] comp_def del: upt_Suc)
    have "\<exists>k \<le> firing_work s. (\<forall>j < k. firing (fold returned (map (\<lambda>i. bs (Suc i)) [0..<j]) ?t)) \<and>
        \<not> firing (fold returned (map (\<lambda>i. bs (Suc i)) [0..<k]) ?t)"
    proof (cases "firing ?t")
      case f: True
      note lt = returned_work [OF less.prems True f]
      from less.hyps [OF lt t] show ?thesis using lt by (meson Suc_leI order_trans)
    qed (auto intro: exI [of _ 0])
    then obtain k where k: "k \<le> firing_work s" "\<forall>j < k. firing (fold returned (map (\<lambda>i. bs (Suc i)) [0..<j]) ?t)"
      "\<not> firing (fold returned (map (\<lambda>i. bs (Suc i)) [0..<k]) ?t)" by blast
    have "firing (fold returned (map bs [0..<j]) s)" if "j < Suc k" for j
      using that True k(2) shift by (cases j) (simp_all del: upt_Suc)
    then show ?thesis using k(1,3) shift [of k] by (intro exI [of _ "Suc k"]) (simp del: upt_Suc)
  qed (auto intro: exI [of _ 0])
qed

text \<open>
  C34. Firing ends. In any state that a list can reach, whatever was added, removed or fired from inside the
  callbacks and whatever waits on the stack: once the callbacks only return, \<open>fire\<close> comes to its
  end, after at most the rest of the list and a round and a step for each waiting call.
\<close>

theorem fire_terminates:
  assumes "cb_run (Callbacks once mem uniq stop) es s"
  shows "\<exists>k \<le> Suc (firing_work s). (\<forall>j < k. firing (fold returned (map bs [0..<j]) s)) \<and> \<not> firing (fold returned (map bs [0..<k]) s)"
  by (rule firing_ends [OF cb_run_ok [OF assms]])

theorem fire_terminates_witness:
  "\<exists>k \<le> 3. \<not> firing (fold returned (map (\<lambda>i. False) [0..<k]) (fireWith True (add [1, 2::nat] (Callbacks False False False False))))"
proof -
  let ?c = "Callbacks False False False False :: (nat, bool) cbs"
  have "cb_run ?c [Add [1, 2]] (cb_step (Add [1, 2]) ?c)" by (rule cb_run.happens [OF cb_run.created]) simp
  from cb_run.happens [OF this, of "Fire True"] have r: "cb_run ?c [Fire True, Add [1, 2]] (fireWith True (add [1, 2] ?c))" by simp
  have "Suc (firing_work (fireWith True (add [1, 2] ?c))) = 3"
    by (simp add: firing_work_def waiting_def fireWith_def add_def Callbacks_def push_def fire_def begin_fire_def fire_loop.simps)
  then show ?thesis using fire_terminates [OF r, of "\<lambda>i. False"] by auto
qed

subsection \<open>Lists that fire once and remember\<close>

text \<open>
  The lists of a deferred object. \<open>x\<close> is the value the list was fired with, if it was; \<open>A\<close> are the
  callbacks added so far. Before the list is fired it holds them all; while it is fired, those that
  were not called yet stand behind the running one; afterwards it is empty and all were called.
\<close>

definition once_inv :: "'c list \<Rightarrow> 'd option \<Rightarrow> ('c, 'd) cbs \<Rightarrow> bool" where
  "once_inv A x s \<longleftrightarrow> opt_memory s \<and> \<not> opt_unique s \<and> \<not> opt_stopOnFalse s \<and> stk s = None \<and> firingStart s = 0 \<and>
     memory s = x \<and> fired s = (x \<noteq> None) \<and>
     (case x of
        None \<Rightarrow> lst s = Some A \<and> calls s = [] \<and> \<not> firing s
      | Some d \<Rightarrow> (\<forall>p \<in> set (calls s). snd p = d) \<and>
          (if firing s
           then (\<exists>l. lst s = Some l \<and> firingLength s = int (length l) \<and> 0 \<le> firingIndex s \<and> firingIndex s < firingLength s \<and>
                  A = map fst (calls s) @ drop (Suc (nat (firingIndex s))) l \<and> firingData s = Some d)
           else lst s = Some [] \<and> map fst (calls s) = A))"

lemma once_loop:
  assumes "opt_memory s" "\<not> opt_unique s" "\<not> opt_stopOnFalse s" "stk s = None" "firingStart s = 0" "memory s = Some d" "fired s"
    and "firing s" "firingData s = Some d" "lst s = Some l" "firingLength s = int (length l)" "0 \<le> firingIndex s"
    and "\<forall>p \<in> set (calls s). snd p = d" and "A = map fst (calls s) @ drop (nat (firingIndex s)) l"
  shows "once_inv A (Some d) (fire_loop False s)"
proof (cases "firingIndex s < firingLength s")
  case True
  then have i: "nat (firingIndex s) < length l" using assms(11,12) by auto
  have "fire_loop False s = s\<lparr>calls := calls s @ [(l ! nat (firingIndex s), d)]\<rparr>"
    using True assms(9,10) by (simp add: fire_loop.simps)
  then show ?thesis using assms True i by (auto simp: once_inv_def Cons_nth_drop_Suc)
next
  case False
  then have "drop (nat (firingIndex s)) l = []" using assms(11,12) by auto
  moreover have "fire_loop False s = s\<lparr>firing := False, lst := Some []\<rparr>"
    using False assms(4,6,10) by (simp add: fire_loop.simps)
  ultimately show ?thesis using assms by (simp add: once_inv_def)
qed

lemma once_start:
  assumes "opt_memory s" "\<not> opt_unique s" "\<not> opt_stopOnFalse s" "stk s = None" "firingStart s = 0" "lst s = Some l"
    and "\<forall>p \<in> set (calls s). snd p = d" and "A = map fst (calls s) @ l"
  shows "once_inv A (Some d) (fire d s)"
  unfolding fire_def using assms by (intro once_loop [where l = l]) (simp_all add: begin_fire_def)

lemma pushes_plain: "fold (\<lambda>c. push c False) cs l = l @ cs"
  by (induction cs arbitrary: l) (simp_all add: push_def)

lemma once_add:
  assumes "once_inv A x s"
  shows "once_inv (A @ cs) x (add cs s)"
proof (cases x)
  case None
  then show ?thesis using assms by (simp add: once_inv_def add_def pushes_plain)
next
  case (Some d)
  show ?thesis
  proof (cases "firing s")
    case True
    then show ?thesis using assms Some by (auto simp: once_inv_def add_def pushes_plain Let_def nat_less_iff)
  next
    case False
    then have "add cs s = fire d (s\<lparr>lst := Some cs, firingStart := 0\<rparr>)"
      using assms Some by (simp add: once_inv_def add_def pushes_plain Let_def)
    then show ?thesis using assms Some False
      by (simp, intro once_start [where l = cs]) (simp_all add: once_inv_def)
  qed
qed

lemma once_fire:
  assumes "once_inv A x s"
  shows "once_inv A (case x of None \<Rightarrow> Some d | Some e \<Rightarrow> Some e) (fireWith d s)"
proof (cases x)
  case None
  then have u: "opt_memory s" "\<not> opt_unique s" "\<not> opt_stopOnFalse s" "stk s = None" "firingStart s = 0" "lst s = Some A"
    "calls s = []" "\<not> firing s" "\<not> fired s" using assms by (simp_all add: once_inv_def)
  then have "fireWith d s = fire d s" by (simp add: fireWith_def)
  then show ?thesis using once_start [OF u(1-6), of d A] u(7) None by simp
next
  case (Some e)
  then show ?thesis using assms by (simp add: fireWith_def once_inv_def)
qed

lemma once_return:
  assumes "once_inv A x s" and "firing s"
  shows "once_inv A x (returned b s)"
proof -
  obtain d where x: "x = Some d" using assms by (auto simp: once_inv_def split: option.splits)
  then obtain l where l: "lst s = Some l" "firingLength s = int (length l)" "0 \<le> firingIndex s"
    "A = map fst (calls s) @ drop (Suc (nat (firingIndex s))) l" "firingData s = Some d" "\<forall>p \<in> set (calls s). snd p = d"
    using assms by (auto simp: once_inv_def)
  have "once_inv A (Some d) (fire_loop False (s\<lparr>firingIndex := firingIndex s + 1\<rparr>))"
    using assms x l by (intro once_loop [where l = l]) (simp_all add: once_inv_def nat_add_distrib)
  then show ?thesis using assms(1) x by (simp add: returned_def once_inv_def)
qed

subsection \<open>Deferred objects\<close>

text \<open>
  The callbacks of the three lists: those of the users, and the ones that \<open>Deferred\<close> puts first,
  which set the state, disable the other list and lock the progress list.
\<close>

datatype 'u dcb = User 'u | Set_state bool | Disable_other | Lock_progress

record ('u, 'd) dfd =
  done_list :: "('u dcb, 'd) cbs"
  fail_list :: "('u dcb, 'd) cbs"
  progress_list :: "('u dcb, 'd) cbs"
  dstate :: "bool option"           \<comment> \<open>None is pending, True resolved, False rejected\<close>

definition builtins :: "bool \<Rightarrow> 'u dcb list" where
  "builtins b = [Set_state b, Disable_other, Lock_progress]"

definition Deferred :: "('u, 'd) dfd" where
  "Deferred = \<lparr>done_list = add (builtins True) (Callbacks True True False False),
     fail_list = add (builtins False) (Callbacks True True False False),
     progress_list = Callbacks False True False False, dstate = None\<rparr>"

text \<open>
  The list of \<open>resolve\<close> (True) or \<open>reject\<close> (False), and the calls of the built-in callbacks, which
  return at once. There are three at the head of each list, so three steps are enough.
\<close>

definition list_of :: "bool \<Rightarrow> ('u, 'd) dfd \<Rightarrow> ('u dcb, 'd) cbs" where
  "list_of b s = (if b then done_list s else fail_list s)"

definition set_list :: "bool \<Rightarrow> ('u dcb, 'd) cbs \<Rightarrow> ('u, 'd) dfd \<Rightarrow> ('u, 'd) dfd" where
  "set_list b l s = (if b then s\<lparr>done_list := l\<rparr> else s\<lparr>fail_list := l\<rparr>)"

fun builtin_effect :: "bool \<Rightarrow> 'u dcb \<Rightarrow> ('u, 'd) dfd \<Rightarrow> ('u, 'd) dfd" where
  "builtin_effect b (User c) s = s"
| "builtin_effect b (Set_state r) s = s\<lparr>dstate := Some r\<rparr>"
| "builtin_effect b Disable_other s = set_list (\<not> b) (disable (list_of (\<not> b) s)) s"
| "builtin_effect b Lock_progress s = s\<lparr>progress_list := lock (progress_list s)\<rparr>"

fun is_user :: "'u dcb \<Rightarrow> bool" where
  "is_user (User c) = True"
| "is_user _ = False"

fun run_builtins :: "nat \<Rightarrow> bool \<Rightarrow> ('u, 'd) dfd \<Rightarrow> ('u, 'd) dfd" where
  "run_builtins 0 b s = s"
| "run_builtins (Suc n) b s =
     (if firing (list_of b s) \<and> \<not> is_user (fst (last (calls (list_of b s))))
      then (let s1 = builtin_effect b (fst (last (calls (list_of b s)))) s
            in run_builtins n b (set_list b (returned False (list_of b s1)) s1))
      else s)"

text \<open>\<open>resolve\<close> and \<open>reject\<close>; \<open>done\<close> and \<open>fail\<close>; \<open>notify\<close> and \<open>progress\<close>; \<open>always\<close>.\<close>

definition settle_with :: "bool \<Rightarrow> 'd \<Rightarrow> ('u, 'd) dfd \<Rightarrow> ('u, 'd) dfd" where
  "settle_with b d s = run_builtins 3 b (set_list b (fireWith d (list_of b s)) s)"

definition listen :: "bool \<Rightarrow> 'u list \<Rightarrow> ('u, 'd) dfd \<Rightarrow> ('u, 'd) dfd" where
  "listen b fs s = set_list b (add (map User fs) (list_of b s)) s"

definition always :: "'u list \<Rightarrow> ('u, 'd) dfd \<Rightarrow> ('u, 'd) dfd" where
  "always fs s = listen False fs (listen True fs s)"

definition notify :: "'d \<Rightarrow> ('u, 'd) dfd \<Rightarrow> ('u, 'd) dfd" where
  "notify d s = s\<lparr>progress_list := fireWith d (progress_list s)\<rparr>"

definition on_progress :: "'u list \<Rightarrow> ('u, 'd) dfd \<Rightarrow> ('u, 'd) dfd" where
  "on_progress fs s = s\<lparr>progress_list := add (map User fs) (progress_list s)\<rparr>"

datatype ('u, 'd) d_event =
    Settle bool 'd | Listen bool "'u list" | Always "'u list" | Notify 'd | On_progress "'u list" | Returns bool bool | Progress_returns bool

fun d_step :: "('u, 'd) d_event \<Rightarrow> ('u, 'd) dfd \<Rightarrow> ('u, 'd) dfd" where
  "d_step (Settle b d) s = settle_with b d s"
| "d_step (Listen b fs) s = listen b fs s"
| "d_step (Always fs) s = always fs s"
| "d_step (Notify d) s = notify d s"
| "d_step (On_progress fs) s = on_progress fs s"
| "d_step (Returns b r) s = set_list b (returned r (list_of b s)) s"
| "d_step (Progress_returns r) s = s\<lparr>progress_list := returned r (progress_list s)\<rparr>"

fun d_enabled :: "('u, 'd) d_event \<Rightarrow> ('u, 'd) dfd \<Rightarrow> bool" where
  "d_enabled (Returns b r) s = firing (list_of b s)"
| "d_enabled (Progress_returns r) s = firing (progress_list s)"
| "d_enabled _ s = True"

inductive d_run :: "('u, 'd) d_event list \<Rightarrow> ('u, 'd) dfd \<Rightarrow> bool" where
  fresh: "d_run [] Deferred"
| event: "d_run es s \<Longrightarrow> d_enabled e s \<Longrightarrow> d_run (e # es) (d_step e s)"

text \<open>The listeners of an outcome in the order in which they came, and the first settling event.\<close>

fun listened :: "bool \<Rightarrow> ('u, 'd) d_event \<Rightarrow> 'u list" where
  "listened b (Listen c fs) = (if b = c then fs else [])"
| "listened b (Always fs) = fs"
| "listened b _ = []"

definition listeners :: "bool \<Rightarrow> ('u, 'd) d_event list \<Rightarrow> 'u list" where
  "listeners b es = concat (map (listened b) (rev es))"

fun settled_by :: "('u, 'd) d_event \<Rightarrow> (bool \<times> 'd) option" where
  "settled_by (Settle b d) = Some (b, d)"
| "settled_by _ = None"

fun first_settle :: "('u, 'd) d_event list \<Rightarrow> (bool \<times> 'd) option" where
  "first_settle [] = None"
| "first_settle (e # es) =
     (case first_settle es of Some p \<Rightarrow> Some p | None \<Rightarrow> settled_by e)"

lemma first_settle_same: "settled_by e = None \<Longrightarrow> first_settle (e # es) = first_settle es"
  by (cases "first_settle es") simp_all

lemma listeners_simps [simp]: "listeners b [] = []" "listeners b (e # es) = listeners b es @ listened b e"
  by (simp_all add: listeners_def)

text \<open>Access to the two lists.\<close>

lemma list_access [simp]:
  "list_of b (set_list c l s) = (if b = c then l else list_of b s)" "list_of b (s\<lparr>dstate := r\<rparr>) = list_of b s"
  "list_of b (s\<lparr>progress_list := p\<rparr>) = list_of b s" "dstate (set_list c l s) = dstate s"
  by (auto simp: list_of_def set_list_def)

text \<open>Counting the calls of a list that fires once.\<close>

lemma once_last:
  assumes "once_inv A (Some d) s" and "firing s" and "calls s \<noteq> []"
  shows "fst (last (calls s)) = A ! (length (calls s) - 1)"
proof -
  obtain r where "A = map fst (calls s) @ r" using assms(1,2) by (auto simp: once_inv_def)
  then show ?thesis using assms(3) by (simp add: nth_append last_conv_nth)
qed

lemma once_fire_count:
  assumes "once_inv A None s" and "A \<noteq> []"
  shows "firing (fireWith d s) \<and> length (calls (fireWith d s)) = 1"
  using assms by (simp add: once_inv_def fireWith_def fire_def begin_fire_def fire_loop.simps)

lemma once_return_count:
  assumes "once_inv A (Some d) s" and "firing s"
  shows "(length (calls s) < length A \<longrightarrow> firing (returned r s) \<and> length (calls (returned r s)) = Suc (length (calls s))) \<and>
    (firing (returned r s) \<longrightarrow> length (calls (returned r s)) = Suc (length (calls s))) \<and> length (calls s) \<le> length (calls (returned r s))"
proof -
  obtain l where l: "lst s = Some l" "firingLength s = int (length l)" "0 \<le> firingIndex s"
    "A = map fst (calls s) @ drop (Suc (nat (firingIndex s))) l" "memory s = Some d" "stk s = None" "\<not> opt_stopOnFalse s"
    using assms by (auto simp: once_inv_def)
  then have "length (calls s) < length A \<longleftrightarrow> firingIndex s + 1 < firingLength s" by auto
  then show ?thesis using l assms(2) by (simp add: returned_def fire_loop.simps)
qed

lemma builtin_step:
  assumes "once_inv A (Some d) (list_of b s)" and "firing (list_of b s)" and "length (calls (list_of b s)) = Suc k"
    and "\<not> is_user (A ! k)" and "list_of b (builtin_effect b (A ! k) s) = list_of b s"
  shows "run_builtins (Suc n) b s = run_builtins n b (set_list b (returned False (list_of b s)) (builtin_effect b (A ! k) s))"
proof -
  have "calls (list_of b s) \<noteq> []" using assms(3) by auto
  then have "fst (last (calls (list_of b s))) = A ! k" using once_last [OF assms(1,2)] assms(3) by simp
  then show ?thesis using assms(2,4,5) by (simp add: Let_def)
qed

lemma settle_pending:
  assumes "once_inv (builtins b @ U) None (list_of b s)" and "t = settle_with b d s"
  shows "once_inv (builtins b @ U) (Some d) (list_of b t) \<and> 3 \<le> length (calls (list_of b t)) \<and>
    (firing (list_of b t) \<longrightarrow> 3 < length (calls (list_of b t))) \<and> dstate t = Some b \<and>
    list_of (\<not> b) t = disable (list_of (\<not> b) s)"
proof -
  let ?A = "builtins b @ U"
  let ?r = "\<lambda>s. set_list b (returned False (list_of b s)) s"
  have A: "?A ! 0 = Set_state b" "?A ! 1 = Disable_other" "?A ! 2 = Lock_progress" "3 \<le> length ?A"
    by (simp_all add: builtins_def)
  define u1 where "u1 = set_list b (fireWith d (list_of b s)) s"
  have 1: "once_inv ?A (Some d) (list_of b u1)" "firing (list_of b u1)" "length (calls (list_of b u1)) = Suc 0"
    using once_fire [OF assms(1), of d] once_fire_count [OF assms(1), of d] by (simp_all add: u1_def builtins_def)
  define u2 where "u2 = ?r (u1\<lparr>dstate := Some b\<rparr>)"
  have 2: "once_inv ?A (Some d) (list_of b u2)" "firing (list_of b u2)" "length (calls (list_of b u2)) = Suc 1"
    using once_return [OF 1(1,2)] once_return_count [OF 1(1,2)] 1(3) A(4) by (simp_all add: u2_def)
  define u3 where "u3 = ?r (set_list (\<not> b) (disable (list_of (\<not> b) u2)) u2)"
  have 3: "once_inv ?A (Some d) (list_of b u3)" "firing (list_of b u3)" "length (calls (list_of b u3)) = Suc 2"
    using once_return [OF 2(1,2)] once_return_count [OF 2(1,2)] 2(3) A(4) by (simp_all add: u3_def)
  define u4 where "u4 = ?r (u3\<lparr>progress_list := lock (progress_list u3)\<rparr>)"
  have 4: "once_inv ?A (Some d) (list_of b u4)" "3 \<le> length (calls (list_of b u4))"
    "firing (list_of b u4) \<longrightarrow> 3 < length (calls (list_of b u4))"
    using once_return [OF 3(1,2)] once_return_count [OF 3(1,2)] 3(3) by (auto simp: u4_def)
  have "t = run_builtins 3 b u1" by (simp add: assms(2) settle_with_def u1_def)
  also have "\<dots> = run_builtins 2 b u2"
    using builtin_step [OF 1, of 2] by (simp only: A u2_def is_user.simps builtin_effect.simps list_access eval_nat_numeral simp_thms)
  also have "\<dots> = run_builtins 1 b u3"
    using builtin_step [OF 2, of 1] A(2) by (simp add: u3_def numeral_2_eq_2)
  also have "\<dots> = run_builtins 0 b u4"
    using builtin_step [OF 3, of 0] A(3) by (simp add: u4_def)
  finally have t: "t = u4" by simp
  have "dstate u4 = Some b" "list_of (\<not> b) u4 = disable (list_of (\<not> b) s)"
    by (simp_all add: u4_def u3_def u2_def u1_def)
  with 4 t show ?thesis by blast
qed

text \<open>The invariant of a deferred object after the events \<open>es\<close>.\<close>

definition past_builtins :: "('c, 'd) cbs \<Rightarrow> bool" where
  "past_builtins s \<longleftrightarrow> 3 \<le> length (calls s) \<and> (firing s \<longrightarrow> 3 < length (calls s))"

definition expected :: "bool \<Rightarrow> ('u, 'd) d_event list \<Rightarrow> 'u dcb list" where
  "expected b es = builtins b @ map User (listeners b es)"

definition d_inv :: "('u, 'd) d_event list \<Rightarrow> ('u, 'd) dfd \<Rightarrow> bool" where
  "d_inv es s \<longleftrightarrow>
     (case first_settle es of
        None \<Rightarrow> dstate s = None \<and> (\<forall>b. once_inv (expected b es) None (list_of b s))
      | Some (b, d) \<Rightarrow> dstate s = Some b \<and> once_inv (expected b es) (Some d) (list_of b s) \<and> past_builtins (list_of b s) \<and>
          lst (list_of (\<not> b) s) = None \<and> calls (list_of (\<not> b) s) = [] \<and> \<not> firing (list_of (\<not> b) s))"

lemma expected_Cons: "expected b (e # es) = expected b es @ map User (listened b e)"
  by (simp add: expected_def)

lemma past_builtins_add:
  assumes "once_inv A (Some d) s" and "past_builtins s"
  shows "past_builtins (add cs s)"
  using assms
  by (auto simp: past_builtins_def once_inv_def add_def Let_def pushes_plain fire_def begin_fire_def fire_loop.simps split: if_splits)

lemma listen_inv:
  assumes "d_inv es s"
  shows "d_inv (Listen b fs # es) (listen b fs s)"
proof (cases "first_settle es")
  case None
  then have "once_inv (expected c es @ cs) None (add cs (list_of c s))" for c cs
    using assms by (intro once_add) (simp add: d_inv_def)
  then show ?thesis using None assms
    by (auto simp: d_inv_def listen_def expected_Cons)
next
  case (Some p)
  then obtain c d where p: "first_settle es = Some (c, d)" by (cases p) auto
  have i: "once_inv (expected c es) (Some d) (list_of c s)" "lst (list_of (\<not> c) s) = None" "past_builtins (list_of c s)"
    using assms p by (simp_all add: d_inv_def)
  have n: "add cs (list_of (\<not> c) s) = list_of (\<not> c) s" for cs using i(2) by (simp add: add_def)
  show ?thesis
  proof (cases "b = c")
    case True
    then show ?thesis using assms p once_add [OF i(1), of "map User fs"] past_builtins_add [OF i(1,3), of "map User fs"]
      by (simp add: d_inv_def listen_def expected_Cons)
  next
    case False
    then have "b = (\<not> c)" by auto
    then show ?thesis using assms p n by (simp add: d_inv_def listen_def expected_Cons)
  qed
qed

lemma always_inv:
  assumes "d_inv es s"
  shows "d_inv (Always fs # es) (always fs s)"
proof -
  have "d_inv (Listen False fs # Listen True fs # es) (always fs s)"
    unfolding always_def by (intro listen_inv assms)
  moreover have e: "(\<lambda>b. expected b (Listen False fs # Listen True fs # es)) = (\<lambda>b. expected b (Always fs # es))"
    by (simp add: expected_Cons fun_eq_iff)
  moreover have "first_settle (Listen False fs # Listen True fs # es) = first_settle es" "first_settle (Always fs # es) = first_settle es"
    by (simp_all add: first_settle_same del: first_settle.simps)
  ultimately show ?thesis unfolding d_inv_def fun_cong [OF e] by (simp del: first_settle.simps)
qed

lemma settle_settled:
  assumes "d_inv es s" and p: "first_settle es = Some (c, e)"
  shows "settle_with b d s = s"
proof -
  have i: "once_inv (expected c es) (Some e) (list_of c s)" "lst (list_of (\<not> c) s) = None" "past_builtins (list_of c s)"
    "\<not> firing (list_of (\<not> c) s)"
    using assms by (simp_all add: d_inv_def)
  have same: "fireWith d (list_of b s) = list_of b s"
    using i(1,2) by (cases "b = c") (auto simp: fireWith_def once_inv_def)
  have user: "is_user (fst (last (calls (list_of c s))))" if f: "firing (list_of c s)"
  proof -
    let ?n = "length (calls (list_of c s))"
    have n: "3 < ?n" "calls (list_of c s) \<noteq> []" using i(3) f by (auto simp: past_builtins_def)
    have "?n \<le> length (expected c es)" using i(1) f by (auto simp: once_inv_def)
    then have "expected c es ! (?n - 1) = User (listeners c es ! (?n - 4))"
      using n by (simp add: expected_def builtins_def nth_append nth_Cons' eval_nat_numeral split: if_splits)
    then show ?thesis using once_last [OF i(1) f n(2)] by simp
  qed
  have "set_list b (list_of b s) s = s" by (auto simp: set_list_def list_of_def)
  moreover have "\<not> firing (list_of b s) \<or> is_user (fst (last (calls (list_of b s))))"
    using user i(4) by (cases "b = c") auto
  ultimately show ?thesis by (auto simp: settle_with_def same numeral_3_eq_3)
qed

lemma settle_inv:
  assumes "d_inv es s"
  shows "d_inv (Settle b d # es) (settle_with b d s)"
proof (cases "first_settle es")
  case None
  then have "once_inv (expected c es) None (list_of c s)" for c using assms by (simp add: d_inv_def)
  then have o: "once_inv (builtins b @ map User (listeners b es)) None (list_of b s)"
    "calls (list_of (\<not> b) s) = []" "\<not> firing (list_of (\<not> b) s)"
    by (simp add: expected_def, simp_all add: once_inv_def)
  show ?thesis using settle_pending [OF o(1) HOL.refl, of d] None o(2,3)
    by (simp add: d_inv_def expected_def past_builtins_def disable_def)
next
  case (Some p)
  then obtain c e where p: "first_settle es = Some (c, e)" by (cases p) auto
  show ?thesis using settle_settled [OF assms p] assms p by (simp add: d_inv_def expected_Cons)
qed

lemma returns_inv:
  assumes "d_inv es s" and "firing (list_of b s)"
  shows "d_inv (Returns b r # es) (set_list b (returned r (list_of b s)) s)"
proof (cases "first_settle es")
  case None
  then have "once_inv (expected b es) None (list_of b s)" using assms(1) by (simp add: d_inv_def)
  then show ?thesis using assms(2) by (simp add: once_inv_def)
next
  case (Some p)
  then obtain c d where p: "first_settle es = Some (c, d)" by (cases p) auto
  then have b: "b = c" using assms by (cases "b = c") (auto simp: d_inv_def)
  have i: "once_inv (expected c es) (Some d) (list_of c s)" "past_builtins (list_of c s)" using assms(1) p by (simp_all add: d_inv_def)
  have "past_builtins (returned r (list_of c s))"
    using once_return_count [OF i(1), of r] assms(2) b i(2) by (auto simp: past_builtins_def)
  then show ?thesis using once_return [OF i(1), of r] assms b p by (simp add: d_inv_def expected_Cons)
qed

lemma progress_inv:
  assumes "d_inv es s" and "settled_by e = None" and "\<And>b. listened b e = []"
  shows "d_inv (e # es) (s\<lparr>progress_list := p\<rparr>)"
proof -
  have "expected b (e # es) = expected b es" for b using assms(3) by (simp add: expected_Cons)
  then show ?thesis using assms(1) first_settle_same [OF assms(2), of es]
    by (cases "first_settle es") (auto simp: d_inv_def simp del: first_settle.simps)
qed

lemma d_inv_run: "d_run es s \<Longrightarrow> d_inv es s"
proof (induction rule: d_run.induct)
  case fresh
  have "once_inv (builtins b) None (add (builtins b) (Callbacks True True False False))" for b :: bool
    by (simp add: once_inv_def add_def Callbacks_def pushes_plain)
  from this [of True] this [of False] show ?case by (auto simp: d_inv_def Deferred_def expected_def list_of_def)
next
  case (event es s e)
  show ?case
  proof (cases e)
    case (Settle b d) then show ?thesis using settle_inv [OF event.IH] by simp
  next
    case (Listen b fs) then show ?thesis using listen_inv [OF event.IH] by simp
  next
    case (Always fs) then show ?thesis using always_inv [OF event.IH] by simp
  next
    case (Returns b r) then show ?thesis using returns_inv [OF event.IH] event.hyps(2) by simp
  qed (use progress_inv [OF event.IH] in \<open>simp_all add: notify_def on_progress_def del: first_settle.simps\<close>)
qed

text \<open>The users' callbacks in the log of a list, with their arguments.\<close>

fun user_of :: "'u dcb \<times> 'd \<Rightarrow> ('u \<times> 'd) list" where
  "user_of (User c, d) = [(c, d)]"
| "user_of _ = []"

definition user_calls :: "bool \<Rightarrow> ('u, 'd) dfd \<Rightarrow> ('u \<times> 'd) list" where
  "user_calls b s = concat (map user_of (calls (list_of b s)))"

lemma user_calls_of_users:
  "map fst xs @ r = map User us \<Longrightarrow> \<exists>rest. map fst (concat (map user_of xs)) @ rest = us \<and> r = map User rest"
proof (induction xs arbitrary: us)
  case (Cons x xs)
  then obtain v vs where us: "us = v # vs" "fst x = User v" "map fst xs @ r = map User vs" by (cases us) auto
  obtain d where "x = (User v, d)" using us(2) by (cases x) auto
  then show ?case using Cons.IH [OF us(3)] us(1) by auto
qed auto

lemma settled_calls:
  assumes "once_inv (expected b es) (Some d) (list_of b s)" and "3 \<le> length (calls (list_of b s))"
  shows "\<exists>rest. map fst (user_calls b s) @ rest = listeners b es \<and> (\<not> firing (list_of b s) \<longrightarrow> rest = []) \<and>
    (\<forall>p \<in> set (user_calls b s). snd p = d)"
proof -
  let ?c = "calls (list_of b s)"
  obtain r where r: "map fst ?c @ r = builtins b @ map User (listeners b es)" "\<not> firing (list_of b s) \<longrightarrow> r = []"
    using assms(1) by (cases "firing (list_of b s)") (auto simp: once_inv_def expected_def)
  obtain x y z xs where c: "?c = x # y # z # xs" using assms(2) by (auto simp: numeral_3_eq_3 Suc_le_length_iff)
  then have f: "fst x = Set_state b" "fst y = Disable_other" "fst z = Lock_progress" "map fst xs @ r = map User (listeners b es)"
    using r(1) by (auto simp: builtins_def)
  then have u: "user_calls b s = concat (map user_of xs)" by (cases x; cases y; cases z) (simp add: user_calls_def c)
  have "snd p = d" if "p \<in> set (user_of q)" "q \<in> set ?c" for p q
    using that assms(1) by (cases q rule: user_of.cases) (auto simp: once_inv_def)
  then have "\<forall>p \<in> set (user_calls b s). snd p = d" by (auto simp: user_calls_def)
  then show ?thesis using user_calls_of_users [OF f(4)] r(2) unfolding u by auto
qed

text \<open>
  C10. A deferred object settles once, and tells everybody once. Over any sequence of calls of
  \<open>resolve\<close>, \<open>reject\<close>, \<open>notify\<close>, \<open>done\<close>, \<open>fail\<close>, \<open>always\<close> and \<open>progress\<close>, made before, while or after
  callbacks run: the first \<open>resolve\<close> or \<open>reject\<close> decides the state for good. No listener of the
  other outcome is ever called. The listeners of this outcome, whenever they were added, are
  called in the order in which they were added, each once, with the value of that first call;
  when no callback is running, none of them is left out.
\<close>

theorem deferred_settles_once:
  assumes "d_run es s"
  shows "dstate s = map_option fst (first_settle es) \<and>
    (\<forall>b. map_option fst (first_settle es) \<noteq> Some b \<longrightarrow> user_calls b s = []) \<and>
    (\<forall>b d. first_settle es = Some (b, d) \<longrightarrow>
      (\<exists>rest. map fst (user_calls b s) @ rest = listeners b es \<and> (\<not> firing (list_of b s) \<longrightarrow> rest = []) \<and>
        (\<forall>p \<in> set (user_calls b s). snd p = d)))"
proof (cases "first_settle es")
  case None
  then show ?thesis using d_inv_run [OF assms] by (auto simp: d_inv_def once_inv_def user_calls_def)
next
  case (Some p)
  then obtain b d where p: "first_settle es = Some (b, d)" by (cases p) auto
  then have i: "dstate s = Some b" "once_inv (expected b es) (Some d) (list_of b s)" "3 \<le> length (calls (list_of b s))"
    "calls (list_of (\<not> b) s) = []" using d_inv_run [OF assms] by (simp_all add: d_inv_def past_builtins_def)
  then show ?thesis using settled_calls [OF i(2,3)] p by (auto simp: user_calls_def)
qed

theorem deferred_settles_once_witness:
  "dstate (settle_with False 7 (settle_with True (5::nat) (listen True [1, 2::nat] Deferred))) = Some True \<and>
   user_calls False (settle_with False 7 (settle_with True (5::nat) (listen True [1, 2::nat] Deferred))) = []"
proof -
  let ?e = "[Settle False 7, Settle True (5::nat), Listen True [1, 2::nat]]"
  let ?s = "settle_with False 7 (settle_with True (5::nat) (listen True [1, 2::nat] Deferred))"
  have "d_run [Listen True [1, 2::nat]] (d_step (Listen True [1, 2]) Deferred)" by (rule d_run.event [OF d_run.fresh]) simp
  from d_run.event [OF this, of "Settle True 5"]
  have "d_run [Settle True 5, Listen True [1, 2::nat]] (d_step (Settle True (5::nat)) (d_step (Listen True [1, 2]) Deferred))" by simp
  from d_run.event [OF this, of "Settle False 7"] have "d_run ?e ?s" by simp
  moreover have "first_settle ?e = Some (True, 5)" by simp
  ultimately show ?thesis using deferred_settles_once [of ?e ?s] by auto
qed

end
