(* ===== verification/JQuery_When.thy ===== *)
theory JQuery_When
  imports JQuery_Callbacks
begin

text \<open>
  \<open>jQuery.when\<close> (\<open>plugins/jquery/dist/jquery.js\<close>): a master deferred object that waits for several
  subordinates. It relies on deferred objects through the locale \<open>one_shot\<close>: the first settling call
  decides. The theorem: the master is resolved exactly when all subordinates are, with their values
  in the order of the arguments, and rejected by the first failure.
\<close>

subsection \<open>The contract of a deferred object\<close>

locale one_shot =
  fixes settle :: "bool \<Rightarrow> 'd \<Rightarrow> 's \<Rightarrow> 's" and outcome :: "'s \<Rightarrow> (bool \<times> 'd) option" and ok :: "'s \<Rightarrow> bool"
  assumes settle_ok: "ok s \<Longrightarrow> ok (settle b d s)"
    and first_wins: "ok s \<Longrightarrow> outcome (settle b d s) = (case outcome s of None \<Rightarrow> Some (b, d) | Some p \<Rightarrow> Some p)"
begin

lemma decides: "ok s \<Longrightarrow> outcome s = None \<Longrightarrow> ok (settle b d s) \<and> outcome (settle b d s) = Some (b, d)"
  by (simp add: settle_ok first_wins)

lemma decided: "ok s \<Longrightarrow> outcome s = Some p \<Longrightarrow> ok (settle b d s) \<and> outcome (settle b d s) = Some p"
  by (simp add: settle_ok first_wins)

lemma again: "ok s \<Longrightarrow> outcome (settle b d (settle b d s)) = outcome (settle b d s)"
  by (cases "outcome s") (simp_all add: settle_ok first_wins)

end

text \<open>The outcome of a deferred object: its state and the value that its list remembers.\<close>

definition dfd_outcome :: "('u, 'd) dfd \<Rightarrow> (bool \<times> 'd) option" where
  "dfd_outcome s = (case dstate s of None \<Rightarrow> None | Some b \<Rightarrow> map_option (Pair b) (memory (list_of b s)))"

definition reachable :: "('u, 'd) dfd \<Rightarrow> bool" where
  "reachable s \<longleftrightarrow> (\<exists>es. d_run es s)"

lemma outcome_run: "d_run es s \<Longrightarrow> dfd_outcome s = first_settle es"
  using d_inv_run [of es s]
  by (auto simp: d_inv_def dfd_outcome_def once_inv_def split: option.splits)

lemma reachable_event:
  assumes "reachable s" and "d_enabled e s"
  shows "reachable (d_step e s)" and "settled_by e = None \<Longrightarrow> dfd_outcome (d_step e s) = dfd_outcome s"
    and "settled_by e = Some p \<Longrightarrow> dfd_outcome (d_step e s) = (case dfd_outcome s of None \<Rightarrow> Some p | Some q \<Rightarrow> Some q)"
proof -
  obtain es where r: "d_run es s" using assms(1) by (auto simp: reachable_def)
  have n: "d_run (e # es) (d_step e s)" using r assms(2) by (rule d_run.event)
  then show "reachable (d_step e s)" by (auto simp: reachable_def)
  show "settled_by e = None \<Longrightarrow> dfd_outcome (d_step e s) = dfd_outcome s"
    using outcome_run [OF r] outcome_run [OF n] first_settle_same [of e es] by simp
  show "settled_by e = Some p \<Longrightarrow> dfd_outcome (d_step e s) = (case dfd_outcome s of None \<Rightarrow> Some p | Some q \<Rightarrow> Some q)"
    using outcome_run [OF r] outcome_run [OF n] by (cases "first_settle es") simp_all
qed

interpretation dfd: one_shot settle_with dfd_outcome reachable
proof
  fix s :: "('u, 'd) dfd" and b d
  assume r: "reachable s"
  show "reachable (settle_with b d s)" using reachable_event(1) [OF r, of "Settle b d"] by simp
  show "dfd_outcome (settle_with b d s) = (case dfd_outcome s of None \<Rightarrow> Some (b, d) | Some p \<Rightarrow> Some p)"
    using reachable_event(3) [OF r, of "Settle b d"] by simp
qed

lemma fresh_master: "reachable Deferred" "dfd_outcome Deferred = None"
  using d_run.fresh outcome_run [OF d_run.fresh] by (auto simp: reachable_def)

lemma notified: "reachable s \<Longrightarrow> reachable (notify d s) \<and> dfd_outcome (notify d s) = dfd_outcome s"
  using reachable_event [of s "Notify d"] by simp

text \<open>Whatever a listener is called with is the outcome.\<close>

lemma calls_have_outcome:
  assumes "reachable s" and "p \<in> set (user_calls b s)"
  shows "dfd_outcome s = Some (b, snd p)"
proof -
  obtain es where r: "d_run es s" using assms(1) by (auto simp: reachable_def)
  note inv = d_inv_run [OF r, unfolded d_inv_def]
  have "first_settle es = Some (b, snd p)"
  proof (cases "first_settle es")
    case None
    then show ?thesis using inv assms(2) by (auto simp: once_inv_def user_calls_def)
  next
    case (Some q)
    obtain c d where q: "q = (c, d)" by (cases q)
    have c: "once_inv (expected c es) (Some d) (list_of c s)" "3 \<le> length (calls (list_of c s))" "calls (list_of (\<not> c) s) = []"
      using inv Some q by (simp_all add: past_builtins_def)
    then have "b = c" using assms(2) by (cases b; cases c) (auto simp: user_calls_def)
    then show ?thesis using settled_calls [OF c(1,2)] assms(2) Some q by auto
  qed
  then show ?thesis using outcome_run [OF r] by simp
qed

subsection \<open>Waiting for several\<close>

text \<open>
  An argument of \<open>when\<close> is a plain value, or a promise, which may be settled or have been notified
  before. A value of the master's array is what \<open>updateFunc\<close> puts there, or the argument itself.
\<close>

datatype 'v sub = Plain 'v | Promise "(bool \<times> 'v list) option" "'v list option"

datatype 'v arg = Undefined | Val 'v | Array "'v list" | Itself

definition arg_of :: "'v list \<Rightarrow> 'v arg" where
  "arg_of args = (if length args > 1 then Array args else (case args of [] \<Rightarrow> Undefined | v # _ \<Rightarrow> Val v))"

record ('u, 'v) waiter =
  master :: "('u, 'v arg list) dfd"
  remaining :: int
  resolveValues :: "'v arg list"
  progressValues :: "'v arg list"

text \<open>The two functions that \<open>updateFunc\<close> makes, and \<open>deferred.reject\<close>.\<close>

definition update_done :: "nat \<Rightarrow> 'v list \<Rightarrow> ('u, 'v) waiter \<Rightarrow> ('u, 'v) waiter" where
  "update_done i args w =
     (let w = w\<lparr>resolveValues := (resolveValues w)[i := arg_of args], remaining := remaining w - 1\<rparr> in
      if remaining w = 0 then w\<lparr>master := settle_with True (resolveValues w) (master w)\<rparr> else w)"

definition update_progress :: "nat \<Rightarrow> 'v list \<Rightarrow> ('u, 'v) waiter \<Rightarrow> ('u, 'v) waiter" where
  "update_progress i args w =
     (let w = w\<lparr>progressValues := (progressValues w)[i := arg_of args]\<rparr> in w\<lparr>master := notify (progressValues w) (master w)\<rparr>)"

definition sub_failed :: "'v list \<Rightarrow> ('u, 'v) waiter \<Rightarrow> ('u, 'v) waiter" where
  "sub_failed args w = w\<lparr>master := settle_with False (map Val args) (master w)\<rparr>"

text \<open>One turn of the loop: listeners that are added to a settled promise are called at once.\<close>

definition sub_outcome :: "nat \<Rightarrow> (bool \<times> 'v list) option \<Rightarrow> ('u, 'v) waiter \<Rightarrow> ('u, 'v) waiter" where
  "sub_outcome i out w =
     (case out of None \<Rightarrow> w | Some (b, args) \<Rightarrow> if b then update_done i args w else sub_failed args w)"

fun when_arg :: "nat \<Rightarrow> 'v sub \<Rightarrow> ('u, 'v) waiter \<Rightarrow> ('u, 'v) waiter" where
  "when_arg i (Plain v) w = w\<lparr>remaining := remaining w - 1\<rparr>"
| "when_arg i (Promise out prog) w =
     (let w = sub_outcome i out w in case prog of None \<Rightarrow> w | Some args \<Rightarrow> update_progress i args w)"

fun is_promise :: "'v sub \<Rightarrow> bool" where
  "is_promise (Plain v) = False"
| "is_promise (Promise out prog) = True"

fun initial_value :: "'v sub \<Rightarrow> 'v arg" where
  "initial_value (Plain v) = Val v"
| "initial_value (Promise out prog) = Itself"

definition when_finish :: "('u, 'v) waiter \<Rightarrow> ('u, 'v) waiter" where
  "when_finish w = (if remaining w = 0 then w\<lparr>master := settle_with True (resolveValues w) (master w)\<rparr> else w)"

text \<open>None: a single promise is its own master.\<close>

definition jq_when :: "'v sub list \<Rightarrow> ('u, 'v) waiter option" where
  "jq_when subs =
     (let n = length subs; rem = (if n \<noteq> 1 \<or> is_promise (subs ! 0) then n else 0) in
      if rem = 1 then None
      else (let w = \<lparr>master = Deferred, remaining = int rem, resolveValues = map initial_value subs, progressValues = replicate n Undefined\<rparr>
            in Some (when_finish (if n > 1 then fold (\<lambda>(i, s). when_arg i s) (enumerate 0 subs) w else w))))"

subsection \<open>Runs\<close>

datatype ('u, 'v) w_event = Sub_settled nat bool "'v list" | Sub_progress nat "'v list" | On_master "('u, 'v arg list) d_event"

fun w_step :: "('u, 'v) w_event \<Rightarrow> ('u, 'v) waiter \<Rightarrow> ('u, 'v) waiter" where
  "w_step (Sub_settled i b args) w = sub_outcome i (Some (b, args)) w"
| "w_step (Sub_progress i args) w = update_progress i args w"
| "w_step (On_master e) w = w\<lparr>master := d_step e (master w)\<rparr>"

text \<open>
  The history of the subordinates: which were settled, how and with what, in the order of time.
  Those that were settled before come first.
\<close>

fun settled_before :: "nat \<times> 'v sub \<Rightarrow> (nat \<times> bool \<times> 'v list) list" where
  "settled_before (i, Promise (Some o1) prog) = [(i, o1)]"
| "settled_before _ = []"

fun settled_now :: "('u, 'v) w_event \<Rightarrow> (nat \<times> bool \<times> 'v list) list" where
  "settled_now (Sub_settled i b args) = [(i, b, args)]"
| "settled_now _ = []"

definition history :: "'v sub list \<Rightarrow> ('u, 'v) w_event list \<Rightarrow> (nat \<times> bool \<times> 'v list) list" where
  "history subs es = concat (map settled_before (enumerate 0 subs)) @ concat (map settled_now (rev es))"

text \<open>
  A subordinate calls the listeners of its outcome once (theorem of deferred objects); whoever
  holds the master's promise can add listeners, but not settle it.
\<close>

fun w_enabled :: "'v sub list \<Rightarrow> ('u, 'v) w_event list \<Rightarrow> ('u, 'v) w_event \<Rightarrow> ('u, 'v) waiter \<Rightarrow> bool" where
  "w_enabled subs es (Sub_settled i b args) w \<longleftrightarrow> i < length subs \<and> is_promise (subs ! i) \<and> i \<notin> fst ` set (history subs es)"
| "w_enabled subs es (Sub_progress i args) w \<longleftrightarrow> i < length subs \<and> is_promise (subs ! i)"
| "w_enabled subs es (On_master e) w \<longleftrightarrow> d_enabled e (master w) \<and> settled_by e = None \<and> (\<forall>d. e \<noteq> Notify d)"

inductive when_run :: "'v sub list \<Rightarrow> ('u, 'v) w_event list \<Rightarrow> ('u, 'v) waiter \<Rightarrow> bool" for subs where
  waits: "jq_when subs = Some w \<Longrightarrow> when_run subs [] w"
| event: "when_run subs es w \<Longrightarrow> w_enabled subs es e w \<Longrightarrow> when_run subs (e # es) (w_step e w)"

subsection \<open>What the master should do\<close>

definition is_done :: "'v sub list \<Rightarrow> (nat \<times> bool \<times> 'v list) list \<Rightarrow> nat \<Rightarrow> bool" where
  "is_done subs h i \<longleftrightarrow> \<not> is_promise (subs ! i) \<or> (case map_of h i of Some (True, args) \<Rightarrow> True | _ \<Rightarrow> False)"

definition value_of :: "'v sub list \<Rightarrow> (nat \<times> bool \<times> 'v list) list \<Rightarrow> nat \<Rightarrow> 'v arg" where
  "value_of subs h i = (case map_of h i of Some (True, args) \<Rightarrow> arg_of args | _ \<Rightarrow> initial_value (subs ! i))"

definition values_of :: "'v sub list \<Rightarrow> (nat \<times> bool \<times> 'v list) list \<Rightarrow> 'v arg list" where
  "values_of subs h = map (value_of subs h) [0..<length subs]"

fun first_failure :: "(nat \<times> bool \<times> 'v list) list \<Rightarrow> 'v list option" where
  "first_failure [] = None"
| "first_failure ((i, b, args) # h) = (if b then first_failure h else Some args)"

definition when_spec :: "'v sub list \<Rightarrow> (nat \<times> bool \<times> 'v list) list \<Rightarrow> (bool \<times> 'v arg list) option" where
  "when_spec subs h =
     (case first_failure h of
        Some args \<Rightarrow> Some (False, map Val args)
      | None \<Rightarrow> if \<forall>i < length subs. is_done subs h i then Some (True, values_of subs h) else None)"

subsection \<open>The invariant of the counter\<close>

definition hist_ok :: "'v sub list \<Rightarrow> (nat \<times> bool \<times> 'v list) list \<Rightarrow> bool" where
  "hist_ok subs h \<longleftrightarrow> distinct (map fst h) \<and> (\<forall>i \<in> fst ` set h. i < length subs \<and> is_promise (subs ! i))"

text \<open>The subordinates the counter still counts when the loop has passed \<open>k\<close> arguments.\<close>

definition unfinished :: "'v sub list \<Rightarrow> nat \<Rightarrow> (nat \<times> bool \<times> 'v list) list \<Rightarrow> nat set" where
  "unfinished subs k h = {i. i < length subs \<and> \<not> (is_done subs h i \<and> (is_promise (subs ! i) \<or> i < k))}"

definition when_inv :: "'v sub list \<Rightarrow> nat \<Rightarrow> (nat \<times> bool \<times> 'v list) list \<Rightarrow> bool \<Rightarrow> ('u, 'v) waiter \<Rightarrow> bool" where
  "when_inv subs k h r w \<longleftrightarrow>
     hist_ok subs h \<and> remaining w = int (card (unfinished subs k h)) \<and> resolveValues w = values_of subs h \<and> reachable (master w) \<and>
     dfd_outcome (master w) =
       (case first_failure h of
          Some args \<Rightarrow> Some (False, map Val args)
        | None \<Rightarrow> if r \<and> unfinished subs k h = {} then Some (True, values_of subs h) else None)"

lemma finite_unfinished [simp]: "finite (unfinished subs k h)"
  by (simp add: unfinished_def)

lemma map_of_late: "i \<notin> fst ` set h \<Longrightarrow> map_of (h @ [(i, x)]) = (map_of h)(i \<mapsto> x)"
  by (induction h) (auto simp: fun_eq_iff)

lemma late_done:
  assumes "i < length subs" and "is_promise (subs ! i)" and "i \<notin> fst ` set h"
  shows "values_of subs (h @ [(i, True, a)]) = (values_of subs h)[i := arg_of a]"
    and "unfinished subs k (h @ [(i, True, a)]) = unfinished subs k h - {i}" and "i \<in> unfinished subs k h"
proof -
  note m = map_of_late [OF assms(3)]
  have n: "map_of h i = None" using assms(3) by (simp add: map_of_eq_None_iff)
  have v: "value_of subs (h @ [(i, True, a)]) j = (if j = i then arg_of a else value_of subs h j)" for j
    unfolding value_of_def m by simp
  have d: "is_done subs (h @ [(i, True, a)]) j = (j = i \<or> is_done subs h j)" for j
    unfolding is_done_def m by simp
  show "values_of subs (h @ [(i, True, a)]) = (values_of subs h)[i := arg_of a]"
    by (rule nth_equalityI) (simp_all add: values_of_def v nth_list_update)
  show "unfinished subs k (h @ [(i, True, a)]) = unfinished subs k h - {i}"
    using assms(2) by (auto simp: unfinished_def d)
  show "i \<in> unfinished subs k h" using assms(1,2) n by (auto simp: unfinished_def is_done_def)
qed

lemma late_failed:
  assumes "i \<notin> fst ` set h"
  shows "values_of subs (h @ [(i, False, a)]) = values_of subs h" and "unfinished subs k (h @ [(i, False, a)]) = unfinished subs k h"
proof -
  note m = map_of_late [OF assms]
  have n: "map_of h i = None" using assms by (simp add: map_of_eq_None_iff)
  have "is_done subs (h @ [(i, False, a)]) j = is_done subs h j" "value_of subs (h @ [(i, False, a)]) j = value_of subs h j" for j
    unfolding is_done_def value_of_def m using n by simp_all
  then show "values_of subs (h @ [(i, False, a)]) = values_of subs h" "unfinished subs k (h @ [(i, False, a)]) = unfinished subs k h"
    by (simp_all add: values_of_def unfinished_def)
qed

lemma first_failure_late:
  "first_failure (h @ [(i, b, a)]) = (case first_failure h of Some x \<Rightarrow> Some x | None \<Rightarrow> if b then None else Some a)"
  by (induction h rule: first_failure.induct) auto

lemma failed_unfinished:
  assumes "first_failure h = Some args" and "hist_ok subs h"
  shows "unfinished subs k h \<noteq> {}"
proof -
  obtain i where i: "(i, False, args) \<in> set h" using assms(1) by (induction h rule: first_failure.induct) (auto split: if_splits)
  then have "map_of h i = Some (False, args)" using assms(2) by (simp add: hist_ok_def)
  moreover have "i < length subs" "is_promise (subs ! i)" using i assms(2) by (force simp: hist_ok_def)+
  ultimately show ?thesis by (auto simp: unfinished_def is_done_def)
qed

lemma inv_done:
  assumes "when_inv subs k h r w" and "i < length subs" and "is_promise (subs ! i)" and "i \<notin> fst ` set h"
  shows "when_inv subs k (h @ [(i, True, a)]) True (update_done i a w)"
proof -
  note late = late_done [OF assms(2-4)]
  let ?h = "h @ [(i, True, a)]"
  have h: "hist_ok subs ?h" using assms by (auto simp: when_inv_def hist_ok_def)
  have c: "int (card (unfinished subs k ?h)) = remaining w - 1"
    using assms(1) late(2,3) by (simp add: when_inv_def card_Diff_singleton card_gt_0_iff of_nat_diff Suc_leI) (metis One_nat_def Suc_leI card_gt_0_iff empty_iff finite_unfinished of_nat_1 of_nat_diff)
  have z: "remaining w - 1 = 0 \<longleftrightarrow> unfinished subs k ?h = {}" using c by (metis card_0_eq finite_unfinished of_nat_0 of_nat_eq_iff)
  have o: "dfd_outcome (master w) = (case first_failure h of Some args \<Rightarrow> Some (False, map Val args) | None \<Rightarrow> None)" "reachable (master w)"
    using assms(1) late(3) by (auto simp: when_inv_def split: option.splits)
  have f: "first_failure ?h = first_failure h" by (simp add: first_failure_late split: option.split)
  show ?thesis
  proof (cases "unfinished subs k ?h = {}")
    case True
    then have n: "first_failure h = None" using failed_unfinished [OF _ h, of _ k] f by (cases "first_failure h") auto
    from True have "remaining w - 1 = 0" using z by simp
    then have "update_done i a w = w\<lparr>resolveValues := values_of subs ?h, remaining := remaining w - 1,
        master := settle_with True (values_of subs ?h) (master w)\<rparr>"
      using assms(1) by (simp add: update_done_def Let_def late(1) when_inv_def)
    then show ?thesis using dfd.decides [OF o(2), of True "values_of subs ?h"] o(1) n f h c True by (simp add: when_inv_def)
  next
    case False
    then have "update_done i a w = w\<lparr>resolveValues := values_of subs ?h, remaining := remaining w - 1\<rparr>"
      using assms(1) z by (simp add: update_done_def Let_def late(1) when_inv_def)
    then show ?thesis using o f h c False by (simp add: when_inv_def)
  qed
qed

lemma inv_failed:
  assumes "when_inv subs k h r w" and "i < length subs" and "is_promise (subs ! i)" and "i \<notin> fst ` set h"
  shows "when_inv subs k (h @ [(i, False, a)]) True (sub_failed a w)"
proof -
  note late = late_failed [OF assms(4)]
  let ?h = "h @ [(i, False, a)]"
  have h: "hist_ok subs ?h" using assms by (auto simp: when_inv_def hist_ok_def)
  have o: "dfd_outcome (master w) = (case first_failure h of Some args \<Rightarrow> Some (False, map Val args) | None \<Rightarrow> None)" "reachable (master w)"
    using assms(1) late_done(3) [OF assms(2-4), of k] by (auto simp: when_inv_def split: option.splits)
  have f: "first_failure ?h = (case first_failure h of Some x \<Rightarrow> Some x | None \<Rightarrow> Some a)" by (simp add: first_failure_late)
  have "reachable (settle_with False (map Val a) (master w)) \<and>
    dfd_outcome (settle_with False (map Val a) (master w)) = (case first_failure ?h of Some args \<Rightarrow> Some (False, map Val args) | None \<Rightarrow> None)"
    using dfd.settle_ok [OF o(2)] dfd.first_wins [OF o(2)] o(1) f by (cases "first_failure h") simp_all
  then show ?thesis using assms(1) h late f by (cases "first_failure h") (simp_all add: when_inv_def sub_failed_def)
qed

lemma inv_progress: "when_inv subs k h r w \<Longrightarrow> when_inv subs k h r (update_progress i a w)"
  using notified [of "master w"] by (simp add: when_inv_def update_progress_def Let_def)

lemma inv_outcome:
  assumes "when_inv subs k h r w" and "i < length subs" and "is_promise (subs ! i)" and "i \<notin> fst ` set h"
  shows "when_inv subs k (h @ [(i, b, a)]) True (sub_outcome i (Some (b, a)) w)"
  using inv_done [OF assms] inv_failed [OF assms] by (cases b) (simp_all add: sub_outcome_def)

subsection \<open>The loop over the arguments\<close>

lemma unfinished_Suc:
  "is_promise (subs ! k) \<Longrightarrow> unfinished subs (Suc k) h = unfinished subs k h"
  "k < length subs \<Longrightarrow> \<not> is_promise (subs ! k) \<Longrightarrow> unfinished subs (Suc k) h = unfinished subs k h - {k} \<and> k \<in> unfinished subs k h"
  by (auto simp: unfinished_def is_done_def less_Suc_eq)

lemma inv_plain:
  assumes "when_inv subs k h r w" and "k < length subs" and "\<not> is_promise (subs ! k)"
  shows "when_inv subs (Suc k) h False (w\<lparr>remaining := remaining w - 1\<rparr>)"
proof -
  note u = unfinished_Suc(2) [OF assms(2,3), of h]
  then have "card (unfinished subs k h) = Suc (card (unfinished subs (Suc k) h))" by (metis card_Suc_Diff1 finite_unfinished)
  then show ?thesis using assms(1) u by (auto simp: when_inv_def split: option.splits)
qed

lemma inv_arg:
  assumes "when_inv subs k h r w" and "k < length subs" and "k \<notin> fst ` set h"
  shows "\<exists>r. when_inv subs (Suc k) (h @ settled_before (k, subs ! k)) r (when_arg k (subs ! k) w)"
proof (cases "subs ! k")
  case (Plain v)
  then show ?thesis using inv_plain [OF assms(1,2)] by auto
next
  case (Promise out prog)
  have p: "is_promise (subs ! k)" using Promise by simp
  have "\<exists>r. when_inv subs k (h @ settled_before (k, subs ! k)) r (sub_outcome k out w)"
  proof (cases out)
    case None
    then show ?thesis using assms(1) Promise by (auto simp: sub_outcome_def)
  next
    case (Some q)
    then show ?thesis using inv_outcome [OF assms(1,2) p assms(3), of "fst q" "snd q"] Promise by (cases q) auto
  qed
  moreover have "when_inv subs (Suc k) g r v = when_inv subs k g r v" for g r and v :: "('b, 'a) waiter"
    unfolding when_inv_def unfinished_Suc(1) [OF p] ..
  ultimately obtain r where "when_inv subs (Suc k) (h @ settled_before (k, subs ! k)) r (sub_outcome k out w)" by blast
  then show ?thesis using inv_progress [of subs "Suc k" _ r "sub_outcome k out w" k] Promise by (cases prog) (auto simp: Let_def)
qed

definition before :: "'v sub list \<Rightarrow> nat \<Rightarrow> (nat \<times> bool \<times> 'v list) list" where
  "before subs k = concat (map settled_before (take k (enumerate 0 subs)))"

lemma history_start: "history subs [] = before subs (length subs)"
  by (simp add: history_def before_def)

lemma before_Suc: "k < length subs \<Longrightarrow> before subs (Suc k) = before subs k @ settled_before (k, subs ! k)"
  by (simp add: before_def take_Suc_conv_app_nth nth_enumerate_eq)

lemma before_below: "k \<le> length subs \<Longrightarrow> fst ` set (before subs k) \<subseteq> {..<k}"
proof (induction k)
  case (Suc k)
  have "fst ` set (settled_before (k, subs ! k)) \<subseteq> {k}" by (cases "(k, subs ! k)" rule: settled_before.cases) auto
  with Suc show ?case by (auto simp: before_Suc)
qed (simp add: before_def)

lemma loop_inv:
  assumes "when_inv subs 0 [] False w" and "k \<le> length subs"
  shows "\<exists>r. when_inv subs k (before subs k) r (fold (\<lambda>(i, s). when_arg i s) (take k (enumerate 0 subs)) w)"
  using assms(2)
proof (induction k)
  case 0
  then show ?case using assms(1) by (auto simp: before_def)
next
  case (Suc k)
  then obtain r where "when_inv subs k (before subs k) r (fold (\<lambda>(i, s). when_arg i s) (take k (enumerate 0 subs)) w)" by auto
  from inv_arg [OF this] show ?case
    using before_below [of k subs] Suc.prems by (auto simp: before_Suc take_Suc_conv_app_nth nth_enumerate_eq)
qed

lemma finish_inv:
  assumes "when_inv subs k h r w"
  shows "when_inv subs k h True (when_finish w)"
proof (cases "unfinished subs k h = {}")
  case True
  have "first_failure h = None" using failed_unfinished [of h _ subs k] assms True by (cases "first_failure h") (auto simp: when_inv_def)
  then show ?thesis using assms True dfd.settle_ok [of "master w" True] dfd.first_wins [of "master w" True "values_of subs h"]
    by (cases r) (auto simp: when_inv_def when_finish_def)
next
  case False
  then show ?thesis using assms by (auto simp: when_inv_def when_finish_def split: option.splits)
qed

lemma start_inv:
  assumes "length subs \<noteq> 1"
  shows "when_inv subs 0 [] False \<lparr>master = Deferred, remaining = int (length subs), resolveValues = map initial_value subs, progressValues = p\<rparr>"
proof -
  have "unfinished subs 0 [] = {..<length subs}" by (auto simp: unfinished_def is_done_def)
  moreover have "values_of subs [] = map initial_value subs" by (auto simp: values_of_def value_of_def intro: nth_equalityI)
  ultimately show ?thesis using fresh_master by (simp add: when_inv_def hist_ok_def)
qed

lemma jq_when_inv:
  fixes w :: "('u, 'v) waiter"
  assumes "jq_when subs = Some w"
  shows "when_inv subs (length subs) (history subs []) True w"
proof -
  show ?thesis
  proof (cases "length subs = 1")
    case True
    then obtain v where s: "subs = [Plain v]" using assms
      by (cases "subs ! 0") (auto simp: jq_when_def length_Suc_conv Let_def)
    let ?w = "\<lparr>master = Deferred, remaining = 0, resolveValues = [Val v], progressValues = [Undefined]\<rparr> :: ('u, 'v) waiter"
    have "unfinished subs 1 [] = {}" using s by (auto simp: unfinished_def is_done_def)
    then have "when_inv subs 1 [] False ?w"
      using s fresh_master by (simp add: when_inv_def hist_ok_def values_of_def value_of_def)
    from finish_inv [OF this] show ?thesis using assms s by (auto simp: jq_when_def history_def Let_def)
  next
    case False
    let ?w = "\<lparr>master = Deferred, remaining = int (length subs), resolveValues = map initial_value subs, progressValues = replicate (length subs) Undefined\<rparr> :: ('u, 'v) waiter"
    let ?f = "fold (\<lambda>(i, s). when_arg i s) (enumerate 0 subs) ?w"
    obtain r where r: "when_inv subs (length subs) (before subs (length subs)) r ?f"
      using loop_inv [OF start_inv [OF False], of "length subs"] by auto
    have "w = when_finish ?f" using assms False by (cases subs) (auto simp: jq_when_def Let_def)
    then show ?thesis using finish_inv [OF r] by (simp add: history_start)
  qed
qed

lemma when_run_inv: "when_run subs es w \<Longrightarrow> when_inv subs (length subs) (history subs es) True w"
proof (induction rule: when_run.induct)
  case (waits w)
  then show ?case by (rule jq_when_inv)
next
  case (event es w e)
  show ?case
  proof (cases e)
    case (Sub_settled i b args)
    then show ?thesis using inv_outcome [OF event.IH, of i b args] event.hyps(2) by (simp add: history_def)
  next
    case (Sub_progress i args)
    then show ?thesis using inv_progress [OF event.IH] by (simp add: history_def)
  next
    case (On_master m)
    then show ?thesis using event.IH event.hyps(2) reachable_event [of "master w" m] by (simp add: when_inv_def history_def)
  qed
qed

text \<open>
  C14. A master of \<open>jQuery.when\<close> does what its subordinates do. Over any order in which subordinates
  are resolved, rejected or report progress, before or after the call, and whatever listeners are
  added meanwhile: the master is resolved exactly when every promise among the arguments is, with
  their values in the order of the arguments, plain arguments standing for themselves; it is
  rejected by the first rejection, with its arguments; otherwise it is pending. Every listener
  that is called is called with this outcome.
\<close>

theorem when_settles:
  assumes "when_run subs es w"
  shows "dfd_outcome (master w) = when_spec subs (history subs es) \<and>
    (\<forall>b. \<forall>p \<in> set (user_calls b (master w)). when_spec subs (history subs es) = Some (b, snd p))"
proof -
  note inv = when_run_inv [OF assms, unfolded when_inv_def]
  have "unfinished subs (length subs) (history subs es) = {} \<longleftrightarrow> (\<forall>i < length subs. is_done subs (history subs es) i)"
    by (auto simp: unfinished_def)
  then have "dfd_outcome (master w) = when_spec subs (history subs es)"
    using inv unfolding when_spec_def by (simp only: simp_thms if_True)
  then show ?thesis using inv calls_have_outcome [of "master w"] by auto
qed

theorem when_settles_witness:
  "\<exists>w. when_run [Promise None None, Plain 7, Promise (Some (True, [8, 9])) None] [Sub_settled 0 True [5::nat]] (w :: (nat, nat) waiter) \<and>
    dfd_outcome (master w) = Some (True, [Val 5, Val 7, Array [8, 9]])"
proof -
  let ?s = "[Promise None None, Plain 7, Promise (Some (True, [8, 9::nat])) None]"
  obtain w0 :: "(nat, nat) waiter" where w0: "jq_when ?s = Some w0" by (simp add: jq_when_def Let_def)
  have "when_run ?s [Sub_settled 0 True [5]] (w_step (Sub_settled 0 True [5]) w0)"
    by (rule when_run.event [OF when_run.waits [OF w0]]) (simp add: history_def)
  from this when_settles [OF this] show ?thesis
    by (auto simp: when_spec_def history_def is_done_def values_of_def value_of_def arg_of_def less_Suc_eq numeral_3_eq_3)
qed

end
