(* ===== verification/JQuery_Then.thy ===== *)
theory JQuery_Then
  imports JQuery_When
begin

text \<open>
  \<open>then\<close> (and its old name \<open>pipe\<close>) of a promise (\<open>plugins/jquery/dist/jquery.js\<close>): a new deferred object
  that takes its outcome from the parent, through functions that may return promises of their own. It
  rests on deferred objects through the locale \<open>one_shot\<close>, like \<open>when\<close>. The theorem: whatever the order of events, the
  new object ends up with the outcome that the functions describe.
\<close>

subsection \<open>The chain\<close>

text \<open>
  The object \<open>this\<close> that listeners are called with: the promise of the deferred object itself, or
  another object. What a function returns: it may raise an error; it may return a promise, named by a
  number, with its state and its latest progress at that time; everything else is a value.
\<close>

datatype 'c ctx = Self | Other 'c

datatype ('c, 'v) ret = Throws | Value 'v | Promised nat "(bool \<times> 'c \<times> 'v list) option" "('c \<times> 'v list) option"

type_synonym ('c, 'v) data = "'c ctx \<times> 'v list"

text \<open>Which of the three arguments of \<open>then\<close> are functions.\<close>

record fns =
  fnDone :: bool
  fnFail :: bool
  fnProgress :: bool

definition has_fn :: "bool option \<Rightarrow> fns \<Rightarrow> bool" where
  "has_fn act fs = (case act of Some b \<Rightarrow> if b then fnDone fs else fnFail fs | None \<Rightarrow> fnProgress fs)"

record ('u, 'c, 'v) chained =
  newDefer :: "('u, ('c, 'v) data) dfd"
  adopted :: "nat list"             \<comment> \<open>the promises to which \<open>newDefer\<close> listens\<close>

text \<open>\<open>newDefer[tuple[0] + "With"]\<close>: \<open>Some b\<close> is \<open>resolve\<close> or \<open>reject\<close>, None is \<open>notify\<close>.\<close>

definition fire_act :: "bool option \<Rightarrow> 'd \<Rightarrow> ('u, 'd) dfd \<Rightarrow> ('u, 'd) dfd" where
  "fire_act act d s = (case act of Some b \<Rightarrow> settle_with b d s | None \<Rightarrow> notify d s)"

text \<open>\<open>this === promise ? newDefer.promise() : this\<close>; each side calls its own promise \<open>Self\<close>.\<close>

fun pass_ctx :: "'c ctx \<Rightarrow> 'c ctx" where
  "pass_ctx Self = Self"
| "pass_ctx (Other c) = Other c"

text \<open>\<open>newDefer\<close> listens to a promise; a promise that is settled or has made progress calls at once.\<close>

definition adopt :: "nat \<Rightarrow> (bool \<times> 'c \<times> 'v list) option \<Rightarrow> ('c \<times> 'v list) option \<Rightarrow> ('u, 'c, 'v) chained \<Rightarrow> ('u, 'c, 'v) chained" where
  "adopt p out prog s =
     (let t1 = (case out of None \<Rightarrow> newDefer s | Some (b, c, args) \<Rightarrow> settle_with b (Other c, args) (newDefer s));
          t2 = (case prog of None \<Rightarrow> t1 | Some (c, args) \<Rightarrow> notify (Other c, args) t1) in
      s\<lparr>newDefer := t2, adopted := p # adopted s\<rparr>)"

text \<open>The function that \<open>then\<close> adds to a list of the parent; None when the page's function raises an error.\<close>

definition forward :: "fns \<Rightarrow> bool option \<Rightarrow> 'c ctx \<Rightarrow> 'v list \<Rightarrow> ('c, 'v) ret \<Rightarrow> ('u, 'c, 'v) chained \<Rightarrow> ('u, 'c, 'v) chained option" where
  "forward fs act this args r s =
     (if has_fn act fs then
        (case r of
           Throws \<Rightarrow> None
         | Promised p out prog \<Rightarrow> Some (adopt p out prog s)
         | Value v \<Rightarrow> Some (s\<lparr>newDefer := fire_act act (pass_ctx this, [v]) (newDefer s)\<rparr>))
      else Some (s\<lparr>newDefer := fire_act act (pass_ctx this, args) (newDefer s)\<rparr>))"

text \<open>
  The call of \<open>then\<close>. A parent that is settled, or has made progress, calls the functions at once; the
  error of a function leaves \<open>then\<close>.
\<close>

type_synonym ('c, 'v) settlement = "bool \<times> 'c ctx \<times> 'v list \<times> ('c, 'v) ret"

definition jq_then :: "fns \<Rightarrow> ('c, 'v) settlement option \<Rightarrow> ('c ctx \<times> 'v list \<times> ('c, 'v) ret) option \<Rightarrow> ('u, 'c, 'v) chained option" where
  "jq_then fs out prog =
     (let s = \<lparr>newDefer = Deferred, adopted = []\<rparr> in
      case (case out of None \<Rightarrow> Some s | Some (b, this, args, r) \<Rightarrow> forward fs (Some b) this args r s) of
        None \<Rightarrow> None
      | Some s1 \<Rightarrow> (case prog of None \<Rightarrow> Some s1 | Some (this, args, r) \<Rightarrow> forward fs None this args r s1))"

subsection \<open>Runs\<close>

text \<open>
  Events after the call: the parent settles or makes progress, with what the function then returns; a
  promise that was returned settles or makes progress; somebody uses the new promise, which has no
  way to settle it. The latest event comes first.
\<close>

datatype ('u, 'c, 'v) t_event =
    Parent_settled "('c, 'v) settlement" | Parent_progress "'c ctx" "'v list" "('c, 'v) ret"
  | Adopted_settled nat bool 'c "'v list" | Adopted_progress nat 'c "'v list" | On_new "('u, ('c, 'v) data) d_event"

fun t_step :: "fns \<Rightarrow> ('u, 'c, 'v) t_event \<Rightarrow> ('u, 'c, 'v) chained \<Rightarrow> ('u, 'c, 'v) chained" where
  "t_step fs (Parent_settled (b, this, args, r)) s = (case forward fs (Some b) this args r s of None \<Rightarrow> s | Some s' \<Rightarrow> s')"
| "t_step fs (Parent_progress this args r) s = (case forward fs None this args r s of None \<Rightarrow> s | Some s' \<Rightarrow> s')"
| "t_step fs (Adopted_settled p b c args) s = s\<lparr>newDefer := settle_with b (Other c, args) (newDefer s)\<rparr>"
| "t_step fs (Adopted_progress p c args) s = s\<lparr>newDefer := notify (Other c, args) (newDefer s)\<rparr>"
| "t_step fs (On_new e) s = s\<lparr>newDefer := d_step e (newDefer s)\<rparr>"

text \<open>How the parent was settled, before the call or by an event, and how the promise \<open>p\<close> was after it was returned.\<close>

fun parent_outcome :: "('c, 'v) settlement option \<Rightarrow> ('u, 'c, 'v) t_event list \<Rightarrow> ('c, 'v) settlement option" where
  "parent_outcome out [] = out"
| "parent_outcome out (Parent_settled x # es) = Some x"
| "parent_outcome out (e # es) = parent_outcome out es"

fun settled_later :: "nat \<Rightarrow> ('u, 'c, 'v) t_event list \<Rightarrow> (bool \<times> 'c \<times> 'v list) option" where
  "settled_later p [] = None"
| "settled_later p (Adopted_settled q b c args # es) = (if p = q then Some (b, c, args) else settled_later p es)"
| "settled_later p (e # es) = settled_later p es"

text \<open>Deferred objects settle once (theorem of deferred objects), so the parent and each promise do.\<close>

fun t_enabled :: "('c, 'v) settlement option \<Rightarrow> ('u, 'c, 'v) t_event list \<Rightarrow> ('u, 'c, 'v) t_event \<Rightarrow> ('u, 'c, 'v) chained \<Rightarrow> bool" where
  "t_enabled out es (Parent_settled x) s \<longleftrightarrow> parent_outcome out es = None"
| "t_enabled out es (Parent_progress this args r) s \<longleftrightarrow> True"
| "t_enabled out es (Adopted_settled p b c args) s \<longleftrightarrow> p \<in> set (adopted s) \<and> settled_later p es = None"
| "t_enabled out es (Adopted_progress p c args) s \<longleftrightarrow> p \<in> set (adopted s)"
| "t_enabled out es (On_new e) s \<longleftrightarrow> d_enabled e (newDefer s) \<and> settled_by e = None \<and> (\<forall>d. e \<noteq> Notify d)"

inductive then_run :: "fns \<Rightarrow> ('c, 'v) settlement option \<Rightarrow> ('c ctx \<times> 'v list \<times> ('c, 'v) ret) option \<Rightarrow>
    ('u, 'c, 'v) t_event list \<Rightarrow> ('u, 'c, 'v) chained \<Rightarrow> bool" for fs out prog where
  called: "jq_then fs out prog = Some s \<Longrightarrow> then_run fs out prog [] s"
| happens: "then_run fs out prog es s \<Longrightarrow> t_enabled out es e s \<Longrightarrow> then_run fs out prog (e # es) (t_step fs e s)"

subsection \<open>What the new object should do\<close>

text \<open>
  Without a function for its outcome the parent's outcome is taken over; a value takes the place of
  the arguments, also of a rejection; a promise that is returned takes over; an error leaves the new
  object pending.
\<close>

definition then_spec :: "fns \<Rightarrow> ('c, 'v) settlement option \<Rightarrow> (nat \<Rightarrow> (bool \<times> 'c \<times> 'v list) option) \<Rightarrow> (bool \<times> ('c, 'v) data) option" where
  "then_spec fs parent later =
     (case parent of
        None \<Rightarrow> None
      | Some (b, this, args, r) \<Rightarrow>
          if \<not> (if b then fnDone fs else fnFail fs) then Some (b, this, args)
          else (case r of
              Throws \<Rightarrow> None
            | Value v \<Rightarrow> Some (b, this, [v])
            | Promised p out prog \<Rightarrow>
                map_option (\<lambda>(b, c, args). (b, Other c, args)) (case out of Some x \<Rightarrow> Some x | None \<Rightarrow> later p)))"

text \<open>The function for progress returns values only.\<close>

fun plain_ret :: "('c, 'v) ret \<Rightarrow> bool" where
  "plain_ret (Promised p out prog) = False"
| "plain_ret _ = True"

fun plain_progress :: "('u, 'c, 'v) t_event \<Rightarrow> bool" where
  "plain_progress (Parent_progress this args r) = plain_ret r"
| "plain_progress _ = True"

definition adopted_by :: "fns \<Rightarrow> ('c, 'v) settlement option \<Rightarrow> nat list" where
  "adopted_by fs parent =
     (case parent of Some (b, this, args, Promised p out prog) \<Rightarrow> if has_fn (Some b) fs then [p] else [] | _ \<Rightarrow> [])"

definition then_inv :: "fns \<Rightarrow> ('c, 'v) settlement option \<Rightarrow> (nat \<Rightarrow> (bool \<times> 'c \<times> 'v list) option) \<Rightarrow> ('u, 'c, 'v) chained \<Rightarrow> bool" where
  "then_inv fs parent later s \<longleftrightarrow> reachable (newDefer s) \<and> dfd_outcome (newDefer s) = then_spec fs parent later \<and>
     adopted s = adopted_by fs parent"

lemma pass_ctx_id [simp]: "pass_ctx this = this"
  by (cases this) simp_all

lemma inv_parent_settled:
  assumes "then_inv fs None later s" and "\<And>p. p \<notin> set (adopted s) \<Longrightarrow> later p = None"
  shows "then_inv fs (Some (b, this, args, r)) later (case forward fs (Some b) this args r s of None \<Rightarrow> s | Some s' \<Rightarrow> s')"
proof -
  have o: "reachable (newDefer s)" "dfd_outcome (newDefer s) = None" "adopted s = []" "\<And>p. later p = None"
    using assms by (simp_all add: then_inv_def then_spec_def adopted_by_def)
  note d = dfd.decides [OF o(1,2)]
  show ?thesis
  proof (cases "has_fn (Some b) fs")
    case False
    then show ?thesis using d o by (auto simp: forward_def fire_act_def then_inv_def then_spec_def adopted_by_def has_fn_def split: ret.splits)
  next
    case True
    show ?thesis
    proof (cases r)
      case (Promised p out prog)
      define t where "t = (case out of None \<Rightarrow> newDefer s | Some (b, c, args) \<Rightarrow> settle_with b (Other c, args) (newDefer s))"
      have t: "reachable t" "dfd_outcome t = map_option (\<lambda>(b, c, args). (b, Other c, args)) out"
        using d o by (auto simp: t_def split: option.splits)
      have n: "newDefer (adopt p out prog s) = (case prog of None \<Rightarrow> t | Some (c, args) \<Rightarrow> notify (Other c, args) t)" "adopted (adopt p out prog s) = [p]"
        unfolding adopt_def Let_def t_def [symmetric] using o(3) by simp_all
      then have "reachable (newDefer (adopt p out prog s))" "dfd_outcome (newDefer (adopt p out prog s)) = dfd_outcome t"
        using t(1) notified [OF t(1)] by (auto split: option.splits)
      then show ?thesis using True Promised t(2) n(2) o(4) by (auto simp: forward_def then_inv_def then_spec_def adopted_by_def has_fn_def split: option.splits)
    qed (use True d o in \<open>auto simp: forward_def fire_act_def then_inv_def then_spec_def adopted_by_def has_fn_def\<close>)
  qed
qed

lemma inv_parent_progress:
  assumes "then_inv fs parent later s" and "plain_ret r"
  shows "then_inv fs parent later (case forward fs None this args r s of None \<Rightarrow> s | Some s' \<Rightarrow> s')"
  using assms notified [of "newDefer s"] by (cases r) (auto simp: forward_def fire_act_def then_inv_def)

lemma inv_adopted_settled:
  assumes "then_inv fs parent later s" and "p \<in> set (adopted s)" and "later p = None"
  shows "then_inv fs parent (later(p \<mapsto> (b, c, args))) (s\<lparr>newDefer := settle_with b (Other c, args) (newDefer s)\<rparr>)"
proof -
  have i: "reachable (newDefer s)" "dfd_outcome (newDefer s) = then_spec fs parent later" "adopted s = adopted_by fs parent"
    using assms(1) by (simp_all add: then_inv_def)
  obtain b' this args' out prog where q: "parent = Some (b', this, args', Promised p out prog)" "has_fn (Some b') fs"
    using assms(2) i(3) by (auto simp: adopted_by_def split: option.splits prod.splits ret.splits if_splits)
  then show ?thesis
    using i dfd.first_wins [OF i(1)] dfd.settle_ok [OF i(1)] assms(3)
    by (cases out) (auto simp: then_inv_def then_spec_def has_fn_def)
qed

lemma later_adopted: "then_run fs out prog es s \<Longrightarrow> settled_later p es \<noteq> None \<Longrightarrow> p \<in> set (adopted s)"
proof (induction rule: then_run.induct)
  case (happens es s e)
  have keeps: "set (adopted s) \<subseteq> set (adopted (case forward fs act this args r s of None \<Rightarrow> s | Some s' \<Rightarrow> s'))" for act this args r
    by (cases r) (auto simp: forward_def adopt_def Let_def)
  have e: "x \<in> set (adopted s) \<Longrightarrow> x \<in> set (adopted (t_step fs e s))" for x
    using keeps by (cases "(fs, e, s)" rule: t_step.cases) (auto simp: subset_iff)
  show ?case
  proof (cases "settled_later p es")
    case None
    then show ?thesis using happens(2,4) e by (cases e) (auto split: if_splits)
  qed (use e happens.IH in simp)
qed simp

lemma then_run_inv:
  assumes "then_run fs out prog es s" and "\<forall>this args r. prog = Some (this, args, r) \<longrightarrow> plain_ret r" and "list_all plain_progress es"
  shows "then_inv fs (parent_outcome out es) (\<lambda>p. settled_later p es) s"
  using assms
proof (induction rule: then_run.induct)
  case (called s)
  let ?s = "\<lparr>newDefer = Deferred, adopted = []\<rparr> :: ('c, 'a, 'b) chained"
  have start: "then_inv fs None (\<lambda>p. None) ?s"
    using fresh_master by (simp add: then_inv_def then_spec_def adopted_by_def)
  let ?first = "case out of None \<Rightarrow> Some ?s | Some (b, this, args, r) \<Rightarrow> forward fs (Some b) this args r ?s"
  have first: "(case ?first of None \<Rightarrow> None
      | Some s1 \<Rightarrow> (case prog of None \<Rightarrow> Some s1 | Some (this, args, r) \<Rightarrow> forward fs None this args r s1)) = Some s"
    using called(1) by (simp add: jq_then_def Let_def)
  then obtain s1 where s1: "?first = Some s1" by (cases ?first) simp_all
  have "then_inv fs out (\<lambda>p. None) s1"
  proof (cases out)
    case (Some x)
    then show ?thesis using s1 inv_parent_settled [OF start, of "fst x" "fst (snd x)" "fst (snd (snd x))" "snd (snd (snd x))"]
      by (cases x) auto
  qed (use start s1 in auto)
  note i1 = this
  show ?case
  proof (cases prog)
    case None
    then show ?thesis using i1 first unfolding s1 by simp
  next
    case (Some x)
    obtain this args r where x: "prog = Some (this, args, r)" using Some by (cases x) auto
    then have "forward fs None this args r s1 = Some s" "plain_ret r" using first called(2) unfolding s1 by simp_all
    then show ?thesis using inv_parent_progress [OF i1, of r this args] by simp
  qed
next
  case (happens es s e)
  then have i: "then_inv fs (parent_outcome out es) (\<lambda>p. settled_later p es) s" by simp
  have later: "p \<notin> set (adopted s) \<Longrightarrow> settled_later p es = None" for p using later_adopted [OF happens(1)] by blast
  show ?case
  proof (cases e)
    case (Parent_settled x)
    then show ?thesis using i happens(2) inv_parent_settled [of fs "\<lambda>p. settled_later p es" s] later by (cases x) simp
  next
    case (Parent_progress this args r)
    then show ?thesis using inv_parent_progress [OF i] happens.prems(2) by simp
  next
    case (Adopted_settled p b c args)
    moreover have "(\<lambda>q. settled_later q (Adopted_settled p b c args # es)) = (\<lambda>q. settled_later q es)(p \<mapsto> (b, c, args))" by auto
    ultimately show ?thesis using inv_adopted_settled [OF i] happens(2) by simp
  next
    case (Adopted_progress p c args)
    then show ?thesis using i notified [of "newDefer s"] by (simp add: then_inv_def)
  next
    case (On_new d)
    then show ?thesis using i happens(2) reachable_event [of "newDefer s" d] by (simp add: then_inv_def)
  qed
qed

text \<open>
  C15. The new object of \<open>then\<close> does what the functions say. Over any order in which the parent and the
  promises that the functions return are settled or make progress, before or after the call, and
  whatever listeners are added meanwhile: it is pending as long as the parent is; without a function
  for the parent's outcome it takes over outcome, context and arguments; a value that is returned takes the place of the
  arguments, and the outcome stays, also a rejection; a promise that is returned takes over with its
  outcome; when the function raises an error the object is pending for good. Every listener that is called is
  called with this outcome. The function for progress is taken to return values.
\<close>

theorem then_settles:
  assumes "then_run fs out prog es s" and "\<forall>this args r. prog = Some (this, args, r) \<longrightarrow> plain_ret r" and "list_all plain_progress es"
  shows "dfd_outcome (newDefer s) = then_spec fs (parent_outcome out es) (\<lambda>p. settled_later p es) \<and>
    (\<forall>b. \<forall>p \<in> set (user_calls b (newDefer s)). then_spec fs (parent_outcome out es) (\<lambda>p. settled_later p es) = Some (b, snd p))"
  using then_run_inv [OF assms] calls_have_outcome [of "newDefer s"] by (auto simp: then_inv_def)

theorem then_settles_witness:
  "\<exists>s :: (nat, nat, nat) chained.
    then_run \<lparr>fnDone = True, fnFail = False, fnProgress = False\<rparr> None None [Adopted_settled 3 False 8 [9], Parent_settled (True, Self, [5], Promised 3 None None)] s \<and>
    dfd_outcome (newDefer s) = Some (False, Other 8, [9])"
proof -
  let ?fs = "\<lparr>fnDone = True, fnFail = False, fnProgress = False\<rparr>"
  let ?s0 = "\<lparr>newDefer = Deferred, adopted = []\<rparr> :: (nat, nat, nat) chained"
  let ?e1 = "Parent_settled (True, Self, [5], Promised 3 None None) :: (nat, nat, nat) t_event"
  let ?e2 = "Adopted_settled 3 False 8 [9] :: (nat, nat, nat) t_event"
  have "then_run ?fs None None [] ?s0" by (rule then_run.called) (simp add: jq_then_def)
  from then_run.happens [OF this, of ?e1] have "then_run ?fs None None [?e1] (t_step ?fs ?e1 ?s0)" by simp
  moreover have "3 \<in> set (adopted (t_step ?fs ?e1 ?s0))" by (simp add: forward_def has_fn_def adopt_def)
  ultimately have r: "then_run ?fs None None [?e2, ?e1] (t_step ?fs ?e2 (t_step ?fs ?e1 ?s0))"
    using then_run.happens [of ?fs None None "[?e1]" "t_step ?fs ?e1 ?s0" ?e2] by simp
  from r then_settles [OF r] show ?thesis by (intro exI conjI) (auto simp: then_spec_def)
qed

text \<open>
  A function for progress that returns a promise hands the new object over to it: the promise settles
  the new object while the parent is still pending.
\<close>

lemma progress_promise_settles:
  assumes "fnProgress fs" and "then_run fs None None [] s"
  shows "dfd_outcome (newDefer (t_step fs (Parent_progress this args (Promised p (Some (b, c, vs)) None)) s)) = Some (b, Other c, vs)"
proof -
  have "reachable (newDefer s)" "dfd_outcome (newDefer s) = None"
    using then_run_inv [OF assms(2)] by (simp_all add: then_inv_def then_spec_def)
  from dfd.decides [OF this] show ?thesis using assms(1) by (simp add: forward_def has_fn_def adopt_def Let_def)
qed

end
