(* ===== verification/UI_Date.thy ===== *)
theory UI_Date
  imports Prelude
begin

text \<open>
  Dates as text: \<open>formatDate\<close>, \<open>parseDate\<close> and \<open>_possibleChars\<close> of the date picker of
  \<open>plugins/jquery-ui/jquery-ui.js\<close>, with which the pages read and write the time range of a packet
  search. A local date is its year, month (from 0) and day; \<open>make_date\<close> is \<open>new Date(y, m, d)\<close> with
  its carrying over. The theorems: what \<open>formatDate\<close> writes \<open>parseDate\<close> reads back, for every format
  that says enough; and which characters the picker lets the user type.
\<close>

subsection \<open>The calendar\<close>

type_synonym cal = "int \<times> int \<times> int"

definition leap :: "int \<Rightarrow> bool" where
  "leap y \<longleftrightarrow> y mod 4 = 0 \<and> y mod 100 \<noteq> 0 \<or> y mod 400 = 0"

definition month_days :: "int \<Rightarrow> int \<Rightarrow> int" where
  "month_days y m = (if m = 1 then (if leap y then 29 else 28) else if m \<in> {3, 5, 8, 10} then 30 else 31)"

lemma month_days_bounds: "28 \<le> month_days y m" "month_days y m \<le> 31"
  by (simp_all add: month_days_def)

text \<open>Days that are out of range carry over into the months around.\<close>

function carry_days :: "int \<Rightarrow> int \<Rightarrow> int \<Rightarrow> cal" where
  "carry_days y m d =
     (if d < 1 then (let y' = (if m = 0 then y - 1 else y); m' = (if m = 0 then 11 else m - 1) in carry_days y' m' (d + month_days y' m'))
      else if d > month_days y m
      then (if m = 11 then carry_days (y + 1) 0 (d - month_days y m) else carry_days y (m + 1) (d - month_days y m))
      else (y, m, d))"
  by pat_completeness auto

termination
proof (relation "measure (\<lambda>(y, m, d). if d < 1 then nat (2 - d) else if d > month_days y m then nat d else 0)", goal_cases)
  case (2 y m d y' m')
  then show ?case using month_days_bounds(1) [of y' m'] by auto
next
  case (3 y m d)
  then show ?case using month_days_bounds(1) [of y m] by auto
next
  case (4 y m d)
  then show ?case using month_days_bounds(1) [of y m] by auto
qed simp

declare carry_days.simps [simp del]

text \<open>\<open>new Date(y, m, d)\<close>: years from 0 to 99 are taken as 1900 to 1999.\<close>

definition make_date :: "int \<Rightarrow> int \<Rightarrow> int \<Rightarrow> cal" where
  "make_date y m d = (let y' = (if 0 \<le> y \<and> y \<le> 99 then 1900 + y else y) in carry_days (y' + m div 12) (m mod 12) d)"

definition valid_date :: "cal \<Rightarrow> bool" where
  "valid_date = (\<lambda>(y, m, d). 0 \<le> m \<and> m \<le> 11 \<and> 1 \<le> d \<and> d \<le> month_days y m)"

lemma carry_valid: "valid_date (y, m, d) \<Longrightarrow> carry_days y m d = (y, m, d)"
  by (subst carry_days.simps) (simp add: valid_date_def)

lemma make_date_valid: "valid_date (y, m, d) \<Longrightarrow> \<not> (0 \<le> y \<and> y \<le> 99) \<Longrightarrow> make_date y m d = (y, m, d)"
  by (auto simp: make_date_def Let_def valid_date_def carry_valid)

text \<open>Whatever is asked for, a date of the calendar comes out.\<close>

lemma carry_days_valid: "0 \<le> m \<Longrightarrow> m \<le> 11 \<Longrightarrow> valid_date (carry_days y m d)"
proof (induction y m d rule: carry_days.induct)
  case (1 y m d)
  show ?case using 1 by (subst carry_days.simps) (auto simp: valid_date_def Let_def)
qed

lemma make_date_is_valid: "valid_date (make_date y m d)"
  by (simp add: make_date_def Let_def carry_days_valid)

text \<open>\<open>_getDaysInMonth\<close>: the 32nd of a month is so many days into the next.\<close>

definition getDaysInMonth :: "int \<Rightarrow> int \<Rightarrow> int" where
  "getDaysInMonth y m = 32 - snd (snd (make_date y m 32))"

lemma carry_32:
  assumes "0 \<le> m" and "m \<le> 11"
  shows "snd (snd (carry_days y m 32)) = 32 - month_days y m"
proof -
  have n: "\<not> (32::int) < 1" "month_days y m < 32" using month_days_bounds(2) [of y m] by auto
  have v: "valid_date (y', m', 32 - month_days y m)" if "0 \<le> m'" "m' \<le> 11" for y' m'
    using month_days_bounds [of y m] month_days_bounds(1) [of y' m'] that by (simp add: valid_date_def)
  show ?thesis
    using n assms v [of 0 "y + 1"] v [of "m + 1" y] by (subst carry_days.simps) (auto simp: carry_valid)
qed

lemma getDaysInMonth_eq: "\<not> (0 \<le> y \<and> y \<le> 99) \<Longrightarrow> getDaysInMonth y m = month_days (y + m div 12) (m mod 12)"
  using carry_32 [of "m mod 12" "y + m div 12"] pos_mod_bound [of 12 m] by (auto simp: getDaysInMonth_def make_date_def Let_def)

lemma getDaysInMonth_pos: "28 \<le> getDaysInMonth y m" "getDaysInMonth y m \<le> 31"
proof -
  have "\<exists>y' m'. getDaysInMonth y m = month_days y' m'"
    using carry_32 [of "m mod 12"] pos_mod_bound [of 12 m] by (auto simp: getDaysInMonth_def make_date_def Let_def)
  then show "28 \<le> getDaysInMonth y m" "getDaysInMonth y m \<le> 31" using month_days_bounds by auto
qed

text \<open>Days are counted from a fixed day; \<open>year_start n\<close> days lie before the end of year \<open>n\<close>; 1 January 1970 was a Thursday.\<close>

definition month_start :: "int \<Rightarrow> int \<Rightarrow> int" where
  "month_start y m = (\<Sum>i \<leftarrow> [0..m - 1]. month_days y i)"

definition year_start :: "int \<Rightarrow> int" where
  "year_start n = 365 * n + n div 4 - n div 100 + n div 400"

definition day_number :: "cal \<Rightarrow> int" where
  "day_number = (\<lambda>(y, m, d). year_start (y - 1) + month_start y m + d)"

definition week_day :: "cal \<Rightarrow> int" where
  "week_day c = (day_number c - day_number (1970, 0, 1) + 4) mod 7"

subsection \<open>Formats\<close>

text \<open>
  The loop over a format: which directive stands where. The flag of a directive says that its
  letter is doubled (\<open>lookAhead\<close>). \<open>parseDate\<close> also looks ahead after \<open>@\<close> and \<open>!\<close>, \<open>formatDate\<close> does not:
  the flag \<open>st\<close>. \<open>lit\<close> says that the loop is inside quotes.
\<close>

datatype directive =
    Day bool | Day_name bool | Day_of_year bool | Month bool | Month_name bool | Year bool | Stamp | Ticks | Literal nat

definition doubled :: "nat \<Rightarrow> ustr \<Rightarrow> bool" where
  "doubled c fs \<longleftrightarrow> fs \<noteq> [] \<and> hd fs = c"

definition skip :: "nat \<Rightarrow> ustr \<Rightarrow> ustr" where
  "skip c fs = (if doubled c fs then tl fs else fs)"

lemma length_skip: "length (skip c fs) \<le> length fs"
  by (simp add: skip_def)

function directives :: "bool \<Rightarrow> bool \<Rightarrow> ustr \<Rightarrow> directive list" where
  "directives st lit [] = []"
| "directives st lit (c # fs) =
     (if lit
      then (if c = 39 \<and> \<not> doubled 39 fs then directives st False fs
            else if c = 39 then Literal 39 # directives st True (skip 39 fs)
            else Literal c # directives st True fs)
      else if c = 100 then Day (doubled c fs) # directives st False (skip c fs)
      else if c = 68 then Day_name (doubled c fs) # directives st False (skip c fs)
      else if c = 111 then Day_of_year (doubled c fs) # directives st False (skip c fs)
      else if c = 109 then Month (doubled c fs) # directives st False (skip c fs)
      else if c = 77 then Month_name (doubled c fs) # directives st False (skip c fs)
      else if c = 121 then Year (doubled c fs) # directives st False (skip c fs)
      else if c = 64 then Stamp # directives st False (if st then skip c fs else fs)
      else if c = 33 then Ticks # directives st False (if st then skip c fs else fs)
      else if c = 39 then (if doubled 39 fs then Literal 39 # directives st False (skip 39 fs) else directives st True fs)
      else Literal c # directives st False fs)"
  by pat_completeness auto

termination
  by (relation "measure (\<lambda>(st, lit, fs). length fs)") (auto simp: le_imp_less_Suc length_skip)

datatype cutoff = Cutoff_number int | Cutoff_text ustr

record date_env =
  dayNamesShort :: "ustr list"
  dayNames :: "ustr list"
  monthNamesShort :: "ustr list"
  monthNames :: "ustr list"
  shortYearCutoff :: cutoff
  now_year :: int                    \<comment> \<open>the current year\<close>
  lc :: "nat \<Rightarrow> nat"                 \<comment> \<open>\<open>toLowerCase\<close>, letter by letter\<close>
  get_time :: "cal \<Rightarrow> int"           \<comment> \<open>\<open>getTime\<close> of a date in the local zone\<close>
  from_time :: "int \<Rightarrow> cal"

definition ticksTo1970 :: int where
  "ticksTo1970 = ((1970 - 1) * 365 + 1970 div 4 - 1970 div 100 + 1970 div 400) * 24 * 60 * 60 * 10000000"

subsection \<open>formatDate\<close>

definition formatNumber :: "bool \<Rightarrow> int \<Rightarrow> nat \<Rightarrow> ustr" where
  "formatNumber dbl v len = (let num = num_str v in if dbl then replicate (len - length num) 48 @ num else num)"

definition formatName :: "bool \<Rightarrow> int \<Rightarrow> ustr list \<Rightarrow> ustr list \<Rightarrow> ustr" where
  "formatName dbl v short long =
     (let names = (if dbl then long else short) in if 0 \<le> v \<and> nat v < length names then names ! nat v else u ''undefined'')"

definition year_day :: "cal \<Rightarrow> int" where
  "year_day c = day_number c - day_number (make_date (fst c) 0 0)"

fun format_directive :: "date_env \<Rightarrow> cal \<Rightarrow> directive \<Rightarrow> ustr" where
  "format_directive env (y, m, d) (Day b) = formatNumber b d 2"
| "format_directive env (y, m, d) (Day_name b) = formatName b (week_day (y, m, d)) (dayNamesShort env) (dayNames env)"
| "format_directive env (y, m, d) (Day_of_year b) = formatNumber b (year_day (y, m, d)) 3"
| "format_directive env (y, m, d) (Month b) = formatNumber b (m + 1) 2"
| "format_directive env (y, m, d) (Month_name b) = formatName b m (monthNamesShort env) (monthNames env)"
| "format_directive env (y, m, d) (Year b) =
     (if b then num_str y
      else (let yy = js_rem (y - 1900) 100 in (if yy < 10 then [48] else []) @ num_str yy))"
| "format_directive env (y, m, d) Stamp = num_str (get_time env (y, m, d))"
| "format_directive env (y, m, d) Ticks = num_str (get_time env (y, m, d) * 10000 + ticksTo1970)"
| "format_directive env (y, m, d) (Literal c) = [c]"

definition formatDate :: "date_env \<Rightarrow> ustr \<Rightarrow> cal option \<Rightarrow> ustr" where
  "formatDate env format date =
     (case date of None \<Rightarrow> [] | Some c \<Rightarrow> concat (map (format_directive env c) (directives False False format)))"

subsection \<open>parseDate\<close>

datatype date_error =
    Invalid_arguments | Missing_number nat | Unknown_name nat | Unexpected_literal nat | Extra_characters ustr | Invalid_date

record parse_state =
  iValue :: nat
  p_year :: int
  p_month :: int
  p_day :: int
  p_doy :: int

text \<open>\<open>getNumber\<close>: as many digits as the directive takes, at least its minimum.\<close>

definition getNumber :: "nat \<Rightarrow> nat \<Rightarrow> ustr \<Rightarrow> nat \<Rightarrow> date_error + (int \<times> nat)" where
  "getNumber minSize sz value i =
     (let num = takeWhile is_digit (take sz (drop i value)) in
      if length num < minSize then Inl (Missing_number i) else Inr (int (nat_of_digits 0 num), i + length num))"

text \<open>\<open>getName\<close>: the longest names are tried first.\<close>

fun first_name :: "(nat \<Rightarrow> nat) \<Rightarrow> ustr \<Rightarrow> (nat \<times> ustr) list \<Rightarrow> (nat \<times> ustr) option" where
  "first_name low s [] = None"
| "first_name low s ((k, name) # ns) = (if map low (take (length name) s) = map low name then Some (k, name) else first_name low s ns)"

definition by_length :: "ustr list \<Rightarrow> (nat \<times> ustr) list" where
  "by_length names = sort_key (\<lambda>(k, name). - int (length name)) (enumerate 0 names)"

definition getName :: "(nat \<Rightarrow> nat) \<Rightarrow> ustr list \<Rightarrow> ustr \<Rightarrow> nat \<Rightarrow> date_error + (int \<times> nat)" where
  "getName low names value i =
     (case first_name low (drop i value) (by_length names) of
        None \<Rightarrow> Inl (Unknown_name i)
      | Some (k, name) \<Rightarrow> Inr (int k + 1, i + length name))"

definition tdiv :: "int \<Rightarrow> int \<Rightarrow> int" where
  "tdiv a b = (if a < 0 then - ((- a) div b) else a div b)"

definition set_from_time :: "cal \<Rightarrow> parse_state \<Rightarrow> parse_state" where
  "set_from_time = (\<lambda>(y, m, d) st. st\<lparr>p_year := y, p_month := m + 1, p_day := d\<rparr>)"

definition with_number :: "date_error + (int \<times> nat) \<Rightarrow> (int \<Rightarrow> parse_state \<Rightarrow> parse_state) \<Rightarrow> parse_state \<Rightarrow> date_error + parse_state" where
  "with_number r f st = (case r of Inl e \<Rightarrow> Inl e | Inr (n, i) \<Rightarrow> Inr (f n (st\<lparr>iValue := i\<rparr>)))"

fun parse_directive :: "date_env \<Rightarrow> ustr \<Rightarrow> directive \<Rightarrow> parse_state \<Rightarrow> date_error + parse_state" where
  "parse_directive env value (Day b) st = with_number (getNumber 1 2 value (iValue st)) (\<lambda>n. p_day_update (\<lambda>_. n)) st"
| "parse_directive env value (Day_name b) st =
     with_number (getName (lc env) (if b then dayNames env else dayNamesShort env) value (iValue st)) (\<lambda>n st. st) st"
| "parse_directive env value (Day_of_year b) st = with_number (getNumber 1 3 value (iValue st)) (\<lambda>n. p_doy_update (\<lambda>_. n)) st"
| "parse_directive env value (Month b) st = with_number (getNumber 1 2 value (iValue st)) (\<lambda>n. p_month_update (\<lambda>_. n)) st"
| "parse_directive env value (Month_name b) st =
     with_number (getName (lc env) (if b then monthNames env else monthNamesShort env) value (iValue st)) (\<lambda>n. p_month_update (\<lambda>_. n)) st"
| "parse_directive env value (Year b) st =
     (let sz = (if b then 4 else 2) in with_number (getNumber sz sz value (iValue st)) (\<lambda>n. p_year_update (\<lambda>_. n)) st)"
| "parse_directive env value Stamp st = with_number (getNumber 1 14 value (iValue st)) (\<lambda>n. set_from_time (from_time env n)) st"
| "parse_directive env value Ticks st =
     with_number (getNumber 1 20 value (iValue st)) (\<lambda>n. set_from_time (from_time env (tdiv (n - ticksTo1970) 10000))) st"
| "parse_directive env value (Literal c) st =
     (if iValue st < length value \<and> value ! iValue st = c then Inr (st\<lparr>iValue := iValue st + 1\<rparr>) else Inl (Unexpected_literal (iValue st)))"

fun parse_directives :: "date_env \<Rightarrow> ustr \<Rightarrow> directive list \<Rightarrow> parse_state \<Rightarrow> date_error + parse_state" where
  "parse_directives env value [] st = Inr st"
| "parse_directives env value (x # xs) st =
     (case parse_directive env value x st of Inl e \<Rightarrow> Inl e | Inr st' \<Rightarrow> parse_directives env value xs st')"

definition cutoff_year :: "date_env \<Rightarrow> int option" where
  "cutoff_year env = (case shortYearCutoff env of Cutoff_number n \<Rightarrow> Some n
     | Cutoff_text s \<Rightarrow> map_option (\<lambda>n. now_year env mod 100 + n) (parseInt10 s))"

definition full_year :: "date_env \<Rightarrow> int \<Rightarrow> int" where
  "full_year env y =
     (if y = -1 then now_year env
      else if y < 100 then y + now_year env - now_year env mod 100 + (case cutoff_year env of Some c \<Rightarrow> if y \<le> c then 0 else -100 | None \<Rightarrow> -100)
      else y)"

text \<open>The loop that turns a day of the year into month and day.\<close>

function find_month :: "int \<Rightarrow> int \<Rightarrow> int \<Rightarrow> int \<times> int" where
  "find_month y m d = (if d \<le> getDaysInMonth y (m - 1) then (m, d) else find_month y (m + 1) (d - getDaysInMonth y (m - 1)))"
  by pat_completeness auto

termination
proof (relation "measure (\<lambda>(y, m, d). nat d)", goal_cases)
  case (2 y m d)
  then show ?case using getDaysInMonth_pos(1) [of y "m - 1"] by auto
qed simp

declare find_month.simps [simp del]

definition parseDate :: "date_env \<Rightarrow> ustr option \<Rightarrow> ustr option \<Rightarrow> date_error + cal option" where
  "parseDate env format value =
     (case (format, value) of
        (Some format, Some value) \<Rightarrow>
          if value = [] then Inr None
          else (case parse_directives env value (directives True False format) \<lparr>iValue = 0, p_year = -1, p_month = -1, p_day = -1, p_doy = -1\<rparr> of
              Inl e \<Rightarrow> Inl e
            | Inr st \<Rightarrow>
                if iValue st < length value \<and> \<not> js_ws (value ! iValue st) then Inl (Extra_characters (drop (iValue st) value))
                else (let year = full_year env (p_year st);
                          (month, day) = (if p_doy st > -1 then find_month year 1 (p_doy st) else (p_month st, p_day st));
                          date = make_date year (month - 1) day in
                      if date \<noteq> (year, month - 1, day) then Inl Invalid_date else Inr (Some date)))
      | _ \<Rightarrow> Inl Invalid_arguments)"

subsection \<open>The characters a user may type\<close>

function possibleChars :: "bool \<Rightarrow> ustr \<Rightarrow> ustr option" where
  "possibleChars lit [] = Some []"
| "possibleChars lit (c # fs) =
     (if lit
      then (if c = 39 \<and> \<not> doubled 39 fs then possibleChars False fs
            else if c = 39 then map_option ((#) 39) (possibleChars True (skip 39 fs))
            else map_option ((#) c) (possibleChars True fs))
      else if c \<in> {100, 109, 121, 64} then map_option ((@) (u ''0123456789'')) (possibleChars False fs)
      else if c \<in> {68, 77} then None
      else if c = 39 then (if doubled 39 fs then map_option ((#) 39) (possibleChars False (skip 39 fs)) else possibleChars True fs)
      else map_option ((#) c) (possibleChars False fs))"
  by pat_completeness auto

termination
  by (relation "measure (\<lambda>(lit, fs). length fs)") (auto simp: le_imp_less_Suc length_skip)

subsection \<open>Numbers that are read back\<close>

lemma digits_of_length: "n < 10 \<Longrightarrow> length (digits_of n) = 1" "10 \<le> n \<Longrightarrow> n < 100 \<Longrightarrow> length (digits_of n) = 2"
  "100 \<le> n \<Longrightarrow> n < 1000 \<Longrightarrow> length (digits_of n) = 3" "1000 \<le> n \<Longrightarrow> n < 10000 \<Longrightarrow> length (digits_of n) = 4"
  by (simp_all add: digits_of_small digits_of_big)

lemma nat_of_digits_zeros: "nat_of_digits 0 (replicate k 48 @ ds) = nat_of_digits 0 ds"
  by (induction k) simp_all

text \<open>A text of digits that a directive of the given sizes reads as \<open>v\<close>, if \<open>rest\<close> follows.\<close>

definition reads_as :: "nat \<Rightarrow> nat \<Rightarrow> ustr \<Rightarrow> ustr \<Rightarrow> int \<Rightarrow> bool" where
  "reads_as mn sz out rest v \<longleftrightarrow> (\<forall>c \<in> set out. is_digit c) \<and> int (nat_of_digits 0 out) = v \<and> mn \<le> length out \<and> length out \<le> sz \<and>
     (length out = sz \<or> rest = [] \<or> \<not> is_digit (hd rest))"

lemma getNumber_reads:
  assumes "reads_as mn sz out rest v"
  shows "getNumber mn sz (pre @ out @ rest) (length pre) = Inr (v, length pre + length out)"
proof -
  have "takeWhile is_digit (take sz (out @ rest)) = out"
  proof (cases "length out = sz")
    case False
    then obtain k where "sz = length out + k" "rest = [] \<or> \<not> is_digit (hd (take k rest)) \<or> take k rest = []"
      using assms by (cases rest; cases "sz - length out") (auto simp: reads_as_def intro: le_add_diff_inverse [symmetric])
    then show ?thesis using assms by (cases "take k rest") (auto simp: reads_as_def takeWhile_append2)
  qed (use assms in \<open>auto simp: reads_as_def takeWhile_eq_all_conv\<close>)
  then show ?thesis using assms by (simp add: getNumber_def reads_as_def Let_def)
qed

lemma num_str_nonneg: "0 \<le> v \<Longrightarrow> num_str v = digits_of (nat v)"
  by (simp add: num_str_def)

lemma formatNumber_reads:
  assumes "0 \<le> v" and "v < 10 ^ sz" and "length (digits_of (nat v)) \<le> sz" and "b \<or> rest = [] \<or> \<not> is_digit (hd rest)"
  shows "reads_as 1 sz (formatNumber b v sz) rest v"
proof -
  have "is_digit 48" by (simp add: is_digit_def)
  moreover have "1 \<le> length (digits_of (nat v))" by (simp add: Suc_le_eq)
  ultimately show ?thesis using assms digits_of_digit [of _ "nat v"]
    by (auto simp: reads_as_def formatNumber_def num_str_nonneg Let_def nat_of_digits_zeros nat_of_digits_of)
qed

lemma year_reads:
  assumes "1000 \<le> y" and "y \<le> 9999"
  shows "reads_as 4 4 (num_str y) rest y"
  using assms digits_of_length(4) [of "nat y"] digits_of_digit [of _ "nat y"]
  by (auto simp: reads_as_def num_str_nonneg nat_of_digits_of)

lemma short_year_reads:
  assumes "0 \<le> v" and "v < 100"
  shows "reads_as 2 2 ((if v < 10 then [48] else []) @ num_str v) rest v"
proof -
  have "is_digit 48" by (simp add: is_digit_def)
  then show ?thesis using assms digits_of_length(1,2) [of "nat v"] digits_of_digit [of _ "nat v"]
    by (auto simp: reads_as_def num_str_nonneg nat_of_digits_of)
qed

subsection \<open>Names that are read back\<close>

definition distinguishable :: "(nat \<Rightarrow> nat) \<Rightarrow> ustr list \<Rightarrow> bool" where
  "distinguishable low names \<longleftrightarrow>
     (\<forall>i < length names. \<forall>j < length names. i \<noteq> j \<longrightarrow> \<not> prefix (map low (names ! i)) (map low (names ! j)))"

lemma first_name_only:
  assumes "(k, n) \<in> set ns" and "map low (take (length n) s) = map low n"
    and "\<And>j m. (j, m) \<in> set ns \<Longrightarrow> map low (take (length m) s) = map low m \<Longrightarrow> (j, m) = (k, n)"
  shows "first_name low s ns = Some (k, n)"
  using assms
proof (induction ns)
  case (Cons x ns)
  obtain j m where x: "x = (j, m)" by (cases x)
  show ?case
  proof (cases "map low (take (length m) s) = map low m")
    case True
    then show ?thesis using Cons.prems(3) [of j m] x by simp
  next
    case False
    then have "(k, n) \<in> set ns" using Cons.prems(1,2) x by auto
    then have "first_name low s ns = Some (k, n)"
      by (rule Cons.IH [OF _ Cons.prems(2)]) (rule Cons.prems(3), rule list.set_intros(2))
    then show ?thesis using False x by simp
  qed
qed simp

lemma getName_reads:
  assumes "distinguishable low names" and "i < length names"
  shows "getName low names (pre @ (names ! i) @ rest) (length pre) = Inr (int i + 1, length pre + length (names ! i))"
proof -
  have s: "set (by_length names) = {(k, names ! k) | k. k < length names}" by (auto simp: by_length_def in_set_enumerate_eq)
  have only: "(j, m) = (i, names ! i)"
    if "(j, m) \<in> set (by_length names)" "map low (take (length m) (names ! i @ rest)) = map low m" for j m
  proof -
    have j: "j < length names" "m = names ! j" using that(1) s by auto
    have "prefix (map low m) (map low (names ! i)) \<or> prefix (map low (names ! i)) (map low m)"
    proof (cases "length m \<le> length (names ! i)")
      case True
      then have "map low m = take (length m) (map low (names ! i))" using that(2) by (simp add: take_map)
      then show ?thesis using take_is_prefix by metis
    next
      case False
      then show ?thesis using that(2) by (simp flip: that(2))
    qed
    then have "j = i" using assms j by (auto simp: distinguishable_def)
    then show ?thesis using j by simp
  qed
  have "first_name low (names ! i @ rest) (by_length names) = Some (i, names ! i)"
    by (rule first_name_only) (use only assms(2) s in auto)
  then show ?thesis by (simp add: getName_def)
qed

subsection \<open>Days of the year\<close>

lemma month_start_next: "0 \<le> m \<Longrightarrow> month_start y (m + 1) = month_start y m + month_days y m"
  by (simp add: month_start_def upto_rec2)

lemma month_start_0 [simp]: "month_start y 0 = 0"
  by (simp add: month_start_def)

lemma month_range:
  assumes "(0::int) \<le> m" and "m \<le> 11"
  shows "m = 0 \<or> m = 1 \<or> m = 2 \<or> m = 3 \<or> m = 4 \<or> m = 5 \<or> m = 6 \<or> m = 7 \<or> m = 8 \<or> m = 9 \<or> m = 10 \<or> m = 11"
  using assms by presburger

lemma month_start_table:
  assumes "0 \<le> m" and "m \<le> 11"
  shows "month_start y m = 31 * m - (if m > 1 then (if leap y then 2 else 3) else 0) - (if m > 3 then 1 else 0) - (if m > 5 then 1 else 0) -
    (if m > 8 then 1 else 0) - (if m > 10 then 1 else 0)"
  using month_range [OF assms] by (elim disjE) (simp_all add: month_start_def upto.simps month_days_def)

lemma year_day_bounds: "valid_date (y, m, d) \<Longrightarrow> 1 \<le> month_start y m + d \<and> month_start y m + d \<le> 366"
  by (auto simp: valid_date_def month_start_table month_days_def split: if_splits)

lemma div_step:
  assumes "0 < (k::int)"
  shows "n div k = (n - 1) div k + (if n mod k = 0 then 1 else 0)"
proof (cases "n mod k = 0")
  case True
  then have "n - 1 = k * (n div k - 1) + (k - 1)" using mult_div_mod_eq [of k n] by (simp add: algebra_simps)
  then have "(n - 1) div k = n div k - 1" by (rule int_div_pos_eq) (use assms in auto)
  then show ?thesis using True by simp
next
  case False
  have r: "0 \<le> n mod k - 1" "n mod k - 1 < k" using False pos_mod_sign [OF assms, of n] pos_mod_bound [OF assms, of n] by linarith+
  have "n - 1 = k * (n div k) + (n mod k - 1)" by simp
  then have "(n - 1) div k = n div k" using r by (rule int_div_pos_eq)
  then show ?thesis using False by simp
qed

lemma leap_count:
  "(if n mod 4 = 0 then 1 else 0) - (if n mod 100 = 0 then 1 else 0) + (if n mod 400 = 0 then 1 else 0) = (if leap n then 1 else (0::int))"
proof -
  have "n mod 100 mod 4 = n mod 4" "n mod 400 mod 100 = n mod 100" by (rule mod_mod_cancel; simp)+
  then have "n mod 100 = 0 \<longrightarrow> n mod 4 = 0" "n mod 400 = 0 \<longrightarrow> n mod 100 = 0" by auto
  then show ?thesis unfolding leap_def by (cases "n mod 4 = 0"; cases "n mod 100 = 0"; cases "n mod 400 = 0"; simp only: simp_thms if_True if_False; simp)
qed

lemma year_length: "year_start n - year_start (n - 1) = (if leap n then 366 else 365)"
proof -
  have "year_start n = 365 * n + ((n - 1) div 4 + (if n mod 4 = 0 then 1 else 0)) - ((n - 1) div 100 + (if n mod 100 = 0 then 1 else 0)) +
    ((n - 1) div 400 + (if n mod 400 = 0 then 1 else 0))"
    unfolding year_start_def using div_step [of 4 n] div_step [of 100 n] div_step [of 400 n] by (simp only:)
  also have "\<dots> = year_start (n - 1) + 365 + ((if n mod 4 = 0 then 1 else 0) - (if n mod 100 = 0 then 1 else 0) + (if n mod 400 = 0 then 1 else 0))"
    unfolding year_start_def by (simp only: algebra_simps)
  also have "\<dots> = year_start (n - 1) + 365 + (if leap n then 1 else 0)" by (simp only: leap_count)
  finally show ?thesis by simp
qed

lemma year_day_eq:
  assumes "100 \<le> y"
  shows "year_day (y, m, d) = month_start y m + d"
proof -
  have "carry_days y 0 0 = carry_days (y - 1) 11 31" by (subst carry_days.simps) (simp add: month_days_def)
  also have "\<dots> = (y - 1, 11, 31)" by (rule carry_valid) (simp add: valid_date_def month_days_def)
  finally have "make_date y 0 0 = (y - 1, 11, 31)" using assms by (simp add: make_date_def)
  moreover have "month_start (y - 1) 11 + 31 = (if leap (y - 1) then 366 else 365)" by (simp add: month_start_table)
  ultimately show ?thesis using year_length [of "y - 1"] by (auto simp: year_day_def day_number_def)
qed

lemma find_month_from:
  assumes "100 \<le> y" and "valid_date (y, m, d)" and "0 \<le> k" and "k \<le> m"
  shows "find_month y (m - k + 1) (month_start y m - month_start y (m - k) + d) = (m + 1, d)"
  using assms(3,4)
proof (induction k rule: int_ge_induct)
  case base
  have "getDaysInMonth y m = month_days y m" using assms(1,2) by (simp add: getDaysInMonth_eq valid_date_def)
  then show ?case using assms(2) by (simp add: find_month.simps valid_date_def)
next
  case (step k)
  let ?m = "m - (k + 1)"
  have m: "0 \<le> ?m" "?m \<le> 11" "?m + 1 = m - k" using step assms(2) by (auto simp: valid_date_def)
  have g: "getDaysInMonth y ?m = month_days y ?m" using assms(1) m by (simp add: getDaysInMonth_eq)
  have s: "month_start y (m - k) = month_start y ?m + month_days y ?m" using month_start_next [OF m(1), of y] m(3) by simp
  have le: "month_start y (m - k) \<le> month_start y m"
    using step assms(2) by (auto simp: month_start_table valid_date_def)
  have "find_month y (?m + 1) (month_start y m - month_start y ?m + d) = find_month y (m - k + 1) (month_start y m - month_start y (m - k) + d)"
    using le assms(2) g s m(3) by (subst find_month.simps) (auto simp: valid_date_def algebra_simps)
  then show ?case using step by simp
qed

lemma find_month_year_day:
  assumes "100 \<le> y" and "valid_date (y, m, d)"
  shows "find_month y 1 (year_day (y, m, d)) = (m + 1, d)"
  using find_month_from [OF assms, of m] assms(2) year_day_eq [OF assms(1)] by (simp add: valid_date_def)

subsection \<open>What is written is read back\<close>

text \<open>
  Which directives can be read back at all: names must be told apart by their beginnings, a year
  must have four digits, or two from which the century follows. A number without leading zeros
  has to be followed by something that is not a digit.
\<close>

fun readable :: "date_env \<Rightarrow> int \<Rightarrow> directive \<Rightarrow> bool" where
  "readable env y (Day_name b) \<longleftrightarrow>
     (let names = (if b then dayNames env else dayNamesShort env) in length names = 7 \<and> distinguishable (lc env) names)"
| "readable env y (Month_name b) \<longleftrightarrow>
     (let names = (if b then monthNames env else monthNamesShort env) in length names = 12 \<and> distinguishable (lc env) names)"
| "readable env y (Year b) \<longleftrightarrow> (if b then 1000 \<le> y \<and> y \<le> 9999 else 1900 \<le> y \<and> full_year env (y mod 100) = y)"
| "readable env y Stamp \<longleftrightarrow> False"
| "readable env y Ticks \<longleftrightarrow> False"
| "readable env y x \<longleftrightarrow> True"

fun open_ended :: "directive \<Rightarrow> bool" where
  "open_ended (Day b) = (\<not> b)"
| "open_ended (Day_of_year b) = (\<not> b)"
| "open_ended (Month b) = (\<not> b)"
| "open_ended x = False"

fun separated :: "directive list \<Rightarrow> bool" where
  "separated [] = True"
| "separated [x] = True"
| "separated (x # y # xs) = ((open_ended x \<longrightarrow> (case y of Literal c \<Rightarrow> \<not> is_digit c | _ \<Rightarrow> False)) \<and> separated (y # xs))"

definition has_year :: "directive list \<Rightarrow> bool" where
  "has_year ds \<longleftrightarrow> (\<exists>b. Year b \<in> set ds)"

definition has_month :: "directive list \<Rightarrow> bool" where
  "has_month ds \<longleftrightarrow> (\<exists>b. Month b \<in> set ds \<or> Month_name b \<in> set ds)"

definition has_day :: "directive list \<Rightarrow> bool" where
  "has_day ds \<longleftrightarrow> (\<exists>b. Day b \<in> set ds)"

definition has_doy :: "directive list \<Rightarrow> bool" where
  "has_doy ds \<longleftrightarrow> (\<exists>b. Day_of_year b \<in> set ds)"

text \<open>The effect of one directive on the values that are collected.\<close>

definition collects :: "date_env \<Rightarrow> cal \<Rightarrow> directive list \<Rightarrow> parse_state \<Rightarrow> parse_state \<Rightarrow> bool" where
  "collects env c ds st st' \<longleftrightarrow> (case c of (y, m, d) \<Rightarrow>
     (has_year ds \<or> full_year env (p_year st) = y \<longrightarrow> full_year env (p_year st') = y) \<and>
     (has_month ds \<or> p_month st = m + 1 \<longrightarrow> p_month st' = m + 1) \<and> (has_day ds \<or> p_day st = d \<longrightarrow> p_day st' = d) \<and>
     p_doy st' = (if has_doy ds then year_day c else p_doy st))"

lemma parse_one:
  assumes "readable env y x" and "valid_date (y, m, d)" and "100 \<le> y" and "open_ended x \<longrightarrow> rest = [] \<or> \<not> is_digit (hd rest)"
    and "iValue st = length pre"
  shows "\<exists>st'. parse_directive env (pre @ format_directive env (y, m, d) x @ rest) x st = Inr st' \<and>
    iValue st' = length pre + length (format_directive env (y, m, d) x) \<and> collects env (y, m, d) [x] st st'"
proof -
  have v: "0 \<le> m" "m \<le> 11" "1 \<le> d" "d \<le> 31" using assms(2) month_days_bounds(2) [of y m] by (auto simp: valid_date_def)
  have yd: "1 \<le> year_day (y, m, d)" "year_day (y, m, d) \<le> 366" using year_day_bounds [OF assms(2)] year_day_eq [OF assms(3)] by simp_all
  have small: "length (digits_of (nat n)) \<le> 2" if "n < 100" for n using digits_of_length(1,2) [of "nat n"] that by force
  have small3: "length (digits_of (nat n)) \<le> 3" if "n < 1000" for n using digits_of_length(1-3) [of "nat n"] that by force
  note col = collects_def has_year_def has_month_def has_day_def has_doy_def
  show ?thesis
  proof (cases x)
    case (Day b)
    then have "reads_as 1 2 (formatNumber b d 2) rest d" using v small [of d] assms(4) by (intro formatNumber_reads) auto
    from getNumber_reads [OF this, of pre] show ?thesis using Day assms(5) by (simp add: with_number_def col)
  next
    case (Day_name b)
    let ?n = "if b then dayNames env else dayNamesShort env"
    have "0 \<le> week_day (y, m, d)" "week_day (y, m, d) < 7" by (simp_all add: week_day_def)
    then have n: "0 \<le> week_day (y, m, d)" "nat (week_day (y, m, d)) < length ?n" "distinguishable (lc env) ?n"
      using assms(1) Day_name by (auto simp: Let_def)
    from getName_reads [OF n(3,2), of pre rest] show ?thesis using Day_name assms(5) n
      by (auto simp: with_number_def col formatName_def Let_def)
  next
    case (Day_of_year b)
    then have "reads_as 1 3 (formatNumber b (year_day (y, m, d)) 3) rest (year_day (y, m, d))"
      using yd small3 [of "year_day (y, m, d)"] assms(4) by (intro formatNumber_reads) auto
    from getNumber_reads [OF this, of pre] show ?thesis using Day_of_year assms(5) by (simp add: with_number_def col)
  next
    case (Month b)
    then have "reads_as 1 2 (formatNumber b (m + 1) 2) rest (m + 1)" using v small [of "m + 1"] assms(4) by (intro formatNumber_reads) auto
    from getNumber_reads [OF this, of pre] show ?thesis using Month assms(5) by (simp add: with_number_def col)
  next
    case (Month_name b)
    let ?n = "if b then monthNames env else monthNamesShort env"
    have n: "nat m < length ?n" "distinguishable (lc env) ?n" using assms(1) Month_name v by (auto simp: Let_def)
    from getName_reads [OF n(2,1), of pre rest] show ?thesis using Month_name assms(5) n v
      by (auto simp: with_number_def col formatName_def Let_def)
  next
    case (Year b)
    show ?thesis
    proof (cases b)
      case True
      from getNumber_reads [OF year_reads, of y pre rest] show ?thesis using Year True assms(1,5)
        by (simp add: with_number_def col full_year_def Let_def)
    next
      case False
      have "js_rem (y - 1900) 100 = y mod 100" using assms(1) Year False mod_diff_right_eq [of y 1900 100] by (simp add: js_rem_def)
      then show ?thesis using getNumber_reads [OF short_year_reads, of "y mod 100" pre rest] Year False assms(1,5)
        by (simp add: with_number_def col Let_def)
    qed
  qed (use assms(1,5) in \<open>simp_all add: col nth_append\<close>)
qed

lemma collects_trans:
  assumes "collects env c [x] st st1" and "collects env c xs st1 st2"
  shows "collects env c (x # xs) st st2"
proof -
  have "has_year (x # xs) \<longleftrightarrow> has_year [x] \<or> has_year xs" "has_month (x # xs) \<longleftrightarrow> has_month [x] \<or> has_month xs"
    "has_day (x # xs) \<longleftrightarrow> has_day [x] \<or> has_day xs" "has_doy (x # xs) \<longleftrightarrow> has_doy [x] \<or> has_doy xs"
    by (auto simp: has_year_def has_month_def has_day_def has_doy_def)
  then show ?thesis using assms by (auto simp: collects_def split: prod.splits)
qed

lemma separated_rest:
  assumes "separated (x # xs)" and "open_ended x" and "rest = [] \<or> \<not> is_digit (hd rest)"
  shows "concat (map (format_directive env c) xs) @ rest = [] \<or> \<not> is_digit (hd (concat (map (format_directive env c) xs) @ rest))"
proof (cases xs)
  case (Cons z zs)
  then obtain k where "z = Literal k" "\<not> is_digit k" using assms by (auto split: directive.splits)
  then show ?thesis using Cons by (cases c) simp
qed (use assms(3) in simp)

lemma parse_all:
  assumes "\<forall>x \<in> set ds. readable env y x" and "separated ds" and "valid_date (y, m, d)" and "100 \<le> y"
    and "rest = [] \<or> \<not> is_digit (hd rest)" and "iValue st = length pre"
  shows "\<exists>st'. parse_directives env (pre @ concat (map (format_directive env (y, m, d)) ds) @ rest) ds st = Inr st' \<and>
    iValue st' = length pre + length (concat (map (format_directive env (y, m, d)) ds)) \<and> collects env (y, m, d) ds st st'"
  using assms(1,2,6)
proof (induction ds arbitrary: pre st)
  case Nil
  then show ?case by (auto simp: collects_def has_year_def has_month_def has_day_def has_doy_def)
next
  case (Cons x xs)
  let ?o = "format_directive env (y, m, d) x" and ?r = "concat (map (format_directive env (y, m, d)) xs)"
  have sep: "separated xs" using Cons.prems(2) by (cases xs) auto
  have x: "readable env y x" "open_ended x \<longrightarrow> ?r @ rest = [] \<or> \<not> is_digit (hd (?r @ rest))"
    using Cons.prems(1) separated_rest [OF Cons.prems(2) _ assms(5)] by auto
  obtain st1 where 1: "parse_directive env (pre @ ?o @ ?r @ rest) x st = Inr st1" "iValue st1 = length (pre @ ?o)" "collects env (y, m, d) [x] st st1"
    using parse_one [OF x(1) assms(3,4) x(2) Cons.prems(3)] by auto
  obtain st2 where 2: "parse_directives env ((pre @ ?o) @ ?r @ rest) xs st1 = Inr st2" "iValue st2 = length (pre @ ?o) + length ?r"
    "collects env (y, m, d) xs st1 st2" using Cons.IH [OF _ sep 1(2)] Cons.prems(1) by auto
  from collects_trans [OF 1(3) 2(3)] show ?case using 1 2 by simp
qed

lemma directives_without_stamps:
  "Stamp \<notin> set (directives False lit fs) \<Longrightarrow> Ticks \<notin> set (directives False lit fs) \<Longrightarrow> directives True lit fs = directives False lit fs"
proof (induction "length fs" arbitrary: lit fs rule: less_induct)
  case less
  show ?case
  proof (cases fs)
    case (Cons c r)
    have ih: "Stamp \<notin> set (directives False l s) \<Longrightarrow> Ticks \<notin> set (directives False l s) \<Longrightarrow> directives True l s = directives False l s"
      if "s \<in> {r, skip c r, skip 39 r}" for l s
      using less.hyps [of s l] that Cons length_skip [of _ r] by (auto simp: le_imp_less_Suc)
    have plain: "c \<noteq> 64" "c \<noteq> 33" if "\<not> lit" using less.prems Cons that by auto
    show ?thesis
    proof (cases lit)
      case True
      then show ?thesis using less.prems ih [of r] ih [of "skip 39 r"] unfolding Cons by (cases "c = 39"; cases "doubled 39 r") simp_all
    next
      case False
      consider "c = 39" | "c \<in> {100, 68, 111, 109, 77, 121}" | "c \<notin> {39, 100, 68, 111, 109, 77, 121}" by auto
      then show ?thesis
      proof cases
        case 1
        then show ?thesis using less.prems ih [of r True] ih [of "skip 39 r" False] False unfolding Cons by (cases "doubled 39 r") simp_all
      next
        case 2
        then show ?thesis using less.prems ih [of "skip c r" False] False unfolding Cons by auto
      next
        case 3
        then show ?thesis using less.prems ih [of r False] plain False unfolding Cons by simp
      qed
    qed
  qed simp
qed

text \<open>A format from which a date of the year \<open>y\<close> can be read back.\<close>

definition good_format :: "date_env \<Rightarrow> ustr \<Rightarrow> int \<Rightarrow> bool" where
  "good_format env format y \<longleftrightarrow> (let ds = directives False False format in
     (\<forall>x \<in> set ds. readable env y x) \<and> separated ds \<and> has_year ds \<and> (has_doy ds \<or> has_day ds \<and> has_month ds))"

lemma format_directive_year_nonempty: "format_directive env c (Year b) \<noteq> []"
  by (cases c) (simp add: num_str_def Let_def)

text \<open>The date is found at the start of a longer text, and what follows is told as extra unless it starts with white space.\<close>

lemma parse_format_rest:
  assumes "good_format env format y" and "valid_date (y, m, d)" and "100 \<le> y" and "rest = [] \<or> \<not> is_digit (hd rest)"
  shows "parseDate env (Some format) (Some (formatDate env format (Some (y, m, d)) @ rest)) =
    (if rest \<noteq> [] \<and> \<not> js_ws (hd rest) then Inl (Extra_characters rest) else Inr (Some (y, m, d)))"
proof -
  let ?ds = "directives False False format" and ?st = "\<lparr>iValue = 0, p_year = -1, p_month = -1, p_day = -1, p_doy = -1\<rparr>"
  let ?v = "concat (map (format_directive env (y, m, d)) ?ds)"
  have g: "\<forall>x \<in> set ?ds. readable env y x" "separated ?ds" "has_year ?ds" "has_doy ?ds \<or> has_day ?ds \<and> has_month ?ds"
    using assms(1) by (simp_all add: good_format_def Let_def)
  have same: "directives True False format = ?ds" using g(1) by (intro directives_without_stamps) auto
  obtain st where st: "parse_directives env (?v @ rest) ?ds ?st = Inr st" "iValue st = length ?v" "collects env (y, m, d) ?ds ?st st"
    using parse_all [OF g(1,2) assms(2-4), of ?st "[]"] by auto
  have ne: "?v \<noteq> []" using g(3) format_directive_year_nonempty [of env "(y, m, d)"] unfolding has_year_def concat_eq_Nil_conv by force
  have yr: "full_year env (p_year st) = y" using st(3) g(3) by (simp add: collects_def)
  have md: "(if p_doy st > -1 then find_month y 1 (p_doy st) else (p_month st, p_day st)) = (m + 1, d)"
  proof (cases "has_doy ?ds")
    case True
    then have "p_doy st = year_day (y, m, d)" using st(3) by (simp add: collects_def)
    then show ?thesis using find_month_year_day [OF assms(3,2)] year_day_bounds [OF assms(2)] year_day_eq [OF assms(3)] by simp
  next
    case False
    then show ?thesis using st(3) g(4) by (simp add: collects_def)
  qed
  have mk: "make_date y m d = (y, m, d)" using make_date_valid [OF assms(2)] assms(3) by simp
  show ?thesis
  proof (cases rest)
    case Nil
    then show ?thesis using ne st(1,2) yr md mk by (simp add: parseDate_def formatDate_def same Let_def)
  next
    case (Cons c r)
    then show ?thesis using st(1,2) yr md mk by (cases "js_ws c") (simp_all add: parseDate_def formatDate_def same Let_def)
  qed
qed

lemma parse_format:
  assumes "good_format env format y" and "valid_date (y, m, d)" and "100 \<le> y"
  shows "parseDate env (Some format) (Some (formatDate env format (Some (y, m, d)))) = Inr (Some (y, m, d))"
  using parse_format_rest [OF assms, of "[]"] by simp

text \<open>
  The contract of a text that is written and read: what is read is what was meant. Then two values with
  one text mean the same. The formats of dates, times, time zones and fields meet it.
\<close>

locale readable_text =
  fixes text_of :: "'a \<Rightarrow> ustr"
    and parse :: "ustr \<Rightarrow> 'b"
    and meaning :: "'a \<Rightarrow> 'b"
    and writable :: "'a \<Rightarrow> bool"
  assumes reads: "writable x \<Longrightarrow> parse (text_of x) = meaning x"
begin

lemma same_text: "writable x \<Longrightarrow> writable y \<Longrightarrow> text_of x = text_of y \<Longrightarrow> meaning x = meaning y"
  using reads [of x] reads [of y] by simp

lemma texts_differ: "inj_on meaning A \<Longrightarrow> \<forall>x \<in> A. writable x \<Longrightarrow> inj_on text_of A"
  using same_text by (fastforce intro!: inj_onI dest: inj_onD)

end

definition date_ok :: "date_env \<Rightarrow> ustr \<Rightarrow> cal \<Rightarrow> bool" where
  "date_ok env format c \<longleftrightarrow> good_format env format (fst c) \<and> valid_date c \<and> 100 \<le> fst c"

interpretation dates: readable_text "\<lambda>c. formatDate env format (Some c)" "\<lambda>s. parseDate env (Some format) (Some s)"
    "\<lambda>c. Inr (Some c)" "date_ok env format" for env format
proof
  fix c
  assume "date_ok env format c"
  then show "parseDate env (Some format) (Some (formatDate env format (Some c))) = Inr (Some c)"
    using parse_format [of env format "fst c" "fst (snd c)" "snd (snd c)"] by (simp add: date_ok_def)
qed

text \<open>No two days have the same text.\<close>

lemma day_texts_differ: "inj_on (\<lambda>c. formatDate env format (Some c)) (Collect (date_ok env format))"
  by (rule dates.texts_differ [of _ env format]) (auto simp: inj_on_def)

text \<open>
  C17. A date that the picker writes is the date that it reads back. For every format that says year,
  month and day, or year and day of the year, in any order and with any literal text, day and month
  names included, the text of a date is read as that date; years have four digits, or two from
  which the current century follows; numbers without leading zeros are followed by a literal.
\<close>

theorem date_round_trip:
  assumes "good_format env format y" and "valid_date (y, m, d)" and "100 \<le> y"
  shows "parseDate env (Some format) (Some (formatDate env format (Some (y, m, d)))) = Inr (Some (y, m, d))"
  by (rule parse_format [OF assms])

definition english_env :: date_env where
  "english_env = \<lparr>dayNamesShort = map u [''Sun'', ''Mon'', ''Tue'', ''Wed'', ''Thu'', ''Fri'', ''Sat''],
     dayNames = map u [''Sunday'', ''Monday'', ''Tuesday'', ''Wednesday'', ''Thursday'', ''Friday'', ''Saturday''],
     monthNamesShort = map u [''Jan'', ''Feb'', ''Mar'', ''Apr'', ''May'', ''Jun'', ''Jul'', ''Aug'', ''Sep'', ''Oct'', ''Nov'', ''Dec''],
     monthNames = map u [''January'', ''February'', ''March'', ''April'', ''May'', ''June'', ''July'', ''August'', ''September'', ''October'',
       ''November'', ''December''],
     shortYearCutoff = Cutoff_text (u ''+10''), now_year = 2016, lc = (\<lambda>c. if 65 \<le> c \<and> c \<le> 90 then c + 32 else c),
     get_time = (\<lambda>c. day_number c), from_time = (\<lambda>n. make_date 1970 0 n)\<rparr>"

lemma us_format: "directives False False (u ''mm/dd/yy'') = [Month True, Literal 47, Day True, Literal 47, Year True]"
  by (simp add: u_Cons doubled_def skip_def)

theorem date_round_trip_witness:
  "parseDate english_env (Some (u ''mm/dd/yy'')) (Some (formatDate english_env (u ''mm/dd/yy'') (Some (2016, 1, 29)))) = Inr (Some (2016, 1, 29))"
proof -
  have "good_format english_env (u ''mm/dd/yy'') 2016"
    unfolding good_format_def us_format by (auto simp: has_year_def has_day_def has_month_def)
  moreover have "valid_date (2016, 1, 29)" by (simp add: valid_date_def month_days_def leap_def)
  ultimately show ?thesis by (rule date_round_trip) simp
qed

subsection \<open>What can be typed\<close>

lemma digit_typable: "is_digit c \<Longrightarrow> c \<in> set (u ''0123456789'')"
  by (auto simp: is_digit_def u_Cons) presburger

lemma num_str_digits: "0 \<le> v \<Longrightarrow> set (num_str v) \<subseteq> set (u ''0123456789'')"
  using digits_of_digit digit_typable by (auto simp: num_str_nonneg)

lemma formatNumber_digits: "0 \<le> v \<Longrightarrow> set (formatNumber b v n) \<subseteq> set (u ''0123456789'')"
  using num_str_digits [of v] digit_typable [of 48] by (auto simp: formatNumber_def Let_def is_digit_def)

fun numeric :: "directive \<Rightarrow> bool" where
  "numeric (Day b) = True"
| "numeric (Month b) = True"
| "numeric (Year b) = True"
| "numeric Stamp = True"
| "numeric x = False"

lemma numeric_digits:
  assumes "numeric x" and "valid_date (y, m, d)" and "1900 \<le> y" and "0 \<le> get_time env (y, m, d)"
  shows "set (format_directive env (y, m, d) x) \<subseteq> set (u ''0123456789'')"
proof -
  have "0 \<le> js_rem (y - 1900) 100" using assms(3) by (simp add: js_rem_def)
  then show ?thesis using assms num_str_digits formatNumber_digits digit_typable [of 48]
    by (cases x) (auto simp: valid_date_def Let_def is_digit_def)
qed

lemma possible_digits:
  "possibleChars False (c # fs) = Some cs \<Longrightarrow> c \<in> {100, 109, 121, 64} \<Longrightarrow>
    \<exists>ds. possibleChars False (if b then skip c fs else fs) = Some ds \<and> set (u ''0123456789'') \<subseteq> set cs \<and> set ds \<subseteq> set cs"
  by (cases fs) (auto simp: skip_def doubled_def)

definition written :: "date_env \<Rightarrow> cal \<Rightarrow> directive list \<Rightarrow> nat set" where
  "written env c ds = set (concat (map (format_directive env c) ds))"

lemma written_simps: "written env c [] = {}" "written env c (x # xs) = set (format_directive env c x) \<union> written env c xs"
  by (simp_all add: written_def)

lemma possible_covers:
  assumes "valid_date (y, m, d)" and "1900 \<le> y" and "0 \<le> get_time env (y, m, d)"
  shows "possibleChars lit fs = Some cs \<Longrightarrow> \<forall>x \<in> set (directives False lit fs). \<forall>b. x \<noteq> Day_of_year b \<and> x \<noteq> Ticks \<Longrightarrow>
    written env (y, m, d) (directives False lit fs) \<subseteq> set cs"
proof (induction "length fs" arbitrary: lit fs cs rule: less_induct)
  case less
  let ?f = "written env (y, m, d)"
  show ?case
  proof (cases fs)
    case (Cons c r)
    have ih: "?f (directives False l s) \<subseteq> set ds"
      if "possibleChars l s = Some ds" "s \<in> {r, skip c r, skip 39 r}" "\<forall>x \<in> set (directives False l s). \<forall>b. x \<noteq> Day_of_year b \<and> x \<noteq> Ticks" for l s ds
    proof (rule less.hyps [OF _ that(1,3)])
      show "length s < length fs" using that(2) Cons length_skip [of c r] length_skip [of 39 r] by auto
    qed
    note ok = less.prems [unfolded Cons]
    show ?thesis
    proof (cases lit)
      case True
      then show ?thesis using ok ih [of False r] ih [of True r] ih [of True "skip 39 r"] unfolding Cons
        by (cases "c = 39"; cases "doubled 39 r") (auto simp: written_simps)
    next
      case False
      have "c \<noteq> 68" "c \<noteq> 77" using ok(1) False by auto
      moreover have "c \<noteq> 111" "c \<noteq> 33" using ok(2) False by auto
      ultimately consider "c = 39" | "c = 64" | "c \<in> {100, 109, 121}" | "c \<notin> {39, 64, 100, 109, 121, 68, 77, 111, 33}" by auto
      then show ?thesis
      proof cases
        case 1
        then show ?thesis using ok ih [of True r] ih [of False "skip 39 r"] False unfolding Cons by (cases "doubled 39 r") (auto simp: written_simps)
      next
        case 2
        then obtain ds where "possibleChars False r = Some ds" "set (u ''0123456789'') \<subseteq> set cs" "set ds \<subseteq> set cs"
          using possible_digits [of c r cs False] ok(1) False by auto
        then show ?thesis using ih [of False r ds] ok(2) 2 False numeric_digits [OF _ assms, of Stamp] unfolding Cons by (auto simp: written_simps)
      next
        case 3
        then obtain ds where ds: "possibleChars False (skip c r) = Some ds" "set (u ''0123456789'') \<subseteq> set cs" "set ds \<subseteq> set cs"
          using possible_digits [of c r cs True] ok(1) False by auto
        have "\<exists>x. numeric x \<and> directives False False (c # r) = x # directives False False (skip c r)" using 3 by auto
        then obtain x where x: "numeric x" "directives False False (c # r) = x # directives False False (skip c r)" by blast
        then have "?f (directives False False (skip c r)) \<subseteq> set ds" using ok(2) False by (intro ih ds(1)) auto
        then show ?thesis using x ds numeric_digits [OF x(1) assms] False unfolding Cons by (auto simp: written_simps)
      next
        case 4
        then show ?thesis using ok ih [of False r] False unfolding Cons by (auto simp: written_simps)
      qed
    qed
  qed (simp add: written_simps)
qed

text \<open>
  The keyboard filter of the picker lets every formatted date through. Where it restricts the
  characters at all, every character that \<open>formatDate\<close> writes for a date from 1900 on is among the
  characters that \<open>_possibleChars\<close> allows, for every format without the day of the year and ticks.
\<close>

theorem possible_chars_complete:
  assumes "possibleChars False format = Some cs" and "\<forall>x \<in> set (directives False False format). \<forall>b. x \<noteq> Day_of_year b \<and> x \<noteq> Ticks"
    and "valid_date (y, m, d)" and "1900 \<le> y" and "0 \<le> get_time env (y, m, d)"
  shows "set (formatDate env format (Some (y, m, d))) \<subseteq> set cs"
  using possible_covers [OF assms(3-5) assms(1,2)] by (simp add: formatDate_def written_def)

theorem possible_chars_complete_witness:
  "set (formatDate english_env (u ''mm/dd/yy'') (Some (2016, 1, 29))) \<subseteq> set (the (possibleChars False (u ''mm/dd/yy'')))"
proof -
  have p: "possibleChars False (u ''mm/dd/yy'') = Some (the (possibleChars False (u ''mm/dd/yy'')))" by (simp add: u_Cons doubled_def skip_def)
  have v: "valid_date (2016, 1, 29)" by (simp add: valid_date_def month_days_def leap_def)
  have g: "0 \<le> get_time english_env (2016, 1, 29)" by (simp add: english_env_def day_number_def year_start_def month_start_table)
  show ?thesis by (rule possible_chars_complete [OF p _ v _ g]) (auto simp: us_format)
qed

text \<open>
  The keyboard filter does not know the day of the year: for the format \<open>oo\<close> the only character
  it allows is the letter o, so no date in that format can be typed.
\<close>

theorem day_of_year_untypable:
  assumes "valid_date (y, m, d)" and "100 \<le> y"
  shows "possibleChars False (u ''oo'') = Some (u ''oo'') \<and> set (formatDate env (u ''oo'') (Some (y, m, d))) \<inter> set (u ''oo'') = {} \<and>
    formatDate env (u ''oo'') (Some (y, m, d)) \<noteq> []"
proof -
  have ds: "directives False False (u ''oo'') = [Day_of_year True]" by (simp add: u_Cons doubled_def skip_def)
  have "0 \<le> year_day (y, m, d)" using year_day_bounds [OF assms(1)] year_day_eq [OF assms(2)] by simp
  from formatNumber_digits [OF this, of True 3] have "111 \<notin> set (formatNumber True (year_day (y, m, d)) 3)" by (auto simp: u_Cons)
  moreover have "formatNumber True v 3 \<noteq> []" for v by (simp add: formatNumber_def num_str_def Let_def)
  ultimately show ?thesis by (simp add: formatDate_def ds) (simp add: u_Cons)
qed

theorem day_of_year_untypable_witness:
  "set (formatDate english_env (u ''oo'') (Some (2016, 1, 29))) \<inter> set (u ''oo'') = {}"
proof -
  have "valid_date (2016, 1, 29)" by (simp add: valid_date_def month_days_def leap_def)
  from day_of_year_untypable [OF this] show ?thesis by simp
qed

end
