(* ===== verification/UI_Calendar.thy ===== *)
theory UI_Calendar
  imports UI_Date
begin

text \<open>
  The calendar that the date picker of \<open>plugins/jquery-ui/jquery-ui.js\<close> draws: the weeks of a month
  (\<open>_generateHTML\<close>), the numbers of the weeks (\<open>iso8601Week\<close>) and the month the drawing starts with. The
  theorems: every day of the month is drawn once, in order and under its weekday; exactly the days
  that may be chosen can be; week numbers are those of ISO 8601.
\<close>

subsection \<open>Days in order\<close>

text \<open>The order of dates at midnight, and the date some days later (\<open>setDate(getDate() + n)\<close>).\<close>

definition date_less :: "cal \<Rightarrow> cal \<Rightarrow> bool" where
  "date_less = (\<lambda>(y, m, d) (y', m', d'). y < y' \<or> y = y' \<and> (m < m' \<or> m = m' \<and> d < d'))"

definition add_days :: "cal \<Rightarrow> int \<Rightarrow> cal" where
  "add_days = (\<lambda>(y, m, d) n. carry_days y m (d + n))"

lemma year_start_mono: "a \<le> b \<Longrightarrow> year_start a \<le> year_start b"
proof (induction b rule: int_ge_induct)
  case (step b)
  then show ?case using year_length [of "b + 1"] by (simp split: if_splits)
qed simp

lemma day_in_year:
  assumes "valid_date (y, m, d)"
  shows "year_start (y - 1) < day_number (y, m, d)" "day_number (y, m, d) \<le> year_start y"
proof -
  have v: "0 \<le> m" "m \<le> 11" "1 \<le> d" "d \<le> month_days y m" using assms by (auto simp: valid_date_def)
  show "year_start (y - 1) < day_number (y, m, d)" using year_day_bounds [OF assms] by (simp add: day_number_def)
  have "month_start y m + month_days y m \<le> (if leap y then 366 else 365)"
    using v(1,2) by (auto simp: month_start_table month_days_def)
  then show "day_number (y, m, d) \<le> year_start y" using v(4) year_length [of y] by (simp add: day_number_def)
qed

lemma month_start_less:
  assumes "0 \<le> m" and "m < m'" and "m' \<le> 11"
  shows "month_start y m + month_days y m \<le> month_start y m'"
  using assms by (auto simp: month_start_table month_days_def)

lemma date_less_day_number_imp:
  assumes "valid_date c" and "valid_date c'" and "date_less c c'"
  shows "day_number c < day_number c'"
proof -
  obtain y m d y' m' d' where c: "c = (y, m, d)" "c' = (y', m', d')" by (cases c; cases c')
  show ?thesis
  proof (cases "y < y'")
    case True
    have "year_start y \<le> year_start (y' - 1)" using True by (intro year_start_mono) simp
    then show ?thesis using day_in_year(2) [of y m d] day_in_year(1) [of y' m' d'] assms(1,2) c by simp
  next
    case False
    then have y: "y = y'" "m < m' \<or> m = m' \<and> d < d'" using assms(3) c by (auto simp: date_less_def)
    then show ?thesis using month_start_less [of m m' y] assms(1,2) c by (auto simp: day_number_def valid_date_def)
  qed
qed

lemma date_less_linear: "date_less c c' \<or> c = c' \<or> date_less c' c"
  by (cases c; cases c') (auto simp: date_less_def)

text \<open>So dates are ordered as their days are counted, and the count tells them apart.\<close>

lemma date_less_day_number: "valid_date c \<Longrightarrow> valid_date c' \<Longrightarrow> date_less c c' \<longleftrightarrow> day_number c < day_number c'"
  using date_less_day_number_imp [of c c'] date_less_day_number_imp [of c' c] date_less_linear [of c c'] by auto

lemma day_number_inj: "valid_date c \<Longrightarrow> valid_date c' \<Longrightarrow> day_number c = day_number c' \<Longrightarrow> c = c'"
  using date_less_day_number_imp [of c c'] date_less_day_number_imp [of c' c] date_less_linear [of c c'] by auto

lemma carry_day_number: "0 \<le> m \<Longrightarrow> m \<le> 11 \<Longrightarrow> day_number (carry_days y m d) = day_number (y, m, d)"
proof (induction y m d rule: carry_days.induct)
  case (1 y m d)
  have dec: "month_start y 11 + 31 = (if leap y then 366 else 365)" for y by (simp add: month_start_table)
  have md: "month_days y 11 = 31" for y by (simp add: month_days_def)
  consider "d < 1" "m = 0" | "d < 1" "m \<noteq> 0" | "1 \<le> d" "d > month_days y m" "m = 11" | "1 \<le> d" "d > month_days y m" "m \<noteq> 11" | "1 \<le> d" "d \<le> month_days y m"
    by linarith
  then show ?case
  proof cases
    case 1
    then show ?thesis using "1.IH"(1) dec [of "y - 1"] year_length [of "y - 1"] md
      by (subst carry_days.simps) (auto simp: day_number_def split: if_splits)
  next
    case 2
    then show ?thesis using "1.IH"(1) "1.prems" month_start_next [of "m - 1" y]
      by (subst carry_days.simps) (auto simp: day_number_def Let_def)
  next
    case 3
    then show ?thesis using "1.IH"(2) dec [of y] year_length [of y] md
      by (subst carry_days.simps) (auto simp: day_number_def split: if_splits)
  next
    case 4
    then show ?thesis using "1.IH"(3) "1.prems" month_start_next [of m y]
      by (subst carry_days.simps) (auto simp: day_number_def)
  next
    case 5
    then show ?thesis by (subst carry_days.simps) simp
  qed
qed

lemma add_days_valid: "valid_date c \<Longrightarrow> valid_date (add_days c n)"
proof (cases c)
  case (fields y m d)
  assume "valid_date c"
  then have "0 \<le> m" "m \<le> 11" using fields by (auto simp: valid_date_def)
  then show ?thesis by (simp add: fields add_days_def carry_days_valid)
qed

lemma add_days_number: "valid_date c \<Longrightarrow> day_number (add_days c n) = day_number c + n"
  by (cases c) (simp add: add_days_def carry_day_number valid_date_def, simp add: day_number_def)

lemma add_days_eq: "valid_date c \<Longrightarrow> valid_date c' \<Longrightarrow> day_number c' = day_number c + n \<Longrightarrow> add_days c n = c'"
  using day_number_inj [OF add_days_valid, of c c' n] add_days_number [of c n] by simp

lemma add_days_add: "valid_date c \<Longrightarrow> add_days (add_days c a) b = add_days c (a + b)"
  by (rule add_days_eq) (simp_all add: add_days_valid add_days_number)

lemma week_day_add: "valid_date c \<Longrightarrow> week_day (add_days c n) = (week_day c + n) mod 7"
  using mod_add_left_eq [of "day_number c - day_number (1970, 0, 1) + 4" 7 n] by (simp add: week_day_def add_days_number algebra_simps)

lemma week_day_range: "0 \<le> week_day c" "week_day c < 7"
  by (simp_all add: week_day_def)

lemma week_day_dvd: "week_day c = week_day c' \<longleftrightarrow> 7 dvd day_number c - day_number c'"
  by (simp add: week_day_def mod_eq_dvd_iff)

subsection \<open>Weeks\<close>

text \<open>\<open>iso8601Week\<close>: the Thursday of the week, counted from the first day of its year.\<close>

definition thursday :: "cal \<Rightarrow> cal" where
  "thursday c = add_days c (4 - (if week_day c = 0 then 7 else week_day c))"

definition iso8601Week :: "cal \<Rightarrow> int" where
  "iso8601Week c = (let checkDate = thursday c; time = day_number checkDate in (time - day_number (fst checkDate, 0, 1)) div 7 + 1)"

text \<open>The first week of a year by ISO 8601: from the Monday of the week that has 4 January.\<close>

definition first_monday :: "int \<Rightarrow> int" where
  "first_monday y = day_number (y, 0, 4) - (week_day (y, 0, 4) + 6) mod 7"

lemma january_valid: "1 \<le> d \<Longrightarrow> d \<le> 31 \<Longrightarrow> valid_date (y, 0, d)"
  by (simp add: valid_date_def month_days_def)

lemma first_monday_bounds:
  "day_number (y, 0, 1) - 3 \<le> first_monday y" "first_monday y \<le> day_number (y, 0, 1) + 3"
  using pos_mod_bound [of 7 "week_day (y, 0, 4) + 6"] pos_mod_sign [of 7 "week_day (y, 0, 4) + 6"]
  by (simp_all add: first_monday_def day_number_def)

text \<open>The Monday of a week, as a number.\<close>

lemma monday_number:
  assumes "valid_date c"
  shows "day_number (thursday c) = day_number c + 4 - (if week_day c = 0 then 7 else week_day c)"
  using add_days_number [OF assms] by (simp add: thursday_def)

lemma mondays_apart:
  assumes "valid_date c"
  shows "7 dvd day_number (thursday c) - 3 - first_monday y"
proof -
  let ?e = "day_number (1970, 0, 1)" and ?k = "if week_day c = 0 then 7 else week_day c"
  have c: "(day_number c - ?e + 4) mod 7 = week_day c mod 7" by (simp add: week_day_def)
  have "7 dvd (day_number c - ?e + 4) - week_day c" using c by (simp add: mod_eq_dvd_iff)
  moreover have "7 dvd (day_number (y, 0, 4) - ?e + 4) - week_day (y, 0, 4)" by (simp add: week_day_def dvd_minus_mod)
  moreover have "7 dvd (week_day (y, 0, 4) + 6) - (week_day (y, 0, 4) + 6) mod 7" by (simp add: dvd_minus_mod)
  ultimately obtain p q r where pqr: "day_number c - ?e + 4 - week_day c = 7 * p" "day_number (y, 0, 4) - ?e + 4 - week_day (y, 0, 4) = 7 * q"
    "week_day (y, 0, 4) + 6 - (week_day (y, 0, 4) + 6) mod 7 = 7 * r" unfolding dvd_def by blast
  obtain x where x: "(week_day (y, 0, 4) + 6) mod 7 = x" by blast
  have "day_number (thursday c) - 3 - first_monday y = day_number c + 1 - ?k - day_number (y, 0, 4) + x"
    using monday_number [OF assms] by (simp add: first_monday_def x)
  moreover have "\<dots> = 7 * (p - q - r + (if week_day c = 0 then 0 else 1))" using pqr unfolding x by (cases "week_day c = 0") auto
  ultimately show ?thesis by (metis dvd_triv_left)
qed

text \<open>
  C22. Week numbers are those of ISO 8601. The number that is shown for a day is the number of the week
  it lies in, counted from the week that has 4 January, in the year whose weeks it belongs to; it
  is never below 1 or above 53.
\<close>

theorem iso_week_correct:
  assumes "valid_date c"
  shows "\<exists>y. first_monday y + 7 * (iso8601Week c - 1) \<le> day_number c \<and> day_number c < first_monday y + 7 * iso8601Week c \<and>
    day_number c < first_monday (y + 1) \<and> 1 \<le> iso8601Week c \<and> iso8601Week c \<le> 53"
proof -
  obtain y m d where th: "thursday c = (y, m, d)" by (cases "thursday c")
  let ?T = "day_number (thursday c)" and ?J = "day_number (y, 0, 1)" and ?N = "day_number c"
  have v: "valid_date (y, m, d)" using add_days_valid [OF assms] th by (simp add: thursday_def flip: th)
  have J: "?J = year_start (y - 1) + 1" "day_number (y + 1, 0, 1) = year_start y + 1" by (simp_all add: day_number_def)
  have T: "0 \<le> ?T - ?J" "?T - ?J \<le> 365" "?T \<le> year_start y"
    using day_in_year [OF v] J th year_length [of y] by (auto split: if_splits)
  have N: "?T - 3 \<le> ?N" "?N \<le> ?T + 3" using monday_number [OF assms] week_day_range [of c] by (auto split: if_splits)
  obtain q where q: "?T - 3 - first_monday y = 7 * q" using mondays_apart [OF assms, of y] by (auto elim: dvdE)
  have "?T - ?J = 7 * q + (3 + first_monday y - ?J)" using q by simp
  moreover have "0 \<le> 3 + first_monday y - ?J" "3 + first_monday y - ?J < 7" using first_monday_bounds [of y] by auto
  ultimately have "(?T - ?J) div 7 = q" by (rule int_div_pos_eq)
  then have w: "iso8601Week c = q + 1" by (simp add: iso8601Week_def th Let_def)
  obtain r where r: "?T - 3 - first_monday (y + 1) = 7 * r" using mondays_apart [OF assms, of "y + 1"] by (auto elim: dvdE)
  have "?T - 3 < first_monday (y + 1)" using first_monday_bounds(1) [of "y + 1"] T(3) J(2) by simp
  then have "7 * r < 0" using r by simp
  then have "r \<le> -1" by simp
  then have "?N < first_monday (y + 1)" using r N(2) by simp
  moreover have "0 \<le> q" "q \<le> 52" using q T first_monday_bounds [of y] by auto
  ultimately show ?thesis using w q N by (intro exI [of _ y]) auto
qed

theorem iso_week_correct_witness:
  "iso8601Week (2016, 0, 1) \<le> 53"
proof -
  have "valid_date (2016, 0, 1)" by (rule january_valid) simp_all
  from iso_week_correct [OF this] show ?thesis by auto
qed

subsection \<open>The month that is drawn\<close>

text \<open>
  The settings that the drawing reads. \<open>beforeShowDay\<close> says whether a day may be chosen;
  \<open>calculateWeek\<close> is \<open>iso8601Week\<close> unless the page sets another function. \<open>None\<close> for \<open>minDate\<close> and
  \<open>maxDate\<close> is no limit.
\<close>

record draw_settings =
  firstDay :: int
  selectOtherMonths :: bool
  beforeShowDay :: "cal \<Rightarrow> bool"
  calculateWeek :: "cal \<Rightarrow> int"
  minDate :: "cal option"
  maxDate :: "cal option"
  numMonths :: "nat \<times> nat"
  showCurrentAtPos :: int

record cell =
  c_date :: cal
  c_other :: bool
  c_unselectable :: bool

definition too_early :: "cal option \<Rightarrow> cal \<Rightarrow> bool" where
  "too_early lo c = (case lo of Some l \<Rightarrow> date_less c l | None \<Rightarrow> False)"

definition too_late :: "cal option \<Rightarrow> cal \<Rightarrow> bool" where
  "too_late hi c = (case hi of Some h \<Rightarrow> date_less h c | None \<Rightarrow> False)"

definition draw_cell :: "draw_settings \<Rightarrow> int \<Rightarrow> cal \<Rightarrow> cell" where
  "draw_cell o1 drawMonth printDate =
     (let otherMonth = (fst (snd printDate) \<noteq> drawMonth) in
      \<lparr>c_date = printDate, c_other = otherMonth,
       c_unselectable = (otherMonth \<and> \<not> selectOtherMonths o1 \<or> \<not> beforeShowDay o1 printDate \<or> too_early (minDate o1) printDate \<or>
         too_late (maxDate o1) printDate)\<rparr>)"

text \<open>The days of a row and the rows of a month; each day is the day after the one before.\<close>

fun draw_days :: "draw_settings \<Rightarrow> int \<Rightarrow> nat \<Rightarrow> cal \<Rightarrow> cell list \<times> cal" where
  "draw_days o1 m 0 c = ([], c)"
| "draw_days o1 m (Suc n) c = (let (cs, c') = draw_days o1 m n (add_days c 1) in (draw_cell o1 m c # cs, c'))"

fun draw_rows :: "draw_settings \<Rightarrow> int \<Rightarrow> nat \<Rightarrow> cal \<Rightarrow> (int \<times> cell list) list" where
  "draw_rows o1 m 0 c = []"
| "draw_rows o1 m (Suc n) c = (let (cs, c') = draw_days o1 m 7 c in (calculateWeek o1 c, cs) # draw_rows o1 m n c')"

definition getFirstDayOfMonth :: "int \<Rightarrow> int \<Rightarrow> int" where
  "getFirstDayOfMonth y m = week_day (make_date y m 1)"

definition leadDays :: "draw_settings \<Rightarrow> int \<Rightarrow> int \<Rightarrow> int" where
  "leadDays o1 y m = js_rem (getFirstDayOfMonth y m - firstDay o1 + 7) 7"

definition curRows :: "draw_settings \<Rightarrow> int \<Rightarrow> int \<Rightarrow> int" where
  "curRows o1 y m = (leadDays o1 y m + getDaysInMonth y m + 6) div 7"

definition draw_month :: "draw_settings \<Rightarrow> int \<Rightarrow> int \<Rightarrow> int \<Rightarrow> (int \<times> cell list) list" where
  "draw_month o1 y m numRows = draw_rows o1 m (nat numRows) (make_date y m (1 - leadDays o1 y m))"

lemma make_date_first: "make_date y m 1 = ((if 0 \<le> y \<and> y \<le> 99 then 1900 + y else y) + m div 12, m mod 12, 1)"
proof -
  have "valid_date (y', m mod 12, 1)" for y' using month_days_bounds(1) [of y' "m mod 12"] pos_mod_bound [of 12 m] by (simp add: valid_date_def)
  then show ?thesis by (simp add: make_date_def Let_def carry_valid)
qed

lemma draw_back_bound:
  assumes "date_less maxDraw (make_date y m 1)"
  shows "12 * min (fst maxDraw) 0 \<le> 12 * y + max m 0"
proof (cases "0 \<le> y")
  case False
  obtain a b c where md: "maxDraw = (a, b, c)" by (cases maxDraw)
  have "a \<le> y + m div 12" using assms False md by (auto simp: make_date_first date_less_def)
  moreover have "12 * (m div 12) \<le> max m 0" using mult_div_mod_eq [of 12 m] pos_mod_sign [of 12 m] by linarith
  ultimately show ?thesis using md by (auto simp: min_def)
qed (auto simp: min_def max_def)

text \<open>The month that is drawn first: not so late that the latest date is out of sight.\<close>

function draw_back :: "cal \<Rightarrow> int \<Rightarrow> int \<Rightarrow> int \<times> int" where
  "draw_back maxDraw y m =
     (if date_less maxDraw (make_date y m 1)
      then (if m - 1 < 0 then draw_back maxDraw (y - 1) 11 else draw_back maxDraw y (m - 1)) else (y, m))"
  by pat_completeness auto

termination
proof (relation "measure (\<lambda>(h, y, m). nat (12 * y + max m 0 - 12 * min (fst h) 0 + 13))", goal_cases)
  case (2 h y m)
  then show ?case using draw_back_bound [OF 2(1)] by (auto simp: max_def)
next
  case (3 h y m)
  then show ?case using draw_back_bound [OF 3(1)] by (auto simp: max_def)
qed simp

declare draw_back.simps [simp del]

definition draw_start :: "draw_settings \<Rightarrow> int \<Rightarrow> int \<Rightarrow> int \<times> int" where
  "draw_start o1 drawYear drawMonth =
     (let m = drawMonth - showCurrentAtPos o1; (y, m) = (if m < 0 then (drawYear - 1, m + 12) else (drawYear, m)) in
      case maxDate o1 of
        None \<Rightarrow> (y, m)
      | Some (my, mm, md) \<Rightarrow>
          (let maxDraw = make_date my (mm - int (fst (numMonths o1) * snd (numMonths o1)) + 1) md;
               maxDraw = (case minDate o1 of Some l \<Rightarrow> if date_less maxDraw l then l else maxDraw | None \<Rightarrow> maxDraw)
           in draw_back maxDraw y m))"

text \<open>The months one after another. In a row of months each has as many rows of days as the longest before it.\<close>

record drawing =
  drawMonth :: int
  drawYear :: int
  maxRows :: int
  selectedDay :: int

definition isMultiMonth :: "draw_settings \<Rightarrow> bool" where
  "isMultiMonth o1 \<longleftrightarrow> numMonths o1 \<noteq> (1, 1)"

definition draw_next :: "draw_settings \<Rightarrow> int \<times> int \<Rightarrow> drawing \<Rightarrow> (int \<times> cell list) list \<times> drawing" where
  "draw_next o1 selected s =
     (let y = drawYear s; m = drawMonth s;
          sel = (if (y, m) = selected then min (selectedDay s) (getDaysInMonth y m) else selectedDay s);
          rows = (if isMultiMonth o1 then if maxRows s > curRows o1 y m then maxRows s else curRows o1 y m else curRows o1 y m)
      in (draw_month o1 y m rows,
          s\<lparr>selectedDay := sel, maxRows := rows, drawMonth := (if m + 1 > 11 then 0 else m + 1), drawYear := (if m + 1 > 11 then y + 1 else y)\<rparr>))"

fun draw_cols :: "draw_settings \<Rightarrow> int \<times> int \<Rightarrow> nat \<Rightarrow> drawing \<Rightarrow> (int \<times> cell list) list list \<times> drawing" where
  "draw_cols o1 selected 0 s = ([], s)"
| "draw_cols o1 selected (Suc n) s =
     (let (v, s) = draw_next o1 selected s; (vs, s) = draw_cols o1 selected n s in (v # vs, s))"

fun draw_groups :: "draw_settings \<Rightarrow> int \<times> int \<Rightarrow> nat \<Rightarrow> drawing \<Rightarrow> (int \<times> cell list) list list list \<times> drawing" where
  "draw_groups o1 selected 0 s = ([], s)"
| "draw_groups o1 selected (Suc n) s =
     (let (g, s) = draw_cols o1 selected (snd (numMonths o1)) (s\<lparr>maxRows := 4\<rparr>); (gs, s) = draw_groups o1 selected n s in (g # gs, s))"

subsection \<open>Every day of the month, once and in its column\<close>

lemma draw_days_eq:
  "valid_date c \<Longrightarrow> draw_days o1 m n c = (map (\<lambda>k. draw_cell o1 m (add_days c (int k))) [0..<n], add_days c (int n))"
proof (induction n arbitrary: c)
  case 0
  then show ?case by (cases c) (simp add: add_days_def carry_valid)
next
  case (Suc n)
  have "add_days c 0 = c" using Suc.prems by (cases c) (simp add: add_days_def carry_valid)
  moreover have "map (\<lambda>k. draw_cell o1 m (add_days c (1 + int k))) [0..<n] = map (\<lambda>k. draw_cell o1 m (add_days c (int k))) [1..<Suc n]"
    unfolding One_nat_def map_Suc_upt [symmetric] by simp
  ultimately show ?case using Suc.IH [OF add_days_valid [OF Suc.prems], of 1] Suc.prems
    by (simp add: add_days_add upt_conv_Cons del: upt_Suc)
qed

definition grid_row :: "draw_settings \<Rightarrow> int \<Rightarrow> cal \<Rightarrow> nat \<Rightarrow> int \<times> cell list" where
  "grid_row o1 m c i = (calculateWeek o1 (add_days c (7 * int i)), map (\<lambda>k. draw_cell o1 m (add_days c (7 * int i + int k))) [0..<7])"

lemma draw_rows_eq: "valid_date c \<Longrightarrow> draw_rows o1 m n c = map (grid_row o1 m c) [0..<n]"
proof (induction n arbitrary: c)
  case (Suc n)
  have z: "add_days c 0 = c" using Suc.prems by (cases c) (simp add: add_days_def carry_valid)
  have "grid_row o1 m (add_days c 7) i = grid_row o1 m c (Suc i)" for i using Suc.prems by (simp add: grid_row_def add_days_add algebra_simps)
  then have "map (grid_row o1 m (add_days c 7)) [0..<n] = map (grid_row o1 m c) [1..<Suc n]"
    unfolding One_nat_def map_Suc_upt [symmetric] by simp
  moreover have "draw_days o1 m 7 c = (snd (grid_row o1 m c 0), add_days c 7)" using draw_days_eq [OF Suc.prems, of o1 m 7] by (simp add: grid_row_def)
  moreover have "grid_row o1 m c 0 = (calculateWeek o1 c, snd (grid_row o1 m c 0))" by (simp add: grid_row_def z)
  ultimately show ?case using Suc.IH [OF add_days_valid [OF Suc.prems], of 7] by (simp add: upt_conv_Cons del: upt_Suc draw_days.simps)
qed simp

lemma concat_upt: "concat (map (\<lambda>i. map (\<lambda>k. f (7 * i + k)) [0..<7]) [0..<n]) = map f [0..<7 * n]"
proof (induction n)
  case (Suc n)
  have "[0..<7 * Suc n] = [0..<7 * n] @ [7 * n..<7 * n + 7]" using upt_add_eq_append [of 0 "7 * n" 7] by (simp add: add.commute)
  moreover have "[7 * n..<7 * n + 7] = map (\<lambda>k. 7 * n + k) [0..<7]" using map_add_upt [of "7 * n" 7] by (simp only: add.commute)
  then have "map (\<lambda>k. f (7 * n + k)) [0..<7] = map f [7 * n..<7 * n + 7]" by simp
  ultimately show ?case using Suc by simp
qed simp

text \<open>Counting days from the first of a month, up to four weeks beyond its ends.\<close>

lemma carry_month:
  assumes "0 \<le> m" and "m \<le> 11" and "-27 \<le> e" and "e \<le> month_days y m + 28"
  shows "fst (snd (carry_days y m e)) = m \<longleftrightarrow> 1 \<le> e \<and> e \<le> month_days y m"
    and "1 \<le> e \<Longrightarrow> e \<le> month_days y m \<Longrightarrow> carry_days y m e = (y, m, e)"
proof -
  show v: "1 \<le> e \<Longrightarrow> e \<le> month_days y m \<Longrightarrow> carry_days y m e = (y, m, e)" using assms by (intro carry_valid) (simp add: valid_date_def)
  have before: "fst (snd (carry_days y m e)) \<noteq> m" if "e < 1"
  proof -
    let ?y = "if m = 0 then y - 1 else y" and ?m = "if m = 0 then 11 else m - 1"
    have "valid_date (?y, ?m, e + month_days ?y ?m)" using that assms month_days_bounds(1) [of ?y ?m] by (auto simp: valid_date_def)
    from carry_valid [OF this] have "carry_days y m e = (?y, ?m, e + month_days ?y ?m)" using that by (subst carry_days.simps) (simp add: Let_def)
    then show ?thesis using assms by auto
  qed
  have after: "fst (snd (carry_days y m e)) \<noteq> m" if "e > month_days y m"
  proof -
    let ?y = "if m = 11 then y + 1 else y" and ?m = "if m = 11 then 0 else m + 1"
    have "valid_date (?y, ?m, e - month_days y m)" using that assms month_days_bounds(1) [of ?y ?m] by (auto simp: valid_date_def)
    from carry_valid [OF this] have "carry_days y m e = (?y, ?m, e - month_days y m)"
      using that month_days_bounds(1) [of y m] by (subst carry_days.simps) auto
    then show ?thesis using assms by auto
  qed
  show "fst (snd (carry_days y m e)) = m \<longleftrightarrow> 1 \<le> e \<and> e \<le> month_days y m"
    using v before after by (metis fst_conv linorder_not_less snd_conv zle_add1_eq_le zless_add1_eq)
qed

lemma lead_range:
  assumes "0 \<le> firstDay o1" and "firstDay o1 \<le> 6"
  shows "0 \<le> leadDays o1 y m" "leadDays o1 y m \<le> 6" "leadDays o1 y m = (getFirstDayOfMonth y m - firstDay o1) mod 7"
proof -
  have "0 \<le> getFirstDayOfMonth y m" using week_day_range by (simp add: getFirstDayOfMonth_def)
  then have e: "leadDays o1 y m = (getFirstDayOfMonth y m - firstDay o1 + 7) mod 7" using assms by (simp add: leadDays_def js_rem_pos)
  then show "0 \<le> leadDays o1 y m" "leadDays o1 y m = (getFirstDayOfMonth y m - firstDay o1) mod 7" by simp_all
  show "leadDays o1 y m \<le> 6" using pos_mod_bound [of 7 "getFirstDayOfMonth y m - firstDay o1 + 7"] unfolding e by linarith
qed

lemma curRows_range:
  assumes "0 \<le> firstDay o1" and "firstDay o1 \<le> 6"
  shows "4 \<le> curRows o1 y m" "curRows o1 y m \<le> 6" "leadDays o1 y m + getDaysInMonth y m \<le> 7 * curRows o1 y m"
    "7 * (curRows o1 y m - 1) < leadDays o1 y m + getDaysInMonth y m"
proof -
  define x where "x = leadDays o1 y m + getDaysInMonth y m"
  have x: "28 \<le> x" "x \<le> 37" using lead_range [OF assms, of y m] getDaysInMonth_pos [of y m] by (simp_all add: x_def)
  obtain q r where qr: "x + 6 = 7 * q + r" "0 \<le> r" "r < 7" "curRows o1 y m = q"
    using mult_div_mod_eq [of 7 "x + 6"] pos_mod_sign [of 7 "x + 6"] pos_mod_bound [of 7 "x + 6"] by (metis curRows_def x_def zero_less_numeral)
  then show "4 \<le> curRows o1 y m" "curRows o1 y m \<le> 6" "leadDays o1 y m + getDaysInMonth y m \<le> 7 * curRows o1 y m"
    "7 * (curRows o1 y m - 1) < leadDays o1 y m + getDaysInMonth y m" using x by (auto simp: x_def)
qed

text \<open>The first day that is drawn, and the days from there.\<close>

lemma make_date_carry:
  assumes "0 \<le> m" and "m \<le> 11" and "\<not> (0 \<le> y \<and> y \<le> 99)"
  shows "make_date y m e = carry_days y m e"
  unfolding make_date_def Let_def if_not_P [OF assms(3)] using assms(1,2) by simp

lemma draw_month_eq:
  assumes "0 \<le> m" and "m \<le> 11" and "\<not> (0 \<le> y \<and> y \<le> 99)"
  shows "valid_date (make_date y m (1 - leadDays o1 y m))"
    and "add_days (make_date y m (1 - leadDays o1 y m)) j = carry_days y m (1 - leadDays o1 y m + j)"
proof -
  note p = make_date_carry [OF assms]
  show v: "valid_date (make_date y m (1 - leadDays o1 y m))" by (rule make_date_is_valid)
  show "add_days (make_date y m (1 - leadDays o1 y m)) j = carry_days y m (1 - leadDays o1 y m + j)"
    by (rule add_days_eq [OF v carry_days_valid]) (use assms in \<open>simp_all add: p carry_day_number, simp add: day_number_def\<close>)
qed

lemma filter_cells:
  assumes "0 \<le> m" and "m \<le> 11" and "0 \<le> l" and "l \<le> 6" and "l + month_days y m \<le> 7 * int n" and "n \<le> 6"
  shows "filter (\<lambda>c. \<not> c_other c) (map (\<lambda>j. draw_cell o1 m (carry_days y m (1 - l + int j))) [0..<7 * n]) =
    map (\<lambda>d. draw_cell o1 m (y, m, d)) [1..month_days y m]"
proof -
  let ?g = "\<lambda>j. draw_cell o1 m (carry_days y m (1 - l + int j))" and ?a = "nat l" and ?b = "nat (l + month_days y m)"
  have dim: "28 \<le> month_days y m" "month_days y m \<le> 31" using month_days_bounds by blast+
  have ab: "?a \<le> ?b" "?b \<le> 7 * n" using assms dim by auto
  have other: "c_other (?g j) \<longleftrightarrow> \<not> (?a \<le> j \<and> j < ?b)" if "j < 7 * n" for j
    using carry_month(1) [OF assms(1,2), of "1 - l + int j" y] that assms dim by (auto simp: draw_cell_def Let_def)
  have "[0..<7 * n] = [0..<?a] @ [?a..<?b] @ [?b..<7 * n]" 
    using upt_add_eq_append [of 0 ?a "7 * n - ?a"] upt_add_eq_append [of ?a ?b "7 * n - ?b"] ab by simp
  moreover have "filter (\<lambda>c. \<not> c_other c) (map ?g [0..<?a]) = []" "filter (\<lambda>c. \<not> c_other c) (map ?g [?b..<7 * n]) = []"
    using other ab by (auto simp: filter_empty_conv)
  moreover have "filter (\<lambda>c. \<not> c_other c) (map ?g [?a..<?b]) = map ?g [?a..<?b]" using other ab by (simp add: filter_id_conv)
  moreover have "map ?g [?a..<?b] = map (\<lambda>d. draw_cell o1 m (y, m, d)) [1..month_days y m]"
  proof (rule nth_equalityI)
    show "length (map ?g [?a..<?b]) = length (map (\<lambda>d. draw_cell o1 m (y, m, d)) [1..month_days y m])" using assms dim by auto
  next
    fix i
    assume "i < length (map ?g [?a..<?b])"
    then have i: "int i < month_days y m" using assms dim by auto
    have "1 - l + int (?a + i) = 1 + int i" using assms by auto
    then show "map ?g [?a..<?b] ! i = map (\<lambda>d. draw_cell o1 m (y, m, d)) [1..month_days y m] ! i"
      using i carry_month(2) [OF assms(1,2), of "1 + int i" y] assms dim by (auto simp: nth_upto)
  qed
  ultimately show ?thesis by simp
qed

text \<open>
  C21. The picker draws the month. For every month and every first day of the week, the cells of the
  month, read row by row, are the days from the first to the last of the month, each once; every
  row has seven cells, and each stands in the column of its weekday. Four to six rows are enough,
  and the last of them is needed.
\<close>

theorem month_grid_exact:
  assumes "0 \<le> m" and "m \<le> 11" and "\<not> (0 \<le> y \<and> y \<le> 99)" and "0 \<le> firstDay o1" and "firstDay o1 \<le> 6" and "curRows o1 y m \<le> n" and "n \<le> 6"
  shows "let rows = draw_month o1 y m n in
    map c_date (filter (\<lambda>c. \<not> c_other c) (concat (map snd rows))) = map (\<lambda>d. (y, m, d)) [1..getDaysInMonth y m] \<and>
    (\<forall>r \<in> set rows. length (snd r) = 7 \<and> (\<forall>k < 7. week_day (c_date (snd r ! k)) = (int k + firstDay o1) mod 7)) \<and>
    4 \<le> curRows o1 y m \<and> curRows o1 y m \<le> 6 \<and> 7 * (curRows o1 y m - 1) < leadDays o1 y m + getDaysInMonth y m"
proof -
  let ?l = "leadDays o1 y m" and ?p = "make_date y m (1 - leadDays o1 y m)" and ?n = "nat n"
  note lr = lead_range [OF assms(4,5), of y m] and cr = curRows_range [OF assms(4,5), of y m]
  have dim: "getDaysInMonth y m = month_days y m" using assms(1-3) by (simp add: getDaysInMonth_eq)
  have p: "valid_date ?p" by (rule draw_month_eq(1) [OF assms(1-3)])
  have rows: "draw_month o1 y m n = map (grid_row o1 m ?p) [0..<?n]" by (simp add: draw_month_def draw_rows_eq [OF p])
  have cells: "concat (map snd (draw_month o1 y m n)) = map (\<lambda>j. draw_cell o1 m (carry_days y m (1 - ?l + int j))) [0..<7 * ?n]"
    using concat_upt [of "\<lambda>j. draw_cell o1 m (carry_days y m (1 - ?l + int j))" ?n]
    by (simp add: rows grid_row_def draw_month_eq(2) [OF assms(1-3)] comp_def)
  have fit: "?l + month_days y m \<le> 7 * int ?n" "?n \<le> 6" using cr assms(6,7) dim by auto
  have days: "map c_date (filter (\<lambda>c. \<not> c_other c) (concat (map snd (draw_month o1 y m n)))) = map (\<lambda>d. (y, m, d)) [1..getDaysInMonth y m]"
    unfolding cells filter_cells [OF assms(1,2) lr(1,2) fit] dim by (simp add: draw_cell_def Let_def)
  have "week_day (make_date y m 1) = week_day (add_days ?p ?l)"
    using draw_month_eq(2) [OF assms(1-3), of o1 ?l] by (simp add: make_date_carry [OF assms(1-3)])
  then have "getFirstDayOfMonth y m = (week_day ?p + ?l) mod 7" by (simp add: getFirstDayOfMonth_def week_day_add [OF p])
  then have "(week_day ?p + ?l - ?l) mod 7 = (getFirstDayOfMonth y m - ?l) mod 7" by (metis mod_diff_left_eq)
  also have "\<dots> = firstDay o1 mod 7" unfolding lr(3) by (simp add: mod_diff_right_eq)
  finally have wp: "week_day ?p mod 7 = firstDay o1 mod 7" by simp
  have "week_day (add_days ?p (7 * int i + int k)) = (int k + firstDay o1) mod 7" for i k
  proof -
    have "(week_day ?p + (7 * int i + int k)) mod 7 = (week_day ?p + int k + 7 * int i) mod 7" by (simp add: algebra_simps)
    also have "\<dots> = (week_day ?p mod 7 + int k) mod 7" by (simp add: mod_add_left_eq)
    also have "\<dots> = (int k + firstDay o1) mod 7" unfolding wp by (metis add.commute mod_add_left_eq)
    finally show ?thesis by (simp add: week_day_add [OF p])
  qed
  then have "\<forall>r \<in> set (draw_month o1 y m n). length (snd r) = 7 \<and> (\<forall>k < 7. week_day (c_date (snd r ! k)) = (int k + firstDay o1) mod 7)"
    by (auto simp: rows grid_row_def draw_cell_def Let_def)
  then show ?thesis unfolding Let_def using days cr by blast
qed

definition plain_calendar :: draw_settings where
  "plain_calendar = \<lparr>firstDay = 0, selectOtherMonths = False, beforeShowDay = (\<lambda>_. True), calculateWeek = iso8601Week, minDate = None,
     maxDate = None, numMonths = (1, 1), showCurrentAtPos = 0\<rparr>"

theorem month_grid_exact_witness:
  "map c_date (filter (\<lambda>c. \<not> c_other c) (concat (map snd (draw_month plain_calendar 2016 1 6)))) = map (\<lambda>d. (2016, 1, d)) [1..getDaysInMonth 2016 1]"
  using month_grid_exact [of 1 2016 plain_calendar 6] curRows_range(2) [of plain_calendar 2016 1] by (simp add: plain_calendar_def Let_def)

subsection \<open>The column of week numbers\<close>

lemma thursday_of_monday:
  assumes "valid_date c" and "week_day c = 1" and "0 \<le> k" and "k \<le> 6"
  shows "thursday (add_days c k) = add_days c 3"
proof -
  have "week_day (add_days c k) = (1 + k) mod 7" using week_day_add [OF assms(1)] assms(2) by simp
  moreover have "(1 + k) mod 7 = (if k = 6 then 0 else 1 + k)" using assms(3,4) by (cases "k = 6") (simp_all add: mod_pos_pos_trivial)
  ultimately show ?thesis using assms(3) by (simp add: thursday_def add_days_add [OF assms(1)])
qed

lemma iso_week_next:
  assumes "valid_date c"
  shows "(let t = add_days c 7 in (day_number t - day_number (fst t, 0, 1)) div 7) \<noteq> (day_number c - day_number (fst c, 0, 1)) div 7"
proof -
  obtain y m d where c: "c = (y, m, d)" by (cases c)
  obtain y' m' d' where c': "add_days c 7 = (y', m', d')" by (cases "add_days c 7")
  have v: "valid_date (y, m, d)" "valid_date (y', m', d')" using assms add_days_valid [OF assms, of 7] c c' by auto
  have n: "day_number (y', m', d') = day_number (y, m, d) + 7" using add_days_number [OF assms, of 7] c c' by simp
  let ?j = "day_number (y, 0, 1)" and ?j' = "day_number (y', 0, 1)" and ?t = "day_number (y, m, d)"
  have j: "?j = year_start (y - 1) + 1" "?j' = year_start (y' - 1) + 1" by (simp_all add: day_number_def)
  have "(?t + 7 - ?j') div 7 \<noteq> (?t - ?j) div 7"
  proof (cases "y = y'")
    case True
    have "(?t + 7 - ?j) div 7 = (?t - ?j) div 7 + 1" using div_add_self2 [of 7 "?t - ?j"] by (simp add: algebra_simps)
    then show ?thesis using True by simp
  next
    case False
    have "y < y'"
    proof (rule ccontr)
      assume "\<not> y < y'"
      then have "year_start y' \<le> year_start (y - 1)" using False by (intro year_start_mono) simp
      then show False using day_in_year(1) [OF v(1)] day_in_year(2) [OF v(2)] n by simp
    qed
    then have le: "year_start y \<le> year_start (y' - 1)" by (intro year_start_mono) simp
    have "0 \<le> ?t + 7 - ?j'" "?t + 7 - ?j' < 7" using day_in_year(1) [OF v(2)] day_in_year(2) [OF v(1)] n j le by simp_all
    then have "(?t + 7 - ?j') div 7 = 0" by (rule div_pos_pos_trivial)
    moreover have "7 \<le> ?t - ?j" using day_in_year(1) [OF v(2)] n j le year_length [of y] by (auto split: if_splits)
    then have "1 \<le> (?t - ?j) div 7" using zdiv_mono1 [of 7 "?t - ?j" 7] by simp
    ultimately show ?thesis by simp
  qed
  then show ?thesis using n c c' by (simp add: Let_def)
qed

text \<open>
  The column of week numbers is right for weeks that start on Monday and wrong for weeks that
  start on Sunday, the default. In a row from Monday to Sunday the number is the ISO 8601 week of
  all seven days; in a row from Sunday to Saturday it is the week of the Sunday alone, and the other
  six days lie in another week.
\<close>

theorem week_column:
  assumes "valid_date c" and "calculateWeek o1 = iso8601Week" and "r \<in> set (draw_rows o1 m n c)"
  shows "(week_day c = 1 \<longrightarrow> (\<forall>x \<in> set (snd r). iso8601Week (c_date x) = fst r)) \<and>
    (week_day c = 0 \<longrightarrow> iso8601Week (c_date (hd (snd r))) = fst r \<and> (\<forall>x \<in> set (tl (snd r)). iso8601Week (c_date x) \<noteq> fst r))"
proof -
  obtain i where i: "r = grid_row o1 m c i" using assms(3) by (auto simp: draw_rows_eq [OF assms(1)])
  let ?c = "add_days c (7 * int i)"
  have v: "valid_date ?c" by (rule add_days_valid [OF assms(1)])
  have wd: "week_day ?c = week_day c" by (simp add: week_day_dvd add_days_number [OF assms(1)])
  have z: "add_days ?c 0 = ?c" using v by (cases ?c) (simp add: add_days_def carry_valid)
  have r: "r = (iso8601Week ?c, map (\<lambda>k. draw_cell o1 m (add_days ?c (int k))) [0..<7])"
    by (simp add: i grid_row_def assms(2) add_days_add [OF assms(1)])
  have "iso8601Week (add_days ?c (int k)) = iso8601Week ?c" if "week_day c = 1" "k < 7" for k
    using thursday_of_monday [OF v, of "int k"] thursday_of_monday [OF v, of 0] that wd z by (simp add: iso8601Week_def)
  moreover have "iso8601Week (add_days ?c (int k)) \<noteq> iso8601Week ?c" if "week_day c = 0" "1 \<le> k" "k < 7" for k
  proof -
    have t: "valid_date (thursday ?c)" "thursday ?c = add_days ?c (-3)" using add_days_valid [OF v] that(1) wd by (simp_all add: thursday_def)
    have "week_day (add_days ?c 1) = 1" using week_day_add [OF v, of 1] that(1) wd by simp
    from thursday_of_monday [OF add_days_valid [OF v] this, of "int k - 1"] have "thursday (add_days ?c (int k)) = add_days (thursday ?c) 7"
      using that(2,3) by (simp add: add_days_add [OF v] t(2))
    then show ?thesis using iso_week_next [OF t(1)] by (simp add: iso8601Week_def Let_def)
  qed
  moreover have "hd (snd r) = draw_cell o1 m ?c" "tl (snd r) = map (\<lambda>k. draw_cell o1 m (add_days ?c (int k))) [1..<7]"
    unfolding r using z by (simp_all add: upt_conv_Cons)
  ultimately show ?thesis by (auto simp: r draw_cell_def Let_def)
qed

theorem week_column_witness:
  "let r = hd (draw_rows plain_calendar 4 1 (2016, 4, 1)) in iso8601Week (c_date (hd (tl (snd r)))) \<noteq> fst r"
proof -
  let ?r = "hd (draw_rows plain_calendar 4 1 (2016, 4, 1))"
  have v: "valid_date (2016, 4, 1)" by (simp add: valid_date_def month_days_def)
  have rows: "draw_rows plain_calendar 4 1 (2016, 4, 1) = [grid_row plain_calendar 4 (2016, 4, 1) 0]" using draw_rows_eq [OF v, of plain_calendar 4 1] by simp
  then have r: "?r \<in> set (draw_rows plain_calendar 4 1 (2016, 4, 1))" "tl (snd ?r) \<noteq> []" by (simp_all add: grid_row_def upt_conv_Cons)
  have "week_day (2016, 4, 1) = 0" by (simp add: week_day_def day_number_def year_start_def month_start_table leap_def)
  then have "\<forall>x \<in> set (tl (snd ?r)). iso8601Week (c_date x) \<noteq> fst ?r"
    using week_column [OF v _ r(1)] by (simp add: plain_calendar_def del: draw_rows.simps)
  then show ?thesis using r(2) by (simp add: Let_def del: draw_rows.simps)
qed

subsection \<open>Several months\<close>

text \<open>
  The months of a drawing follow each other, and each has between its own number of rows and six.
\<close>

definition month_index :: "drawing \<Rightarrow> int" where
  "month_index s = 12 * drawYear s + drawMonth s"

definition drawn :: "draw_settings \<Rightarrow> int \<Rightarrow> (int \<times> cell list) list \<Rightarrow> bool" where
  "drawn o1 i v \<longleftrightarrow> (\<exists>n. v = draw_month o1 (i div 12) (i mod 12) n \<and> curRows o1 (i div 12) (i mod 12) \<le> n \<and> n \<le> 6)"

definition drawing_ok :: "drawing \<Rightarrow> bool" where
  "drawing_ok s \<longleftrightarrow> 0 \<le> drawMonth s \<and> drawMonth s \<le> 11 \<and> maxRows s \<le> 6"

lemma month_index_parts: "drawing_ok s \<Longrightarrow> month_index s div 12 = drawYear s \<and> month_index s mod 12 = drawMonth s"
  by (auto simp: month_index_def drawing_ok_def)

lemma draw_next_month:
  assumes "drawing_ok s" and "0 \<le> firstDay o1" and "firstDay o1 \<le> 6"
  shows "case draw_next o1 sel s of (v, s') \<Rightarrow> drawn o1 (month_index s) v \<and> drawing_ok s' \<and> month_index s' = month_index s + 1"
proof -
  have r: "curRows o1 (drawYear s) (drawMonth s) \<le> 6" by (rule curRows_range(2) [OF assms(2,3)])
  have "drawn o1 (month_index s) (draw_month o1 (drawYear s) (drawMonth s) n)" if "curRows o1 (drawYear s) (drawMonth s) \<le> n" "n \<le> 6" for n
    using month_index_parts [OF assms(1)] that by (auto simp: drawn_def)
  then show ?thesis using r assms(1) by (auto simp: draw_next_def Let_def drawing_ok_def month_index_def)
qed

lemma draw_cols_months:
  assumes "0 \<le> firstDay o1" and "firstDay o1 \<le> 6"
  shows "drawing_ok s \<Longrightarrow> case draw_cols o1 sel n s of (vs, s') \<Rightarrow> length vs = n \<and> (\<forall>k < n. drawn o1 (month_index s + int k) (vs ! k)) \<and>
    drawing_ok s' \<and> month_index s' = month_index s + int n"
proof (induction n arbitrary: s)
  case (Suc n)
  obtain v s1 where 1: "draw_next o1 sel s = (v, s1)" by (cases "draw_next o1 sel s")
  obtain vs s2 where 2: "draw_cols o1 sel n s1 = (vs, s2)" by (cases "draw_cols o1 sel n s1")
  have a: "drawn o1 (month_index s) v" "drawing_ok s1" "month_index s1 = month_index s + 1" using draw_next_month [OF Suc.prems assms, of sel] 1 by auto
  have b: "length vs = n" "\<forall>k < n. drawn o1 (month_index s1 + int k) (vs ! k)" "drawing_ok s2" "month_index s2 = month_index s1 + int n"
    using Suc.IH [OF a(2)] 2 by auto
  have "drawn o1 (month_index s + int k) ((v # vs) ! k)" if "k < Suc n" for k
    using that a b(2) by (cases k) (auto simp: algebra_simps)
  then show ?case using 1 2 a b by simp
qed simp

text \<open>
  A drawing of several months shows consecutive months: the months of all rows of the view, read in
  order, are the month the view starts with and those after it, over the ends of years, and each
  is drawn with rows enough for all its days.
\<close>

theorem months_consecutive:
  assumes "0 \<le> firstDay o1" and "firstDay o1 \<le> 6" and "drawing_ok s"
  shows "case draw_groups o1 sel n s of (gs, s') \<Rightarrow>
    length (concat gs) = n * snd (numMonths o1) \<and> (\<forall>k < n * snd (numMonths o1). drawn o1 (month_index s + int k) (concat gs ! k)) \<and>
    drawing_ok s' \<and> month_index s' = month_index s + int (n * snd (numMonths o1))"
  using assms(3)
proof (induction n arbitrary: s)
  case (Suc n)
  let ?w = "snd (numMonths o1)" and ?s = "s\<lparr>maxRows := 4\<rparr>"
  have ok: "drawing_ok ?s" "month_index ?s = month_index s" using Suc.prems by (simp_all add: drawing_ok_def month_index_def)
  obtain g s1 where 1: "draw_cols o1 sel ?w ?s = (g, s1)" by (cases "draw_cols o1 sel ?w ?s")
  obtain gs s2 where 2: "draw_groups o1 sel n s1 = (gs, s2)" by (cases "draw_groups o1 sel n s1")
  have a: "length g = ?w" "\<forall>k < ?w. drawn o1 (month_index s + int k) (g ! k)" "drawing_ok s1" "month_index s1 = month_index s + int ?w"
    using draw_cols_months [OF assms(1,2) ok(1), where sel = sel and n = ?w] 1 ok(2) by auto
  have b: "length (concat gs) = n * ?w" "\<forall>k < n * ?w. drawn o1 (month_index s1 + int k) (concat gs ! k)" "drawing_ok s2"
    "month_index s2 = month_index s1 + int (n * ?w)" using Suc.IH [OF a(3)] 2 by auto
  have "drawn o1 (month_index s + int k) ((g @ concat gs) ! k)" if "k < Suc n * ?w" for k
  proof (cases "k < ?w")
    case False
    then have "k - ?w < n * ?w" "month_index s1 + int (k - ?w) = month_index s + int k" using that a(4) by auto
    then show ?thesis using b(2) a(1) False by (metis nth_append)
  qed (use a in \<open>simp add: nth_append\<close>)
  then show ?case using 1 2 a b by (auto simp: algebra_simps)
qed simp

theorem months_consecutive_witness:
  "length (concat (fst (draw_groups (plain_calendar\<lparr>numMonths := (2, 3)\<rparr>) (2016, 1) 2 \<lparr>drawMonth = 10, drawYear = 2016, maxRows = 4, selectedDay = 1\<rparr>))) = 6"
  using months_consecutive [of "plain_calendar\<lparr>numMonths := (2, 3)\<rparr>" "\<lparr>drawMonth = 10, drawYear = 2016, maxRows = 4, selectedDay = 1\<rparr>" 2 "(2016, 1)"]
  by (simp add: plain_calendar_def drawing_ok_def split: prod.splits del: draw_groups.simps)

end
