(* ===== verification/UI_Picker.thy ===== *)
theory UI_Picker
  imports UI_Calendar
begin

text \<open>
  The state of a date picker (\<open>plugins/jquery-ui/jquery-ui.js\<close>): the day that is selected, the day that
  was chosen, the month that is drawn, and the text of the field; with the operations that change
  them: setting a date, reading the field, stepping through months, going to today, choosing a day
  of the calendar. The theorems: the selected day is a day within the limits after any sequence of
  operations; a date that is set is returned; and where the limits and the field are not kept.
\<close>

subsection \<open>Settings and state\<close>

text \<open>
  A date as a setting or an argument: none (also the empty text), a \<open>Date\<close> (of which the day counts),
  a number of days from today, a text, and what is no date (\<open>NaN\<close>, or an invalid \<open>Date\<close>).
\<close>

datatype date_spec = No_date | At cal | Days int | Words ustr | Not_number | Invalid

record picker_settings =
  dateFormat :: ustr
  min_spec :: date_spec
  max_spec :: date_spec
  default_spec :: date_spec
  yearRange :: "ustr option"
  gotoCurrent :: bool
  drawing_of :: draw_settings
  denv :: date_env

record inst =
  selected :: cal
  current :: cal                       \<comment> \<open>year 0: no day was chosen\<close>
  drawn_month :: "int \<times> int"
  lastVal :: "ustr option"
  input_val :: ustr
  notified :: "(int \<times> int) list"       \<comment> \<open>calls of \<open>onChangeMonthYear\<close>, the latest first\<close>

subsection \<open>Dates as they are given\<close>

text \<open>
  The matches of \<open>([+\-]?[0-9]+)\s*(d|D|w|W|m|M|y|Y)?\<close> in a text: numbers with their units, \<open>d\<close> if none.
\<close>

definition unit_letters :: "nat set" where
  "unit_letters = {100, 68, 119, 87, 109, 77, 121, 89}"

lemma offsets_shorter:
  assumes "rest = drop (length ds) (if is_digit c then c # s else s)" and "ds \<noteq> []" and "r = dropWhile js_ws rest"
  shows "length r \<le> length s"
proof -
  have "length r \<le> length rest" unfolding assms(3) by (rule length_dropWhile_le)
  moreover have "length rest \<le> length s" using assms(1,2) by (cases ds) auto
  ultimately show ?thesis by simp
qed

function offsets :: "ustr \<Rightarrow> (int \<times> nat) list" where
  "offsets [] = []"
| "offsets (c # s) =
     (let ds = takeWhile is_digit (if is_digit c then c # s else s); rest = drop (length ds) (if is_digit c then c # s else s);
          n = int (nat_of_digits 0 ds); v = (if c = 45 then - n else n) in
      if ds \<noteq> [] \<and> (is_digit c \<or> c \<in> {43, 45})
      then (let r = dropWhile js_ws rest in
            if r \<noteq> [] \<and> hd r \<in> unit_letters then (v, hd r) # offsets (tl r) else (v, 100) # offsets r)
      else offsets s)"
  by pat_completeness auto

termination
proof (relation "measure length", goal_cases)
  case (2 c s ds rest n v r)
  have "length r \<le> length s" "r \<noteq> []" using offsets_shorter [OF 2(2)] 2(5-7) by blast+
  then show ?case by (cases r) simp_all
next
  case (3 c s ds rest n v r)
  have "length r \<le> length s" using offsets_shorter [OF 3(2)] 3(5-7) by blast
  then show ?case by simp
qed simp_all

fun apply_offset :: "int \<times> int \<times> int \<Rightarrow> int \<times> nat \<Rightarrow> int \<times> int \<times> int" where
  "apply_offset (year, month, day) (n, x) =
     (if x \<in> {100, 68} then (year, month, day + n)
      else if x \<in> {119, 87} then (year, month, day + n * 7)
      else if x \<in> {109, 77} then (year, month + n, min day (getDaysInMonth year (month + n)))
      else (year + n, month, min day (getDaysInMonth (year + n) month)))"

definition getDate :: "inst \<Rightarrow> cal option" where
  "getDate s = (if fst (current s) = 0 \<or> input_val s = [] then None else (case current s of (y, m, d) \<Rightarrow> Some (make_date y m d)))"

definition offsetString :: "picker_settings \<Rightarrow> cal \<Rightarrow> inst \<Rightarrow> ustr \<Rightarrow> cal option" where
  "offsetString o1 now s offset =
     (case parseDate (denv o1) (Some (dateFormat o1)) (Some offset) of
        Inr d \<Rightarrow> d
      | Inl e \<Rightarrow>
          (let base = (if offset \<noteq> [] \<and> lc (denv o1) (hd offset) = 99 then (case getDate s of Some c \<Rightarrow> c | None \<Rightarrow> now) else now);
               (y, m, d) = foldl apply_offset base (offsets offset)
           in Some (make_date y m d)))"

definition determineDate :: "picker_settings \<Rightarrow> cal \<Rightarrow> inst \<Rightarrow> date_spec \<Rightarrow> cal option \<Rightarrow> cal option" where
  "determineDate o1 now s spec dflt =
     (case spec of
        No_date \<Rightarrow> dflt
      | Words w \<Rightarrow> if w = [] then dflt else offsetString o1 now s w
      | Days n \<Rightarrow> Some (add_days now n)
      | At c \<Rightarrow> Some c
      | Not_number \<Rightarrow> dflt
      | Invalid \<Rightarrow> dflt)"

definition getMinDate :: "picker_settings \<Rightarrow> cal \<Rightarrow> inst \<Rightarrow> cal option" where
  "getMinDate o1 now s = determineDate o1 now s (min_spec o1) None"

definition getMaxDate :: "picker_settings \<Rightarrow> cal \<Rightarrow> inst \<Rightarrow> cal option" where
  "getMaxDate o1 now s = determineDate o1 now s (max_spec o1) None"

definition clamp :: "cal option \<Rightarrow> cal option \<Rightarrow> cal \<Rightarrow> cal" where
  "clamp lo hi date =
     (let newDate = (case lo of Some l \<Rightarrow> if date_less date l then l else date | None \<Rightarrow> date) in
      case hi of Some h \<Rightarrow> if date_less h newDate then h else newDate | None \<Rightarrow> newDate)"

definition restrictMinMax :: "picker_settings \<Rightarrow> cal \<Rightarrow> inst \<Rightarrow> cal \<Rightarrow> cal" where
  "restrictMinMax o1 now s date = clamp (getMinDate o1 now s) (getMaxDate o1 now s) date"

text \<open>Today is the default where there is none, so there always is a default date.\<close>

definition getDefaultDate :: "picker_settings \<Rightarrow> cal \<Rightarrow> inst \<Rightarrow> cal" where
  "getDefaultDate o1 now s =
     restrictMinMax o1 now s (case determineDate o1 now s (default_spec o1) (Some now) of Some c \<Rightarrow> c | None \<Rightarrow> now)"

subsection \<open>Operations\<close>

definition notifyChange :: "inst \<Rightarrow> inst" where
  "notifyChange s = s\<lparr>notified := (fst (selected s), fst (snd (selected s)) + 1) # notified s\<rparr>"

datatype period = By_day | By_month | By_year | No_period

definition select :: "cal \<Rightarrow> inst \<Rightarrow> inst" where
  "select = (\<lambda>(y, m, d) s. s\<lparr>selected := (y, m, d), drawn_month := (y, m)\<rparr>)"

definition adjustInstDate :: "picker_settings \<Rightarrow> cal \<Rightarrow> int \<Rightarrow> period \<Rightarrow> inst \<Rightarrow> inst" where
  "adjustInstDate o1 now offset period s =
     (let year = fst (drawn_month s) + (if period = By_year then offset else 0);
          month = snd (drawn_month s) + (if period = By_month then offset else 0);
          day = min (snd (snd (selected s))) (getDaysInMonth year month) + (if period = By_day then offset else 0);
          s = select (restrictMinMax o1 now s (make_date year month day)) s
      in if period \<in> {By_month, By_year} then notifyChange s else s)"

text \<open>\<open>_formatDate\<close> without a day: the selected day becomes the one that was chosen.\<close>

definition formatDate_inst :: "picker_settings \<Rightarrow> inst \<Rightarrow> ustr \<times> inst" where
  "formatDate_inst o1 s =
     (case selected s of (y, m, d) \<Rightarrow>
        (formatDate (denv o1) (dateFormat o1) (Some (make_date y m d)), s\<lparr>current := (y, m, d)\<rparr>))"

text \<open>\<open>clear = !date\<close>: the number 0 counts as no date.\<close>

definition clears :: "date_spec \<Rightarrow> bool" where
  "clears spec \<longleftrightarrow> spec \<in> {No_date, Words [], Days 0, Not_number}"

definition setDate :: "picker_settings \<Rightarrow> cal \<Rightarrow> date_spec \<Rightarrow> bool \<Rightarrow> inst \<Rightarrow> inst" where
  "setDate o1 now spec noChange s =
     (let newDate = restrictMinMax o1 now s (case determineDate o1 now s spec (Some now) of Some c \<Rightarrow> c | None \<Rightarrow> now);
          old = selected s;
          s = (select newDate s)\<lparr>current := newDate\<rparr>;
          s = (if (fst old, fst (snd old)) \<noteq> (fst newDate, fst (snd newDate)) \<and> \<not> noChange then notifyChange s else s);
          s = adjustInstDate o1 now 0 No_period s
      in if clears spec then s\<lparr>input_val := []\<rparr>
         else (let (v, s) = formatDate_inst o1 s in s\<lparr>input_val := v\<rparr>))"

definition setDateFromField :: "picker_settings \<Rightarrow> cal \<Rightarrow> bool \<Rightarrow> inst \<Rightarrow> inst" where
  "setDateFromField o1 now noDefault s =
     (if Some (input_val s) = lastVal s then s
      else (let dates = input_val s; s = s\<lparr>lastVal := Some dates\<rparr>; defaultDate = getDefaultDate o1 now s;
                (date, dates) = (case parseDate (denv o1) (Some (dateFormat o1)) (Some dates) of
                    Inr (Some c) \<Rightarrow> (c, dates)
                  | Inr None \<Rightarrow> (defaultDate, dates)
                  | Inl e \<Rightarrow> (defaultDate, if noDefault then [] else dates))
            in adjustInstDate o1 now 0 No_period ((select date s)\<lparr>current := (if dates \<noteq> [] then date else (0, 0, 0))\<rparr>)))"

definition getDateDatepicker :: "picker_settings \<Rightarrow> cal \<Rightarrow> bool \<Rightarrow> inst \<Rightarrow> cal option \<times> inst" where
  "getDateDatepicker o1 now noDefault s = (let s = setDateFromField o1 now noDefault s in (getDate s, s))"

text \<open>Drawing moves the month that is drawn, and the selected day into it if it is drawn.\<close>

definition limits_of :: "picker_settings \<Rightarrow> cal \<Rightarrow> inst \<Rightarrow> draw_settings" where
  "limits_of o1 now s = (drawing_of o1)\<lparr>minDate := getMinDate o1 now s, maxDate := getMaxDate o1 now s\<rparr>"

definition updateDatepicker :: "picker_settings \<Rightarrow> cal \<Rightarrow> inst \<Rightarrow> inst" where
  "updateDatepicker o1 now s =
     (let w = limits_of o1 now s; (y, m) = draw_start w (fst (drawn_month s)) (snd (drawn_month s)); (sy, sm, sd) = selected s;
          (_, dr) = draw_groups w (sy, sm) (fst (numMonths w)) \<lparr>drawMonth = m, drawYear = y, maxRows = 4, selectedDay = sd\<rparr>
      in s\<lparr>drawn_month := (y, m), selected := (sy, sm, selectedDay dr)\<rparr>)"

definition adjustDate :: "picker_settings \<Rightarrow> cal \<Rightarrow> bool \<Rightarrow> int \<Rightarrow> period \<Rightarrow> inst \<Rightarrow> inst" where
  "adjustDate o1 now disabled offset period s =
     (if disabled then s
      else updateDatepicker o1 now
        (adjustInstDate o1 now (offset + (if period = By_month then showCurrentAtPos (drawing_of o1) else 0)) period s))"

definition gotoToday :: "picker_settings \<Rightarrow> cal \<Rightarrow> bool \<Rightarrow> inst \<Rightarrow> inst" where
  "gotoToday o1 now disabled s =
     (let s = select (if gotoCurrent o1 \<and> snd (snd (current s)) \<noteq> 0 then current s else now) s
      in adjustDate o1 now disabled 0 No_period (notifyChange s))"

definition selectMonth :: "picker_settings \<Rightarrow> cal \<Rightarrow> bool \<Rightarrow> int \<Rightarrow> inst \<Rightarrow> inst" where
  "selectMonth o1 now disabled m s =
     (let s = s\<lparr>selected := (fst (selected s), m, snd (snd (selected s))), drawn_month := (fst (drawn_month s), m)\<rparr>
      in adjustDate o1 now disabled 0 No_period (notifyChange s))"

definition selectYear :: "picker_settings \<Rightarrow> cal \<Rightarrow> bool \<Rightarrow> int \<Rightarrow> inst \<Rightarrow> inst" where
  "selectYear o1 now disabled y s =
     (let s = s\<lparr>selected := (y, snd (selected s)), drawn_month := (y, snd (drawn_month s))\<rparr>
      in adjustDate o1 now disabled 0 No_period (notifyChange s))"

text \<open>A click on a cell of the calendar; the text of the field is the date in the format of the picker.\<close>

definition selectDay :: "picker_settings \<Rightarrow> bool \<Rightarrow> cell \<Rightarrow> inst \<Rightarrow> inst" where
  "selectDay o1 disabled x s =
     (if c_unselectable x \<or> disabled then s
      else (case c_date x of (y, m, d) \<Rightarrow>
        s\<lparr>selected := (y, m, d), current := (y, m, d), input_val := formatDate (denv o1) (dateFormat o1) (Some (make_date y m d))\<rparr>))"

definition clearDate :: "inst \<Rightarrow> inst" where
  "clearDate s = s\<lparr>input_val := []\<rparr>"

text \<open>A key was released: the field is read if it has a date.\<close>

definition doKeyUp :: "picker_settings \<Rightarrow> cal \<Rightarrow> inst \<Rightarrow> inst" where
  "doKeyUp o1 now s =
     (if Some (input_val s) \<noteq> lastVal s
      then (case parseDate (denv o1) (Some (dateFormat o1)) (Some (input_val s)) of
          Inr (Some _) \<Rightarrow> updateDatepicker o1 now (setDateFromField o1 now False s)
        | _ \<Rightarrow> s)
      else s)"

subsection \<open>What is offered\<close>

text \<open>
  \<open>_isInRange\<close>, which the buttons are drawn by. A limit of the years that is no number, or 0, does not
  count; None: a range without a colon raises an exception.
\<close>

definition signed :: "ustr \<Rightarrow> bool" where
  "signed s \<longleftrightarrow> 43 \<in> set s \<or> 45 \<in> set s"

definition year_limit :: "cal \<Rightarrow> ustr \<Rightarrow> int option" where
  "year_limit now s =
     (case parseInt10 s of
        None \<Rightarrow> None
      | Some n \<Rightarrow> (let n = (if signed s then n + fst now else n) in if n = 0 then None else Some n))"

definition isInRange :: "picker_settings \<Rightarrow> cal \<Rightarrow> inst \<Rightarrow> cal \<Rightarrow> bool option" where
  "isInRange o1 now s date =
     (let ok = \<not> too_early (getMinDate o1 now s) date \<and> \<not> too_late (getMaxDate o1 now s) date in
      case yearRange o1 of
        None \<Rightarrow> Some ok
      | Some r \<Rightarrow>
          if r = [] then Some ok
          else (case split_on 58 [] r of
              a # b # _ \<Rightarrow> Some (ok \<and> (case year_limit now a of Some n \<Rightarrow> n \<le> fst date | None \<Rightarrow> True) \<and>
                (case year_limit now b of Some n \<Rightarrow> fst date \<le> n | None \<Rightarrow> True))
            | _ \<Rightarrow> None))"

definition canAdjustMonth :: "picker_settings \<Rightarrow> cal \<Rightarrow> inst \<Rightarrow> int \<Rightarrow> int \<Rightarrow> int \<Rightarrow> bool option" where
  "canAdjustMonth o1 now s offset curYear curMonth =
     (let (y, m, d) = make_date curYear (curMonth + (if offset < 0 then offset else int (fst (numMonths (drawing_of o1)) * snd (numMonths (drawing_of o1))))) 1 in
      isInRange o1 now s (if offset < 0 then add_days (y, m, d) (getDaysInMonth y m - d) else (y, m, d)))"

text \<open>The months and the years in the lists of \<open>_generateMonthYearHeader\<close>.\<close>

definition offered_months :: "cal option \<Rightarrow> cal option \<Rightarrow> int \<Rightarrow> int list" where
  "offered_months lo hi year =
     filter (\<lambda>month. (case lo of Some (y, m, d) \<Rightarrow> y = year \<longrightarrow> month \<ge> m | None \<Rightarrow> True) \<and>
       (case hi of Some (y, m, d) \<Rightarrow> y = year \<longrightarrow> month \<le> m | None \<Rightarrow> True)) [0..11]"

definition determineYear :: "cal \<Rightarrow> int \<Rightarrow> ustr \<Rightarrow> int" where
  "determineYear now year value =
     (let r = (if contains [99, 43] value \<or> contains [99, 45] value then map_option ((+) year) (parseInt10 (drop 1 value))
        else if signed value then map_option ((+) (fst now)) (parseInt10 value) else parseInt10 value)
      in case r of Some n \<Rightarrow> n | None \<Rightarrow> fst now)"

definition offered_years :: "cal option \<Rightarrow> cal option \<Rightarrow> cal \<Rightarrow> int \<Rightarrow> ustr \<Rightarrow> int list" where
  "offered_years lo hi now year yr =
     (let years = split_on 58 [] yr; a = determineYear now year (hd years);
          b = max a (determineYear now year (if length years > 1 then years ! 1 else []));
          a = (case lo of Some l \<Rightarrow> max a (fst l) | None \<Rightarrow> a); b = (case hi of Some h \<Rightarrow> min b (fst h) | None \<Rightarrow> b)
      in [a..b])"

subsection \<open>Limits\<close>

definition in_range :: "cal option \<Rightarrow> cal option \<Rightarrow> cal \<Rightarrow> bool" where
  "in_range lo hi c \<longleftrightarrow> \<not> too_early lo c \<and> \<not> too_late hi c"

lemma date_less_irrefl [simp]: "\<not> date_less c c"
  by (cases c) (simp add: date_less_def)

lemma date_less_trans: "date_less a b \<Longrightarrow> date_less b c \<Longrightarrow> date_less a c"
  by (cases a; cases b; cases c) (auto simp: date_less_def)

lemma clamp_in_range:
  assumes "\<And>l h. lo = Some l \<Longrightarrow> hi = Some h \<Longrightarrow> \<not> date_less h l"
  shows "in_range lo hi (clamp lo hi c)"
  using assms date_less_linear by (cases lo; cases hi) (auto simp: in_range_def clamp_def too_early_def too_late_def Let_def)

lemma clamp_id: "in_range lo hi c \<Longrightarrow> clamp lo hi c = c"
  by (cases lo; cases hi) (auto simp: in_range_def clamp_def too_early_def too_late_def)

lemma clamp_valid:
  assumes "valid_date c" and "\<And>l. lo = Some l \<Longrightarrow> valid_date l" and "\<And>h. hi = Some h \<Longrightarrow> valid_date h"
  shows "valid_date (clamp lo hi c)"
  using assms by (cases lo; cases hi) (auto simp: clamp_def Let_def)

text \<open>
  Limits that are days of the calendar, in order. The lower limit lies after the years that \<open>Date\<close>
  takes for those of the last century.
\<close>

fun spec_day :: "date_spec \<Rightarrow> cal option" where
  "spec_day (At c) = Some c"
| "spec_day _ = None"

definition absolute :: "date_spec \<Rightarrow> bool" where
  "absolute spec \<longleftrightarrow> spec = No_date \<or> (\<exists>c. spec = At c \<and> valid_date c)"

definition good_limits :: "picker_settings \<Rightarrow> bool" where
  "good_limits o1 \<longleftrightarrow> absolute (min_spec o1) \<and> absolute (max_spec o1) \<and>
     (\<forall>l. min_spec o1 = At l \<longrightarrow> 100 \<le> fst l) \<and> (\<forall>l h. min_spec o1 = At l \<longrightarrow> max_spec o1 = At h \<longrightarrow> \<not> date_less h l) \<and>
     0 \<le> showCurrentAtPos (drawing_of o1) \<and> showCurrentAtPos (drawing_of o1) \<le> 11"

definition within :: "picker_settings \<Rightarrow> cal \<Rightarrow> bool" where
  "within o1 c \<longleftrightarrow> in_range (spec_day (min_spec o1)) (spec_day (max_spec o1)) c"

lemma limits_absolute:
  assumes "good_limits o1"
  shows "getMinDate o1 now s = spec_day (min_spec o1)" "getMaxDate o1 now s = spec_day (max_spec o1)"
  using assms by (auto simp: good_limits_def absolute_def getMinDate_def getMaxDate_def determineDate_def)

lemma restrict_within:
  assumes "good_limits o1"
  shows "valid_date c \<Longrightarrow> valid_date (restrictMinMax o1 now s c)" "within o1 (restrictMinMax o1 now s c)"
    "within o1 c \<Longrightarrow> restrictMinMax o1 now s c = c"
proof -
  have r: "restrictMinMax o1 now s c = clamp (spec_day (min_spec o1)) (spec_day (max_spec o1)) c"
    by (simp add: restrictMinMax_def limits_absolute [OF assms])
  have a: "spec_day (min_spec o1) = Some l \<longleftrightarrow> min_spec o1 = At l" "spec_day (max_spec o1) = Some l \<longleftrightarrow> max_spec o1 = At l" for l
    by (cases "min_spec o1"; simp) (cases "max_spec o1"; simp)
  show "valid_date c \<Longrightarrow> valid_date (restrictMinMax o1 now s c)"
    unfolding r by (rule clamp_valid) (use assms in \<open>auto simp: a good_limits_def absolute_def\<close>)
  show "within o1 (restrictMinMax o1 now s c)"
    unfolding r within_def by (rule clamp_in_range) (use assms in \<open>auto simp: a good_limits_def\<close>)
  show "within o1 c \<Longrightarrow> restrictMinMax o1 now s c = c" unfolding r within_def by (rule clamp_id)
qed

subsection \<open>The selected day stays within the limits\<close>

definition inst_ok :: "picker_settings \<Rightarrow> inst \<Rightarrow> bool" where
  "inst_ok o1 s \<longleftrightarrow> valid_date (selected s) \<and> within o1 (selected s) \<and> 0 \<le> snd (drawn_month s) \<and> snd (drawn_month s) \<le> 11"

lemma select_ok: "valid_date c \<Longrightarrow> within o1 c \<Longrightarrow> inst_ok o1 (select c s)"
  by (cases c) (simp add: select_def inst_ok_def valid_date_def)

lemma adjustInstDate_ok: "good_limits o1 \<Longrightarrow> inst_ok o1 (adjustInstDate o1 now n p s)"
  using select_ok [OF restrict_within(1,2) [of o1]] make_date_is_valid
  by (auto simp: adjustInstDate_def Let_def notifyChange_def inst_ok_def)

lemma inst_ok_rest [simp]: "inst_ok o1 (s\<lparr>current := c\<rparr>) = inst_ok o1 s" "inst_ok o1 (s\<lparr>input_val := v\<rparr>) = inst_ok o1 s"
  "inst_ok o1 (s\<lparr>lastVal := w\<rparr>) = inst_ok o1 s"
  by (simp_all add: inst_ok_def)

lemma setDate_ok: "good_limits o1 \<Longrightarrow> inst_ok o1 (setDate o1 now spec nc s)"
  by (auto simp: setDate_def Let_def formatDate_inst_def adjustInstDate_ok split: prod.splits)

lemma setDateFromField_ok: "good_limits o1 \<Longrightarrow> lastVal s \<noteq> Some (input_val s) \<or> inst_ok o1 s \<Longrightarrow> inst_ok o1 (setDateFromField o1 now nd s)"
  by (auto simp: setDateFromField_def Let_def adjustInstDate_ok split: prod.splits)

lemma draw_back_month: "0 \<le> m \<Longrightarrow> m \<le> 11 \<Longrightarrow> 0 \<le> snd (draw_back h y m) \<and> snd (draw_back h y m) \<le> 11"
proof (induction h y m rule: draw_back.induct)
  case (1 h y m)
  then show ?case by (subst (1 2) draw_back.simps) auto
qed

lemma draw_start_month:
  assumes "0 \<le> m" and "m \<le> 11" and "0 \<le> showCurrentAtPos w" and "showCurrentAtPos w \<le> 11"
  shows "0 \<le> snd (draw_start w y m) \<and> snd (draw_start w y m) \<le> 11"
  using assms by (auto simp: draw_start_def Let_def intro!: draw_back_month split: option.splits prod.splits)

lemma draw_next_day: "selectedDay (snd (draw_next w sel s)) \<in> {selectedDay s, min (selectedDay s) (getDaysInMonth (fst sel) (snd sel))}"
  by (cases sel) (auto simp: draw_next_def Let_def)

lemma draw_cols_day: "selectedDay (snd (draw_cols w sel n s)) \<in> {selectedDay s, min (selectedDay s) (getDaysInMonth (fst sel) (snd sel))}"
proof (induction n arbitrary: s)
  case (Suc n)
  obtain v s1 where 1: "draw_next w sel s = (v, s1)" by (cases "draw_next w sel s")
  then show ?case using Suc [of s1] draw_next_day [of w sel s] by (auto simp: min_def split: prod.splits if_splits)
qed simp

lemma draw_groups_day: "selectedDay (snd (draw_groups w sel n s)) \<in> {selectedDay s, min (selectedDay s) (getDaysInMonth (fst sel) (snd sel))}"
proof (induction n arbitrary: s)
  case (Suc n)
  obtain g s1 where 1: "draw_cols w sel (snd (numMonths w)) (s\<lparr>maxRows := 4\<rparr>) = (g, s1)" by (cases "draw_cols w sel (snd (numMonths w)) (s\<lparr>maxRows := 4\<rparr>)")
  then show ?case using Suc [of s1] draw_cols_day [of w sel "snd (numMonths w)" "s\<lparr>maxRows := 4\<rparr>"] by (auto simp: min_def split: prod.splits if_splits)
qed simp

lemma updateDatepicker_ok:
  assumes "good_limits o1" and "inst_ok o1 s"
  shows "inst_ok o1 (updateDatepicker o1 now s)"
proof -
  obtain y m d where sel: "selected s = (y, m, d)" by (cases "selected s")
  let ?w = "limits_of o1 now s" and ?st = "draw_start (limits_of o1 now s) (fst (drawn_month s)) (snd (drawn_month s))"
  let ?dr = "draw_groups ?w (y, m) (fst (numMonths ?w)) \<lparr>drawMonth = snd ?st, drawYear = fst ?st, maxRows = 4, selectedDay = d\<rparr>"
  have u: "updateDatepicker o1 now s = s\<lparr>drawn_month := ?st, selected := (y, m, selectedDay (snd ?dr))\<rparr>"
    by (simp add: updateDatepicker_def Let_def sel split: prod.splits)
  have v: "valid_date (y, m, d)" "within o1 (y, m, d)" using assms(2) sel by (simp_all add: inst_ok_def)
  have st: "0 \<le> snd ?st" "snd ?st \<le> 11" using draw_start_month [of "snd (drawn_month s)" ?w] assms by (simp_all add: inst_ok_def good_limits_def limits_of_def)
  have day: "selectedDay (snd ?dr) \<in> {d, min d (getDaysInMonth y m)}" 
    using draw_groups_day [of ?w "(y, m)" "fst (numMonths ?w)" "\<lparr>drawMonth = snd ?st, drawYear = fst ?st, maxRows = 4, selectedDay = d\<rparr>"] by simp
  show ?thesis
  proof (cases "0 \<le> y \<and> y \<le> 99")
    case False
    then have "getDaysInMonth y m = month_days y m" using v(1) by (simp add: getDaysInMonth_eq valid_date_def)
    then have "selectedDay (snd ?dr) = d" using day v(1) by (auto simp: valid_date_def)
    then show ?thesis using v st by (simp add: u inst_ok_def)
  next
    case True
    let ?d = "selectedDay (snd ?dr)"
    have d: "1 \<le> ?d" "?d \<le> d" using day v(1) getDaysInMonth_pos(1) [of y m] by (auto simp: valid_date_def)
    have "spec_day (min_spec o1) = None"
    proof (cases "min_spec o1")
      case (At l)
      then have "100 \<le> fst l" "\<not> date_less (y, m, d) l" using assms(1) v(2) by (auto simp: good_limits_def within_def in_range_def too_early_def)
      then show ?thesis using True by (cases l) (simp add: date_less_def)
    qed simp_all
    moreover have "\<not> too_late (spec_day (max_spec o1)) (y, m, ?d)" using v(2) d(2)
      by (auto simp: within_def in_range_def too_late_def date_less_def split: option.splits prod.splits)
    ultimately have "within o1 (y, m, ?d)" by (simp add: within_def in_range_def too_early_def)
    then show ?thesis using v(1) d st by (simp add: u inst_ok_def valid_date_def)
  qed
qed

lemma adjustDate_ok:
  assumes "good_limits o1"
  shows "inst_ok o1 (adjustDate o1 now False n p s)"
  using updateDatepicker_ok [OF assms adjustInstDate_ok [OF assms]] by (simp add: adjustDate_def)

lemma draw_month_cells:
  assumes "x \<in> set (concat (map snd (draw_month w y m n)))"
  shows "\<exists>c. valid_date c \<and> x = draw_cell w m c"
proof -
  let ?p = "make_date y m (1 - leadDays w y m)"
  have v: "valid_date ?p" by (rule make_date_is_valid)
  then obtain i k where "x = draw_cell w m (add_days ?p (7 * int i + int k))"
    using assms by (auto simp: draw_month_def draw_rows_eq grid_row_def)
  then show ?thesis using add_days_valid [OF v] by blast
qed

lemma selectDay_ok:
  assumes "good_limits o1" and "inst_ok o1 s" and "x \<in> set (concat (map snd (draw_month (limits_of o1 now s) y m n)))"
  shows "inst_ok o1 (selectDay o1 False x s)"
proof -
  obtain c where c: "valid_date c" "x = draw_cell (limits_of o1 now s) m c" using draw_month_cells [OF assms(3)] by blast
  have "within o1 (c_date x)" if "\<not> c_unselectable x"
    using that unfolding c(2) by (auto simp: draw_cell_def Let_def limits_of_def within_def in_range_def limits_absolute [OF assms(1)])
  moreover have "valid_date (c_date x)" using c by (simp add: draw_cell_def Let_def)
  ultimately show ?thesis using assms(2) by (auto simp: selectDay_def inst_ok_def split: prod.splits)
qed

text \<open>
  The life of a picker that is not disabled: it is opened on a field, and then any operation may follow
  at any time, with the clock going on and the user typing into the field.
\<close>

definition new_inst :: "ustr \<Rightarrow> inst" where
  "new_inst v = \<lparr>selected = (0, 0, 0), current = (0, 0, 0), drawn_month = (0, 0), lastVal = None, input_val = v, notified = []\<rparr>"

inductive picker_run :: "picker_settings \<Rightarrow> inst \<Rightarrow> bool" for o1 where
  opened: "picker_run o1 (setDateFromField o1 now nd (new_inst v))"
| typed: "picker_run o1 s \<Longrightarrow> picker_run o1 (s\<lparr>input_val := v\<rparr>)"
| read_field: "picker_run o1 s \<Longrightarrow> picker_run o1 (snd (getDateDatepicker o1 now nd s))"
| key_up: "picker_run o1 s \<Longrightarrow> picker_run o1 (doKeyUp o1 now s)"
| date_set: "picker_run o1 s \<Longrightarrow> picker_run o1 (setDate o1 now spec nc s)"
| redrawn: "picker_run o1 s \<Longrightarrow> picker_run o1 (updateDatepicker o1 now s)"
| stepped: "picker_run o1 s \<Longrightarrow> picker_run o1 (adjustDate o1 now False n p s)"
| today: "picker_run o1 s \<Longrightarrow> picker_run o1 (gotoToday o1 now False s)"
| month_chosen: "picker_run o1 s \<Longrightarrow> picker_run o1 (selectMonth o1 now False m s)"
| year_chosen: "picker_run o1 s \<Longrightarrow> picker_run o1 (selectYear o1 now False y s)"
| day_chosen: "picker_run o1 s \<Longrightarrow> x \<in> set (concat (map snd (draw_month (limits_of o1 now s) y m n))) \<Longrightarrow> picker_run o1 (selectDay o1 False x s)"
| cleared: "picker_run o1 s \<Longrightarrow> picker_run o1 (clearDate s)"

lemma picker_run_ok:
  assumes "good_limits o1" and "picker_run o1 s"
  shows "inst_ok o1 s"
  using assms(2,1)
proof (induction rule: picker_run.induct)
  case (opened now nd v)
  then show ?case using setDateFromField_ok [of o1 "new_inst v"] by (simp add: new_inst_def)
next
  case (read_field s now nd)
  then show ?case using setDateFromField_ok [of o1 s] by (simp add: getDateDatepicker_def Let_def)
next
  case (key_up s now)
  then have "inst_ok o1 (setDateFromField o1 now False s)" by (intro setDateFromField_ok) auto
  then show ?case using key_up updateDatepicker_ok [of o1 "setDateFromField o1 now False s" now]
    by (auto simp: doKeyUp_def split: sum.splits option.splits)
next
  case (day_chosen s x now y m n)
  then show ?case using selectDay_ok by blast
qed (simp_all add: setDate_ok updateDatepicker_ok adjustDate_ok gotoToday_def selectMonth_def selectYear_def clearDate_def Let_def)

text \<open>
  C20. The selected day of a date picker is always a day of the calendar within the limits, whatever was
  done before: text typed and read, dates set as days, numbers or words, months and years stepped or
  chosen from the lists, today, days clicked, drawings in between, at any times. The month that is
  drawn is one of the twelve.
\<close>

theorem picker_in_range:
  assumes "good_limits o1" and "picker_run o1 s"
  shows "valid_date (selected s) \<and> in_range (spec_day (min_spec o1)) (spec_day (max_spec o1)) (selected s) \<and>
    0 \<le> snd (drawn_month s) \<and> snd (drawn_month s) \<le> 11"
  using picker_run_ok [OF assms] by (simp add: inst_ok_def within_def)

definition us_picker :: picker_settings where
  "us_picker = \<lparr>dateFormat = u ''mm/dd/yy'', min_spec = At (2016, 0, 10), max_spec = No_date, default_spec = No_date, yearRange = None,
     gotoCurrent = False, drawing_of = plain_calendar, denv = english_env\<rparr>"

lemma us_picker_limits: "good_limits us_picker"
  by (simp add: good_limits_def us_picker_def absolute_def plain_calendar_def valid_date_def month_days_def)

theorem picker_in_range_witness:
  "valid_date (selected (gotoToday us_picker (2015, 5, 1) False (setDateFromField us_picker (2015, 5, 1) False (new_inst []))))"
  using picker_in_range [OF us_picker_limits today [OF opened]] by blast

subsection \<open>Setting and getting\<close>

lemma adjust_keeps:
  assumes "good_limits o1" and "valid_date c" and "within o1 c" and "\<not> (0 \<le> fst c \<and> fst c \<le> 99)"
    and "selected s = c" and "drawn_month s = (fst c, fst (snd c))"
  shows "adjustInstDate o1 now n No_period s = s"
proof -
  obtain y m d where c: "c = (y, m, d)" by (cases c)
  have "getDaysInMonth y m = month_days y m" using assms(2,4) c by (simp add: getDaysInMonth_eq valid_date_def)
  then have "min d (getDaysInMonth y m) = d" using assms(2) c by (simp add: valid_date_def)
  moreover have "make_date y m d = c" using make_date_valid assms(2,4) c by simp
  ultimately have "adjustInstDate o1 now n No_period s = select c s"
    using assms(5,6) c restrict_within(3) [OF assms(1,3)] by (simp add: adjustInstDate_def Let_def)
  then show ?thesis using assms(5,6) c by (simp add: select_def)
qed

lemma setDate_sets:
  assumes "good_limits o1" and "valid_date c" and "within o1 c" and "\<not> (0 \<le> fst c \<and> fst c \<le> 99)"
  shows "selected (setDate o1 now (At c) nc s) = c \<and> current (setDate o1 now (At c) nc s) = c \<and>
    input_val (setDate o1 now (At c) nc s) = formatDate (denv o1) (dateFormat o1) (Some c)"
proof -
  obtain y m d where c: "c = (y, m, d)" by (cases c)
  define s1 where "s1 = (select c s)\<lparr>current := c\<rparr>"
  define s2 where "s2 = (if (fst (selected s), fst (snd (selected s))) \<noteq> (fst c, fst (snd c)) \<and> \<not> nc then notifyChange s1 else s1)"
  have s2: "selected s2 = c" "current s2 = c" "drawn_month s2 = (fst c, fst (snd c))" by (simp_all add: s2_def s1_def notifyChange_def select_def c)
  have "make_date y m d = c" using make_date_valid assms(2,4) c by simp
  moreover have "setDate o1 now (At c) nc s = (let (v, s) = formatDate_inst o1 (adjustInstDate o1 now 0 No_period s2) in s\<lparr>input_val := v\<rparr>)"
    using restrict_within(3) [OF assms(1,3)]
    by (simp add: setDate_def determineDate_def clears_def Let_def s2_def s1_def)
  moreover have "adjustInstDate o1 now 0 No_period s2 = s2" by (rule adjust_keeps [OF assms s2(1,3)])
  ultimately show ?thesis using s2 c by (simp add: formatDate_inst_def)
qed

lemma get_shown:
  assumes "valid_date c" and "100 \<le> fst c" and "good_format (denv o1) (dateFormat o1) (fst c)"
    and "current s = c" and "input_val s = formatDate (denv o1) (dateFormat o1) (Some c)"
  shows "getDate s = Some c" and "input_val s \<noteq> []" and "fst (getDateDatepicker o1 now nd s) = Some c"
    and "current (snd (getDateDatepicker o1 now nd s)) = c" and "input_val (snd (getDateDatepicker o1 now nd s)) = input_val s"
proof -
  obtain a b d where c: "c = (a, b, d)" by (cases c)
  have p: "parseDate (denv o1) (Some (dateFormat o1)) (Some (formatDate (denv o1) (dateFormat o1) (Some c))) = Inr (Some c)"
    using parse_format assms(1-3) c by simp
  then show ne: "input_val s \<noteq> []" using assms(5) by (auto simp: parseDate_def)
  have "make_date a b d = c" using make_date_valid [of a b d] assms(1,2) c by simp
  then have get: "getDate s' = Some c" if "current s' = c" "input_val s' \<noteq> []" for s'
    using that assms(2) c by (simp add: getDate_def)
  then show "getDate s = Some c" using ne assms(4) by simp
  have "setDateFromField o1 now nd s = (if Some (input_val s) = lastVal s then s
      else adjustInstDate o1 now 0 No_period ((select c (s\<lparr>lastVal := Some (input_val s)\<rparr>))\<lparr>current := c\<rparr>))"
    using p ne assms(5) by (auto simp: setDateFromField_def Let_def)
  then have f: "current (setDateFromField o1 now nd s) = c" "input_val (setDateFromField o1 now nd s) = input_val s"
    using assms(4) by (auto simp: adjustInstDate_def Let_def select_def c split: prod.splits)
  then show "fst (getDateDatepicker o1 now nd s) = Some c" using get ne by (simp add: getDateDatepicker_def Let_def)
  from f show "current (snd (getDateDatepicker o1 now nd s)) = c" "input_val (snd (getDateDatepicker o1 now nd s)) = input_val s"
    by (simp_all add: getDateDatepicker_def Let_def)
qed

text \<open>
  C23. A date that is set is the date that is returned. After \<open>setDate\<close> with a day within the limits, the
  field has the text of that day, and \<open>getDate\<close>, which reads the field again, returns it, whatever the
  state of the picker was.
\<close>

theorem set_get_date:
  assumes "good_limits o1" and "valid_date c" and "within o1 c" and "100 \<le> fst c" and "good_format (denv o1) (dateFormat o1) (fst c)"
  shows "input_val (setDate o1 now (At c) nc s) = formatDate (denv o1) (dateFormat o1) (Some c) \<and>
    fst (getDateDatepicker o1 now' nd (setDate o1 now (At c) nc s)) = Some c"
proof -
  have y: "\<not> (0 \<le> fst c \<and> fst c \<le> 99)" using assms(4) by simp
  note st = setDate_sets [OF assms(1-3) y, of now nc s]
  with get_shown(3) [OF assms(2,4,5)] show ?thesis by blast
qed

theorem set_get_date_witness:
  "fst (getDateDatepicker us_picker (2016, 5, 1) False (setDate us_picker (2016, 5, 1) (At (2016, 1, 29)) False (new_inst []))) = Some (2016, 1, 29)"
proof -
  have "good_format english_env (u ''mm/dd/yy'') 2016"
    unfolding good_format_def us_format by (auto simp: has_year_def has_day_def has_month_def)
  moreover have "valid_date (2016, 1, 29)" by (simp add: valid_date_def month_days_def leap_def)
  moreover have "within us_picker (2016, 1, 29)" by (simp add: within_def us_picker_def in_range_def too_early_def too_late_def date_less_def)
  ultimately show ?thesis using set_get_date [OF us_picker_limits, of "(2016, 1, 29)"] by (simp add: us_picker_def)
qed

text \<open>
  Two ways around the picker. A date that is typed is not held to the limits: \<open>getDate\<close> returns the
  typed day even if it lies outside, while the selected day is moved to the limit. And \<open>setDate\<close> with
  the number 0, which stands for today, clears the field.
\<close>

theorem limits_not_kept:
  assumes "good_limits o1" and "valid_date c" and "100 \<le> fst c" and "good_format (denv o1) (dateFormat o1) (fst c)"
    and "input_val s = formatDate (denv o1) (dateFormat o1) (Some c)" and "lastVal s \<noteq> Some (input_val s)"
  shows "(case getDateDatepicker o1 now nd s of (d, s') \<Rightarrow> d = Some c \<and> within o1 (selected s')) \<and>
    input_val (setDate o1 now (Days 0) nc s) = []"
proof -
  obtain a b d where c: "c = (a, b, d)" by (cases c)
  have p: "parseDate (denv o1) (Some (dateFormat o1)) (Some (formatDate (denv o1) (dateFormat o1) (Some c))) = Inr (Some c)"
    using parse_format assms(2,3,4) c by simp
  then have ne: "input_val s \<noteq> []" using assms(5) by (auto simp: parseDate_def)
  let ?s = "setDateFromField o1 now nd s"
  have "?s = adjustInstDate o1 now 0 No_period ((select c (s\<lparr>lastVal := Some (input_val s)\<rparr>))\<lparr>current := c\<rparr>)"
    using p ne assms(5,6) by (auto simp: setDateFromField_def Let_def)
  then have "current ?s = c" "input_val ?s = input_val s"
    by (auto simp: adjustInstDate_def Let_def select_def c split: prod.splits)
  moreover have "make_date a b d = c" using make_date_valid [of a b d] assms(2,3) c by simp
  ultimately have "getDate ?s = Some c" using ne assms(3) c by (simp add: getDate_def)
  moreover have "within o1 (selected ?s)" using setDateFromField_ok [OF assms(1), of s] assms(6) by (auto simp: inst_ok_def)
  moreover have "input_val (setDate o1 now (Days 0) nc s) = []" by (simp add: setDate_def clears_def Let_def)
  ultimately show ?thesis by (simp add: getDateDatepicker_def Let_def)
qed

theorem limits_not_kept_witness:
  "fst (getDateDatepicker us_picker (2016, 5, 1) False (new_inst (formatDate english_env (u ''mm/dd/yy'') (Some (2015, 0, 1))))) = Some (2015, 0, 1)"
proof -
  have "good_format english_env (u ''mm/dd/yy'') 2015"
    unfolding good_format_def us_format by (auto simp: has_year_def has_day_def has_month_def)
  moreover have "valid_date (2015, 0, 1)" by (simp add: valid_date_def month_days_def)
  ultimately show ?thesis
    using limits_not_kept [OF us_picker_limits, of "(2015, 0, 1)" "new_inst (formatDate english_env (u ''mm/dd/yy'') (Some (2015, 0, 1)))" "(2016, 5, 1)" False False]
    by (simp add: us_picker_def new_inst_def case_prod_beta)
qed

subsection \<open>Stepping through months\<close>

text \<open>
  A step of any number of months leads to the month so far away, over the ends of years, with the
  same day of the month, or the last day of the month if it is shorter.
\<close>

theorem month_step_exact:
  assumes "min_spec o1 = No_date" and "max_spec o1 = No_date" and "valid_date (selected s)" and "drawn_month s = (y, m)"
    and "100 \<le> y" and "i = 12 * y + m + n" and "1200 \<le> i"
  shows "selected (adjustInstDate o1 now n By_month s) =
    (i div 12, i mod 12, min (snd (snd (selected s))) (month_days (i div 12) (i mod 12)))"
proof -
  obtain sy sm d where sel: "selected s = (sy, sm, d)" by (cases "selected s")
  have y: "\<not> (0 \<le> y \<and> y \<le> 99)" using assms(5) by simp
  have "i = (m + n) + 12 * y" using assms(6) by simp
  then have i: "i div 12 = y + (m + n) div 12" "i mod 12 = (m + n) mod 12" by simp_all
  have dim: "getDaysInMonth y (m + n) = month_days (i div 12) (i mod 12)" using getDaysInMonth_eq [OF y] by (simp add: i)
  let ?d = "min d (month_days (i div 12) (i mod 12))"
  have "0 \<le> i mod 12" "i mod 12 \<le> 11" using pos_mod_bound [of 12 i] by simp_all
  moreover have "1 \<le> ?d" using assms(3) sel month_days_bounds(1) [of "i div 12" "i mod 12"] by (simp add: valid_date_def)
  ultimately have v: "valid_date (i div 12, i mod 12, ?d)" by (simp add: valid_date_def)
  have "make_date y (m + n) ?d = (i div 12, i mod 12, ?d)"
    unfolding make_date_def Let_def if_not_P [OF y] i [symmetric] by (rule carry_valid [OF v])
  then show ?thesis using assms(1,2,4) sel dim
    by (simp add: adjustInstDate_def Let_def notifyChange_def select_def restrictMinMax_def clamp_def getMinDate_def getMaxDate_def determineDate_def)
qed

theorem month_step_exact_witness:
  "selected (adjustInstDate (us_picker\<lparr>min_spec := No_date\<rparr>) (2016, 5, 1) 13 By_month (select (2015, 0, 31) (new_inst []))) = (2016, 1, 29)"
proof -
  have "valid_date (2015, 0, 31)" by (simp add: valid_date_def month_days_def)
  then show ?thesis
    using month_step_exact [of "us_picker\<lparr>min_spec := No_date\<rparr>" "select (2015, 0, 31) (new_inst [])" 2015 0 24193 13 "(2016, 5, 1)"]
    by (simp add: us_picker_def select_def month_days_def leap_def)
qed

subsection \<open>The lists of months and years\<close>

lemma month_last: "0 \<le> m \<Longrightarrow> m \<le> 11 \<Longrightarrow> valid_date (y, m, month_days y m) \<and> valid_date (y, m, 1)"
  using month_days_bounds(1) [of y m] by (simp add: valid_date_def)

text \<open>
  The list of months offers exactly the months in which a day can be chosen: for a year between the
  limits, a month is in the list if and only if the calendar has a day in it that is not before
  the earliest and not after the latest date. No year outside the limits is in the list of years.
\<close>

theorem months_offered:
  assumes "\<And>l. lo = Some l \<Longrightarrow> valid_date l \<and> fst l \<le> year" and "\<And>h. hi = Some h \<Longrightarrow> valid_date h \<and> year \<le> fst h"
    and "\<And>l h. lo = Some l \<Longrightarrow> hi = Some h \<Longrightarrow> \<not> date_less h l"
  shows "(m \<in> set (offered_months lo hi year) \<longleftrightarrow> (\<exists>d. valid_date (year, m, d) \<and> in_range lo hi (year, m, d))) \<and>
    (\<forall>y \<in> set (offered_years lo hi now year yr). (\<forall>l. lo = Some l \<longrightarrow> fst l \<le> y) \<and> (\<forall>h. hi = Some h \<longrightarrow> y \<le> fst h))"
proof
  let ?first = "case lo of Some (y, m', d) \<Rightarrow> if y = year \<and> m' = m then d else 1 | None \<Rightarrow> 1"
  show "m \<in> set (offered_months lo hi year) \<longleftrightarrow> (\<exists>d. valid_date (year, m, d) \<and> in_range lo hi (year, m, d))"
  proof
    assume "m \<in> set (offered_months lo hi year)"
    then have m: "0 \<le> m" "m \<le> 11" "\<And>y m' d. lo = Some (y, m', d) \<Longrightarrow> y = year \<Longrightarrow> m \<ge> m'" "\<And>y m' d. hi = Some (y, m', d) \<Longrightarrow> y = year \<Longrightarrow> m \<le> m'"
      by (auto simp: offered_months_def split: option.splits prod.splits)
    have v: "valid_date (year, m, ?first)"
      using assms(1) month_last [OF m(1,2), of year] by (auto split: option.splits)
    have "\<not> too_early lo (year, m, ?first)" using assms(1) m(3) by (auto simp: too_early_def date_less_def split: option.splits)
    moreover have "\<not> too_late hi (year, m, ?first)"
      using assms m(4) by (fastforce simp: too_late_def date_less_def valid_date_def split: option.splits if_splits)
    ultimately show "\<exists>d. valid_date (year, m, d) \<and> in_range lo hi (year, m, d)" using v by (auto simp: in_range_def)
  next
    assume "\<exists>d. valid_date (year, m, d) \<and> in_range lo hi (year, m, d)"
    then show "m \<in> set (offered_months lo hi year)"
      by (auto simp: offered_months_def in_range_def too_early_def too_late_def date_less_def valid_date_def split: option.splits)
  qed
  show "\<forall>y \<in> set (offered_years lo hi now year yr). (\<forall>l. lo = Some l \<longrightarrow> fst l \<le> y) \<and> (\<forall>h. hi = Some h \<longrightarrow> y \<le> fst h)"
    by (auto simp: offered_years_def Let_def)
qed

theorem months_offered_witness:
  "0 \<notin> set (offered_months (Some (2016, 1, 10)) None 2016)"
proof -
  have "valid_date (2016, 1, 10)" by (simp add: valid_date_def month_days_def)
  then show ?thesis using months_offered [of "Some (2016, 1, 10)" 2016 None 0 "(2016, 1, 10)" "[]"]
    by (auto simp: in_range_def too_early_def date_less_def)
qed

end
