(* ===== verification/TP_Time.thy ===== *)
theory TP_Time
  imports UI_Date TableHelpers
begin

text \<open>
  Times as text: \<open>formatTime\<close>, \<open>parseTime\<close> and the time zone functions of the time picker
  (\<open>plugins/jquery-ui/jquery-ui-timepicker-addon.js\<close>), which the pages use with the formats \<open>HH:mm\<close> and
  \<open>hh:mm:ss tt\<close>. A format is taken apart by regular expressions, and \<open>strictParse\<close> builds a regular
  expression from it; \<open>re\<close> is the part of the language's regular expressions that it uses, with
  \<open>matches\<close> giving the ways to match in the order in which a backtracking matcher tries them. The
  theorems: what \<open>formatTime\<close> writes is read back; time zones likewise; and the hour that goes wrong.
\<close>

subsection \<open>Regular expressions\<close>

datatype re = Eps | Cls "nat \<Rightarrow> bool" | Plus "nat \<Rightarrow> bool" | Seq re re | Alt re re | Opt re | Group re

primrec ngroups :: "re \<Rightarrow> nat" where
  "ngroups Eps = 0"
| "ngroups (Cls p) = 0"
| "ngroups (Plus p) = 0"
| "ngroups (Seq a b) = ngroups a + ngroups b"
| "ngroups (Alt a b) = ngroups a + ngroups b"
| "ngroups (Opt a) = ngroups a"
| "ngroups (Group a) = Suc (ngroups a)"

text \<open>
  The captures and the rest of the text, in the order of preference. A group that takes no part in
  the match is undefined; an optional part that matches nothing counts as left out.
\<close>

primrec matches :: "re \<Rightarrow> ustr \<Rightarrow> (ustr option list \<times> ustr) list" where
  "matches Eps s = [([], s)]"
| "matches (Cls p) s = (case s of [] \<Rightarrow> [] | c # r \<Rightarrow> if p c then [([], r)] else [])"
| "matches (Plus p) s = map (\<lambda>k. ([], drop k s)) (rev [1..<Suc (length (takeWhile p s))])"
| "matches (Seq a b) s = concat (map (\<lambda>(cs, r). map (\<lambda>(ds, q). (cs @ ds, q)) (matches b r)) (matches a s))"
| "matches (Alt a b) s =
     map (\<lambda>(cs, r). (cs @ replicate (ngroups b) None, r)) (matches a s) @ map (\<lambda>(ds, r). (replicate (ngroups a) None @ ds, r)) (matches b s)"
| "matches (Opt a) s = filter (\<lambda>(cs, r). r \<noteq> s) (matches a s) @ [(replicate (ngroups a) None, s)]"
| "matches (Group a) s = map (\<lambda>(cs, r). (Some (take (length s - length r) s) # cs, r)) (matches a s)"

text \<open>The match of the whole text, as between \<open>^\<close> and \<open>$\<close>.\<close>

definition exec_full :: "re \<Rightarrow> ustr \<Rightarrow> ustr option list option" where
  "exec_full r s = (case filter (\<lambda>(cs, q). q = []) (matches r s) of [] \<Rightarrow> None | (cs, q) # _ \<Rightarrow> Some cs)"

subsection \<open>Settings and times\<close>

datatype tz = TzNull | TzNum int | TzStr ustr

record time_env =
  am_first :: ustr
  am_more :: "ustr list"
  pm_first :: ustr
  pm_more :: "ustr list"
  timeSuffix :: ustr
  opt_timezone :: tz
  tlc :: "nat \<Rightarrow> nat"       \<comment> \<open>\<open>toLowerCase\<close> and \<open>toUpperCase\<close>, letter by letter\<close>
  tuc :: "nat \<Rightarrow> nat"

abbreviation amNames :: "time_env \<Rightarrow> ustr list" where
  "amNames env \<equiv> am_first env # am_more env"

abbreviation pmNames :: "time_env \<Rightarrow> ustr list" where
  "pmNames env \<equiv> pm_first env # pm_more env"

record time =
  hour :: int
  minute :: int
  second :: int
  millisec :: int
  microsec :: int
  timezone :: tz

subsection \<open>Pieces of a format\<close>

text \<open>
  The matches of the token expression in a format, and the characters between. \<open>formatTime\<close> takes
  \<open>HH?|hh?\<close> where \<open>strictParse\<close> takes \<open>[hH]{1,2}\<close>: the flag \<open>mixed\<close>.
\<close>

datatype piece = Token ustr | Raw nat

definition line_end :: "nat \<Rightarrow> bool" where
  "line_end c \<longleftrightarrow> c \<in> {10, 13, 8232, 8233}"

text \<open>The length of a token at the start, 0 if there is none.\<close>

definition token_length :: "bool \<Rightarrow> ustr \<Rightarrow> nat" where
  "token_length mixed fs =
     (case fs of
        [] \<Rightarrow> 0
      | c # r \<Rightarrow>
          if c \<in> {104, 72} then (if r \<noteq> [] \<and> (hd r = c \<or> mixed \<and> hd r \<in> {104, 72}) then 2 else 1)
          else if c \<in> {109, 115} then (if r \<noteq> [] \<and> hd r = c then 2 else 1)
          else if c \<in> {116, 84} then (if r \<noteq> [] \<and> hd r \<in> {116, 84} then 2 else 1)
          else if c \<in> {122, 90, 108, 99} then 1
          else if c = 39 then
            (let body = takeWhile (\<lambda>x. x \<noteq> 39 \<and> \<not> line_end x) r in
             if drop (length body) r \<noteq> [] \<and> r ! length body = 39 then length body + 2 else 0)
          else 0)"

function pieces :: "bool \<Rightarrow> ustr \<Rightarrow> piece list" where
  "pieces mixed [] = []"
| "pieces mixed (c # r) =
     (let n = token_length mixed (c # r) in
      if n = 0 then Raw c # pieces mixed r else Token (take n (c # r)) # pieces mixed (drop n (c # r)))"
  by pat_completeness auto

termination
  by (relation "measure (\<lambda>(mixed, fs). length fs)") auto

fun tokens :: "piece list \<Rightarrow> ustr list" where
  "tokens [] = []"
| "tokens (Token t # ps) = t # tokens ps"
| "tokens (Raw c # ps) = tokens ps"

subsection \<open>Time zones\<close>

definition two_digits :: "int \<Rightarrow> ustr" where
  "two_digits v = (let s = 48 # num_str v in drop (length s - 2) s)"

definition three_digits :: "int \<Rightarrow> ustr" where
  "three_digits v = (let s = 48 # 48 # num_str v in drop (length s - 3) s)"

definition offset_text :: "int \<Rightarrow> bool \<Rightarrow> ustr" where
  "offset_text off iso8601 =
     (let minutes = js_rem off 60; hours = (off - minutes) div 60;
          tz = (if off \<ge> 0 then [43] else [45]) @ two_digits \<bar>hours\<bar> @ (if iso8601 then [58] else []) @ two_digits \<bar>minutes\<bar>
      in if tz = u ''+00:00'' then u ''Z'' else tz)"

text \<open>\<open>null\<close> counts as zero. A text that is a number counts as that number, which is taken to be whole.\<close>

definition timezoneOffsetString :: "tz \<Rightarrow> bool \<Rightarrow> ustr" where
  "timezoneOffsetString z iso8601 =
     (case z of
        TzNull \<Rightarrow> offset_text 0 iso8601
      | TzNum n \<Rightarrow> if n > 840 \<or> n < -720 then num_str n else offset_text n iso8601
      | TzStr s \<Rightarrow> (case to_number s of Fin q \<Rightarrow> if q > 840 \<or> q < -720 then s else offset_text \<lfloor>q\<rfloor> iso8601 | _ \<Rightarrow> s))"

definition timezoneOffsetNumber :: "time_env \<Rightarrow> ustr \<Rightarrow> tz" where
  "timezoneOffsetNumber env tzString =
     (let n = replace_first [58] [] tzString in
      if map (tuc env) n = u ''Z'' then TzNum 0
      else if \<not> (length n = 5 \<and> hd n \<in> {43, 45} \<and> (\<forall>c \<in> set (tl n). is_digit c)) then TzStr tzString
      else TzNum ((if hd n = 45 then -1 else 1) *
        (int (nat_of_digits 0 (take 2 (drop 1 n))) * 60 + int (nat_of_digits 0 (take 2 (drop 3 n))))))"

subsection \<open>formatTime\<close>

definition convert24to12 :: "int \<Rightarrow> ustr" where
  "convert24to12 h = (let h = js_rem h 12 in num_str (if h = 0 then 12 else h))"

definition last_two :: "ustr \<Rightarrow> ustr" where
  "last_two s = drop (length s - 2) s"

definition ampm_name :: "time_env \<Rightarrow> time \<Rightarrow> ustr" where
  "ampm_name env t = (if hour t > 11 then pm_first env else am_first env)"

definition zone_of :: "time_env \<Rightarrow> time \<Rightarrow> tz" where
  "zone_of env t = (if timezone t = TzNull then opt_timezone env else timezone t)"

definition format_token :: "time_env \<Rightarrow> time \<Rightarrow> ustr \<Rightarrow> ustr" where
  "format_token env t m =
     (if m = u ''HH'' then two_digits (hour t)
      else if m = u ''H'' then num_str (hour t)
      else if m = u ''hh'' then last_two (48 # convert24to12 (hour t))
      else if m = u ''h'' then convert24to12 (hour t)
      else if m = u ''mm'' then two_digits (minute t)
      else if m = u ''m'' then num_str (minute t)
      else if m = u ''ss'' then two_digits (second t)
      else if m = u ''s'' then num_str (second t)
      else if m = u ''l'' then three_digits (millisec t)
      else if m = u ''c'' then three_digits (microsec t)
      else if m = u ''z'' then timezoneOffsetString (zone_of env t) False
      else if m = u ''Z'' then timezoneOffsetString (zone_of env t) True
      else if m = u ''T'' then map (tuc env) (take 1 (ampm_name env t))
      else if m = u ''TT'' then map (tuc env) (ampm_name env t)
      else if m = u ''t'' then map (tlc env) (take 1 (ampm_name env t))
      else if m = u ''tt'' then map (tlc env) (ampm_name env t)
      else filter (\<lambda>c. c \<noteq> 39) m)"

fun format_piece :: "time_env \<Rightarrow> time \<Rightarrow> piece \<Rightarrow> ustr" where
  "format_piece env t (Token m) = format_token env t m"
| "format_piece env t (Raw c) = [c]"

definition formatTime :: "time_env \<Rightarrow> ustr \<Rightarrow> time \<Rightarrow> ustr" where
  "formatTime env format t = concat (map (format_piece env t) (pieces False format))"

subsection \<open>The expression of a format\<close>

definition same_ci :: "time_env \<Rightarrow> nat \<Rightarrow> nat \<Rightarrow> bool" where
  "same_ci env c x \<longleftrightarrow> tuc env c = tuc env x"

definition digit1 :: re where
  "digit1 = Cls is_digit"

definition opt_digits :: "nat \<Rightarrow> re" where
  "opt_digits n = ((Seq (Opt digit1)) ^^ (n - 1)) digit1"

definition blank :: re where
  "blank = Opt (Cls js_ws)"

fun seq_all :: "re list \<Rightarrow> re" where
  "seq_all [] = Eps"
| "seq_all [r] = r"
| "seq_all (r # rs) = Seq r (seq_all rs)"

fun alt_all :: "re list \<Rightarrow> re" where
  "alt_all [] = Eps"
| "alt_all [r] = r"
| "alt_all (r # rs) = Alt r (alt_all rs)"

text \<open>
  Characters that act as operators where they are not escaped: a format that has them makes another
  expression, which is not modelled (None).
\<close>

definition operators :: "nat set" where
  "operators = {92, 94, 36, 42, 43, 63, 40, 41, 91, 93, 123, 125, 124}"

definition raw_re :: "time_env \<Rightarrow> nat \<Rightarrow> re option" where
  "raw_re env c =
     (if js_ws c then Some blank
      else if c = 46 then Some (Cls (\<lambda>x. \<not> line_end x))
      else if c \<in> operators then None
      else Some (Cls (same_ci env c)))"

definition escaped_re :: "time_env \<Rightarrow> nat set \<Rightarrow> nat \<Rightarrow> re option" where
  "escaped_re env bad c = (if js_ws c then Some blank else if c \<in> bad then None else Some (Cls (same_ci env c)))"

fun all_some :: "'a option list \<Rightarrow> 'a list option" where
  "all_some [] = Some []"
| "all_some (x # xs) = (case x of None \<Rightarrow> None | Some a \<Rightarrow> map_option ((#) a) (all_some xs))"

text \<open>\<open>getPatternAmpm\<close>: all names but \<open>^\<close> and \<open>$\<close> are escaped. Literals: all but braces and bar.\<close>

definition name_re :: "time_env \<Rightarrow> nat set \<Rightarrow> ustr \<Rightarrow> re option" where
  "name_re env bad name = map_option seq_all (all_some (map (escaped_re env bad) name))"

definition getPatternAmpm :: "time_env \<Rightarrow> re option" where
  "getPatternAmpm env =
     map_option (\<lambda>rs. Opt (Group (alt_all rs))) (all_some (map (name_re env {94, 36}) (amNames env @ pmNames env)))"

definition zone_re :: "time_env \<Rightarrow> re" where
  "zone_re env =
     Opt (Group (alt_all [Cls (same_ci env 122),
       seq_all [Cls (\<lambda>c. c \<in> {43, 45}), digit1, digit1, Opt (Cls ((=) 58)), digit1, digit1],
       Plus (\<lambda>c. \<not> js_ws c)]))"

definition token_re :: "time_env \<Rightarrow> ustr \<Rightarrow> re option" where
  "token_re env m =
     (if hd m \<in> {104, 72, 109, 115} then Some (Group (if length m = 1 then opt_digits 2 else Seq digit1 digit1))
      else if hd m \<in> {108, 99} then Some (Group (opt_digits 3))
      else if hd m \<in> {122, 90} then Some (zone_re env)
      else if hd m \<in> {116, 84} then getPatternAmpm env
      else map_option (\<lambda>r. Opt (Group r)) (name_re env {123, 125, 124} (filter (\<lambda>c. c \<noteq> 39) m)))"

fun piece_re :: "time_env \<Rightarrow> piece \<Rightarrow> re option" where
  "piece_re env (Token m) = token_re env m"
| "piece_re env (Raw c) = raw_re env c"

definition suffix_re :: "time_env \<Rightarrow> nat \<Rightarrow> re option" where
  "suffix_re env c = (if js_ws c then Some (Cls (same_ci env c)) else raw_re env c)"

fun chain :: "re list \<Rightarrow> re" where
  "chain [] = Eps"
| "chain (r # rs) = Seq r (chain rs)"

definition time_regex :: "time_env \<Rightarrow> ustr \<Rightarrow> re option" where
  "time_regex env f = map_option chain (all_some (map (piece_re env) (pieces True f) @ map (suffix_re env) (timeSuffix env)))"

subsection \<open>strictParse\<close>

text \<open>\<open>getFormatPositions\<close>: the number of the first token with this letter, counted from 1; 0 for none.\<close>

fun position_from :: "nat \<Rightarrow> nat \<Rightarrow> ustr list \<Rightarrow> nat" where
  "position_from i x [] = 0"
| "position_from i x (m # ms) = (if hd m = x then i else position_from (Suc i) x ms)"

definition getFormatPositions :: "time_env \<Rightarrow> ustr \<Rightarrow> nat \<Rightarrow> nat" where
  "getFormatPositions env f x = position_from 1 x (tokens (pieces True (map (tlc env) f)))"

record parsed =
  p_hour :: jsnum
  p_minute :: jsnum
  p_second :: jsnum
  p_millisec :: jsnum
  p_microsec :: jsnum
  p_ampm :: "ustr option"
  p_timezone :: "tz option"

datatype strict_result = Parsed parsed | No_match | Unmodelled

definition capture :: "ustr option list \<Rightarrow> nat \<Rightarrow> ustr option" where
  "capture caps i = (if i - 1 < length caps then caps ! (i - 1) else None)"

text \<open>\<open>Number(treg[order.x])\<close>, and the value 0 where the format has no such token.\<close>

definition number_at :: "ustr option list \<Rightarrow> nat \<Rightarrow> jsnum" where
  "number_at caps i = (if i = 0 then Fin 0 else (case capture caps i of None \<Rightarrow> NaN | Some s \<Rightarrow> to_number s))"

definition marker :: "time_env \<Rightarrow> ustr option list \<Rightarrow> nat \<Rightarrow> bool option" where
  "marker env caps i =
     (if i = 0 then None
      else (case capture caps i of
          None \<Rightarrow> None
        | Some s \<Rightarrow> if s = [] then None else Some (map (tuc env) s \<in> map (tuc env) ` set (amNames env))))"

definition plus_twelve :: "ustr option \<Rightarrow> jsnum" where
  "plus_twelve c = (case c of None \<Rightarrow> NaN | Some s \<Rightarrow> (case parseInt10 s of None \<Rightarrow> NaN | Some n \<Rightarrow> Fin (of_int (n + 12))))"

definition hour_of :: "bool option \<Rightarrow> ustr option list \<Rightarrow> nat \<Rightarrow> jsnum" where
  "hour_of am caps i =
     (if i = 0 then Fin 0
      else if am = Some True \<and> capture caps i = Some (u ''12'') then Fin 0
      else if am = Some False \<and> capture caps i \<noteq> Some (u ''12'') then plus_twelve (capture caps i)
      else number_at caps i)"

definition strictParse :: "time_env \<Rightarrow> ustr \<Rightarrow> ustr \<Rightarrow> strict_result" where
  "strictParse env f s =
     (case time_regex env f of
        None \<Rightarrow> Unmodelled
      | Some r \<Rightarrow>
          (case exec_full r s of
             None \<Rightarrow> No_match
           | Some caps \<Rightarrow>
               (let order = getFormatPositions env f; am = marker env caps (order 116) in
                Parsed \<lparr>p_hour = hour_of am caps (order 104), p_minute = number_at caps (order 109), p_second = number_at caps (order 115),
                  p_millisec = number_at caps (order 108), p_microsec = number_at caps (order 99),
                  p_ampm = (if order 116 = 0 then None
                    else Some (case am of None \<Rightarrow> [] | Some True \<Rightarrow> am_first env | Some False \<Rightarrow> pm_first env)),
                  p_timezone = (if order 122 = 0 then None else map_option (timezoneOffsetNumber env) (capture caps (order 122)))\<rparr>)))"

text \<open>
  \<open>parseTime\<close>. \<open>native\<close> is the language's \<open>Date\<close> reading a text, None if it cannot.
\<close>

datatype parse_option = Strict | Loose | Custom "ustr \<Rightarrow> ustr \<Rightarrow> strict_result"

definition native_result :: "time \<Rightarrow> strict_result" where
  "native_result d = Parsed \<lparr>p_hour = Fin (of_int (hour d)), p_minute = Fin (of_int (minute d)), p_second = Fin (of_int (second d)),
     p_millisec = Fin (of_int (millisec d)), p_microsec = Fin (of_int (microsec d)), p_ampm = None, p_timezone = Some (timezone d)\<rparr>"

definition looseParse :: "(ustr \<Rightarrow> time option) \<Rightarrow> time_env \<Rightarrow> ustr \<Rightarrow> ustr \<Rightarrow> strict_result" where
  "looseParse native env f s =
     (case native (u ''2012-01-01 '' @ s) of
        Some d \<Rightarrow> native_result d
      | None \<Rightarrow> (case native (u ''2012-01-01T'' @ s) of
          Some d \<Rightarrow> native_result d
        | None \<Rightarrow> (case native (u ''01/01/2012 '' @ s) of Some d \<Rightarrow> native_result d | None \<Rightarrow> strictParse env f s)))"

definition parseTime :: "(ustr \<Rightarrow> time option) \<Rightarrow> parse_option \<Rightarrow> time_env \<Rightarrow> ustr \<Rightarrow> ustr \<Rightarrow> strict_result" where
  "parseTime native p env f s =
     (case p of Custom g \<Rightarrow> g f s | Loose \<Rightarrow> looseParse native env f s | Strict \<Rightarrow> strictParse env f s)"

text \<open>\<open>detectSupport\<close>: which units a format has, outside of quotes.\<close>

record support =
  s_hour :: bool
  s_minute :: bool
  s_second :: bool
  s_millisec :: bool
  s_microsec :: bool
  s_timezone :: bool
  s_ampm :: bool
  s_iso8601 :: bool

function unquoted :: "ustr \<Rightarrow> ustr" where
  "unquoted [] = []"
| "unquoted (c # r) =
     (let body = takeWhile (\<lambda>x. x \<noteq> 39 \<and> \<not> line_end x) r in
      if c = 39 \<and> drop (length body) r \<noteq> [] \<and> r ! length body = 39 then unquoted (drop (Suc (length body)) r) else c # unquoted r)"
  by pat_completeness auto

termination
  by (relation "measure length") auto

definition detectSupport :: "time_env \<Rightarrow> ustr \<Rightarrow> support" where
  "detectSupport env f =
     (let tf = map (tlc env) (unquoted f) in
      \<lparr>s_hour = 104 \<in> set tf, s_minute = 109 \<in> set tf, s_second = 115 \<in> set tf, s_millisec = 108 \<in> set tf, s_microsec = 99 \<in> set tf,
       s_timezone = 122 \<in> set tf, s_ampm = (116 \<in> set tf \<and> 104 \<in> set f), s_iso8601 = (90 \<in> set f)\<rparr>)"

subsection \<open>First choices\<close>

text \<open>
  \<open>heads r out caps rest\<close>: on \<open>out\<close> followed by \<open>rest\<close>, the first way to match \<open>r\<close> takes exactly \<open>out\<close>. If
  this holds along a sequence, the matcher never has to go back.
\<close>

definition heads :: "re \<Rightarrow> ustr \<Rightarrow> ustr option list \<Rightarrow> ustr \<Rightarrow> bool" where
  "heads r out caps rest \<longleftrightarrow> (\<exists>more. matches r (out @ rest) = (caps, rest) # more)"

lemma heads_Eps: "heads Eps [] [] rest"
  by (simp add: heads_def)

lemma heads_Cls: "p c \<Longrightarrow> heads (Cls p) [c] [] rest"
  by (simp add: heads_def)

lemma heads_Seq: "heads a o1 c1 (o2 @ rest) \<Longrightarrow> heads b o2 c2 rest \<Longrightarrow> heads (Seq a b) (o1 @ o2) (c1 @ c2) rest"
  by (auto simp: heads_def)

lemma heads_Group: "heads a out cs rest \<Longrightarrow> heads (Group a) out (Some out # cs) rest"
  by (auto simp: heads_def)

lemma heads_Opt: "heads a out cs rest \<Longrightarrow> out \<noteq> [] \<Longrightarrow> heads (Opt a) out cs rest"
  by (auto simp: heads_def)

lemma heads_Alt1: "heads a out cs rest \<Longrightarrow> ngroups b = 0 \<Longrightarrow> heads (Alt a b) out cs rest"
  by (auto simp: heads_def)

lemma heads_Alt2: "matches a (out @ rest) = [] \<Longrightarrow> ngroups a = 0 \<Longrightarrow> heads b out cs rest \<Longrightarrow> heads (Alt a b) out cs rest"
  by (auto simp: heads_def)

lemma exec_full_heads: "heads r out caps [] \<Longrightarrow> exec_full r out = Some caps"
  by (auto simp: heads_def exec_full_def)

lemmas heads_intros = heads_Eps heads_Cls heads_Group heads_Alt1

lemma heads_two_digits: "is_digit a \<Longrightarrow> is_digit b \<Longrightarrow> heads (Seq digit1 digit1) [a, b] [] rest"
  by (simp add: heads_def digit1_def)

lemma heads_one_or_two:
  assumes "\<forall>c \<in> set out. is_digit c" and "length out = 2 \<or> length out = 1 \<and> (rest = [] \<or> \<not> is_digit (hd rest))"
  shows "heads (opt_digits 2) out [] rest"
proof -
  have r: "opt_digits 2 = Seq (Opt digit1) digit1" by (simp add: opt_digits_def)
  consider a b where "out = [a, b]" | a where "out = [a]" "rest = [] \<or> \<not> is_digit (hd rest)"
    using assms(2) by (auto simp: length_Suc_conv numeral_2_eq_2)
  then show ?thesis using assms(1) unfolding r by cases (auto simp: heads_def digit1_def split: list.splits)
qed

lemma heads_three_digits:
  assumes "\<forall>c \<in> set out. is_digit c" and "length out = 3"
  shows "heads (opt_digits 3) out [] rest"
proof -
  have r: "opt_digits 3 = Seq (Opt digit1) (Seq (Opt digit1) digit1)" by (simp add: opt_digits_def numeral_2_eq_2)
  obtain a b c where "out = [a, b, c]" using assms(2) by (auto simp: length_Suc_conv numeral_3_eq_3)
  then show ?thesis using assms(1) unfolding r by (auto simp: heads_def digit1_def)
qed

lemma heads_chars:
  "all_some (map (escaped_re env bad) cs) = Some rs \<Longrightarrow> cs \<noteq> [] \<Longrightarrow> heads (seq_all rs) cs [] rest"
proof (induction rs arbitrary: cs rule: seq_all.induct)
  case 1
  then show ?case by (cases cs) (auto split: option.splits)
next
  case (2 r)
  then obtain c where "cs = [c]" "escaped_re env bad c = Some r"
    by (cases cs; cases "tl cs") (auto split: option.splits)
  then show ?case using 2 by (auto simp: escaped_re_def same_ci_def blank_def split: if_splits intro!: heads_Opt heads_Cls)
next
  case (3 r1 r2 rs)
  then obtain c ds where cs: "cs = c # ds" "escaped_re env bad c = Some r1" "all_some (map (escaped_re env bad) ds) = Some (r2 # rs)"
    by (cases cs) (auto split: option.splits)
  then have "ds \<noteq> []" by auto
  with 3 cs have "heads (seq_all (r2 # rs)) ds [] rest" by blast
  moreover have "heads r1 [c] [] (ds @ rest)"
    using cs(2) by (auto simp: escaped_re_def same_ci_def blank_def split: if_splits intro!: heads_Opt heads_Cls)
  ultimately have "heads (Seq r1 (seq_all (r2 # rs))) ([c] @ ds) ([] @ []) rest" by (intro heads_Seq)
  then show ?case using cs(1) by simp
qed

subsection \<open>Digits of the units\<close>

lemma to_number_digits:
  assumes "\<forall>c \<in> set s. is_digit c" and "s \<noteq> []"
  shows "to_number s = Fin (of_nat (nat_of_digits 0 s))"
proof -
  have ws: "\<forall>c \<in> set s. \<not> js_ws c" using assms(1) digits_no_ws by blast
  have trim: "js_trim s = s" using drop_no_ws [OF ws] drop_no_ws [of "rev s"] ws by (simp add: js_trim_def)
  obtain c r where s: "s = c # r" using assms(2) by (cases s) auto
  have c: "is_digit c" "\<forall>d \<in> set r. is_digit d" using assms(1) s by auto
  have "take 2 s \<notin> {u ''0x'', u ''0X'', u ''0o'', u ''0O'', u ''0b'', u ''0B''}"
    using c s by (cases r) (auto simp: u_Cons is_digit_def)
  then have radix: "radix_prefix s = None" by (simp add: radix_prefix_def)
  have all: "takeWhile is_digit s = s" "dropWhile is_digit s = []" using assms(1) by (simp_all add: takeWhile_eq_all_conv)
  have "\<not> prefix (u ''Infinity'') s" using c(1) s by (auto simp: u_Cons is_digit_def)
  then have "unsigned_literal s = Some (Fin (of_nat (nat_of_digits 0 s)), [])"
    using assms(2) by (simp add: unsigned_literal_def mantissa_def all Let_def exponent_def)
  moreover have "hd s \<noteq> 45" "hd s \<noteq> 43" using c(1) s by (auto simp: is_digit_def)
  ultimately show ?thesis using assms(2) by (simp add: to_number_def trim radix signed_literal_def)
qed

text \<open>A text of \<open>n\<close> digits with the value \<open>v\<close>.\<close>

definition digits_for :: "nat \<Rightarrow> ustr \<Rightarrow> int \<Rightarrow> bool" where
  "digits_for n s v \<longleftrightarrow> length s = n \<and> (\<forall>c \<in> set s. is_digit c) \<and> int (nat_of_digits 0 s) = v"

lemma digits_for_number: "digits_for n s v \<Longrightarrow> 0 < n \<Longrightarrow> to_number s = Fin (of_int v)"
  using to_number_digits [of s] by (auto simp: digits_for_def)

lemma two_digits_for: "0 \<le> v \<Longrightarrow> v < 100 \<Longrightarrow> digits_for 2 (two_digits v) v"
  using digits_of_length(1,2) [of "nat v"] digits_of_digit [of _ "nat v"] nat_of_digits_of [of "nat v"]
  by (cases "nat v < 10") (auto simp: digits_for_def two_digits_def num_str_nonneg Let_def is_digit_def)

lemma three_digits_for: "0 \<le> v \<Longrightarrow> v < 1000 \<Longrightarrow> digits_for 3 (three_digits v) v"
  using digits_of_length(1-3) [of "nat v"] digits_of_digit [of _ "nat v"] nat_of_digits_of [of "nat v"]
  by (cases "nat v < 10"; cases "nat v < 100") (auto simp: digits_for_def three_digits_def num_str_nonneg Let_def is_digit_def)

lemma num_str_for: "0 \<le> v \<Longrightarrow> v < 100 \<Longrightarrow> digits_for (if v < 10 then 1 else 2) (num_str v) v"
  using digits_of_length(1,2) [of "nat v"] digits_of_digit [of _ "nat v"] nat_of_digits_of [of "nat v"]
  by (auto simp: digits_for_def num_str_nonneg)

subsection \<open>Time zones are read back\<close>

lemma two_digits_eq:
  assumes "0 \<le> v" and "v < 100"
  shows "two_digits v = [48 + nat v div 10, 48 + nat v mod 10]"
proof (cases "nat v < 10")
  case True
  then show ?thesis using assms by (simp add: two_digits_def num_str_nonneg digits_of_small Let_def)
next
  case False
  moreover have "nat v div 10 < 10" using assms by auto
  ultimately have "digits_of (nat v) = [48 + nat v div 10, 48 + nat v mod 10]" by (simp add: digits_of_big digits_of_small)
  then show ?thesis using assms by (simp add: two_digits_def num_str_nonneg Let_def)
qed

definition ascii_case :: "time_env \<Rightarrow> bool" where
  "ascii_case env \<longleftrightarrow> (\<forall>c < 128. tlc env c = (if 65 \<le> c \<and> c \<le> 90 then c + 32 else c) \<and> tuc env c = (if 97 \<le> c \<and> c \<le> 122 then c - 32 else c))"

lemma offset_parts:
  "\<bar>js_rem n 60\<bar> = \<bar>n\<bar> mod 60" "\<bar>(n - js_rem n 60) div 60\<bar> = \<bar>n\<bar> div 60"
proof -
  show "\<bar>js_rem n 60\<bar> = \<bar>n\<bar> mod 60" by (simp add: js_rem_def)
  show "\<bar>(n - js_rem n 60) div 60\<bar> = \<bar>n\<bar> div 60"
  proof (cases "n < 0")
    case True
    have "n - js_rem n 60 = - (- n - (- n) mod 60)" using True by (simp add: js_rem_def)
    also have "\<dots> = 60 * (- ((- n) div 60))" by (simp add: minus_mod_eq_mult_div)
    finally have "(n - js_rem n 60) div 60 = - ((- n) div 60)" by simp
    moreover have "0 \<le> (- n) div 60" using True by (simp add: pos_imp_zdiv_nonneg_iff)
    ultimately show ?thesis using True by simp
  next
    case False
    then have "(n - js_rem n 60) div 60 = n div 60" by (simp add: js_rem_def minus_mod_eq_mult_div)
    then show ?thesis using False by (simp add: pos_imp_zdiv_nonneg_iff)
  qed
qed

text \<open>The text for \<open>h\<close> hours and \<open>m\<close> minutes.\<close>

definition zone_digits :: "bool \<Rightarrow> nat \<Rightarrow> nat \<Rightarrow> bool \<Rightarrow> ustr" where
  "zone_digits neg h m i8 =
     [if neg then 45 else 43, 48 + h div 10, 48 + h mod 10] @ (if i8 then [58] else []) @ [48 + m div 10, 48 + m mod 10]"

lemma digit_pair: "k < 100 \<Longrightarrow> is_digit (48 + k div 10) \<and> is_digit (48 + k mod 10)"
  by (auto simp: is_digit_def)

lemma pair_zero: "(k::nat) div 10 = 0 \<Longrightarrow> k mod 10 = 0 \<Longrightarrow> k = 0"
  using div_mult_mod_eq [of k 10] by simp

lemma zone_digits_zero: "zone_digits neg h m i8 = u ''+00:00'' \<longleftrightarrow> i8 \<and> \<not> neg \<and> h = 0 \<and> m = 0"
  using pair_zero [of h] pair_zero [of m] by (auto simp: zone_digits_def u_Cons)

text \<open>An offset in minutes as hours and minutes.\<close>

lemma offset_text_eq:
  assumes "-720 \<le> n" and "n \<le> 840"
  obtains h m where "h < 100" and "m < 100" and "\<bar>n\<bar> = 60 * int h + int m"
    and "offset_text n i8 = (if i8 \<and> n = 0 then u ''Z'' else zone_digits (n < 0) h m i8)"
proof -
  define h where "h = nat (\<bar>n\<bar> div 60)"
  define m where "m = nat (\<bar>n\<bar> mod 60)"
  have hm: "int h = \<bar>n\<bar> div 60" "int m = \<bar>n\<bar> mod 60" by (simp_all add: h_def m_def pos_imp_zdiv_nonneg_iff)
  have n: "\<bar>n\<bar> = 60 * int h + int m" unfolding hm by simp
  have "int m < 60" unfolding hm by simp
  then have b: "h < 100" "m < 100" using n assms by auto
  have z: "n = 0 \<longleftrightarrow> h = 0 \<and> m = 0" using n by auto
  have "offset_text n i8 = (if zone_digits (n < 0) h m i8 = u ''+00:00'' then u ''Z'' else zone_digits (n < 0) h m i8)"
    unfolding offset_text_def Let_def offset_parts hm [symmetric] using b two_digits_eq [of "int h"] two_digits_eq [of "int m"]
    by (simp add: zone_digits_def)
  then have "offset_text n i8 = (if i8 \<and> n = 0 then u ''Z'' else zone_digits (n < 0) h m i8)" unfolding zone_digits_zero using z by auto
  then show thesis using that [OF b n] by simp
qed

lemma zone_read:
  assumes "ascii_case env" and "-720 \<le> n" and "n \<le> 840"
  shows "timezoneOffsetNumber env (offset_text n i8) = TzNum n"
proof -
  obtain h m where hm: "h < 100" "m < 100" "\<bar>n\<bar> = 60 * int h + int m"
    "offset_text n i8 = (if i8 \<and> n = 0 then u ''Z'' else zone_digits (n < 0) h m i8)" by (rule offset_text_eq [OF assms(2,3)])
  show ?thesis
  proof (cases "i8 \<and> n = 0")
    case True
    then show ?thesis using assms hm(4) by (simp add: timezoneOffsetNumber_def u_Cons ascii_case_def)
  next
    case False
    have d: "is_digit (48 + h div 10)" "is_digit (48 + h mod 10)" "is_digit (48 + m div 10)" "is_digit (48 + m mod 10)"
      using digit_pair [OF hm(1)] digit_pair [OF hm(2)] by auto
    obtain a b c e where abce: "48 + h div 10 = a" "48 + h mod 10 = b" "48 + m div 10 = c" "48 + m mod 10 = e" by blast
    have "nat_of_digits 0 [a, b] = h" "nat_of_digits 0 [c, e] = m" using abce by (simp_all flip: abce)
    moreover have r: "replace_first [58] [] (zone_digits (n < 0) h m i8) = [if n < 0 then 45 else 43, a, b, c, e]"
      using d by (auto simp: zone_digits_def abce is_digit_def)
    moreover have "offset_text n i8 = zone_digits (n < 0) h m i8" unfolding hm(4) using False by auto
    ultimately show ?thesis using d hm(3) unfolding abce timezoneOffsetNumber_def
      by (cases "n < 0") (simp_all add: u_Cons r)
  qed
qed

interpretation zones: readable_text "\<lambda>n. offset_text n i8" "timezoneOffsetNumber env" TzNum "\<lambda>n. ascii_case env \<and> -720 \<le> n \<and> n \<le> 840" for env i8
  by unfold_locales (simp add: zone_read)

lemma zone_texts_differ: "inj_on (\<lambda>n. offset_text n i8) {-720..840}"
proof -
  let ?env = "\<lparr>am_first = [], am_more = [], pm_first = [], pm_more = [], timeSuffix = [], opt_timezone = TzNull,
    tlc = \<lambda>c. if 65 \<le> c \<and> c \<le> 90 then c + 32 else c, tuc = \<lambda>c. if 97 \<le> c \<and> c \<le> 122 then c - 32 else c\<rparr>"
  have "ascii_case ?env" by (simp add: ascii_case_def)
  then show ?thesis by (intro zones.texts_differ [of _ ?env i8]) (auto simp: inj_on_def)
qed

text \<open>
  Time zones read back as they were written: for every offset that the picker can have, from
  -12:00 to +14:00 in minutes, \<open>timezoneOffsetNumber\<close> of \<open>timezoneOffsetString\<close> is that offset, in the
  plain and in the ISO 8601 form, where no offset at all is written as the letter Z.
\<close>

theorem timezone_round_trip:
  assumes "ascii_case env" and "-720 \<le> n" and "n \<le> 840"
  shows "timezoneOffsetNumber env (timezoneOffsetString (TzNum n) i8) = TzNum n"
  using zone_read [OF assms] assms by (simp add: timezoneOffsetString_def)

definition us_env :: time_env where
  "us_env = \<lparr>am_first = u ''AM'', am_more = [u ''A''], pm_first = u ''PM'', pm_more = [u ''P''], timeSuffix = [], opt_timezone = TzNull,
     tlc = (\<lambda>c. if 65 \<le> c \<and> c \<le> 90 then c + 32 else c), tuc = (\<lambda>c. if 97 \<le> c \<and> c \<le> 122 then c - 32 else c)\<rparr>"

lemma us_env_ascii: "ascii_case us_env"
  by (simp add: ascii_case_def us_env_def)

theorem timezone_round_trip_witness:
  "timezoneOffsetNumber us_env (timezoneOffsetString (TzNum (-330)) True) = TzNum (-330)"
  by (rule timezone_round_trip [OF us_env_ascii]) simp_all

subsection \<open>Formats that are read back\<close>

definition default_names :: "time_env \<Rightarrow> bool" where
  "default_names env \<longleftrightarrow> am_first env = u ''AM'' \<and> am_more env = [u ''A''] \<and> pm_first env = u ''PM'' \<and> pm_more env = [u ''P'']"

definition zone_minutes :: "tz \<Rightarrow> int" where
  "zone_minutes z = (case z of TzNum n \<Rightarrow> n | _ \<Rightarrow> 0)"

definition time_ok :: "time_env \<Rightarrow> time \<Rightarrow> bool" where
  "time_ok env t \<longleftrightarrow> 0 \<le> hour t \<and> hour t \<le> 23 \<and> 0 \<le> minute t \<and> minute t \<le> 59 \<and> 0 \<le> second t \<and> second t \<le> 59 \<and>
     0 \<le> millisec t \<and> millisec t \<le> 999 \<and> 0 \<le> microsec t \<and> microsec t \<le> 999 \<and>
     (case zone_of env t of TzNull \<Rightarrow> True | TzNum n \<Rightarrow> -720 \<le> n \<and> n \<le> 840 | TzStr s \<Rightarrow> False)"

definition short_tokens :: "ustr set" where
  "short_tokens = {u ''H'', u ''h'', u ''m'', u ''s''}"

definition pair_tokens :: "ustr set" where
  "pair_tokens = {u ''HH'', u ''hh'', u ''mm'', u ''ss''}"

definition quoted :: "time_env \<Rightarrow> ustr \<Rightarrow> bool" where
  "quoted env m \<longleftrightarrow> m \<noteq> [] \<and> hd m = 39 \<and>
     (let body = filter (\<lambda>c. c \<noteq> 39) m in body \<noteq> [] \<and> name_re env {123, 125, 124} body \<noteq> None)"

definition follows :: "(nat \<Rightarrow> bool) \<Rightarrow> piece list \<Rightarrow> bool" where
  "follows p ps \<longleftrightarrow> (case ps of [] \<Rightarrow> True | Raw c # _ \<Rightarrow> p c | Token m # _ \<Rightarrow> False)"

text \<open>
  A unit without leading zeros is followed by a character that is not a digit, and the marker of one
  letter by one that does not make it longer.
\<close>

definition good_token :: "time_env \<Rightarrow> ustr \<Rightarrow> piece list \<Rightarrow> bool" where
  "good_token env m ps \<longleftrightarrow>
     m \<in> short_tokens \<and> follows (\<lambda>c. \<not> is_digit c) ps \<or> m \<in> pair_tokens \<or> m \<in> {u ''l'', u ''c''} \<or> m \<in> {u ''z'', u ''Z''} \<or>
     m \<in> {u ''tt'', u ''TT''} \<or> m \<in> {u ''t'', u ''T''} \<and> follows (\<lambda>c. tuc env c \<noteq> 77) ps \<or> quoted env m"

fun good_pieces :: "time_env \<Rightarrow> piece list \<Rightarrow> bool" where
  "good_pieces env [] = True"
| "good_pieces env (Raw c # ps) = (raw_re env c \<noteq> None \<and> good_pieces env ps)"
| "good_pieces env (Token m # ps) = (good_token env m ps \<and> good_pieces env ps)"

lemma follows_rest:
  assumes "follows p ps"
  shows "concat (map (format_piece env t) ps) = [] \<or> p (hd (concat (map (format_piece env t) ps)))"
  using assms by (cases ps; cases "hd ps") (auto simp: follows_def)

text \<open>The twelve-hour clock.\<close>

definition clock12 :: "int \<Rightarrow> int" where
  "clock12 h = (if h mod 12 = 0 then 12 else h mod 12)"

lemma convert_clock12: "0 \<le> h \<Longrightarrow> convert24to12 h = num_str (clock12 h)"
  by (simp add: convert24to12_def clock12_def js_rem_def Let_def)

lemma clock12_range: "1 \<le> clock12 h \<and> clock12 h \<le> 12"
proof -
  have "0 \<le> h mod 12" "h mod 12 < 12" by simp_all
  then show ?thesis unfolding clock12_def by (smt (verit))
qed

lemma last_two_two_digits: "last_two (48 # num_str v) = two_digits v"
  by (simp add: last_two_def two_digits_def)

text \<open>The number that a token of digits writes.\<close>

definition unit_value :: "time \<Rightarrow> ustr \<Rightarrow> int" where
  "unit_value t m =
     (if hd m = 72 then hour t else if hd m = 104 then clock12 (hour t) else if hd m = 109 then minute t
      else if hd m = 115 then second t else if hd m = 108 then millisec t else microsec t)"

lemma unit_digits:
  assumes "time_ok env t"
  shows "m \<in> short_tokens \<Longrightarrow> digits_for (if unit_value t m < 10 then 1 else 2) (format_token env t m) (unit_value t m)"
    and "m \<in> pair_tokens \<Longrightarrow> digits_for 2 (format_token env t m) (unit_value t m)"
    and "m \<in> {u ''l'', u ''c''} \<Longrightarrow> digits_for 3 (format_token env t m) (unit_value t m)"
proof -
  have b: "0 \<le> hour t" "hour t < 100" "0 \<le> minute t" "minute t < 100" "0 \<le> second t" "second t < 100"
    "0 \<le> millisec t" "millisec t < 1000" "0 \<le> microsec t" "microsec t < 1000" "0 \<le> clock12 (hour t)" "clock12 (hour t) < 100"
    using assms clock12_range [of "hour t"] by (auto simp: time_ok_def)
  note hds = u_Cons [of "CHR ''H''"] u_Cons [of "CHR ''h''"] u_Cons [of "CHR ''m''"] u_Cons [of "CHR ''s''"] u_Cons [of "CHR ''l''"] u_Cons [of "CHR ''c''"]
  have uv: "unit_value t (u ''H'') = hour t" "unit_value t (u ''h'') = clock12 (hour t)" "unit_value t (u ''m'') = minute t"
    "unit_value t (u ''s'') = second t" "unit_value t (u ''HH'') = hour t" "unit_value t (u ''hh'') = clock12 (hour t)"
    "unit_value t (u ''mm'') = minute t" "unit_value t (u ''ss'') = second t" "unit_value t (u ''l'') = millisec t" "unit_value t (u ''c'') = microsec t"
    by (simp_all add: unit_value_def hds)
  show "m \<in> short_tokens \<Longrightarrow> digits_for (if unit_value t m < 10 then 1 else 2) (format_token env t m) (unit_value t m)"
    unfolding short_tokens_def
    using num_str_for [OF b(1,2)] num_str_for [OF b(3,4)] num_str_for [OF b(5,6)] num_str_for [OF b(11,12)] b(1)
    by (elim insertE emptyE) (simp_all add: format_token_def uv convert_clock12)
  show "m \<in> pair_tokens \<Longrightarrow> digits_for 2 (format_token env t m) (unit_value t m)"
    unfolding pair_tokens_def
    using two_digits_for [OF b(1,2)] two_digits_for [OF b(3,4)] two_digits_for [OF b(5,6)] two_digits_for [OF b(11,12)] b(1)
    by (elim insertE emptyE) (simp_all add: format_token_def uv convert_clock12 last_two_two_digits)
  show "m \<in> {u ''l'', u ''c''} \<Longrightarrow> digits_for 3 (format_token env t m) (unit_value t m)"
    using three_digits_for [OF b(7,8)] three_digits_for [OF b(9,10)] by (elim insertE emptyE) (simp_all add: format_token_def uv)
qed

subsection \<open>Every token is matched by its own text\<close>

lemma ascii_letters:
  assumes "ascii_case env"
  shows "tuc env 65 = 65" "tuc env 97 = 65" "tuc env 77 = 77" "tuc env 109 = 77" "tuc env 80 = 80" "tuc env 112 = 80" "tuc env 122 = 90" "tuc env 90 = 90"
    "tlc env 65 = 97" "tlc env 77 = 109" "tlc env 80 = 112" "tlc env 72 = 104" "tlc env 84 = 116" "tlc env 90 = 122" "tlc env 104 = 104" "tlc env 109 = 109"
    "tlc env 115 = 115" "tlc env 108 = 108" "tlc env 99 = 99" "tlc env 122 = 122" "tlc env 116 = 116" "tlc env 39 = 39" "tuc env 43 = 43" "tuc env 45 = 45"
  using assms by (simp_all add: ascii_case_def)

lemma marker_pattern:
  assumes "default_names env"
  shows "getPatternAmpm env = Some (Opt (Group (Alt (Seq (Cls (same_ci env 65)) (Cls (same_ci env 77)))
    (Alt (Cls (same_ci env 65)) (Alt (Seq (Cls (same_ci env 80)) (Cls (same_ci env 77))) (Cls (same_ci env 80)))))))"
  using assms by (simp add: getPatternAmpm_def default_names_def name_re_def u_Cons escaped_re_def js_ws_def)

lemma marker_text:
  assumes "ascii_case env" and "default_names env"
  shows "format_token env t (u ''tt'') = (if hour t > 11 then [112, 109] else [97, 109])"
    "format_token env t (u ''TT'') = (if hour t > 11 then [80, 77] else [65, 77])"
    "format_token env t (u ''t'') = (if hour t > 11 then [112] else [97])"
    "format_token env t (u ''T'') = (if hour t > 11 then [80] else [65])"
  using assms ascii_letters [OF assms(1)] by (simp_all add: format_token_def ampm_name_def default_names_def u_Cons)

lemma heads_marker:
  assumes "ascii_case env" and "default_names env" and "m \<in> {u ''tt'', u ''TT''} \<or> m \<in> {u ''t'', u ''T''} \<and> (rest = [] \<or> tuc env (hd rest) \<noteq> 77)"
  shows "heads (the (getPatternAmpm env)) (format_token env t m) [Some (format_token env t m)] rest"
proof -
  note a = ascii_letters [OF assms(1)]
  note x = marker_text [OF assms(1,2), of t]
  have two: "heads (the (getPatternAmpm env)) out [Some out] rest" if "out \<in> {[112, 109], [97, 109], [80, 77], [65, 77]}" for out
    using that by (auto simp: heads_def marker_pattern [OF assms(2)] same_ci_def a)
  have one: "heads (the (getPatternAmpm env)) out [Some out] rest" if "out \<in> {[112], [97], [80], [65]}" "rest = [] \<or> tuc env (hd rest) \<noteq> 77" for out
    using that by (cases rest) (auto simp: heads_def marker_pattern [OF assms(2)] same_ci_def a)
  show ?thesis
  proof (cases "m \<in> {u ''tt'', u ''TT''}")
    case True
    then have "format_token env t m \<in> {[112, 109], [97, 109], [80, 77], [65, 77]}" by (auto simp only: insert_iff empty_iff x split: if_splits)
    then show ?thesis by (rule two)
  next
    case False
    then have m: "m \<in> {u ''t'', u ''T''}" "rest = [] \<or> tuc env (hd rest) \<noteq> 77" using assms(3) by blast+
    then have "format_token env t m \<in> {[112], [97], [80], [65]}" by (auto simp only: insert_iff empty_iff x split: if_splits)
    then show ?thesis using m(2) by (rule one)
  qed
qed

lemma zone_text:
  assumes "time_ok env t"
  shows "format_token env t (u ''z'') = offset_text (zone_minutes (zone_of env t)) False"
    "format_token env t (u ''Z'') = offset_text (zone_minutes (zone_of env t)) True"
    "-720 \<le> zone_minutes (zone_of env t)" "zone_minutes (zone_of env t) \<le> 840"
  using assms by (auto simp: format_token_def timezoneOffsetString_def zone_minutes_def time_ok_def split: tz.splits)

lemma heads_zone:
  assumes "ascii_case env" and "-720 \<le> n" and "n \<le> 840"
  shows "heads (zone_re env) (offset_text n i8) [Some (offset_text n i8)] rest"
proof -
  note a = ascii_letters [OF assms(1)]
  obtain h m where hm: "h < 100" "m < 100" "\<bar>n\<bar> = 60 * int h + int m"
    "offset_text n i8 = (if i8 \<and> n = 0 then u ''Z'' else zone_digits (n < 0) h m i8)" by (rule offset_text_eq [OF assms(2,3)])
  have d: "is_digit (48 + h div 10)" "is_digit (48 + h mod 10)" "is_digit (48 + m div 10)" "is_digit (48 + m mod 10)"
    using digit_pair [OF hm(1)] digit_pair [OF hm(2)] by auto
  obtain p q v w where ab: "48 + h div 10 = p" "48 + h mod 10 = q" "48 + m div 10 = v" "48 + m mod 10 = w" by blast
  have z: "heads (zone_re env) (u ''Z'') [Some (u ''Z'')] rest" using a by (simp add: heads_def zone_re_def same_ci_def u_Cons digit1_def)
  have "v \<noteq> 58" using d unfolding ab by (auto simp: is_digit_def)
  then have "heads (zone_re env) (zone_digits (n < 0) h m i8) [Some (zone_digits (n < 0) h m i8)] rest"
    using d a unfolding zone_digits_def ab by (cases "n < 0"; cases i8) (simp_all add: heads_def zone_re_def same_ci_def digit1_def)
  then show ?thesis using z hm(4) by auto
qed

lemma quoted_text:
  assumes "quoted env m"
  shows "format_token env t m = filter (\<lambda>c. c \<noteq> 39) m"
proof -
  obtain r where "m = 39 # r" using assms by (cases m) (auto simp: quoted_def)
  then show ?thesis by (simp add: format_token_def u_Cons)
qed

lemma token_heads:
  assumes "ascii_case env" and "default_names env" and "time_ok env t" and "good_token env m ps"
  shows "\<exists>r. token_re env m = Some r \<and>
    heads r (format_token env t m) [Some (format_token env t m)] (concat (map (format_piece env t) ps))"
proof -
  let ?o = "format_token env t m" and ?rest = "concat (map (format_piece env t) ps)"
  consider (short) "m \<in> short_tokens" "follows (\<lambda>c. \<not> is_digit c) ps" | (pair) "m \<in> pair_tokens" | (three) "m \<in> {u ''l'', u ''c''}" |
    (zone) "m \<in> {u ''z'', u ''Z''}" | (mark) "m \<in> {u ''tt'', u ''TT''} \<or> m \<in> {u ''t'', u ''T''} \<and> follows (\<lambda>c. tuc env c \<noteq> 77) ps" | (quote) "quoted env m"
    using assms(4) unfolding good_token_def by blast
  then show ?thesis
  proof cases
    case short
    have d: "digits_for (if unit_value t m < 10 then 1 else 2) ?o (unit_value t m)" by (rule unit_digits(1) [OF assms(3) short(1)])
    then have "heads (opt_digits 2) ?o [] ?rest" using follows_rest [OF short(2), of env t]
      by (intro heads_one_or_two) (auto simp: digits_for_def split: if_splits)
    moreover have "token_re env m = Some (Group (opt_digits 2))" using short(1) by (auto simp: short_tokens_def token_re_def u_Cons)
    ultimately show ?thesis using heads_Group by fastforce
  next
    case pair
    have d: "digits_for 2 ?o (unit_value t m)" by (rule unit_digits(2) [OF assms(3) pair])
    then obtain a b where o: "?o = [a, b]" "is_digit a" "is_digit b" by (auto simp: digits_for_def length_Suc_conv numeral_2_eq_2)
    then have "heads (Seq digit1 digit1) ?o [] ?rest" using heads_two_digits by simp
    moreover have "token_re env m = Some (Group (Seq digit1 digit1))" using pair by (auto simp: pair_tokens_def token_re_def u_Cons)
    ultimately show ?thesis using heads_Group by fastforce
  next
    case three
    have d: "digits_for 3 ?o (unit_value t m)" by (rule unit_digits(3) [OF assms(3) three])
    then have "heads (opt_digits 3) ?o [] ?rest" by (intro heads_three_digits) (auto simp: digits_for_def)
    moreover have "token_re env m = Some (Group (opt_digits 3))" using three by (auto simp: token_re_def u_Cons)
    ultimately show ?thesis using heads_Group by fastforce
  next
    case zone
    then have "token_re env m = Some (zone_re env)" by (auto simp: token_re_def u_Cons)
    then show ?thesis using zone heads_zone [OF assms(1) zone_text(3,4) [OF assms(3)]] zone_text(1,2) [OF assms(3)] by auto
  next
    case mark
    have "heads (the (getPatternAmpm env)) ?o [Some ?o] ?rest"
      using mark follows_rest [of "\<lambda>c. tuc env c \<noteq> 77" ps env t] by (intro heads_marker [OF assms(1,2)]) auto
    moreover have "token_re env m = getPatternAmpm env" using mark by (auto simp: token_re_def u_Cons)
    ultimately show ?thesis using marker_pattern [OF assms(2)] by auto
  next
    case quote
    let ?b = "filter (\<lambda>c. c \<noteq> 39) m"
    obtain rs where rs: "all_some (map (escaped_re env {123, 125, 124}) ?b) = Some rs" "?b \<noteq> []"
      using quote by (auto simp: quoted_def name_re_def Let_def)
    have "heads (Opt (Group (seq_all rs))) ?b [Some ?b] ?rest" by (intro heads_Opt heads_Group heads_chars [OF rs]) (rule rs(2))
    moreover have "token_re env m = Some (Opt (Group (seq_all rs)))" using quote rs(1) by (auto simp: token_re_def quoted_def name_re_def)
    ultimately show ?thesis using quoted_text [OF quote] by simp
  qed
qed

lemma raw_heads: "raw_re env c = Some r \<Longrightarrow> heads r [c] [] rest"
  by (auto simp: raw_re_def blank_def same_ci_def line_end_def split: if_splits intro!: heads_Opt heads_Cls)

lemma pieces_heads:
  "ascii_case env \<Longrightarrow> default_names env \<Longrightarrow> time_ok env t \<Longrightarrow> good_pieces env ps \<Longrightarrow>
    \<exists>rs. all_some (map (piece_re env) ps) = Some rs \<and>
    heads (chain rs) (concat (map (format_piece env t) ps)) (map (\<lambda>m. Some (format_token env t m)) (tokens ps)) []"
proof (induction env ps rule: good_pieces.induct)
  case (1 env)
  then show ?case by (simp add: heads_Eps)
next
  case (2 env c ps)
  then obtain r rs where r: "raw_re env c = Some r" "all_some (map (piece_re env) ps) = Some rs"
    "heads (chain rs) (concat (map (format_piece env t) ps)) (map (\<lambda>m. Some (format_token env t m)) (tokens ps)) []" by auto
  from heads_Seq [OF raw_heads [OF r(1)] r(3)] show ?case using r by simp
next
  case (3 env m ps)
  then obtain rs where r: "all_some (map (piece_re env) ps) = Some rs" "good_token env m ps"
    "heads (chain rs) (concat (map (format_piece env t) ps)) (map (\<lambda>m. Some (format_token env t m)) (tokens ps)) []" by auto
  obtain q where q: "token_re env m = Some q"
    "heads q (format_token env t m) [Some (format_token env t m)] (concat (map (format_piece env t) ps))"
    using token_heads [OF 3(2-4) r(2)] by auto
  from heads_Seq [OF _ r(3), of q "format_token env t m" "[Some (format_token env t m)]"] q show ?case using r by simp
qed

subsection \<open>Positions of the units\<close>

lemma position_find:
  "map hd ms = map g toks \<Longrightarrow>
    (case find (\<lambda>m. g m = x) toks of
       None \<Rightarrow> position_from (Suc k) x ms = 0
     | Some m \<Rightarrow> m \<in> set toks \<and> g m = x \<and> (\<exists>j < length toks. position_from (Suc k) x ms = Suc (k + j) \<and> toks ! j = m))"
proof (induction toks arbitrary: ms k)
  case (Cons y ys)
  then obtain m ns where ms: "ms = m # ns" "hd m = g y" "map hd ns = map g ys" by auto
  show ?case
  proof (cases "g y = x")
    case True
    then show ?thesis using ms by auto
  next
    case False
    then show ?thesis using Cons.IH [OF ms(3), of "Suc k"] ms by (fastforce split: option.splits)
  qed
qed simp

definition letter :: "time_env \<Rightarrow> ustr \<Rightarrow> nat" where
  "letter env m = tlc env (hd m)"

text \<open>The token that \<open>strictParse\<close> reads a unit from.\<close>

definition unit_token :: "time_env \<Rightarrow> ustr \<Rightarrow> nat \<Rightarrow> ustr option" where
  "unit_token env f x = find (\<lambda>m. letter env m = x) (tokens (pieces False f))"

text \<open>
  A format whose texts can be read back: the two token expressions agree on it, and so do the
  positions that are counted in lower case; every token is followed by something it can be told
  from; and the hour is the one of the clock that goes with the marker.
\<close>

definition good_time_format :: "time_env \<Rightarrow> ustr \<Rightarrow> bool" where
  "good_time_format env f \<longleftrightarrow>
     pieces True f = pieces False f \<and> map hd (tokens (pieces True (map (tlc env) f))) = map (letter env) (tokens (pieces False f)) \<and>
     good_pieces env (pieces False f) \<and>
     (case unit_token env f 104 of None \<Rightarrow> True | Some m \<Rightarrow> (hd m = 104) = (unit_token env f 116 \<noteq> None))"

lemma tokens_good: "good_pieces env ps \<Longrightarrow> m \<in> set (tokens ps) \<Longrightarrow> \<exists>qs. good_token env m qs"
  by (induction env ps rule: good_pieces.induct) auto

lemma token_kinds:
  assumes "ascii_case env" and "good_token env m qs"
  shows "letter env m = 104 \<Longrightarrow> m \<in> {u ''H'', u ''h'', u ''HH'', u ''hh''}" "letter env m = 109 \<Longrightarrow> m \<in> {u ''m'', u ''mm''}"
    "letter env m = 115 \<Longrightarrow> m \<in> {u ''s'', u ''ss''}" "letter env m = 108 \<Longrightarrow> m = u ''l''" "letter env m = 99 \<Longrightarrow> m = u ''c''"
    "letter env m = 122 \<Longrightarrow> m \<in> {u ''z'', u ''Z''}" "letter env m = 116 \<Longrightarrow> m \<in> {u ''t'', u ''T'', u ''tt'', u ''TT''}"
proof -
  note a = ascii_letters [OF assms(1)]
  have l: "letter env (u ''H'') = 104" "letter env (u ''h'') = 104" "letter env (u ''HH'') = 104" "letter env (u ''hh'') = 104"
    "letter env (u ''m'') = 109" "letter env (u ''mm'') = 109" "letter env (u ''s'') = 115" "letter env (u ''ss'') = 115"
    "letter env (u ''l'') = 108" "letter env (u ''c'') = 99" "letter env (u ''z'') = 122" "letter env (u ''Z'') = 122"
    "letter env (u ''t'') = 116" "letter env (u ''T'') = 116" "letter env (u ''tt'') = 116" "letter env (u ''TT'') = 116"
    using a by (simp_all add: letter_def u_Cons)
  have q: "quoted env m \<Longrightarrow> letter env m = 39" using a by (simp add: quoted_def letter_def)
  show "letter env m = 104 \<Longrightarrow> m \<in> {u ''H'', u ''h'', u ''HH'', u ''hh''}" "letter env m = 109 \<Longrightarrow> m \<in> {u ''m'', u ''mm''}"
    "letter env m = 115 \<Longrightarrow> m \<in> {u ''s'', u ''ss''}" "letter env m = 108 \<Longrightarrow> m = u ''l''" "letter env m = 99 \<Longrightarrow> m = u ''c''"
    "letter env m = 122 \<Longrightarrow> m \<in> {u ''z'', u ''Z''}" "letter env m = 116 \<Longrightarrow> m \<in> {u ''t'', u ''T'', u ''tt'', u ''TT''}"
    using assms(2) q unfolding good_token_def short_tokens_def pair_tokens_def
    by (elim disjE conjE insertE emptyE; simp add: l)+
qed

lemma unit_capture:
  assumes "good_time_format env f" and "caps = map (\<lambda>m. Some (format_token env t m)) (tokens (pieces False f))"
  shows "unit_token env f x = None \<Longrightarrow> getFormatPositions env f x = 0"
    and "unit_token env f x = Some m \<Longrightarrow> letter env m = x \<and> (\<exists>qs. good_token env m qs) \<and> getFormatPositions env f x \<noteq> 0 \<and>
      capture caps (getFormatPositions env f x) = Some (format_token env t m)"
proof -
  have hds: "map hd (tokens (pieces True (map (tlc env) f))) = map (letter env) (tokens (pieces False f))"
    using assms(1) by (simp add: good_time_format_def)
  note p = position_find [OF hds, where x = x and k = 0, folded unit_token_def]
  show "unit_token env f x = None \<Longrightarrow> getFormatPositions env f x = 0" using p by (simp add: getFormatPositions_def)
  assume m: "unit_token env f x = Some m"
  then obtain j where j: "m \<in> set (tokens (pieces False f))" "letter env m = x" "j < length (tokens (pieces False f))"
    "getFormatPositions env f x = Suc j" "tokens (pieces False f) ! j = m" using p by (auto simp: getFormatPositions_def)
  then show "letter env m = x \<and> (\<exists>qs. good_token env m qs) \<and> getFormatPositions env f x \<noteq> 0 \<and>
      capture caps (getFormatPositions env f x) = Some (format_token env t m)"
    using tokens_good [of env "pieces False f" m] assms by (auto simp: good_time_format_def capture_def)
qed

subsection \<open>What is written is read back\<close>

lemma parseInt10_digits:
  assumes "digits_for n s v" and "0 < n"
  shows "parseInt10 s = Some v"
proof -
  have s: "s \<noteq> []" "\<forall>c \<in> set s. is_digit c" "int (nat_of_digits 0 s) = v" using assms by (auto simp: digits_for_def)
  have "dropWhile js_ws s = s" using s(2) digits_no_ws by (intro drop_no_ws) auto
  moreover have "hd s \<noteq> 45" "hd s \<noteq> 43" using s(1,2) by (cases s; auto simp: is_digit_def)+
  moreover have tw: "takeWhile is_digit s = s" using s(2) by (simp add: takeWhile_eq_all_conv)
  ultimately show ?thesis unfolding parseInt10_def Let_def using s(1,3) by (simp add: tw)
qed

text \<open>What the parsed time should be: the units that the format has, and 0 for the others.\<close>

definition expected_time :: "time_env \<Rightarrow> ustr \<Rightarrow> time \<Rightarrow> parsed" where
  "expected_time env f t =
     (let has = (\<lambda>x. unit_token env f x \<noteq> None); val = (\<lambda>x v. Fin (of_int (if has x then v else 0))) in
      \<lparr>p_hour = val 104 (hour t), p_minute = val 109 (minute t), p_second = val 115 (second t), p_millisec = val 108 (millisec t),
       p_microsec = val 99 (microsec t), p_ampm = (if has 116 then Some (ampm_name env t) else None),
       p_timezone = (if has 122 then Some (TzNum (zone_minutes (zone_of env t))) else None)\<rparr>)"

lemma digit_token_number:
  assumes "time_ok env t" and "m \<in> short_tokens \<or> m \<in> pair_tokens \<or> m \<in> {u ''l'', u ''c''}"
  shows "\<exists>n > 0. digits_for n (format_token env t m) (unit_value t m)"
  using assms(2) unit_digits [OF assms(1), of m] by (metis zero_less_numeral zero_less_one)

lemma unit_values:
  "unit_value t (u ''H'') = hour t" "unit_value t (u ''HH'') = hour t" "unit_value t (u ''h'') = clock12 (hour t)" "unit_value t (u ''hh'') = clock12 (hour t)"
  "unit_value t (u ''m'') = minute t" "unit_value t (u ''mm'') = minute t" "unit_value t (u ''s'') = second t" "unit_value t (u ''ss'') = second t"
  "unit_value t (u ''l'') = millisec t" "unit_value t (u ''c'') = microsec t"
  by (simp_all add: unit_value_def u_Cons)

lemma number_of_token:
  assumes "ascii_case env" and "time_ok env t" and "good_token env m qs" and "letter env m = x" and "x \<in> {109, 115, 108, 99}"
  shows "to_number (format_token env t m) =
    Fin (of_int (if x = 109 then minute t else if x = 115 then second t else if x = 108 then millisec t else microsec t))"
proof -
  note k = token_kinds [OF assms(1,3)]
  have "m \<in> short_tokens \<or> m \<in> pair_tokens \<or> m \<in> {u ''l'', u ''c''}"
    using assms(4,5) k by (auto simp: short_tokens_def pair_tokens_def)
  from digit_token_number [OF assms(2) this] have "to_number (format_token env t m) = Fin (of_int (unit_value t m))"
    using digits_for_number by blast
  moreover have "unit_value t m = (if x = 109 then minute t else if x = 115 then second t else if x = 108 then millisec t else microsec t)"
    using assms(4,5) k unit_values [of t] by auto
  ultimately show ?thesis by simp
qed

lemma number_at_unit:
  assumes "ascii_case env" and "time_ok env t" and "good_time_format env f" and "x \<in> {109, 115, 108, 99}"
  shows "number_at (map (\<lambda>m. Some (format_token env t m)) (tokens (pieces False f))) (getFormatPositions env f x) =
    Fin (of_int (if unit_token env f x \<noteq> None
      then if x = 109 then minute t else if x = 115 then second t else if x = 108 then millisec t else microsec t else 0))"
proof (cases "unit_token env f x")
  case None
  then show ?thesis using unit_capture(1) [OF assms(3) HOL.refl] by (simp add: number_at_def)
next
  case (Some m)
  from unit_capture(2) [OF assms(3) HOL.refl Some, of t] obtain qs where m: "letter env m = x" "good_token env m qs"
    "getFormatPositions env f x \<noteq> 0"
    "capture (map (\<lambda>m. Some (format_token env t m)) (tokens (pieces False f))) (getFormatPositions env f x) = Some (format_token env t m)" by auto
  then show ?thesis using number_of_token [OF assms(1,2) m(2,1) assms(4)] Some by (simp add: number_at_def)
qed

lemma marker_unit:
  assumes "ascii_case env" and "default_names env" and "time_ok env t" and "good_time_format env f"
  shows "marker env (map (\<lambda>m. Some (format_token env t m)) (tokens (pieces False f))) (getFormatPositions env f 116) =
    (if unit_token env f 116 \<noteq> None then Some (hour t \<le> 11) else None)"
proof (cases "unit_token env f 116")
  case None
  then show ?thesis using unit_capture(1) [OF assms(4) HOL.refl] by (simp add: marker_def)
next
  case (Some m)
  from unit_capture(2) [OF assms(4) HOL.refl Some, of t] obtain qs where m: "letter env m = 116" "good_token env m qs"
    "getFormatPositions env f 116 \<noteq> 0"
    "capture (map (\<lambda>m. Some (format_token env t m)) (tokens (pieces False f))) (getFormatPositions env f 116) = Some (format_token env t m)" by auto
  have "m \<in> {u ''t'', u ''T'', u ''tt'', u ''TT''}" using token_kinds(7) [OF assms(1) m(2,1)] .
  then have "format_token env t m \<in> (if hour t > 11 then {[112], [80], [112, 109], [80, 77]} else {[97], [65], [97, 109], [65, 77]})"
    by (elim insertE emptyE) (simp_all add: marker_text [OF assms(1,2), of t])
  moreover have "map (tuc env) ` set (amNames env) = {[65, 77], [65]}"
    using assms(2) ascii_letters [OF assms(1)] by (auto simp: default_names_def u_Cons)
  ultimately have "format_token env t m \<noteq> [] \<and> (map (tuc env) (format_token env t m) \<in> map (tuc env) ` set (amNames env)) = (hour t \<le> 11)"
    unfolding \<open>map (tuc env) ` set (amNames env) = {[65, 77], [65]}\<close> using ascii_letters(1-6) [OF assms(1)]
    by (cases "hour t > 11") auto
  then show ?thesis using Some m by (simp add: marker_def)
qed

lemma clock12_text:
  assumes "digits_for n s v" and "m \<in> {u ''h'', u ''hh''}" and "s = format_token env t m" and "0 \<le> hour t" and "v = clock12 (hour t)"
  shows "s = u ''12'' \<longleftrightarrow> hour t mod 12 = 0"
proof
  assume "s = u ''12''"
  then have "v = 12" using assms(1) by (simp add: digits_for_def u_Cons)
  then show "hour t mod 12 = 0" using assms(5) by (auto simp: clock12_def split: if_splits)
next
  assume "hour t mod 12 = 0"
  then have "clock12 (hour t) = 12" by (simp add: clock12_def)
  moreover have "num_str 12 = u ''12''" by (simp add: num_str_def digits_of_big digits_of_small u_Cons)
  moreover have "last_two (48 # u ''12'') = u ''12''" by (simp add: last_two_def u_Cons)
  ultimately show "s = u ''12''" using assms(2-4)
    by (elim insertE emptyE) (simp_all add: format_token_def convert_clock12 last_two_two_digits)
qed

lemma hour_unit:
  assumes "ascii_case env" and "time_ok env t" and "good_time_format env f"
  shows "hour_of (if unit_token env f 116 \<noteq> None then Some (hour t \<le> 11) else None)
      (map (\<lambda>m. Some (format_token env t m)) (tokens (pieces False f))) (getFormatPositions env f 104) =
    Fin (of_int (if unit_token env f 104 \<noteq> None then hour t else 0))"
proof (cases "unit_token env f 104")
  case None
  then show ?thesis using unit_capture(1) [OF assms(3) HOL.refl] by (simp add: hour_of_def)
next
  case (Some m)
  let ?caps = "map (\<lambda>m. Some (format_token env t m)) (tokens (pieces False f))" and ?s = "format_token env t m"
  from unit_capture(2) [OF assms(3) HOL.refl Some, of t] obtain qs where m: "letter env m = 104" "good_token env m qs"
    "getFormatPositions env f 104 \<noteq> 0" "capture ?caps (getFormatPositions env f 104) = Some ?s" by auto
  have kinds: "m \<in> {u ''H'', u ''h'', u ''HH'', u ''hh''}" using token_kinds(1) [OF assms(1) m(2,1)] .
  then obtain n where d: "0 < n" "digits_for n ?s (unit_value t m)"
    using digit_token_number [OF assms(2), of m] by (auto simp: short_tokens_def pair_tokens_def)
  have num: "number_at ?caps (getFormatPositions env f 104) = Fin (of_int (unit_value t m))" "plus_twelve (Some ?s) = Fin (of_int (unit_value t m + 12))"
    using m(3,4) digits_for_number [OF d(2,1)] parseInt10_digits [OF d(2,1)] by (simp_all add: number_at_def plus_twelve_def)
  have h: "0 \<le> hour t" "hour t \<le> 23" using assms(2) by (simp_all add: time_ok_def)
  have clock: "(hd m = 104) = (unit_token env f 116 \<noteq> None)" using assms(3) Some by (simp add: good_time_format_def)
  show ?thesis
  proof (cases "unit_token env f 116 = None")
    case True
    then have "m \<in> {u ''H'', u ''HH''}" using kinds clock by (auto simp: u_Cons)
    then have "unit_value t m = hour t" using unit_values by auto
    then show ?thesis using True Some m(3) num(1) by (simp add: hour_of_def)
  next
    case False
    then have k: "m \<in> {u ''h'', u ''hh''}" using kinds clock by (auto simp: u_Cons)
    then have v: "unit_value t m = clock12 (hour t)" using unit_values by auto
    have e: "?s = u ''12'' \<longleftrightarrow> hour t mod 12 = 0" using clock12_text [OF d(2) k HOL.refl h(1) v] .
    have "hour t mod 12 = hour t" if "hour t \<le> 11" using h(1) that by simp
    moreover have "hour t mod 12 = hour t - 12" if "\<not> hour t \<le> 11"
      unfolding minus_mod_self2 [of "hour t" 12, symmetric] using h(2) that by (intro mod_pos_pos_trivial) auto
    ultimately have m12: "hour t mod 12 = (if hour t \<le> 11 then hour t else hour t - 12)" by auto
    have "hour_of (Some (hour t \<le> 11)) ?caps (getFormatPositions env f 104) =
      (if hour t mod 12 = 0 then (if hour t \<le> 11 then Fin 0 else Fin (of_int (clock12 (hour t))))
       else if hour t \<le> 11 then Fin (of_int (clock12 (hour t))) else Fin (of_int (clock12 (hour t) + 12)))"
      using m(3,4) num e unfolding v hour_of_def by (cases "hour t \<le> 11"; cases "hour t mod 12 = 0") simp_all
    also have "\<dots> = Fin (of_int (hour t))" using h unfolding clock12_def m12 by (cases "hour t \<le> 11") auto
    finally show ?thesis using False Some by simp
  qed
qed

lemma zone_unit:
  assumes "ascii_case env" and "time_ok env t" and "good_time_format env f"
  shows "(if getFormatPositions env f 122 = 0 then None else map_option (timezoneOffsetNumber env)
      (capture (map (\<lambda>m. Some (format_token env t m)) (tokens (pieces False f))) (getFormatPositions env f 122))) =
    (if unit_token env f 122 \<noteq> None then Some (TzNum (zone_minutes (zone_of env t))) else None)"
proof (cases "unit_token env f 122")
  case None
  then show ?thesis using unit_capture(1) [OF assms(3) HOL.refl] by simp
next
  case (Some m)
  from unit_capture(2) [OF assms(3) HOL.refl Some, of t] obtain qs where m: "letter env m = 122" "good_token env m qs"
    "getFormatPositions env f 122 \<noteq> 0"
    "capture (map (\<lambda>m. Some (format_token env t m)) (tokens (pieces False f))) (getFormatPositions env f 122) = Some (format_token env t m)" by auto
  have "m \<in> {u ''z'', u ''Z''}" using token_kinds(6) [OF assms(1) m(2,1)] .
  then obtain i8 where "format_token env t m = offset_text (zone_minutes (zone_of env t)) i8" using zone_text(1,2) [OF assms(2)] by auto
  then show ?thesis using Some m zone_read [OF assms(1) zone_text(3,4) [OF assms(2)], of i8] by simp
qed

lemma position_zero:
  assumes "good_time_format env f"
  shows "getFormatPositions env f x = 0 \<longleftrightarrow> unit_token env f x = None"
  using unit_capture [OF assms HOL.refl] by (cases "unit_token env f x") auto

lemma strict_format:
  assumes "ascii_case env" and "default_names env" and "timeSuffix env = []" and "time_ok env t" and "good_time_format env f"
  shows "strictParse env f (formatTime env f t) = Parsed (expected_time env f t)"
proof -
  let ?ps = "pieces False f" and ?caps = "map (\<lambda>m. Some (format_token env t m)) (tokens (pieces False f))"
  have g: "pieces True f = ?ps" "good_pieces env ?ps" using assms(5) by (simp_all add: good_time_format_def)
  obtain rs where rs: "all_some (map (piece_re env) ?ps) = Some rs" "heads (chain rs) (formatTime env f t) ?caps []"
    using pieces_heads [OF assms(1,2,4) g(2)] by (auto simp: formatTime_def)
  have "time_regex env f = Some (chain rs)" using rs(1) assms(3) by (simp add: time_regex_def g(1))
  moreover have "exec_full (chain rs) (formatTime env f t) = Some ?caps" using exec_full_heads [OF rs(2)] .
  ultimately show ?thesis
    using marker_unit [OF assms(1,2,4,5)] hour_unit [OF assms(1,4,5)] zone_unit [OF assms(1,4,5)] position_zero [OF assms(5), of 116]
      number_at_unit [OF assms(1,4,5), of 109] number_at_unit [OF assms(1,4,5), of 115] number_at_unit [OF assms(1,4,5), of 108]
      number_at_unit [OF assms(1,4,5), of 99]
    by (simp add: strictParse_def expected_time_def ampm_name_def Let_def)
qed

definition time_writable :: "time_env \<Rightarrow> ustr \<Rightarrow> time \<Rightarrow> bool" where
  "time_writable env f t \<longleftrightarrow> ascii_case env \<and> default_names env \<and> timeSuffix env = [] \<and> time_ok env t \<and> good_time_format env f"

interpretation times: readable_text "formatTime env f" "strictParse env f" "\<lambda>t. Parsed (expected_time env f t)" "time_writable env f" for env f
  by unfold_locales (simp add: strict_format time_writable_def)

text \<open>Times with the same text agree in every unit that the format has.\<close>

lemma same_time_text:
  assumes "time_writable env f t" and "time_writable env f t'" and "formatTime env f t = formatTime env f t'"
  shows "expected_time env f t = expected_time env f t'"
  using times.same_text [OF assms] by simp

text \<open>
  C18. A time that the picker writes is the time that it reads back. For every format in which each
  unit can be told from what follows, with a 24-hour clock or a 12-hour clock and its marker, with
  literal text, milliseconds and time zones: the strict parser accepts the text of every time and
  returns all units that the format has, and 0 for the others.
\<close>

theorem time_round_trip:
  assumes "ascii_case env" and "default_names env" and "timeSuffix env = []" and "time_ok env t" and "good_time_format env f"
  shows "strictParse env f (formatTime env f t) = Parsed (expected_time env f t)"
  by (rule strict_format [OF assms])

lemma search_format: "pieces b (u ''hh:mm:ss tt'') =
  [Token (u ''hh''), Raw 58, Token (u ''mm''), Raw 58, Token (u ''ss''), Raw 32, Token (u ''tt'')]"
  by (simp add: u_Cons token_length_def Let_def)

lemma search_format_good: "good_time_format us_env (u ''hh:mm:ss tt'')"
proof -
  have low: "map (tlc us_env) (u ''hh:mm:ss tt'') = u ''hh:mm:ss tt''" by (simp add: us_env_def u_Cons)
  have "raw_re us_env 58 \<noteq> None" "raw_re us_env 32 \<noteq> None" by (simp_all add: raw_re_def js_ws_def operators_def)
  then have "good_pieces us_env (pieces False (u ''hh:mm:ss tt''))" by (simp add: search_format good_token_def pair_tokens_def)
  moreover have "letter us_env (u ''hh'') = 104" "letter us_env (u ''mm'') = 109" "letter us_env (u ''ss'') = 115" "letter us_env (u ''tt'') = 116"
    by (simp_all add: letter_def us_env_def u_Cons)
  ultimately show ?thesis unfolding good_time_format_def low
    by (simp add: unit_token_def search_format) (simp add: u_Cons)
qed

definition afternoon :: time where
  "afternoon = \<lparr>hour = 15, minute = 5, second = 9, millisec = 0, microsec = 0, timezone = TzNull\<rparr>"

theorem time_round_trip_witness:
  "strictParse us_env (u ''hh:mm:ss tt'') (formatTime us_env (u ''hh:mm:ss tt'') afternoon) =
    Parsed (expected_time us_env (u ''hh:mm:ss tt'') afternoon)"
proof (rule time_round_trip [OF us_env_ascii _ _ _ search_format_good])
  show "default_names us_env" "timeSuffix us_env = []" by (simp_all add: default_names_def us_env_def)
  show "time_ok us_env afternoon" by (simp add: time_ok_def afternoon_def zone_of_def us_env_def)
qed

subsection \<open>A marker beside the 24-hour clock\<close>

lemma marked_format: "pieces b (u ''HH tt'') = [Token (u ''HH''), Raw 32, Token (u ''tt'')]"
  by (simp add: u_Cons token_length_def Let_def)

text \<open>
  A marker beside a 24-hour clock spoils the afternoon. For the format \<open>HH tt\<close>, the text of every
  time after one o'clock in the afternoon is read back with an hour that is twelve too large,
  from 25 to 35.
\<close>

theorem marked_hour_too_large:
  assumes "ascii_case env" and "default_names env" and "timeSuffix env = []" and "time_ok env t" and "12 < hour t"
  shows "\<exists>p. strictParse env (u ''HH tt'') (formatTime env (u ''HH tt'') t) = Parsed p \<and> p_hour p = Fin (of_int (hour t + 12))"
proof -
  let ?f = "u ''HH tt''" and ?caps = "[Some (two_digits (hour t)), Some [112, 109]]"
  note a = ascii_letters [OF assms(1)]
  have "raw_re env 32 = Some blank" by (simp add: raw_re_def js_ws_def)
  then have "good_pieces env (pieces False ?f)" by (simp add: marked_format good_token_def pair_tokens_def)
  from pieces_heads [OF assms(1,2,4) this] obtain rs where rs: "all_some (map (piece_re env) (pieces True ?f)) = Some rs"
    "heads (chain rs) (formatTime env ?f t) (map (\<lambda>m. Some (format_token env t m)) (tokens (pieces False ?f))) []"
    by (auto simp: formatTime_def marked_format)
  have "map (\<lambda>m. Some (format_token env t m)) (tokens (pieces False ?f)) = ?caps"
    using assms(5) marker_text(1) [OF assms(1,2), of t] by (simp add: marked_format) (simp add: format_token_def)
  then have ex: "exec_full (chain rs) (formatTime env ?f t) = Some ?caps" using exec_full_heads [OF rs(2)] by simp
  have re: "time_regex env ?f = Some (chain rs)" using rs(1) assms(3) by (simp add: time_regex_def)
  have low: "map (tlc env) ?f = u ''hh tt''" using assms(1) by (simp add: u_Cons ascii_case_def)
  have "pieces True (u ''hh tt'') = [Token (u ''hh''), Raw 32, Token (u ''tt'')]" by (simp add: u_Cons token_length_def Let_def)
  then have pos: "getFormatPositions env ?f 104 = 1" "getFormatPositions env ?f 116 = 2"
    unfolding getFormatPositions_def low by (simp_all add: u_Cons)
  have d: "digits_for 2 (two_digits (hour t)) (hour t)" using assms(4) by (intro two_digits_for) (auto simp: time_ok_def)
  then have "two_digits (hour t) \<noteq> u ''12''" using assms(5) by (auto simp: digits_for_def u_Cons)
  moreover have "marker env ?caps 2 = Some False"
    using a assms(2) by (auto simp: marker_def capture_def default_names_def u_Cons)
  ultimately have "hour_of (marker env ?caps 2) ?caps 1 = Fin (of_int (hour t + 12))"
    using parseInt10_digits [OF d] by (simp add: hour_of_def capture_def plus_twelve_def)
  then show ?thesis by (simp add: strictParse_def re ex pos Let_def)
qed

theorem marked_hour_too_large_witness:
  "\<exists>p. strictParse us_env (u ''HH tt'') (formatTime us_env (u ''HH tt'') afternoon) = Parsed p \<and> p_hour p = Fin 27"
proof -
  have "default_names us_env" "timeSuffix us_env = []" "time_ok us_env afternoon" "12 < hour afternoon"
    by (simp_all add: default_names_def us_env_def time_ok_def afternoon_def zone_of_def)
  from marked_hour_too_large [OF us_env_ascii this] show ?thesis by (simp add: afternoon_def)
qed

end
