(* ===== verification/TP_DateTime.thy ===== *)
theory TP_DateTime
  imports TP_Time
begin

text \<open>
  Date and time together: how the time picker (\<open>plugins/jquery-ui/jquery-ui-timepicker-addon.js\<close>) writes
  both into the input field (\<open>_updateDateTime\<close>) and takes the text of the field apart again
  (\<open>splitDateTime\<close>, \<open>parseDateTimeInternal\<close>, \<open>parseDateTime\<close>, \<open>_parseTime\<close> and the overridden \<open>parseDate\<close>). The
  pages use it for the start and the end of a packet search. The theorems: date and time in the
  field are read back; a date is found whatever follows it; and two ways to lose the time.
  A date is a day of the local calendar; days on which the local clock is changed are not
  modelled apart.
\<close>

subsection \<open>Taking date and time apart\<close>

text \<open>
  The settings of a picker. \<open>None\<close> is a setting that is not there; the defaults of all pickers are
  \<open>$.timepicker._defaults\<close>.
\<close>

record split_settings =
  separator :: "ustr option"
  timeFormat :: "ustr option"

record split_defaults =
  def_separator :: ustr
  def_timeFormat :: ustr

definition factory_defaults :: split_defaults where
  "factory_defaults = \<lparr>def_separator = u '' '', def_timeFormat = u ''HH:mm''\<rparr>"

definition computeEffectiveSetting :: "ustr option \<Rightarrow> ustr \<Rightarrow> ustr" where
  "computeEffectiveSetting setting dflt = (case setting of Some s \<Rightarrow> if s \<noteq> [] then s else dflt | None \<Rightarrow> dflt)"

text \<open>\<open>s.split(sep)\<close>, into single characters for the empty separator.\<close>

fun split_text :: "ustr \<Rightarrow> ustr \<Rightarrow> ustr list" where
  "split_text [] s = map (\<lambda>c. [c]) s"
| "split_text (c # cs) s = split_on c cs s"

text \<open>
  The text is split from its end: the last parts, as many as the time format has, are the time. A
  negative count takes nothing, as \<open>splice\<close> does.
\<close>

definition splitDateTime :: "split_defaults \<Rightarrow> split_settings \<Rightarrow> ustr \<Rightarrow> ustr \<times> ustr" where
  "splitDateTime defs ts dateTimeString =
     (let sep = computeEffectiveSetting (separator ts) (def_separator defs);
          format = computeEffectiveSetting (timeFormat ts) (def_timeFormat defs);
          timePartsLen = length (split_text sep format);
          allParts = split_text sep dateTimeString;
          k = length allParts - timePartsLen
      in if length allParts > 1 then (join sep (take k allParts), join sep (take timePartsLen (drop k allParts)))
         else (dateTimeString, []))"

datatype datetime_error = Bad_date date_error | Wrong_time_format | Null_date | Outside_model

text \<open>\<open>read_time\<close> is \<open>parseTime\<close> with the settings of the picker.\<close>

definition parseDateTimeInternal ::
  "split_defaults \<Rightarrow> split_settings \<Rightarrow> (ustr \<Rightarrow> ustr \<Rightarrow> strict_result) \<Rightarrow> date_env \<Rightarrow> ustr \<Rightarrow> ustr \<Rightarrow> ustr \<Rightarrow>
   datetime_error + (cal option \<times> parsed option)" where
  "parseDateTimeInternal defs ts read_time denv dateFormat timeFmt dateTimeString =
     (let (dateString, timeString) = splitDateTime defs ts dateTimeString in
      case parseDate denv (Some dateFormat) (Some dateString) of
        Inl e \<Rightarrow> Inl (Bad_date e)
      | Inr date \<Rightarrow>
          if timeString = [] then Inr (date, None)
          else (case read_time timeFmt timeString of
              Parsed p \<Rightarrow> Inr (date, Some p)
            | No_match \<Rightarrow> Inl Wrong_time_format
            | Unmodelled \<Rightarrow> Inl Outside_model))"

text \<open>
  A date with a time of day: the day, the milliseconds since midnight and the microseconds; None is
  an invalid date. \<open>setHours\<close> carries over into the days around, \<open>setMicroseconds\<close> of the time picker
  into the milliseconds.
\<close>

type_synonym moment = "(cal \<times> int \<times> int) option"

fun whole :: "jsnum \<Rightarrow> int option" where
  "whole (Fin q) = Some (if q < 0 then - \<lfloor>- q\<rfloor> else \<lfloor>q\<rfloor>)"
| "whole _ = None"

definition day_ms :: int where
  "day_ms = 24 * 60 * 60 * 1000"

definition set_ms :: "cal \<Rightarrow> int \<Rightarrow> int \<Rightarrow> moment" where
  "set_ms c ms us = (case c of (y, m, d) \<Rightarrow> Some (carry_days y m (d + ms div day_ms), ms mod day_ms, us))"

definition setHours :: "cal \<Rightarrow> parsed \<Rightarrow> moment" where
  "setHours c p =
     (case (whole (p_hour p), whole (p_minute p), whole (p_second p), whole (p_millisec p)) of
        (Some h, Some mi, Some s, Some ms) \<Rightarrow> set_ms c (((h * 60 + mi) * 60 + s) * 1000 + ms) 0
      | _ \<Rightarrow> None)"

definition setMicroseconds :: "jsnum \<Rightarrow> moment \<Rightarrow> moment" where
  "setMicroseconds n d =
     (case (d, whole n) of (Some (c, ms, _), Some us) \<Rightarrow> set_ms c (ms + us div 1000) (js_rem us 1000) | _ \<Rightarrow> None)"

definition parseDateTime ::
  "split_defaults \<Rightarrow> split_settings \<Rightarrow> (ustr \<Rightarrow> ustr \<Rightarrow> strict_result) \<Rightarrow> date_env \<Rightarrow> ustr \<Rightarrow> ustr \<Rightarrow> ustr \<Rightarrow>
   datetime_error + moment option" where
  "parseDateTime defs ts read_time denv dateFormat timeFmt dateTimeString =
     (case parseDateTimeInternal defs ts read_time denv dateFormat timeFmt dateTimeString of
        Inl e \<Rightarrow> Inl e
      | Inr (date, None) \<Rightarrow> Inr (map_option (\<lambda>c. Some (c, 0, 0)) date)
      | Inr (None, Some p) \<Rightarrow> Inl Null_date
      | Inr (Some c, Some p) \<Rightarrow> Inr (Some (setMicroseconds (p_microsec p) (setHours c p))))"

text \<open>
  \<open>parseDate\<close> as the time picker overrides it. Only the complaint about extra characters has a colon
  in its text, two places before the characters it names: these are cut off for a second attempt.
\<close>

definition parseDate_extra :: "date_env \<Rightarrow> ustr option \<Rightarrow> ustr option \<Rightarrow> date_error + cal option" where
  "parseDate_extra denv format value =
     (case (parseDate denv format value, value) of
        (Inl (Extra_characters extra), Some v) \<Rightarrow> parseDate denv format (Some (take (length v - length extra) v))
      | (r, _) \<Rightarrow> r)"

subsection \<open>The field\<close>

record field_settings =
  t_env :: time_env
  dateFormat :: ustr
  o_timeFormat :: ustr
  o_separator :: ustr
  timeOnly :: bool
  timeOnlyShowDate :: bool
  alwaysSetTime :: bool
  showTimepicker :: bool
  altFieldTimeOnly :: bool
  altFormat :: ustr                  \<comment> \<open>empty: not set\<close>
  altSeparator :: "ustr option"
  altTimeSuffix :: "ustr option"
  altTimeFormat :: "ustr option"

record picker =
  current :: cal
  selected :: cal
  lastVal :: "ustr option"
  tp_time :: time
  tp_ampm :: ustr
  timeDefined :: bool
  formattedDate :: ustr
  formattedTime :: ustr
  formattedDateTime :: ustr
  input_val :: ustr
  alt_val :: "ustr option"           \<comment> \<open>\<open>$altInput\<close>\<close>
  change_events :: nat

definition new_date :: "cal \<Rightarrow> cal" where
  "new_date = (\<lambda>(y, m, d). make_date y m d)"

definition shown_date :: "picker \<Rightarrow> cal" where
  "shown_date s = (if fst (current s) > 0 then new_date (current s) else new_date (selected s))"

definition dateTime_text :: "field_settings \<Rightarrow> picker \<Rightarrow> ustr \<Rightarrow> ustr" where
  "dateTime_text o1 s fd =
     (if timeOnly o1 \<and> \<not> timeOnlyShowDate o1 then formattedTime s
      else if \<not> timeOnly o1 \<and> (alwaysSetTime o1 \<or> timeDefined s) \<or> timeOnly o1 \<and> timeOnlyShowDate o1
      then fd @ o_separator o1 @ formattedTime s @ timeSuffix (t_env o1)
      else fd)"

definition alt_text :: "date_env \<Rightarrow> field_settings \<Rightarrow> picker \<Rightarrow> ustr" where
  "alt_text denv o1 s =
     (let sep = (case altSeparator o1 of Some x \<Rightarrow> x | None \<Rightarrow> o_separator o1);
          suffix = (case altTimeSuffix o1 of Some x \<Rightarrow> x | None \<Rightarrow> timeSuffix (t_env o1));
          date = (if timeOnly o1 then []
            else (let d = (if altFormat o1 \<noteq> [] then formatDate denv (altFormat o1) (Some (shown_date s)) else formattedDate s)
                  in if d \<noteq> [] then d @ sep else d))
      in date @ (case altTimeFormat o1 of Some f \<Rightarrow> formatTime (t_env o1) f (tp_time s) | None \<Rightarrow> formattedTime s) @ suffix)"

text \<open>\<open>_updateDateTime\<close>. The date is taken before an empty field gives the selected day to the picker.\<close>

definition updateDateTime :: "date_env \<Rightarrow> field_settings \<Rightarrow> picker \<Rightarrow> picker" where
  "updateDateTime denv o1 s0 =
     (let fd = formatDate denv (dateFormat o1) (Some (shown_date s0));
          s = s0\<lparr>formattedDate := fd, current := (if lastVal s0 = Some [] then selected s0 else current s0),
            formattedDateTime := dateTime_text o1 s0 fd\<rparr>;
          s = (if \<not> showTimepicker o1 then s\<lparr>input_val := fd\<rparr>
            else if alt_val s \<noteq> None \<and> \<not> timeOnly o1 \<and> altFieldTimeOnly o1
            then s\<lparr>alt_val := Some (formattedTime s), input_val := fd\<rparr>
            else if alt_val s \<noteq> None
            then s\<lparr>input_val := formattedDateTime s, alt_val := Some (alt_text denv o1 (s\<lparr>current := current s0\<rparr>))\<rparr>
            else s\<lparr>input_val := formattedDateTime s\<rparr>)
      in s\<lparr>change_events := Suc (change_events s)\<rparr>)"

text \<open>The text that \<open>_addTimePicker\<close> and \<open>getDate\<close> read.\<close>

definition field_text :: "field_settings \<Rightarrow> picker \<Rightarrow> ustr" where
  "field_text o1 s = js_trim (case alt_val s of Some a \<Rightarrow> if altFieldTimeOnly o1 then input_val s @ u '' '' @ a else input_val s
     | None \<Rightarrow> input_val s)"

text \<open>
  \<open>$.extend(this, timeObj)\<close>: the units that were parsed, and marker and zone if there are any. None
  for units that are not whole numbers, which a custom parser might return.
\<close>

fun exact :: "jsnum \<Rightarrow> int option" where
  "exact (Fin q) = (if of_int \<lfloor>q\<rfloor> = q then Some \<lfloor>q\<rfloor> else None)"
| "exact _ = None"

definition extend_time :: "parsed \<Rightarrow> picker \<Rightarrow> picker option" where
  "extend_time p s =
     (case (exact (p_hour p), exact (p_minute p), exact (p_second p), exact (p_millisec p), exact (p_microsec p)) of
        (Some h, Some mi, Some se, Some ms, Some us) \<Rightarrow>
          Some (s\<lparr>tp_time := \<lparr>hour = h, minute = mi, second = se, millisec = ms, microsec = us,
              timezone = (case p_timezone p of Some z \<Rightarrow> z | None \<Rightarrow> timezone (tp_time s))\<rparr>,
            tp_ampm := (case p_ampm p of Some a \<Rightarrow> a | None \<Rightarrow> tp_ampm s)\<rparr>)
      | _ \<Rightarrow> None)"

definition own_settings :: "field_settings \<Rightarrow> split_settings" where
  "own_settings o1 = \<lparr>separator = Some (o_separator o1), timeFormat = Some (o_timeFormat o1)\<rparr>"

text \<open>\<open>_parseTime\<close>: whether it succeeded, and the picker after it. None: not modelled.\<close>

definition parseTime_field ::
  "split_defaults \<Rightarrow> (ustr \<Rightarrow> ustr \<Rightarrow> strict_result) \<Rightarrow> date_env \<Rightarrow> field_settings \<Rightarrow> ustr \<Rightarrow> bool \<Rightarrow> picker \<Rightarrow> (bool \<times> picker) option" where
  "parseTime_field defs read_time denv o1 timeString withDate s =
     (if withDate \<or> \<not> timeOnly o1
      then (case parseDateTimeInternal defs (own_settings o1) read_time denv (dateFormat o1) (o_timeFormat o1) timeString of
          Inl Outside_model \<Rightarrow> None
        | Inl e \<Rightarrow> Some (False, s)
        | Inr (_, None) \<Rightarrow> Some (False, s)
        | Inr (_, Some p) \<Rightarrow> map_option (Pair True) (extend_time p s))
      else (case read_time (o_timeFormat o1) timeString of
          Unmodelled \<Rightarrow> None
        | No_match \<Rightarrow> Some (False, s)
        | Parsed p \<Rightarrow> map_option (Pair True) (extend_time p s)))"

subsection \<open>Splitting\<close>

text \<open>With a separator of one character, a text has one part more than separators.\<close>

lemma split_go_mid: "split_go c [] acc (a @ c # b) = split_go c [] acc a @ split_go c [] [] b"
  by (induction a arbitrary: acc) auto

lemma split_on_mid: "split_on c [] (a @ c # b) = split_on c [] a @ split_on c [] b"
  by (simp add: split_on_def split_go_mid)

lemma split_go_length: "length (split_go c [] acc s) = Suc (count_list s c)"
  by (induction s arbitrary: acc) auto

lemma split_on_length: "length (split_on c [] s) = Suc (count_list s c)"
  by (simp add: split_on_def split_go_length)

lemma splitDateTime_parts:
  assumes "computeEffectiveSetting (separator ts) (def_separator defs) = [c]"
    and "count_list (computeEffectiveSetting (timeFormat ts) (def_timeFormat defs)) c = count_list tm c"
  shows "splitDateTime defs ts (dt @ c # tm) = (dt, tm)"
proof -
  have n: "length (split_on c [] (computeEffectiveSetting (timeFormat ts) (def_timeFormat defs))) = length (split_on c [] tm)"
    using assms(2) by (simp add: split_on_length)
  have "1 < length (split_on c [] dt) + length (split_on c [] tm)" by (simp add: split_on_length)
  then show ?thesis
    by (simp add: splitDateTime_def assms(1) split_on_mid n Let_def join_split_on)
qed

text \<open>
  A separator that no unit of a time writes: not a digit, and none of the letters and signs of the
  tokens, the markers and the time zones.
\<close>

definition plain_separator :: "nat \<Rightarrow> bool" where
  "plain_separator c \<longleftrightarrow> \<not> is_digit c \<and> c \<notin> set (u ''+-:HhmsTtZzlcAaPpM'') \<and> c \<noteq> 39"

fun piece_text :: "piece \<Rightarrow> ustr" where
  "piece_text (Token m) = m"
| "piece_text (Raw c) = [c]"

lemma pieces_text: "concat (map piece_text (pieces b f)) = f"
  by (induction b f rule: pieces.induct) (auto simp: Let_def)

lemma count_filter_39: "c \<noteq> 39 \<Longrightarrow> count_list (filter (\<lambda>x. x \<noteq> 39) m) c = count_list m c"
  by (induction m) auto

lemma zone_no_separator:
  assumes "plain_separator c" and "-720 \<le> n" and "n \<le> 840"
  shows "c \<notin> set (offset_text n i8)"
proof -
  obtain h m where hm: "h < 100" "m < 100" "\<bar>n\<bar> = 60 * int h + int m"
    "offset_text n i8 = (if i8 \<and> n = 0 then u ''Z'' else zone_digits (n < 0) h m i8)" by (rule offset_text_eq [OF assms(2,3)])
  have "c \<notin> set (zone_digits (n < 0) h m i8)"
    using digit_pair [OF hm(1)] digit_pair [OF hm(2)] assms(1) by (auto simp: zone_digits_def plain_separator_def u_Cons)
  moreover have "c \<notin> set (u ''Z'')" using assms(1) by (auto simp: plain_separator_def u_Cons)
  ultimately show ?thesis using hm(4) by simp
qed

lemma token_no_separator:
  assumes "ascii_case env" and "default_names env" and "time_ok env t" and "good_token env m ps" and "plain_separator c"
  shows "count_list (format_token env t m) c = count_list m c"
proof -
  have zero: "count_list (format_token env t m) c = count_list m c" if "c \<notin> set (format_token env t m)" "c \<notin> set m"
    using that by (simp add: count_list_0_iff)
  consider (digits) "m \<in> short_tokens \<or> m \<in> pair_tokens \<or> m \<in> {u ''l'', u ''c''}" | (zone) "m \<in> {u ''z'', u ''Z''}" |
    (mark) "m \<in> {u ''tt'', u ''TT'', u ''t'', u ''T''}" | (quote) "quoted env m"
    using assms(4) unfolding good_token_def by blast
  then show ?thesis
  proof cases
    case digits
    then obtain n v where "digits_for n (format_token env t m) v" using digit_token_number [OF assms(3)] by blast
    then have "c \<notin> set (format_token env t m)" using assms(5) by (auto simp: digits_for_def plain_separator_def)
    moreover have "c \<notin> set m" using digits assms(5) by (auto simp: short_tokens_def pair_tokens_def plain_separator_def u_Cons)
    ultimately show ?thesis by (rule zero)
  next
    case zone
    have "c \<notin> set (format_token env t m)"
      using zone zone_text(1,2) [OF assms(3)] zone_no_separator [OF assms(5) zone_text(3,4) [OF assms(3)]] by auto
    moreover have "c \<notin> set m" using zone assms(5) by (auto simp: plain_separator_def u_Cons)
    ultimately show ?thesis by (rule zero)
  next
    case mark
    then have "format_token env t m \<in> {[112, 109], [97, 109], [80, 77], [65, 77], [112], [97], [80], [65]}"
      by (auto simp only: insert_iff empty_iff marker_text [OF assms(1,2)] split: if_splits)
    then have "c \<notin> set (format_token env t m)" using assms(5) by (auto simp: plain_separator_def u_Cons)
    moreover have "c \<notin> set m" using mark assms(5) by (auto simp: plain_separator_def u_Cons)
    ultimately show ?thesis by (rule zero)
  next
    case quote
    then show ?thesis using assms(5) by (simp add: quoted_text count_filter_39 plain_separator_def)
  qed
qed

lemma pieces_separators:
  "ascii_case env \<Longrightarrow> default_names env \<Longrightarrow> time_ok env t \<Longrightarrow> plain_separator c \<Longrightarrow> good_pieces env ps \<Longrightarrow>
    count_list (concat (map (format_piece env t) ps)) c = count_list (concat (map piece_text ps)) c"
  by (induction env ps rule: good_pieces.induct) (auto simp: token_no_separator)

text \<open>So a written time has as many separators as its format, however many these are.\<close>

lemma formatTime_separators:
  assumes "ascii_case env" and "default_names env" and "time_ok env t" and "good_time_format env f" and "plain_separator c"
  shows "count_list (formatTime env f t) c = count_list f c"
  using pieces_separators [OF assms(1-3,5), of "pieces False f"] assms(4) pieces_text [of False f]
  by (simp add: formatTime_def good_time_format_def)

subsection \<open>Date and time are read back\<close>

lemma whole_of_int [simp]: "whole (Fin (of_int n)) = Some n"
  by simp

lemma exact_of_int [simp]: "exact (Fin (of_int n)) = Some n"
  by simp

text \<open>Settings and times of a picker for which the two halves are read back.\<close>

definition good_picker :: "date_env \<Rightarrow> field_settings \<Rightarrow> cal \<Rightarrow> time \<Rightarrow> bool" where
  "good_picker denv o1 c t \<longleftrightarrow> ascii_case (t_env o1) \<and> default_names (t_env o1) \<and> timeSuffix (t_env o1) = [] \<and>
     time_ok (t_env o1) t \<and> good_time_format (t_env o1) (o_timeFormat o1) \<and> formatTime (t_env o1) (o_timeFormat o1) t \<noteq> [] \<and>
     good_format denv (dateFormat o1) (fst c) \<and> valid_date c \<and> 100 \<le> fst c \<and>
     length (o_separator o1) = 1 \<and> plain_separator (hd (o_separator o1))"

lemma internal_round_trip:
  assumes "good_picker denv o1 c t"
  shows "parseDateTimeInternal defs (own_settings o1) (parseTime native Strict (t_env o1)) denv (dateFormat o1) (o_timeFormat o1)
      (formatDate denv (dateFormat o1) (Some c) @ o_separator o1 @ formatTime (t_env o1) (o_timeFormat o1) t) =
    Inr (Some c, Some (expected_time (t_env o1) (o_timeFormat o1) t))"
proof -
  let ?tm = "formatTime (t_env o1) (o_timeFormat o1) t" and ?dt = "formatDate denv (dateFormat o1) (Some c)"
  have g: "ascii_case (t_env o1)" "default_names (t_env o1)" "timeSuffix (t_env o1) = []" "time_ok (t_env o1) t"
    "good_time_format (t_env o1) (o_timeFormat o1)" "?tm \<noteq> []" "good_format denv (dateFormat o1) (fst c)" "valid_date c" "100 \<le> fst c"
    using assms by (simp_all add: good_picker_def)
  obtain x where x: "o_separator o1 = [x]" "plain_separator x"
    using assms by (auto simp: good_picker_def length_Suc_conv)
  have cnt: "count_list ?tm x = count_list (o_timeFormat o1) x" by (rule formatTime_separators [OF g(1,2,4,5) x(2)])
  have "o_timeFormat o1 \<noteq> []" using g(6) by (auto simp: formatTime_def)
  then have "splitDateTime defs (own_settings o1) (?dt @ x # ?tm) = (?dt, ?tm)"
    using cnt by (intro splitDateTime_parts) (simp_all add: own_settings_def computeEffectiveSetting_def x(1))
  moreover have "parseDate denv (Some (dateFormat o1)) (Some ?dt) = Inr (Some c)"
    using parse_format [OF g(7), of "fst (snd c)" "snd (snd c)"] g(8,9) by simp
  ultimately show ?thesis using strict_format [OF g(1-5)] g(6) x(1) by (simp add: parseDateTimeInternal_def parseTime_def)
qed

interpretation fields: readable_text
    "\<lambda>(c, t). formatDate denv (dateFormat o1) (Some c) @ o_separator o1 @ formatTime (t_env o1) (o_timeFormat o1) t"
    "parseDateTimeInternal defs (own_settings o1) (parseTime native Strict (t_env o1)) denv (dateFormat o1) (o_timeFormat o1)"
    "\<lambda>(c, t). Inr (Some c, Some (expected_time (t_env o1) (o_timeFormat o1) t))" "\<lambda>(c, t). good_picker denv o1 c t" for defs native denv o1
  by unfold_locales (auto simp: internal_round_trip)

definition keeps :: "time_env \<Rightarrow> ustr \<Rightarrow> time \<Rightarrow> time \<Rightarrow> bool" where
  "keeps env f t t' \<longleftrightarrow>
     hour t' = (if unit_token env f 104 \<noteq> None then hour t else 0) \<and> minute t' = (if unit_token env f 109 \<noteq> None then minute t else 0) \<and>
     second t' = (if unit_token env f 115 \<noteq> None then second t else 0) \<and> millisec t' = (if unit_token env f 108 \<noteq> None then millisec t else 0) \<and>
     microsec t' = (if unit_token env f 99 \<noteq> None then microsec t else 0)"

lemma extend_expected:
  "\<exists>s'. extend_time (expected_time env f t) s = Some s' \<and> keeps env f t (tp_time s')"
  by (auto simp: extend_time_def expected_time_def keeps_def Let_def)

text \<open>The overridden \<open>parseDate\<close> finds the date that stands first.\<close>

lemma parseDate_extra_finds:
  assumes "good_format denv format y" and "valid_date (y, m, d)" and "100 \<le> y" and "rest = [] \<or> \<not> is_digit (hd rest)"
  shows "parseDate_extra denv (Some format) (Some (formatDate denv format (Some (y, m, d)) @ rest)) = Inr (Some (y, m, d))"
  using parse_format_rest [OF assms] parse_format [OF assms(1-3)] by (simp add: parseDate_extra_def)

text \<open>
  C16. Date and time in the field of a picker are read back. After \<open>_updateDateTime\<close> has written the
  chosen date and time, the text of the field gives the same date and the same time, in all units
  that the time format has. The separator is any one character that no unit writes; it may occur in
  the date and in the time format as often as wanted. The date alone is found in the same text by
  the overridden \<open>parseDate\<close>, and the change of the field is announced once.
\<close>

theorem field_round_trip:
  assumes "good_picker denv o1 (shown_date s) t" and "formattedTime s = formatTime (t_env o1) (o_timeFormat o1) t"
    and "\<not> timeOnly o1" and "showTimepicker o1" and "alwaysSetTime o1 \<or> timeDefined s" and "alt_val s = None"
    and "js_trim (input_val (updateDateTime denv o1 s)) = input_val (updateDateTime denv o1 s)"
  shows "\<exists>s'. parseTime_field defs (parseTime native Strict (t_env o1)) denv o1 (field_text o1 (updateDateTime denv o1 s)) withDate
        (updateDateTime denv o1 s) = Some (True, s') \<and> keeps (t_env o1) (o_timeFormat o1) t (tp_time s') \<and>
      parseDate_extra denv (Some (dateFormat o1)) (Some (field_text o1 (updateDateTime denv o1 s))) = Inr (Some (shown_date s)) \<and>
      change_events s' = Suc (change_events s)"
proof -
  let ?c = "shown_date s" and ?s = "updateDateTime denv o1 s" and ?tm = "formatTime (t_env o1) (o_timeFormat o1) t"
  have suf: "timeSuffix (t_env o1) = []" using assms(1) by (simp add: good_picker_def)
  have s: "input_val ?s = formatDate denv (dateFormat o1) (Some ?c) @ o_separator o1 @ ?tm" "alt_val ?s = None"
    "change_events ?s = Suc (change_events s)"
    using assms(2-6) suf by (auto simp: updateDateTime_def dateTime_text_def Let_def)
  have ft: "field_text o1 ?s = formatDate denv (dateFormat o1) (Some ?c) @ o_separator o1 @ ?tm"
    using assms(7) s by (simp add: field_text_def)
  obtain s' where s': "extend_time (expected_time (t_env o1) (o_timeFormat o1) t) ?s = Some s'" "keeps (t_env o1) (o_timeFormat o1) t (tp_time s')"
    using extend_expected by blast
  have "change_events s' = change_events ?s" using s'(1) by (auto simp: extend_time_def split: option.splits)
  moreover have "parseDate_extra denv (Some (dateFormat o1)) (Some (field_text o1 ?s)) = Inr (Some ?c)"
  proof -
    obtain y m d where c: "?c = (y, m, d)" by (cases ?c)
    obtain x where x: "o_separator o1 = [x]" "\<not> is_digit x"
      using assms(1) by (auto simp: good_picker_def length_Suc_conv plain_separator_def)
    show ?thesis unfolding ft c using assms(1) x by (intro parseDate_extra_finds) (simp_all add: good_picker_def c)
  qed
  moreover have "parseTime_field defs (parseTime native Strict (t_env o1)) denv o1 (field_text o1 ?s) withDate ?s = Some (True, s')"
    using internal_round_trip [OF assms(1)] assms(3) s'(1) unfolding ft by (simp add: parseTime_field_def)
  ultimately show ?thesis using s' s(3) by auto
qed

text \<open>The picker of the search page, with a date and a time in it.\<close>

definition search_settings :: field_settings where
  "search_settings = \<lparr>t_env = us_env, dateFormat = u ''mm/dd/yy'', o_timeFormat = u ''hh:mm:ss tt'', o_separator = u '' '', timeOnly = False,
     timeOnlyShowDate = False, alwaysSetTime = True, showTimepicker = True, altFieldTimeOnly = True, altFormat = [], altSeparator = None,
     altTimeSuffix = None, altTimeFormat = None\<rparr>"

definition search_picker :: picker where
  "search_picker = \<lparr>current = (2016, 1, 29), selected = (2016, 1, 29), lastVal = None, tp_time = afternoon, tp_ampm = [], timeDefined = True,
     formattedDate = [], formattedTime = formatTime us_env (u ''hh:mm:ss tt'') afternoon, formattedDateTime = [], input_val = [], alt_val = None,
     change_events = 0\<rparr>"

lemma js_trim_id:
  assumes "s \<noteq> []" and "\<not> js_ws (hd s)" and "\<not> js_ws (last s)"
  shows "js_trim s = s"
proof -
  have d: "dropWhile js_ws x = x" if "\<not> js_ws (hd x)" for x using that by (cases x) auto
  show ?thesis using d [of s] d [of "rev s"] assms by (simp add: js_trim_def hd_rev)
qed

lemma search_date: "shown_date search_picker = (2016, 1, 29)"
  using make_date_valid [of 2016 1 29] by (simp add: shown_date_def search_picker_def new_date_def valid_date_def month_days_def leap_def)

lemma search_time_text: "formatTime us_env (u ''hh:mm:ss tt'') afternoon = u ''03:05:09 pm''"
  by (simp add: formatTime_def search_format format_token_def) 
     (simp add: u_Cons afternoon_def us_env_def convert24to12_def js_rem_def last_two_def two_digits_def num_str_def digits_of_small ampm_name_def Let_def)

lemma search_date_text: "formatDate english_env (u ''mm/dd/yy'') (Some (2016, 1, 29)) = u ''02/29/2016''"
  by (simp add: formatDate_def us_format) (simp add: u_Cons formatNumber_def num_str_def digits_of_small digits_of_big Let_def)

lemma search_good: "good_picker english_env search_settings (shown_date search_picker) afternoon"
proof -
  have "good_format english_env (u ''mm/dd/yy'') 2016"
    unfolding good_format_def us_format by (auto simp: has_year_def has_day_def has_month_def)
  moreover have "default_names us_env" "timeSuffix us_env = []" "time_ok us_env afternoon"
    by (simp_all add: default_names_def us_env_def time_ok_def afternoon_def zone_of_def)
  moreover have "valid_date (2016, 1, 29)" by (simp add: valid_date_def month_days_def leap_def)
  moreover have "plain_separator (hd (u '' ''))" by (simp add: plain_separator_def is_digit_def u_Cons)
  ultimately show ?thesis
    unfolding good_picker_def search_date using us_env_ascii search_format_good search_time_text
    by (simp add: search_settings_def u_Cons)
qed

theorem field_round_trip_witness:
  "\<exists>s'. parseTime_field factory_defaults (parseTime (\<lambda>_. None) Strict us_env) english_env search_settings
      (field_text search_settings (updateDateTime english_env search_settings search_picker)) True
      (updateDateTime english_env search_settings search_picker) = Some (True, s') \<and>
    keeps us_env (u ''hh:mm:ss tt'') afternoon (tp_time s')"
proof -
  have v: "input_val (updateDateTime english_env search_settings search_picker) = u ''02/29/2016 03:05:09 pm''"
    unfolding updateDateTime_def Let_def search_date
    by (simp add: search_settings_def dateTime_text_def search_picker_def search_date_text search_time_text) (simp add: us_env_def u_Cons)
  have "js_trim (u ''02/29/2016 03:05:09 pm'') = u ''02/29/2016 03:05:09 pm''"
    by (rule js_trim_id) (simp_all add: u_Cons js_ws_def)
  then have "js_trim (input_val (updateDateTime english_env search_settings search_picker)) =
    input_val (updateDateTime english_env search_settings search_picker)" unfolding v .
  moreover have "formattedTime search_picker = formatTime (t_env search_settings) (o_timeFormat search_settings) afternoon"
    "\<not> timeOnly search_settings" "showTimepicker search_settings" "alwaysSetTime search_settings" "alt_val search_picker = None"
    by (simp_all add: search_settings_def search_picker_def)
  ultimately show ?thesis
    using field_round_trip [OF search_good, of factory_defaults "\<lambda>_. None" True] by (auto simp: search_settings_def)
qed

subsection \<open>What follows a date\<close>

lemma takeWhile_take: "length (takeWhile p (take n s)) \<le> k \<Longrightarrow> takeWhile p (take n (take k s)) = takeWhile p (take n s)"
proof (induction s arbitrary: n k)
  case (Cons c s)
  then show ?case by (cases n; cases k) (auto split: if_splits)
qed simp

lemma getNumber_cut:
  assumes "getNumber mn sz v i = Inr (x, j)" and "i \<le> length v"
  shows "i \<le> j \<and> j \<le> length v \<and> (\<forall>n \<ge> j. getNumber mn sz (take n v) i = Inr (x, j))"
proof -
  let ?num = "takeWhile is_digit (take sz (drop i v))"
  have j: "j = i + length ?num" "x = int (nat_of_digits 0 ?num)" "\<not> length ?num < mn" using assms(1) by (auto simp: getNumber_def Let_def split: if_splits)
  have "length ?num \<le> length (drop i v)" using length_takeWhile_le [of is_digit "take sz (drop i v)"] by simp
  moreover have "takeWhile is_digit (take sz (drop i (take n v))) = ?num" if "j \<le> n" for n
    using takeWhile_take [of is_digit sz "drop i v" "n - i"] that j(1) by (simp add: drop_take)
  ultimately show ?thesis using j assms(2) by (auto simp: getNumber_def Let_def)
qed

lemma first_name_cut:
  "first_name low s ns = Some (k, name) \<Longrightarrow> length name \<le> length s \<and> (\<forall>n \<ge> length name. first_name low (take n s) ns = Some (k, name))"
proof (induction ns)
  case (Cons a ns)
  obtain j m where a: "a = (j, m)" by (cases a)
  show ?case
  proof (cases "map low (take (length m) s) = map low m")
    case True
    then have e: "k = j" "name = m" using Cons.prems a by simp_all
    from True have "length (take (length m) s) = length m" by (metis length_map)
    then have "length m \<le> length s" by simp
    then show ?thesis using True a e by (auto simp: min_def)
  next
    case False
    have "map low (take (length m) (take n s)) \<noteq> map low m" for n
    proof (cases "length m \<le> n")
      case False
      then have "length (take (length m) (take n s)) < length m" by simp
      then show ?thesis by (metis length_map less_irrefl)
    qed (use False in \<open>simp add: min_def\<close>)
    then show ?thesis using Cons False a by auto
  qed
qed simp

lemma getName_cut:
  assumes "getName low names v i = Inr (x, j)" and "i \<le> length v"
  shows "i \<le> j \<and> j \<le> length v \<and> (\<forall>n \<ge> j. getName low names (take n v) i = Inr (x, j))"
proof -
  obtain k name where k: "first_name low (drop i v) (by_length names) = Some (k, name)" "x = int k + 1" "j = i + length name"
    using assms(1) by (auto simp: getName_def split: option.splits)
  then show ?thesis using first_name_cut [OF k(1)] assms(2) by (auto simp: getName_def drop_take)
qed

lemma iValue_set_from_time [simp]: "iValue (set_from_time c s) = iValue s"
  by (cases c) (simp add: set_from_time_def)

lemma with_number_cut:
  assumes "\<And>x j. rd v = Inr (x, j) \<Longrightarrow> i \<le> j \<and> j \<le> length v \<and> (\<forall>n \<ge> j. rd (take n v) = Inr (x, j))"
    and "\<And>n s. iValue (f n s) = iValue s" and "with_number (rd v) f st = Inr st'"
  shows "i \<le> iValue st' \<and> iValue st' \<le> length v \<and> (\<forall>n \<ge> iValue st'. with_number (rd (take n v)) f st = Inr st')"
proof -
  obtain x j where r: "rd v = Inr (x, j)" "st' = f x (st\<lparr>iValue := j\<rparr>)" using assms(3) by (auto simp: with_number_def split: sum.splits)
  then show ?thesis using assms(1) [OF r(1)] assms(2) by (simp add: with_number_def)
qed

lemma directive_cut:
  assumes "parse_directive env v x st = Inr st'" and "iValue st \<le> length v"
  shows "iValue st \<le> iValue st' \<and> iValue st' \<le> length v \<and> (\<forall>n \<ge> iValue st'. parse_directive env (take n v) x st = Inr st')"
proof -
  have number: "iValue st \<le> iValue st' \<and> iValue st' \<le> length v \<and> (\<forall>n \<ge> iValue st'. with_number (getNumber mn sz (take n v) (iValue st)) f st = Inr st')"
    if "with_number (getNumber mn sz v (iValue st)) f st = Inr st'" "\<And>n s. iValue (f n s) = iValue s" for mn sz f
    by (rule with_number_cut [where rd = "\<lambda>v. getNumber mn sz v (iValue st)", OF _ that(2,1)]) (rule getNumber_cut [OF _ assms(2)])
  have name: "iValue st \<le> iValue st' \<and> iValue st' \<le> length v \<and> (\<forall>n \<ge> iValue st'. with_number (getName low ns (take n v) (iValue st)) f st = Inr st')"
    if "with_number (getName low ns v (iValue st)) f st = Inr st'" "\<And>n s. iValue (f n s) = iValue s" for low ns f
    by (rule with_number_cut [where rd = "\<lambda>v. getName low ns v (iValue st)", OF _ that(2,1)]) (rule getName_cut [OF _ assms(2)])
  show ?thesis using assms(1)
  proof (cases x)
    case (Literal c)
    then show ?thesis using assms by (auto split: if_splits)
  next
    case (Day_name b)
    then show ?thesis using assms(1) by (simp only: parse_directive.simps) (rule name, assumption, simp)
  next
    case (Month_name b)
    then show ?thesis using assms(1) by (simp only: parse_directive.simps) (rule name, assumption, simp)
  qed (simp only: parse_directive.simps Let_def, rule number, assumption, simp)+
qed

lemma directives_cut:
  "parse_directives env v ds st = Inr st' \<Longrightarrow> iValue st \<le> length v \<Longrightarrow>
    iValue st \<le> iValue st' \<and> iValue st' \<le> length v \<and> parse_directives env (take (iValue st') v) ds st = Inr st'"
proof (induction ds arbitrary: st)
  case (Cons x ds)
  then obtain st1 where 1: "parse_directive env v x st = Inr st1" "parse_directives env v ds st1 = Inr st'" by (auto split: sum.splits)
  have c: "iValue st \<le> iValue st1" "iValue st1 \<le> length v" "\<forall>n \<ge> iValue st1. parse_directive env (take n v) x st = Inr st1"
    using directive_cut [OF 1(1) Cons.prems(2)] by blast+
  have d: "iValue st1 \<le> iValue st'" "iValue st' \<le> length v" "parse_directives env (take (iValue st') v) ds st1 = Inr st'"
    using Cons.IH [OF 1(2) c(2)] by blast+
  then show ?case using c by simp
qed simp

lemma directive_no_extra: "parse_directive env v x st \<noteq> Inl (Extra_characters e)"
  by (cases x) (auto simp: with_number_def getNumber_def getName_def Let_def split: option.splits)

lemma directives_no_extra: "parse_directives env v ds st \<noteq> Inl (Extra_characters e)"
proof (induction ds arbitrary: st)
  case (Cons x ds)
  then show ?case using directive_no_extra [of env v x st e] by (cases "parse_directive env v x st") auto
qed simp

text \<open>
  No text is refused for what follows the date. Where \<open>parseDate\<close> complains about extra
  characters, the overridden \<open>parseDate\<close> reads the text before them again and gets as far as the first
  attempt did: the result is a date, no date for an empty text, or the complaint that there is no
  such day.
\<close>

theorem extra_never_refused:
  assumes "parseDate denv (Some f) (Some v) = Inl (Extra_characters e)"
  shows "\<exists>pre. v = pre @ e \<and> parseDate_extra denv (Some f) (Some v) = parseDate denv (Some f) (Some pre) \<and>
    (\<forall>err. parseDate denv (Some f) (Some pre) = Inl err \<longrightarrow> err = Invalid_date)"
proof -
  let ?st = "\<lparr>iValue = 0, p_year = -1, p_month = -1, p_day = -1, p_doy = -1\<rparr>" and ?ds = "directives True False f"
  obtain st where st: "parse_directives denv v ?ds ?st = Inr st" "e = drop (iValue st) v" "v \<noteq> []"
    using assms directives_no_extra [of denv v ?ds ?st] by (auto simp: parseDate_def Let_def split: sum.splits if_splits prod.splits)
  let ?pre = "take (iValue st) v"
  have c: "iValue st \<le> length v" "parse_directives denv ?pre ?ds ?st = Inr st" using directives_cut [OF st(1)] by auto
  have "v = ?pre @ e" "length v - length e = iValue st" using st(2) c(1) by auto
  moreover have "\<forall>err. parseDate denv (Some f) (Some ?pre) = Inl err \<longrightarrow> err = Invalid_date"
    using c by (auto simp: parseDate_def Let_def split: if_splits prod.splits)
  ultimately show ?thesis using assms by (intro exI [of _ ?pre]) (simp add: parseDate_extra_def)
qed

theorem extra_never_refused_witness:
  "\<exists>pre. u ''02/29/2016T10'' = pre @ u ''T10'' \<and>
    parseDate_extra english_env (Some (u ''mm/dd/yy'')) (Some (u ''02/29/2016T10'')) = parseDate english_env (Some (u ''mm/dd/yy'')) (Some pre)"
proof -
  have "good_format english_env (u ''mm/dd/yy'') 2016"
    unfolding good_format_def us_format by (auto simp: has_year_def has_day_def has_month_def)
  moreover have "valid_date (2016, 1, 29)" by (simp add: valid_date_def month_days_def leap_def)
  ultimately have "parseDate english_env (Some (u ''mm/dd/yy'')) (Some (u ''02/29/2016'' @ u ''T10'')) = Inl (Extra_characters (u ''T10''))"
    using parse_format_rest [of english_env "u ''mm/dd/yy''" 2016 1 29 "u ''T10''"] unfolding search_date_text by (simp add: u_Cons is_digit_def js_ws_def)
  moreover have "u ''02/29/2016'' @ u ''T10'' = u ''02/29/2016T10''" by (simp add: u_Cons)
  ultimately show ?thesis using extra_never_refused [of english_env "u ''mm/dd/yy''" "u ''02/29/2016T10''" "u ''T10''"] by auto
qed

subsection \<open>Two ways to lose the time\<close>

lemma digits_first:
  assumes "\<not> is_digit c"
  shows "exec_full (chain (Group (Seq digit1 digit1) # rs)) (c # s) = None"
  using assms by (simp add: exec_full_def digit1_def)

lemma marker_alone:
  assumes "ascii_case env" and "default_names env" and "timeSuffix env = []" and "time_ok env t" and "\<not> is_digit c"
  shows "strictParse env (u ''hh:mm tt'') (c # s) = No_match"
proof -
  let ?f = "u ''hh:mm tt''"
  have p: "pieces b ?f = [Token (u ''hh''), Raw 58, Token (u ''mm''), Raw 32, Token (u ''tt'')]" for b
    by (simp add: u_Cons token_length_def Let_def)
  have "raw_re env 58 \<noteq> None" "raw_re env 32 \<noteq> None" by (simp_all add: raw_re_def js_ws_def operators_def)
  then have "good_pieces env (pieces True ?f)" by (simp add: p good_token_def pair_tokens_def)
  from pieces_heads [OF assms(1,2,4) this] obtain rs where rs: "all_some (map (piece_re env) (pieces True ?f)) = Some rs" by auto
  moreover have "piece_re env (Token (u ''hh'')) = Some (Group (Seq digit1 digit1))" by (simp add: token_re_def u_Cons)
  ultimately obtain qs where "rs = Group (Seq digit1 digit1) # qs" unfolding p by (auto simp del: piece_re.simps split: option.splits)
  then have "time_regex env ?f = Some (chain (Group (Seq digit1 digit1) # qs))" using rs assms(3) by (simp add: time_regex_def)
  then show ?thesis using digits_first [OF assms(5), of qs s] by (simp add: strictParse_def del: chain.simps)
qed

text \<open>
  \<open>parseDateTime\<close> does not split by the time format it is given. The text is split by the format in
  the settings, or the default \<open>HH:mm\<close> where there are none: then a time that was written with \<open>hh:mm tt\<close>
  is refused as a wrong time format for every date and every time, since only its marker is taken for
  the time.
\<close>

theorem given_format_ignored:
  assumes "ascii_case env" and "default_names env" and "timeSuffix env = []" and "time_ok env t"
    and "good_format denv f y" and "valid_date (y, m, d)" and "100 \<le> y"
  shows "parseDateTime factory_defaults \<lparr>separator = None, timeFormat = None\<rparr> (parseTime native Strict env) denv f (u ''hh:mm tt'')
      (formatDate denv f (Some (y, m, d)) @ u '' '' @ formatTime env (u ''hh:mm tt'') t) = Inl Wrong_time_format"
proof -
  let ?dt = "formatDate denv f (Some (y, m, d))" and ?hm = "format_token env t (u ''hh'') @ [58] @ format_token env t (u ''mm'')"
  let ?ts = "\<lparr>separator = None, timeFormat = None\<rparr>"
  have "pieces False (u ''hh:mm tt'') = [Token (u ''hh''), Raw 58, Token (u ''mm''), Raw 32, Token (u ''tt'')]"
    by (simp add: u_Cons token_length_def Let_def)
  then have tm: "formatTime env (u ''hh:mm tt'') t = ?hm @ 32 # format_token env t (u ''tt'')" by (simp add: formatTime_def)
  obtain p where p: "format_token env t (u ''tt'') = [p, 109]" "\<not> is_digit p" "p \<noteq> 32"
    using marker_text(1) [OF assms(1,2), of t] by (cases "hour t > 11") (auto simp: is_digit_def)
  have "splitDateTime factory_defaults ?ts ((?dt @ 32 # ?hm) @ 32 # [p, 109]) = (?dt @ 32 # ?hm, [p, 109])"
    by (rule splitDateTime_parts) (use p(3) in \<open>simp_all add: computeEffectiveSetting_def factory_defaults_def u_Cons\<close>)
  moreover have "?dt @ u '' '' @ formatTime env (u ''hh:mm tt'') t = (?dt @ 32 # ?hm) @ 32 # [p, 109]" unfolding tm p(1) by (simp add: u_Cons [of "CHR '' ''"])
  moreover have "parseDate denv (Some f) (Some (?dt @ 32 # ?hm)) = Inr (Some (y, m, d))"
    using parse_format_rest [OF assms(5-7), of "32 # ?hm"] by (simp add: is_digit_def js_ws_def)
  ultimately show ?thesis using marker_alone [OF assms(1-4) p(2), of "[109]"]
    by (simp add: parseDateTime_def parseDateTimeInternal_def parseTime_def)
qed

theorem given_format_ignored_witness:
  "parseDateTime factory_defaults \<lparr>separator = None, timeFormat = None\<rparr> (parseTime (\<lambda>_. None) Strict us_env) english_env (u ''mm/dd/yy'') (u ''hh:mm tt'')
      (formatDate english_env (u ''mm/dd/yy'') (Some (2016, 1, 29)) @ u '' '' @ formatTime us_env (u ''hh:mm tt'') afternoon) = Inl Wrong_time_format"
proof (rule given_format_ignored [OF us_env_ascii])
  show "good_format english_env (u ''mm/dd/yy'') 2016"
    unfolding good_format_def us_format by (auto simp: has_year_def has_day_def has_month_def)
qed (simp_all add: default_names_def us_env_def time_ok_def afternoon_def zone_of_def valid_date_def month_days_def leap_def)

text \<open>
  A picker for times only does not read what it writes if it has a suffix. The suffix is left out
  of the text of the field but demanded when the field is read: with the format \<open>HH:mm\<close> and the suffix
  \<open>h\<close>, every time that was chosen is refused when the picker opens again.
\<close>

theorem time_only_suffix_lost:
  assumes "ascii_case (t_env o1)" and "timeSuffix (t_env o1) = u ''h''" and "time_ok (t_env o1) t" and "o_timeFormat o1 = u ''HH:mm''"
    and "timeOnly o1" and "\<not> timeOnlyShowDate o1" and "showTimepicker o1" and "alt_val s = None"
    and "formattedTime s = formatTime (t_env o1) (o_timeFormat o1) t"
  shows "parseTime_field defs (parseTime native Strict (t_env o1)) denv o1 (field_text o1 (updateDateTime denv o1 s)) False
    (updateDateTime denv o1 s) = Some (False, updateDateTime denv o1 s)"
proof -
  let ?env = "t_env o1" and ?f = "u ''HH:mm''"
  have p: "pieces b ?f = [Token (u ''HH''), Raw 58, Token (u ''mm'')]" for b by (simp add: u_Cons token_length_def Let_def)
  have pt: "u ''HH'' \<in> pair_tokens" "u ''mm'' \<in> pair_tokens" by (simp_all add: pair_tokens_def)
  obtain a b where h: "format_token ?env t (u ''HH'') = [a, b]" "is_digit a" "is_digit b"
    using unit_digits(2) [OF assms(3) pt(1)] by (auto simp: digits_for_def length_Suc_conv numeral_2_eq_2)
  obtain c d where m: "format_token ?env t (u ''mm'') = [c, d]" "is_digit c" "is_digit d"
    using unit_digits(2) [OF assms(3) pt(2)] by (auto simp: digits_for_def length_Suc_conv numeral_2_eq_2)
  have tm: "formatTime ?env ?f t = [a, b, 58, c, d]" using h m by (simp add: formatTime_def p)
  have in_val: "input_val (updateDateTime denv o1 s) = [a, b, 58, c, d]" "alt_val (updateDateTime denv o1 s) = None"
    using assms(4-9) tm by (simp_all add: updateDateTime_def dateTime_text_def Let_def)
  have "\<not> js_ws a" "\<not> js_ws d" using h m by (auto simp: js_ws_def is_digit_def)
  then have ft: "field_text o1 (updateDateTime denv o1 s) = [a, b, 58, c, d]"
    unfolding field_text_def by (simp add: in_val js_trim_id)
  have pr: "piece_re ?env (Token (u ''HH'')) = Some (Group (Seq digit1 digit1))" "piece_re ?env (Token (u ''mm'')) = Some (Group (Seq digit1 digit1))"
    "piece_re ?env (Raw 58) = Some (Cls (same_ci ?env 58))" "suffix_re ?env 104 = Some (Cls (same_ci ?env 104))"
    by (simp_all add: token_re_def raw_re_def suffix_re_def js_ws_def operators_def u_Cons)
  have "time_regex ?env ?f = Some (chain [Group (Seq digit1 digit1), Cls (same_ci ?env 58), Group (Seq digit1 digit1), Cls (same_ci ?env 104)])"
    unfolding time_regex_def p assms(2) by (simp del: piece_re.simps add: pr) (simp add: u_Cons pr)
  moreover have "exec_full (chain [Group (Seq digit1 digit1), Cls (same_ci ?env 58), Group (Seq digit1 digit1), Cls (same_ci ?env 104)]) [a, b, 58, c, d] = None"
    using h m by (simp add: exec_full_def digit1_def same_ci_def)
  ultimately show ?thesis unfolding ft using assms(4,5) by (simp add: parseTime_field_def parseTime_def strictParse_def)
qed

theorem time_only_suffix_lost_witness:
  "let o1 = search_settings\<lparr>t_env := us_env\<lparr>timeSuffix := u ''h''\<rparr>, o_timeFormat := u ''HH:mm'', timeOnly := True\<rparr>;
       s = updateDateTime english_env o1 (search_picker\<lparr>formattedTime := formatTime (t_env o1) (u ''HH:mm'') afternoon\<rparr>)
   in parseTime_field factory_defaults (parseTime (\<lambda>_. None) Strict (t_env o1)) english_env o1 (field_text o1 s) False s = Some (False, s)"
  unfolding Let_def
  by (rule time_only_suffix_lost [where t = afternoon])
     (simp_all add: search_settings_def search_picker_def ascii_case_def us_env_def time_ok_def afternoon_def zone_of_def)

end
