(* ===== verification/TP_Limit.thy ===== *)
theory TP_Limit
  imports Prelude
begin

text \<open>
  \<open>_limitMinMaxDateTime\<close> of the time picker (\<open>plugins/jquery-ui/jquery-ui-timepicker-addon.js\<close>): it keeps
  the chosen time within the earliest and the latest date and time, and moves the ends of the
  sliders accordingly, remembering the ends they had at first. The theorems: on the day of a limit
  the time is moved to the limit if it lies beyond, and otherwise kept; on other days the sliders
  get their first ends back; and microseconds are not limited.
\<close>

subsection \<open>State\<close>

text \<open>Five units: a time of day, or the ends of the five sliders.\<close>

record units =
  u_hour :: int
  u_minute :: int
  u_second :: int
  u_millisec :: int
  u_microsec :: int

record limits =
  chosen :: units
  mins :: units                    \<comment> \<open>\<open>hourMin\<close> and so on\<close>
  maxs :: units
  minOriginal :: "units option"    \<comment> \<open>\<open>hourMinOriginal\<close> and so on, None before they are set\<close>
  maxOriginal :: "units option"

text \<open>A limit: its day (as the number of a day) and its time of day.\<close>

type_synonym limit = "int \<times> units"

subsection \<open>The earliest time\<close>

definition keep_min :: "limits \<Rightarrow> units" where
  "keep_min s = (case minOriginal s of Some o1 \<Rightarrow> o1 | None \<Rightarrow> mins s)"

definition keep_max :: "limits \<Rightarrow> units" where
  "keep_max s = (case maxOriginal s of Some o1 \<Rightarrow> o1 | None \<Rightarrow> maxs s)"

definition limit_min_micro :: "units \<Rightarrow> units \<Rightarrow> limits \<Rightarrow> limits" where
  "limit_min_micro l orig s =
     (let s = s\<lparr>mins := (mins s)\<lparr>u_millisec := u_millisec l\<rparr>\<rparr> in
      if u_millisec (chosen s) \<le> u_millisec (mins s)
      then s\<lparr>chosen := (chosen s)\<lparr>u_millisec := u_millisec (mins s)\<rparr>, mins := (mins s)\<lparr>u_microsec := u_microsec l\<rparr>\<rparr>
      else (let s = (if u_microsec (chosen s) < u_microsec (mins s) then s\<lparr>chosen := (chosen s)\<lparr>u_microsec := u_microsec (mins s)\<rparr>\<rparr> else s)
            in s\<lparr>mins := (mins s)\<lparr>u_microsec := u_microsec orig\<rparr>\<rparr>))"

definition limit_min_second :: "units \<Rightarrow> units \<Rightarrow> limits \<Rightarrow> limits" where
  "limit_min_second l orig s =
     (let s = s\<lparr>mins := (mins s)\<lparr>u_second := u_second l\<rparr>\<rparr> in
      if u_second (chosen s) \<le> u_second (mins s) then limit_min_micro l orig (s\<lparr>chosen := (chosen s)\<lparr>u_second := u_second (mins s)\<rparr>\<rparr>)
      else s\<lparr>mins := (mins s)\<lparr>u_millisec := u_millisec orig, u_microsec := u_microsec orig\<rparr>\<rparr>)"

definition limit_min_minute :: "units \<Rightarrow> units \<Rightarrow> limits \<Rightarrow> limits" where
  "limit_min_minute l orig s =
     (let s = s\<lparr>mins := (mins s)\<lparr>u_minute := u_minute l\<rparr>\<rparr> in
      if u_minute (chosen s) \<le> u_minute (mins s) then limit_min_second l orig (s\<lparr>chosen := (chosen s)\<lparr>u_minute := u_minute (mins s)\<rparr>\<rparr>)
      else s\<lparr>mins := (mins s)\<lparr>u_second := u_second orig, u_millisec := u_millisec orig, u_microsec := u_microsec orig\<rparr>\<rparr>)"

definition limit_min_hour :: "units \<Rightarrow> units \<Rightarrow> limits \<Rightarrow> limits" where
  "limit_min_hour l orig s =
     (let s = s\<lparr>mins := (mins s)\<lparr>u_hour := u_hour l\<rparr>\<rparr> in
      if u_hour (chosen s) \<le> u_hour (mins s) then limit_min_minute l orig (s\<lparr>chosen := (chosen s)\<lparr>u_hour := u_hour (mins s)\<rparr>\<rparr>)
      else s\<lparr>mins := (mins s)\<lparr>u_minute := u_minute orig, u_second := u_second orig, u_millisec := u_millisec orig, u_microsec := u_microsec orig\<rparr>\<rparr>)"

definition limit_min :: "bool \<Rightarrow> int \<Rightarrow> limit option \<Rightarrow> limits \<Rightarrow> limits" where
  "limit_min timeOnly day minDateTime s =
     (case minDateTime of
        None \<Rightarrow> s
      | Some (d, l) \<Rightarrow>
          (let orig = keep_min s; s = s\<lparr>minOriginal := Some orig\<rparr> in
           if timeOnly \<or> d = day then limit_min_hour l orig s else s\<lparr>mins := orig\<rparr>))"

subsection \<open>The latest time\<close>

definition limit_max_micro :: "units \<Rightarrow> units \<Rightarrow> limits \<Rightarrow> limits" where
  "limit_max_micro l orig s =
     (let s = s\<lparr>maxs := (maxs s)\<lparr>u_millisec := u_millisec l\<rparr>\<rparr> in
      if u_millisec (chosen s) \<ge> u_millisec (maxs s)
      then s\<lparr>chosen := (chosen s)\<lparr>u_millisec := u_millisec (maxs s)\<rparr>, maxs := (maxs s)\<lparr>u_microsec := u_microsec l\<rparr>\<rparr>
      else (let s = (if u_microsec (chosen s) > u_microsec (maxs s) then s\<lparr>chosen := (chosen s)\<lparr>u_microsec := u_microsec (maxs s)\<rparr>\<rparr> else s)
            in s\<lparr>maxs := (maxs s)\<lparr>u_microsec := u_microsec orig\<rparr>\<rparr>))"

definition limit_max_second :: "units \<Rightarrow> units \<Rightarrow> limits \<Rightarrow> limits" where
  "limit_max_second l orig s =
     (let s = s\<lparr>maxs := (maxs s)\<lparr>u_second := u_second l\<rparr>\<rparr> in
      if u_second (chosen s) \<ge> u_second (maxs s) then limit_max_micro l orig (s\<lparr>chosen := (chosen s)\<lparr>u_second := u_second (maxs s)\<rparr>\<rparr>)
      else s\<lparr>maxs := (maxs s)\<lparr>u_millisec := u_millisec orig, u_microsec := u_microsec orig\<rparr>\<rparr>)"

definition limit_max_minute :: "units \<Rightarrow> units \<Rightarrow> limits \<Rightarrow> limits" where
  "limit_max_minute l orig s =
     (let s = s\<lparr>maxs := (maxs s)\<lparr>u_minute := u_minute l\<rparr>\<rparr> in
      if u_minute (chosen s) \<ge> u_minute (maxs s) then limit_max_second l orig (s\<lparr>chosen := (chosen s)\<lparr>u_minute := u_minute (maxs s)\<rparr>\<rparr>)
      else s\<lparr>maxs := (maxs s)\<lparr>u_second := u_second orig, u_millisec := u_millisec orig, u_microsec := u_microsec orig\<rparr>\<rparr>)"

definition limit_max_hour :: "units \<Rightarrow> units \<Rightarrow> limits \<Rightarrow> limits" where
  "limit_max_hour l orig s =
     (let s = s\<lparr>maxs := (maxs s)\<lparr>u_hour := u_hour l\<rparr>\<rparr> in
      if u_hour (chosen s) \<ge> u_hour (maxs s) then limit_max_minute l orig (s\<lparr>chosen := (chosen s)\<lparr>u_hour := u_hour (maxs s)\<rparr>\<rparr>)
      else s\<lparr>maxs := (maxs s)\<lparr>u_minute := u_minute orig, u_second := u_second orig, u_millisec := u_millisec orig, u_microsec := u_microsec orig\<rparr>\<rparr>)"

definition limit_max :: "bool \<Rightarrow> int \<Rightarrow> limit option \<Rightarrow> limits \<Rightarrow> limits" where
  "limit_max timeOnly day maxDateTime s =
     (case maxDateTime of
        None \<Rightarrow> s
      | Some (d, l) \<Rightarrow>
          (let orig = keep_max s; s = s\<lparr>maxOriginal := Some orig\<rparr> in
           if timeOnly \<or> d = day then limit_max_hour l orig s else s\<lparr>maxs := orig\<rparr>))"

subsection \<open>Limits of the time of day\<close>

text \<open>
  \<open>minTime\<close> and \<open>maxTime\<close>, read as hours and minutes. The test for equal hours compares the result of
  a comparison with a number, which never holds: the branch after it is left out.
\<close>

definition limit_minTime :: "(int \<times> int) option \<Rightarrow> limits \<Rightarrow> limits" where
  "limit_minTime t s =
     (case t of
        None \<Rightarrow> s
      | Some (h, m) \<Rightarrow>
          if u_hour (chosen s) < h
          then s\<lparr>chosen := (chosen s)\<lparr>u_hour := h, u_minute := m\<rparr>, mins := (mins s)\<lparr>u_hour := h, u_minute := m\<rparr>\<rparr>
          else if u_hour (chosen s) = h \<and> u_minute (chosen s) < m
          then s\<lparr>chosen := (chosen s)\<lparr>u_minute := m\<rparr>, mins := (mins s)\<lparr>u_minute := m\<rparr>\<rparr>
          else if u_hour (mins s) < h then s\<lparr>mins := (mins s)\<lparr>u_hour := h, u_minute := m\<rparr>\<rparr>
          else s\<lparr>mins := (mins s)\<lparr>u_minute := 0\<rparr>\<rparr>)"

definition limit_maxTime :: "(int \<times> int) option \<Rightarrow> limits \<Rightarrow> limits" where
  "limit_maxTime t s =
     (case t of
        None \<Rightarrow> s
      | Some (h, m) \<Rightarrow>
          if u_hour (chosen s) > h
          then s\<lparr>chosen := (chosen s)\<lparr>u_hour := h, u_minute := m\<rparr>, maxs := (maxs s)\<lparr>u_hour := h, u_minute := m\<rparr>\<rparr>
          else if u_hour (chosen s) = h \<and> u_minute (chosen s) > m
          then s\<lparr>chosen := (chosen s)\<lparr>u_minute := m\<rparr>, maxs := (maxs s)\<lparr>u_minute := m\<rparr>\<rparr>
          else if u_hour (maxs s) > h then s\<lparr>maxs := (maxs s)\<lparr>u_hour := h, u_minute := m\<rparr>\<rparr>
          else s\<lparr>maxs := (maxs s)\<lparr>u_minute := 59\<rparr>\<rparr>)"

record limit_settings =
  showTimepicker :: bool
  timeOnly :: bool
  minDateTime :: "limit option"
  maxDateTime :: "limit option"
  minTime :: "(int \<times> int) option"
  maxTime :: "(int \<times> int) option"

definition limitMinMaxDateTime :: "limit_settings \<Rightarrow> int \<Rightarrow> limits \<Rightarrow> limits" where
  "limitMinMaxDateTime o1 day s =
     (if \<not> showTimepicker o1 then s
      else limit_maxTime (maxTime o1) (limit_minTime (minTime o1)
        (limit_max (timeOnly o1) day (maxDateTime o1) (limit_min (timeOnly o1) day (minDateTime o1) s))))"

text \<open>
  The ends, step and value that a slider of one unit is given afterwards; and the whole function, with
  the sliders that are there and whether they are to be adjusted.
\<close>

definition slider_settings :: "int \<Rightarrow> int \<Rightarrow> int \<Rightarrow> int \<Rightarrow> int \<times> int \<times> int \<times> int" where
  "slider_settings lo hi stp v = (lo, hi - js_rem (hi - lo) stp, stp, v - js_rem v stp)"

definition adjustSliders :: "units \<Rightarrow> bool list \<Rightarrow> limits \<Rightarrow> (int \<times> int \<times> int \<times> int) list" where
  "adjustSliders steps present s =
     map (\<lambda>(p, f). slider_settings (f (mins s)) (f (maxs s)) (f steps) (f (chosen s)))
       (filter fst (zip present [u_hour, u_minute, u_second, u_millisec, u_microsec]))"

definition limit_and_adjust ::
  "limit_settings \<Rightarrow> units \<Rightarrow> bool list \<Rightarrow> bool \<Rightarrow> int \<Rightarrow> limits \<Rightarrow> limits \<times> (int \<times> int \<times> int \<times> int) list" where
  "limit_and_adjust o1 steps present adjust day s =
     (let s = limitMinMaxDateTime o1 day s in (s, if showTimepicker o1 \<and> adjust then adjustSliders steps present s else []))"

subsection \<open>Limits hold\<close>

text \<open>The order of times, to the millisecond; and the four units by which it goes.\<close>

definition at_least :: "units \<Rightarrow> units \<Rightarrow> bool" where
  "at_least x l \<longleftrightarrow> u_hour x > u_hour l \<or> u_hour x = u_hour l \<and> (u_minute x > u_minute l \<or> u_minute x = u_minute l \<and>
     (u_second x > u_second l \<or> u_second x = u_second l \<and> u_millisec x \<ge> u_millisec l))"

definition same_ms :: "units \<Rightarrow> units \<Rightarrow> bool" where
  "same_ms x y \<longleftrightarrow> u_hour x = u_hour y \<and> u_minute x = u_minute y \<and> u_second x = u_second y \<and> u_millisec x = u_millisec y"

lemmas limit_min_defs = limit_min_hour_def limit_min_minute_def limit_min_second_def limit_min_micro_def
lemmas limit_max_defs = limit_max_hour_def limit_max_minute_def limit_max_second_def limit_max_micro_def

lemma limit_min_hour_ok: "at_least (chosen (limit_min_hour l orig s)) l"
  by (auto simp: limit_min_defs at_least_def Let_def)

lemma limit_min_hour_id: "at_least (chosen s) l \<Longrightarrow> same_ms (chosen (limit_min_hour l orig s)) (chosen s)"
  by (auto simp: limit_min_defs at_least_def same_ms_def Let_def)

lemma limit_max_hour_ok: "at_least l (chosen (limit_max_hour l orig s))"
  by (auto simp: limit_max_defs at_least_def Let_def)

lemma limit_max_hour_id: "at_least l (chosen s) \<Longrightarrow> same_ms (chosen (limit_max_hour l orig s)) (chosen s)"
  by (auto simp: limit_max_defs at_least_def same_ms_def Let_def)

lemma limit_min_hour_rest: "maxs (limit_min_hour l orig s) = maxs s" "maxOriginal (limit_min_hour l orig s) = maxOriginal s"
    "minOriginal (limit_min_hour l orig s) = minOriginal s"
  by (simp_all add: limit_min_defs Let_def)

lemma limit_max_hour_rest: "mins (limit_max_hour l orig s) = mins s" "minOriginal (limit_max_hour l orig s) = minOriginal s"
    "maxOriginal (limit_max_hour l orig s) = maxOriginal s"
  by (simp_all add: limit_max_defs Let_def)

text \<open>The chosen time is never below the lower or above the upper end of its sliders.\<close>

definition above_mins :: "limits \<Rightarrow> bool" where
  "above_mins s \<longleftrightarrow> u_hour (mins s) \<le> u_hour (chosen s) \<and> u_minute (mins s) \<le> u_minute (chosen s) \<and>
     u_second (mins s) \<le> u_second (chosen s) \<and> u_millisec (mins s) \<le> u_millisec (chosen s)"

definition below_maxs :: "limits \<Rightarrow> bool" where
  "below_maxs s \<longleftrightarrow> u_hour (chosen s) \<le> u_hour (maxs s) \<and> u_minute (chosen s) \<le> u_minute (maxs s) \<and>
     u_second (chosen s) \<le> u_second (maxs s) \<and> u_millisec (chosen s) \<le> u_millisec (maxs s)"

lemma limit_min_hour_above:
  assumes "above_mins (s\<lparr>mins := orig\<rparr>)"
  shows "above_mins (limit_min_hour l orig s)"
  using assms by (auto simp: limit_min_defs above_mins_def Let_def)

lemma limit_max_hour_below:
  assumes "below_maxs (s\<lparr>maxs := orig\<rparr>)"
  shows "below_maxs (limit_max_hour l orig s)"
  using assms by (auto simp: limit_max_defs below_maxs_def Let_def)

lemma above_mins_original [simp]: "above_mins (s\<lparr>minOriginal := x, mins := y\<rparr>) = above_mins (s\<lparr>mins := y\<rparr>)"
  by (simp add: above_mins_def)

lemma below_maxs_original [simp]: "below_maxs (s\<lparr>maxOriginal := x, maxs := y\<rparr>) = below_maxs (s\<lparr>maxs := y\<rparr>)"
  by (simp add: below_maxs_def)

lemma limit_min_at:
  assumes "t \<or> d = day"
  shows "limit_min t day (Some (d, l)) s = limit_min_hour l (keep_min s) (s\<lparr>minOriginal := Some (keep_min s)\<rparr>)"
  using assms by (auto simp: limit_min_def Let_def)

lemma limit_max_at:
  assumes "t \<or> d = day"
  shows "limit_max t day (Some (d, l)) s = limit_max_hour l (keep_max s) (s\<lparr>maxOriginal := Some (keep_max s)\<rparr>)"
  using assms by (auto simp: limit_max_def Let_def)

text \<open>
  C19. On the day of a limit the chosen time is kept within it. After the earliest date and time has
  been applied, the chosen time is not before it, to the millisecond; a time that was within it is
  kept; and if the chosen time was not below the first ends of the sliders, it is not below their
  new ends. The same holds, the other way round, for the latest date and time.
\<close>

theorem limits_enforced:
  assumes "t \<or> d = day"
  shows "(let s1 = limit_min t day (Some (d, l)) s in
      at_least (chosen s1) l \<and> (at_least (chosen s) l \<longrightarrow> same_ms (chosen s1) (chosen s)) \<and>
      (above_mins (s\<lparr>mins := keep_min s\<rparr>) \<longrightarrow> above_mins s1)) \<and>
    (let s2 = limit_max t day (Some (d, l)) s in
      at_least l (chosen s2) \<and> (at_least l (chosen s) \<longrightarrow> same_ms (chosen s2) (chosen s)) \<and>
      (below_maxs (s\<lparr>maxs := keep_max s\<rparr>) \<longrightarrow> below_maxs s2))"
  unfolding limit_min_at [OF assms] limit_max_at [OF assms] Let_def
  by (intro conjI impI limit_min_hour_ok limit_max_hour_ok limit_min_hour_above limit_max_hour_below)
     (use limit_min_hour_id [of "s\<lparr>minOriginal := Some (keep_min s)\<rparr>" l "keep_min s"]
        limit_max_hour_id [of l "s\<lparr>maxOriginal := Some (keep_max s)\<rparr>" "keep_max s"] in simp_all)

text \<open>The ends of the sliders without limits, and a time picker with these ends and a chosen time.\<close>

definition no_time :: units where
  "no_time = \<lparr>u_hour = 0, u_minute = 0, u_second = 0, u_millisec = 0, u_microsec = 0\<rparr>"

definition last_time :: units where
  "last_time = \<lparr>u_hour = 23, u_minute = 59, u_second = 59, u_millisec = 999, u_microsec = 999\<rparr>"

definition at_time :: "int \<Rightarrow> int \<Rightarrow> units" where
  "at_time h m = no_time\<lparr>u_hour := h, u_minute := m\<rparr>"

definition picker_at :: "units \<Rightarrow> limits" where
  "picker_at c = \<lparr>chosen = c, mins = no_time, maxs = last_time, minOriginal = None, maxOriginal = None\<rparr>"

lemmas sample_times = no_time_def last_time_def at_time_def picker_at_def

theorem limits_enforced_witness:
  "at_least (chosen (limit_min False 5 (Some (5, at_time 10 30)) (picker_at (at_time 9 20)))) (at_time 10 30)"
  using limits_enforced [of False 5 5 "at_time 10 30" "picker_at (at_time 9 20)"] by (simp add: Let_def)

text \<open>
  The limits do not stick. A time picker that has been narrowed on the day of a limit gets the
  ends of its sliders back as soon as another day is chosen, whatever was chosen in between.
\<close>

theorem limits_restored:
  assumes "minOriginal s = None" "maxOriginal s = None" "day \<noteq> d" "day \<noteq> d'"
  shows "let s1 = limit_max False d2 (Some (d', l')) (limit_min False d1 (Some (d, l)) s);
             s2 = limit_max False day (Some (d', l')) (limit_min False day (Some (d, l)) (s1\<lparr>chosen := c\<rparr>))
         in chosen s2 = c \<and> mins s2 = mins s \<and> maxs s2 = maxs s"
  using assms by (auto simp: limit_min_def limit_max_def keep_min_def keep_max_def limit_min_hour_rest limit_max_hour_rest Let_def)

theorem limits_restored_witness:
  "let s1 = limit_max False 5 (Some (7, at_time 12 0)) (limit_min False 5 (Some (5, at_time 10 30)) (picker_at (at_time 9 20)));
       s2 = limit_max False 6 (Some (7, at_time 12 0)) (limit_min False 6 (Some (5, at_time 10 30)) (s1\<lparr>chosen := at_time 8 0\<rparr>))
   in mins s2 = no_time \<and> maxs s2 = last_time"
  using limits_restored [of "picker_at (at_time 9 20)" 6 5 7 5 "at_time 12 0" 5 "at_time 10 30" "at_time 8 0"]
  by (simp add: picker_at_def Let_def)

text \<open>
  What the limits do not do. Microseconds are not limited: on the day of the earliest time, a
  time that agrees with it to the millisecond stays as it is although its microseconds are fewer.
  And two limits within one hour are not enforced together: with the times from 10:30 to 10:45
  allowed, 12:20 becomes 10:20, since the latest time is applied last and lowers the hour only.
\<close>

theorem limits_missed:
  assumes "same_ms (chosen s) l" "u_microsec (chosen s) < u_microsec l"
  shows "chosen (limit_min False d (Some (d, l)) s) = chosen s \<and>
    chosen (limitMinMaxDateTime \<lparr>showTimepicker = True, timeOnly = False, minDateTime = Some (5, at_time 10 30),
      maxDateTime = Some (5, at_time 10 45), minTime = None, maxTime = None\<rparr> 5 (picker_at (at_time 12 20))) = at_time 10 20"
proof
  show "chosen (limit_min False d (Some (d, l)) s) = chosen s"
    using assms by (simp add: limit_min_def limit_min_defs same_ms_def Let_def)
qed (simp add: limitMinMaxDateTime_def limit_min_def limit_max_def limit_min_defs limit_max_defs limit_minTime_def limit_maxTime_def
       sample_times keep_min_def keep_max_def Let_def)

theorem limits_missed_witness:
  "chosen (limit_min False 5 (Some (5, no_time\<lparr>u_microsec := 9\<rparr>)) (picker_at no_time)) = no_time"
  using limits_missed [of "picker_at no_time" "no_time\<lparr>u_microsec := 9\<rparr>" 5]
  by (simp add: sample_times same_ms_def)

text \<open>The limits of the time of day hold as well.\<close>

lemma limit_minTime_ok:
  "let c = chosen (limit_minTime (Some (h, m)) s) in u_hour c > h \<or> u_hour c = h \<and> u_minute c \<ge> m"
  by (auto simp: limit_minTime_def Let_def)

lemma limit_maxTime_ok:
  "let c = chosen (limit_maxTime (Some (h, m)) s) in u_hour c < h \<or> u_hour c = h \<and> u_minute c \<le> m"
  by (auto simp: limit_maxTime_def Let_def)

text \<open>The upper end of a slider lies a whole number of steps above the lower one, at most at the given end.\<close>

lemma slider_settings_aligned:
  assumes "lo \<le> hi" "0 < stp"
  shows "case slider_settings lo hi stp v of (a, b, _, _) \<Rightarrow> a \<le> b \<and> b \<le> hi \<and> stp dvd b - a"
proof -
  have "js_rem (hi - lo) stp = (hi - lo) mod stp"
    using assms by (simp add: js_rem_pos)
  moreover have "(hi - lo) mod stp \<le> hi - lo" "0 \<le> (hi - lo) mod stp"
    using assms by (simp_all add: zmod_le_nonneg_dividend)
  moreover have "stp dvd hi - lo - (hi - lo) mod stp"
    by (simp add: dvd_minus_mod)
  ultimately show ?thesis
    by (simp add: slider_settings_def algebra_simps)
qed

lemma adjustSliders_aligned:
  assumes "\<forall>f \<in> {u_hour, u_minute, u_second, u_millisec, u_microsec}. f (mins s) \<le> f (maxs s) \<and> 0 < f steps"
    and "(a, b, k, v) \<in> set (adjustSliders steps present s)"
  shows "a \<le> b \<and> k dvd b - a"
proof -
  let ?zs = "zip present [u_hour, u_minute, u_second, u_millisec, u_microsec]"
  obtain x where x: "(a, b, k, v) = (\<lambda>(p, f). slider_settings (f (mins s)) (f (maxs s)) (f steps) (f (chosen s))) x" "x \<in> set (filter fst ?zs)"
    using assms(2) unfolding adjustSliders_def set_map by (rule imageE)
  obtain p f where pf: "x = (p, f)" by (cases x)
  then have f2: "(a, b, k, v) = slider_settings (f (mins s)) (f (maxs s)) (f steps) (f (chosen s))" using x(1) by simp
  have "(p, f) \<in> set ?zs" using x(2) unfolding pf set_filter by blast
  then have "f \<in> set [u_hour, u_minute, u_second, u_millisec, u_microsec]" by (rule set_zip_rightD)
  then have f1: "f \<in> {u_hour, u_minute, u_second, u_millisec, u_microsec}" by (simp only: list.set)
  have o: "f (mins s) \<le> f (maxs s)" "0 < f steps" using assms(1) f1 by blast+
  have "case (a, b, k, v) of (a, b, _, _) \<Rightarrow> a \<le> b \<and> b \<le> f (maxs s) \<and> f steps dvd b - a"
    unfolding f2 by (rule slider_settings_aligned [OF o])
  moreover have "k = f steps" using f2 by (simp add: slider_settings_def)
  ultimately show ?thesis by simp
qed

end
