(* ===== verification/TP_Range.thy ===== *)
theory TP_Range
  imports UI_Picker
begin

text \<open>
  Two pickers that make a range (\<open>plugins/jquery-ui/jquery-ui-timepicker-addon.js\<close>, \<open>handleRange\<close> and the
  functions inside it, by which the search page keeps the start of a search before its end). The
  range code works on any picker: what it uses of one is the record \<open>range_ops\<close>, what it relies on is the locale \<open>range_field\<close>, which date pickers
  meet. Times are milliseconds of the local clock; days on which the clock is changed are not
  modelled apart.
\<close>

subsection \<open>The range code\<close>

record 'p range_ops =
  r_get :: "'p \<Rightarrow> int option \<times> 'p"       \<comment> \<open>\<open>getDate\<close>; None is null\<close>
  r_put :: "int option \<Rightarrow> 'p \<Rightarrow> 'p"       \<comment> \<open>\<open>setDate\<close>\<close>
  r_min :: "int \<Rightarrow> 'p \<Rightarrow> 'p"              \<comment> \<open>\<open>option\<close> with \<open>minDate\<close>\<close>
  r_max :: "int \<Rightarrow> 'p \<Rightarrow> 'p"
  r_val :: "'p \<Rightarrow> ustr"                  \<comment> \<open>the text of the field\<close>

datatype side = Start | End

text \<open>A date in a comparison: null counts as 0.\<close>

definition as_number :: "int option \<Rightarrow> int" where
  "as_number d = (case d of None \<Rightarrow> 0 | Some t \<Rightarrow> t)"

text \<open>\<open>checkDates\<close>; the side that was changed is the first argument of the function.\<close>

definition checkDates :: "'p range_ops \<Rightarrow> int \<Rightarrow> int \<Rightarrow> side \<Rightarrow> 'p \<times> 'p \<Rightarrow> 'p \<times> 'p" where
  "checkDates ops minInterval maxInterval changed pq =
     (let (startdt, s) = r_get ops (fst pq);
          (enddt, e) = r_get ops (snd pq);
          (changeddt, s, e) = (case changed of
             Start \<Rightarrow> (let (d, s) = r_get ops s in (d, s, e))
           | End \<Rightarrow> (let (d, e) = r_get ops e in (d, s, e))) in
      case startdt of
        None \<Rightarrow> (s, e)
      | Some t \<Rightarrow>
          if minInterval > 0 \<and> t + minInterval > as_number enddt then (s, r_put ops (Some (t + minInterval)) e)
          else if maxInterval > 0 \<and> t + maxInterval < as_number enddt then (s, r_put ops (Some (t + maxInterval)) e)
          else if t > as_number enddt then
            (case changed of Start \<Rightarrow> (s, r_put ops changeddt e) | End \<Rightarrow> (r_put ops changeddt s, e))
          else (s, e))"

text \<open>\<open>selected\<close>: the other picker is limited by the date that was chosen; null raises an error.\<close>

definition range_selected :: "'p range_ops \<Rightarrow> int \<Rightarrow> side \<Rightarrow> 'p \<times> 'p \<Rightarrow> ('p \<times> 'p) js_result" where
  "range_selected ops minInterval changed pq =
     (let c = (case changed of Start \<Rightarrow> fst pq | End \<Rightarrow> snd pq) in
      if r_val ops c = [] then Inr pq
      else (case r_get ops c of
          (None, c) \<Rightarrow> Inl TypeError
        | (Some d, c) \<Rightarrow>
            Inr (case changed of
                Start \<Rightarrow> (c, r_min ops (if minInterval > 0 then d + minInterval else d) (snd pq))
              | End \<Rightarrow> (r_max ops (if minInterval > 0 then d - minInterval else d) (fst pq), c))))"

text \<open>What \<open>handleRange\<close> does once both pickers are made.\<close>

definition handleRange :: "'p range_ops \<Rightarrow> int \<Rightarrow> int \<Rightarrow> 'p \<times> 'p \<Rightarrow> ('p \<times> 'p) js_result" where
  "handleRange ops minInterval maxInterval pq =
     js_bind (range_selected ops minInterval Start (checkDates ops minInterval maxInterval Start pq))
       (range_selected ops minInterval End)"

subsection \<open>What it relies on\<close>

text \<open>
  A picker holds a date (\<open>val\<close>) of those it can hold (\<open>grid\<close>), between its limits (\<open>lower\<close>, \<open>upper\<close>). Reading it
  changes nothing of this; a date within the limits that is set is held; a limit moves the date.
\<close>

definition admits :: "int option \<Rightarrow> int option \<Rightarrow> int \<Rightarrow> bool" where
  "admits lo hi t \<longleftrightarrow> (case lo of None \<Rightarrow> True | Some l \<Rightarrow> l \<le> t) \<and> (case hi of None \<Rightarrow> True | Some h \<Rightarrow> t \<le> h)"

locale range_field =
  fixes ops :: "'p range_ops" and inv :: "'p \<Rightarrow> bool" and val :: "'p \<Rightarrow> int option"
    and lower :: "'p \<Rightarrow> int option" and upper :: "'p \<Rightarrow> int option" and grid :: "int \<Rightarrow> bool"
  assumes get: "inv p \<Longrightarrow> \<exists>p'. r_get ops p = (val p, p') \<and> inv p' \<and> val p' = val p \<and> lower p' = lower p \<and> upper p' = upper p"
    and put: "inv p \<Longrightarrow> grid t \<Longrightarrow> admits (lower p) (upper p) t \<Longrightarrow> inv (r_put ops (Some t) p) \<and> val (r_put ops (Some t) p) = Some t"
    and put_null: "inv p \<Longrightarrow> val (r_put ops None p) = None"
    and limit_min: "inv p \<Longrightarrow> grid t \<Longrightarrow> upper p = None \<Longrightarrow> val (r_min ops t p) = map_option (max t) (val p)"
    and limit_max: "inv p \<Longrightarrow> grid t \<Longrightarrow> lower p = None \<Longrightarrow> val (r_max ops t p) = map_option (min t) (val p)"
    and empty_field: "inv p \<Longrightarrow> val p \<noteq> None \<Longrightarrow> r_val ops p \<noteq> []"
begin

lemma checkDates_ordered:
  assumes "inv s" and "inv e" and "val s = Some a" and "val e = Some b"
    and "0 < mi \<longrightarrow> grid (a + mi) \<and> admits (lower e) (upper e) (a + mi)"
    and "0 < ma \<longrightarrow> mi \<le> ma \<and> grid (a + ma) \<and> admits (lower e) (upper e) (a + ma)"
    and "changed = Start \<longrightarrow> grid a \<and> admits (lower e) (upper e) a"
    and "changed = End \<longrightarrow> grid b \<and> admits (lower s) (upper s) b"
  shows "\<exists>a' b'. val (fst (checkDates ops mi ma changed (s, e))) = Some a' \<and> val (snd (checkDates ops mi ma changed (s, e))) = Some b' \<and>
    a' \<le> b' \<and> a' + mi \<le> b' \<and> (0 < ma \<longrightarrow> b' \<le> a' + ma) \<and> (a + mi \<le> b \<and> a \<le> b \<and> (0 < ma \<longrightarrow> b \<le> a + ma) \<longrightarrow> a' = a \<and> b' = b)"
proof -
  from get [OF assms(1)] obtain s1 where s1: "r_get ops s = (Some a, s1)" "inv s1" "val s1 = Some a" "lower s1 = lower s" "upper s1 = upper s"
    using assms(3) by auto
  from get [OF assms(2)] obtain e1 where e1: "r_get ops e = (Some b, e1)" "inv e1" "val e1 = Some b" "lower e1 = lower e" "upper e1 = upper e"
    using assms(4) by auto
  from get [OF s1(2)] obtain s2 where s2: "r_get ops s1 = (Some a, s2)" "inv s2" "val s2 = Some a" "lower s2 = lower s" "upper s2 = upper s"
    using s1 by auto
  from get [OF e1(2)] obtain e2 where e2: "r_get ops e1 = (Some b, e2)" "inv e2" "val e2 = Some b" "lower e2 = lower e" "upper e2 = upper e"
    using e1 by auto
  note puts = put [OF e1(2)] put [OF e2(2)] put [OF s1(2)]
  show ?thesis
  proof (cases changed)
    case Start
    then show ?thesis using assms(5-8) s1 e1 s2 puts
      by (auto simp: checkDates_def Let_def as_number_def)
  next
    case End
    then show ?thesis using assms(5-8) s1 e1 e2 puts
      by (auto simp: checkDates_def Let_def as_number_def)
  qed
qed

lemma selected_ordered:
  assumes "inv s" and "inv e" and "upper e = None" and "lower s = None"
    and "changed = Start \<Longrightarrow> val s = Some d \<and> grid (if mi > 0 then d + mi else d)"
    and "changed = End \<Longrightarrow> val e = Some d \<and> grid (if mi > 0 then d - mi else d)"
  shows "\<exists>s' e'. range_selected ops mi changed (s, e) = Inr (s', e') \<and>
    (case (val s', val e') of (Some a, Some b) \<Rightarrow> a \<le> b \<and> a + mi \<le> b | _ \<Rightarrow> val s = None \<or> val e = None)"
proof (cases changed)
  case Start
  with assms(5) have v: "val s = Some d" and g: "grid (if mi > 0 then d + mi else d)" by auto
  from get [OF assms(1)] v obtain s1 where "r_get ops s = (Some d, s1)" "val s1 = Some d" by auto
  then show ?thesis
    using Start empty_field [OF assms(1)] v limit_min [OF assms(2) g assms(3)]
    by (auto simp: range_selected_def Let_def split: option.splits)
next
  case End
  with assms(6) have v: "val e = Some d" and g: "grid (if mi > 0 then d - mi else d)" by auto
  from get [OF assms(2)] v obtain e1 where "r_get ops e = (Some d, e1)" "val e1 = Some d" by auto
  then show ?thesis
    using End empty_field [OF assms(2)] v limit_max [OF assms(1) g assms(4)]
    by (auto simp: range_selected_def Let_def split: option.splits)
qed

lemma cleared_end:
  assumes "inv s" and "inv e" and "val s = Some a" and "val e = None" and "0 < a" and "mi \<le> 0" and "0 \<le> ma"
  shows "val (fst (checkDates ops mi ma End (s, e))) = None"
proof -
  from get [OF assms(1)] assms(3) obtain s1 where s1: "r_get ops s = (Some a, s1)" "inv s1" by auto
  from get [OF assms(2)] assms(4) obtain e1 where e1: "r_get ops e = (None, e1)" "inv e1" "val e1 = None" by auto
  from get [OF e1(2)] e1(3) obtain e2 where e2: "r_get ops e1 = (None, e2)" by auto
  show ?thesis using assms(5-7) s1 e1 e2 put_null [OF s1(2)]
    by (auto simp: checkDates_def Let_def as_number_def)
qed

end


subsection \<open>Date pickers as the ends of a range\<close>

text \<open>
  \<open>$.timepicker.dateRange\<close>. The operations of a date picker that the range code calls:
  \<open>_setDateDatepicker\<close>, which the time picker overrides with one more drawing before it, and
  \<open>_optionDatepicker\<close> for the limits, which reads the field, changes the setting and sets the date
  again. \<open>day_at\<close> is the day of a time, \<open>day_time\<close> the midnight it begins with.
\<close>

definition ms_per_day :: int where
  "ms_per_day = 86400000"

definition day_time :: "cal \<Rightarrow> int" where
  "day_time c = (day_number c - day_number (1970, 0, 1)) * ms_per_day"

definition day_at :: "int \<Rightarrow> cal" where
  "day_at t = add_days (1970, 0, 1) (t div ms_per_day)"

record ranged =
  rp_set :: picker_settings
  rp_inst :: inst

definition spec_of :: "cal option \<Rightarrow> date_spec" where
  "spec_of d = (case d of None \<Rightarrow> No_date | Some c \<Rightarrow> At c)"

definition setDateDatepicker :: "cal \<Rightarrow> date_spec \<Rightarrow> ranged \<Rightarrow> ranged" where
  "setDateDatepicker now spec p =
     p\<lparr>rp_inst := updateDatepicker (rp_set p) now (setDate (rp_set p) now spec False (updateDatepicker (rp_set p) now (rp_inst p)))\<rparr>"

definition optionDatepicker :: "cal \<Rightarrow> (picker_settings \<Rightarrow> picker_settings) \<Rightarrow> ranged \<Rightarrow> ranged" where
  "optionDatepicker now change p =
     (let (date, s) = getDateDatepicker (rp_set p) now True (rp_inst p); o2 = change (rp_set p) in
      \<lparr>rp_set = o2, rp_inst = updateDatepicker o2 now (setDate o2 now (spec_of date) False s)\<rparr>)"

definition date_ops :: "cal \<Rightarrow> ranged range_ops" where
  "date_ops now =
     \<lparr>r_get = (\<lambda>p. let (d, s) = getDateDatepicker (rp_set p) now False (rp_inst p) in (map_option day_time d, p\<lparr>rp_inst := s\<rparr>)),
      r_put = (\<lambda>t. setDateDatepicker now (spec_of (map_option day_at t))),
      r_min = (\<lambda>t. optionDatepicker now (\<lambda>o1. o1\<lparr>min_spec := At (day_at t)\<rparr>)),
      r_max = (\<lambda>t. optionDatepicker now (\<lambda>o1. o1\<lparr>max_spec := At (day_at t)\<rparr>)),
      r_val = (\<lambda>p. input_val (rp_inst p))\<rparr>"

text \<open>Days of years that are written with four digits.\<close>

definition usual_year :: "int \<Rightarrow> bool" where
  "usual_year y \<longleftrightarrow> 1000 \<le> y \<and> y \<le> 9999"

definition usual_day :: "cal \<Rightarrow> bool" where
  "usual_day c \<longleftrightarrow> valid_date c \<and> usual_year (fst c)"

text \<open>The field of the picker is empty, or has the text of the day that was chosen.\<close>

definition shows_day :: "picker_settings \<Rightarrow> inst \<Rightarrow> cal \<Rightarrow> bool" where
  "shows_day o1 s c \<longleftrightarrow> usual_day c \<and> current s = c \<and> input_val s = formatDate (denv o1) (dateFormat o1) (Some c)"

definition range_ok :: "ranged \<Rightarrow> bool" where
  "range_ok p \<longleftrightarrow> good_limits (rp_set p) \<and> (\<forall>y. usual_year y \<longrightarrow> good_format (denv (rp_set p)) (dateFormat (rp_set p)) y) \<and>
     (input_val (rp_inst p) = [] \<or> (\<exists>c. shows_day (rp_set p) (rp_inst p) c))"

definition held :: "ranged \<Rightarrow> int option" where
  "held p = map_option day_time (getDate (rp_inst p))"

definition held_lower :: "ranged \<Rightarrow> int option" where
  "held_lower p = map_option day_time (spec_day (min_spec (rp_set p)))"

definition held_upper :: "ranged \<Rightarrow> int option" where
  "held_upper p = map_option day_time (spec_day (max_spec (rp_set p)))"

definition midnight :: "int \<Rightarrow> bool" where
  "midnight t \<longleftrightarrow> (\<exists>c. usual_day c \<and> t = day_time c)"

lemma valid_epoch: "valid_date (1970, 0, 1)"
  by (simp add: valid_date_def month_days_def)

lemma day_at_time: "valid_date c \<Longrightarrow> day_at (day_time c) = c"
  unfolding day_at_def by (rule add_days_eq [OF valid_epoch]) (simp_all add: day_time_def ms_per_day_def)

lemma day_time_mono: "valid_date c \<Longrightarrow> valid_date c' \<Longrightarrow> date_less c c' \<longleftrightarrow> day_time c < day_time c'"
  by (simp add: date_less_day_number day_time_def ms_per_day_def)

lemma shows_get:
  assumes "\<forall>y. usual_year y \<longrightarrow> good_format (denv o1) (dateFormat o1) y" and "shows_day o1 s c"
  shows "getDate s = Some c" "input_val s \<noteq> []" "fst (getDateDatepicker o1 now nd s) = Some c"
    "shows_day o1 (snd (getDateDatepicker o1 now nd s)) c"
proof -
  have f: "valid_date c" "100 \<le> fst c" "good_format (denv o1) (dateFormat o1) (fst c)" "current s = c"
    "input_val s = formatDate (denv o1) (dateFormat o1) (Some c)" using assms by (simp_all add: shows_day_def usual_day_def usual_year_def)
  show "getDate s = Some c" "input_val s \<noteq> []" "fst (getDateDatepicker o1 now nd s) = Some c"
    using get_shown(1-3) [OF f] by blast+
  show "shows_day o1 (snd (getDateDatepicker o1 now nd s)) c" using get_shown(4,5) [OF f] f assms(2) by (simp add: shows_day_def)
qed

lemma empty_get:
  assumes "input_val s = []"
  shows "getDate s = None" "fst (getDateDatepicker o1 now nd s) = None" "input_val (snd (getDateDatepicker o1 now nd s)) = []"
  using assms by (auto simp: getDate_def getDateDatepicker_def setDateFromField_def adjustInstDate_def Let_def select_def split: prod.splits sum.splits option.splits)

lemma updateDatepicker_rest [simp]:
  "current (updateDatepicker o1 now s) = current s" "input_val (updateDatepicker o1 now s) = input_val s"
  "getDate (updateDatepicker o1 now s) = getDate s"
  by (simp_all add: updateDatepicker_def getDate_def Let_def split: prod.splits)

lemma updateDatepicker_shows [simp]: "shows_day o1 (updateDatepicker o2 now s) c = shows_day o1 s c"
  by (simp add: shows_day_def)

lemma setDate_restricted:
  assumes "restrictMinMax o1 now s c = c'" and "restrictMinMax o1 now s c' = c'"
  shows "setDate o1 now (At c) nc s = setDate o1 now (At c') nc s"
  using assms by (simp add: setDate_def determineDate_def clears_def Let_def)

lemma setDate_shows:
  assumes "good_limits o1" and "valid_date c" and "usual_year (fst (restrictMinMax o1 now s c))"
  shows "shows_day o1 (setDate o1 now (At c) nc s) (restrictMinMax o1 now s c)"
proof -
  let ?c = "restrictMinMax o1 now s c"
  have v: "valid_date ?c" "within o1 ?c" using restrict_within(1,2) [OF assms(1)] assms(2) by auto
  have "setDate o1 now (At c) nc s = setDate o1 now (At ?c) nc s"
    by (rule setDate_restricted) (simp_all add: restrict_within(3) [OF assms(1) v(2)])
  moreover have "\<not> (0 \<le> fst ?c \<and> fst ?c \<le> 99)" using assms(3) by (simp add: usual_year_def)
  ultimately show ?thesis using setDate_sets [OF assms(1) v, of now nc s] v(1) assms(3) by (simp add: shows_day_def usual_day_def)
qed

lemma setDate_clears: "input_val (setDate o1 now No_date nc s) = []"
  by (simp add: setDate_def clears_def Let_def)


lemma midnightD: "midnight t \<Longrightarrow> valid_date (day_at t) \<and> usual_year (fst (day_at t)) \<and> day_time (day_at t) = t"
  by (auto simp: midnight_def day_at_time usual_day_def)

text \<open>The four laws, one by one.\<close>

lemma date_get:
  assumes "range_ok p"
  shows "\<exists>p'. r_get (date_ops now) p = (held p, p') \<and> range_ok p' \<and> held p' = held p \<and> held_lower p' = held_lower p \<and> held_upper p' = held_upper p"
proof -
  let ?s = "rp_inst p" and ?o = "rp_set p"
  have gf: "\<forall>y. usual_year y \<longrightarrow> good_format (denv ?o) (dateFormat ?o) y" using assms by (simp add: range_ok_def)
  consider "input_val ?s = []" | c where "shows_day ?o ?s c" using assms by (auto simp: range_ok_def)
  then have "fst (getDateDatepicker ?o now False ?s) = getDate ?s \<and> getDate (snd (getDateDatepicker ?o now False ?s)) = getDate ?s \<and>
    (input_val (snd (getDateDatepicker ?o now False ?s)) = [] \<or> (\<exists>c. shows_day ?o (snd (getDateDatepicker ?o now False ?s)) c))"
  proof cases
    case 1
    then show ?thesis using empty_get(1) [OF 1] empty_get(2,3) [OF 1, of ?o now False] empty_get(1) [of "snd (getDateDatepicker ?o now False ?s)"] by simp
  next
    case (2 c)
    note g = shows_get(1,2) [OF gf 2] shows_get(3,4) [OF gf 2, of now False]
    show ?thesis using g(1,3,4) shows_get(1) [OF gf g(4)] by metis
  qed
  then show ?thesis using assms
    by (auto simp: date_ops_def held_def held_lower_def held_upper_def range_ok_def split: prod.splits)
qed

lemma date_put:
  assumes "range_ok p" and "midnight t" and "admits (held_lower p) (held_upper p) t"
  shows "range_ok (r_put (date_ops now) (Some t) p) \<and> held (r_put (date_ops now) (Some t) p) = Some t"
proof -
  let ?o = "rp_set p" and ?c = "day_at t"
  have c: "valid_date ?c" "usual_year (fst ?c)" "day_time ?c = t" using midnightD [OF assms(2)] by auto
  have gl: "good_limits ?o" and gf: "\<forall>y. usual_year y \<longrightarrow> good_format (denv ?o) (dateFormat ?o) y" using assms(1) by (simp_all add: range_ok_def)
  have lim: "valid_date l" if "spec_day (min_spec ?o) = Some l \<or> spec_day (max_spec ?o) = Some l" for l
    using that gl by (cases "min_spec ?o"; cases "max_spec ?o") (auto simp: good_limits_def absolute_def)
  have "within ?o ?c"
    using assms(3) c lim day_time_mono [of ?c] day_time_mono [of _ ?c]
    by (auto simp: within_def in_range_def too_early_def too_late_def admits_def held_lower_def held_upper_def split: option.splits)
  then have r: "restrictMinMax ?o now s ?c = ?c" for s using restrict_within(3) [OF gl] by simp
  have "shows_day ?o (setDate ?o now (At ?c) False s) ?c" for s
    using setDate_shows [OF gl c(1), of now s False] c(2) by (simp add: r)
  then have "shows_day ?o (rp_inst (setDateDatepicker now (At ?c) p)) ?c" by (simp add: setDateDatepicker_def)
  moreover from shows_get(1) [OF gf this] have "held (setDateDatepicker now (At ?c) p) = Some t" using c(3) by (simp add: held_def)
  moreover have "r_put (date_ops now) (Some t) p = setDateDatepicker now (At ?c) p" by (simp add: date_ops_def spec_of_def)
  moreover have "rp_set (setDateDatepicker now (At ?c) p) = ?o" by (simp add: setDateDatepicker_def)
  ultimately show ?thesis using assms(1) unfolding range_ok_def by metis
qed

lemma date_limit:
  assumes "range_ok p" and "good_limits (change (rp_set p))" and "denv (change (rp_set p)) = denv (rp_set p)"
    and "dateFormat (change (rp_set p)) = dateFormat (rp_set p)"
    and "\<And>c s. valid_date c \<Longrightarrow> usual_year (fst c) \<Longrightarrow> usual_year (fst (restrictMinMax (change (rp_set p)) now s c)) \<and>
      day_time (restrictMinMax (change (rp_set p)) now s c) = f (day_time c)"
  shows "held (optionDatepicker now change p) = map_option f (held p)"
proof -
  let ?s = "rp_inst p" and ?o = "rp_set p" and ?o2 = "change (rp_set p)"
  have gf: "\<forall>y. usual_year y \<longrightarrow> good_format (denv ?o) (dateFormat ?o) y" using assms(1) by (simp add: range_ok_def)
  obtain d s1 where g: "getDateDatepicker ?o now True ?s = (d, s1)" by (cases "getDateDatepicker ?o now True ?s")
  have res: "held (optionDatepicker now change p) = map_option day_time (getDate (setDate ?o2 now (spec_of d) False s1))"
    by (simp add: optionDatepicker_def Let_def g held_def)
  consider "input_val ?s = []" | c where "shows_day ?o ?s c" using assms(1) by (auto simp: range_ok_def)
  then show ?thesis
  proof cases
    case 1
    then have "d = None" "held p = None" using empty_get(1) [OF 1] empty_get(2) [OF 1, of ?o now True] g by (simp_all add: held_def)
    then show ?thesis using res setDate_clears empty_get(1) by (simp add: spec_of_def)
  next
    case (2 c)
    have d: "d = Some c" and h: "held p = Some (day_time c)" using shows_get(1) [OF gf 2] shows_get(3) [OF gf 2, of now True] g by (simp_all add: held_def)
    have c: "valid_date c" "usual_year (fst c)" using 2 by (simp_all add: shows_day_def usual_day_def)
    let ?r = "restrictMinMax ?o2 now s1 c"
    have "shows_day ?o2 (setDate ?o2 now (At c) False s1) ?r"
      using setDate_shows [OF assms(2) c(1)] assms(5) [OF c] by blast
    from shows_get(1) [OF _ this] gf assms(3,4) have "getDate (setDate ?o2 now (At c) False s1) = Some ?r" by simp
    then show ?thesis using res d h assms(5) [OF c] by (simp add: spec_of_def)
  qed
qed


lemma good_limits_min:
  assumes "good_limits o1" and "max_spec o1 = No_date" and "valid_date l" and "100 \<le> fst l"
  shows "good_limits (o1\<lparr>min_spec := At l\<rparr>)"
  using assms by (auto simp: good_limits_def absolute_def)

lemma good_limits_max:
  assumes "good_limits o1" and "min_spec o1 = No_date" and "valid_date h"
  shows "good_limits (o1\<lparr>max_spec := At h\<rparr>)"
  using assms by (auto simp: good_limits_def absolute_def)

lemma spec_day_None: "good_limits o1 \<Longrightarrow> spec_day (max_spec o1) = None \<Longrightarrow> max_spec o1 = No_date"
  "good_limits o1 \<Longrightarrow> spec_day (min_spec o1) = None \<Longrightarrow> min_spec o1 = No_date"
  by (auto simp: good_limits_def absolute_def)

lemma date_limit_min:
  assumes "range_ok p" and "midnight t" and "held_upper p = None"
  shows "held (r_min (date_ops now) t p) = map_option (max t) (held p)"
proof -
  let ?o = "rp_set p" and ?l = "day_at t"
  have l: "valid_date ?l" "usual_year (fst ?l)" "day_time ?l = t" using midnightD [OF assms(2)] by auto
  have gl: "good_limits ?o" and mx: "max_spec ?o = No_date"
    using assms(1,3) spec_day_None(1) [of ?o] by (auto simp: range_ok_def held_upper_def)
  have "100 \<le> fst ?l" using l(2) by (simp add: usual_year_def)
  note gl2 = good_limits_min [OF gl mx l(1) this]
  have "restrictMinMax (?o\<lparr>min_spec := At ?l\<rparr>) now s c = (if date_less c ?l then ?l else c)" for s c
    using limits_absolute [OF gl2] mx by (simp add: restrictMinMax_def clamp_def)
  then have "held (optionDatepicker now (\<lambda>o1. o1\<lparr>min_spec := At ?l\<rparr>) p) = map_option (max t) (held p)"
    using gl2 l day_time_mono [of _ ?l] by (intro date_limit [OF assms(1)]) (auto simp: max_def)
  then show ?thesis by (simp add: date_ops_def)
qed

lemma date_limit_max:
  assumes "range_ok p" and "midnight t" and "held_lower p = None"
  shows "held (r_max (date_ops now) t p) = map_option (min t) (held p)"
proof -
  let ?o = "rp_set p" and ?l = "day_at t"
  have l: "valid_date ?l" "usual_year (fst ?l)" "day_time ?l = t" using midnightD [OF assms(2)] by auto
  have gl: "good_limits ?o" and mn: "min_spec ?o = No_date"
    using assms(1,3) spec_day_None(2) [of ?o] by (auto simp: range_ok_def held_lower_def)
  note gl2 = good_limits_max [OF gl mn l(1)]
  have "restrictMinMax (?o\<lparr>max_spec := At ?l\<rparr>) now s c = (if date_less ?l c then ?l else c)" for s c
    using limits_absolute [OF gl2] mn by (simp add: restrictMinMax_def clamp_def)
  then have "held (optionDatepicker now (\<lambda>o1. o1\<lparr>max_spec := At ?l\<rparr>) p) = map_option (min t) (held p)"
    using gl2 l day_time_mono [of ?l] by (intro date_limit [OF assms(1)]) (auto simp: min_def)
  then show ?thesis by (simp add: date_ops_def)
qed

interpretation date_range: range_field "date_ops now" range_ok held held_lower held_upper midnight for now
proof
  fix p :: ranged and t
  show "held (r_put (date_ops now) None p) = None"
    by (simp add: date_ops_def spec_of_def setDateDatepicker_def held_def empty_get(1) setDate_clears)
  show "held p \<noteq> None \<Longrightarrow> r_val (date_ops now) p \<noteq> []"
    by (auto simp: held_def date_ops_def getDate_def split: if_splits)
qed (fact date_get date_put date_limit_min date_limit_max)+

text \<open>A date picker without limits that shows a day, and one that shows none.\<close>

definition open_picker :: picker_settings where
  "open_picker = us_picker\<lparr>min_spec := No_date\<rparr>"

definition showing :: "cal \<Rightarrow> ranged" where
  "showing c = \<lparr>rp_set = open_picker, rp_inst = setDate open_picker (2016, 5, 1) (At c) False (new_inst [])\<rparr>"

definition blank :: ranged where
  "blank = \<lparr>rp_set = open_picker, rp_inst = new_inst []\<rparr>"

lemma open_picker_limits: "good_limits open_picker"
  by (simp add: open_picker_def us_picker_def good_limits_def absolute_def plain_calendar_def)

lemma open_picker_format: "usual_year y \<Longrightarrow> good_format (denv open_picker) (dateFormat open_picker) y"
  unfolding open_picker_def us_picker_def good_format_def usual_year_def by (auto simp: us_format has_year_def has_day_def has_month_def)

lemma showing_ok:
  assumes "usual_day c"
  shows "range_ok (showing c)" and "held (showing c) = Some (day_time c)" and "held_lower (showing c) = None" and "held_upper (showing c) = None"
proof -
  have "restrictMinMax open_picker (2016, 5, 1) (new_inst []) c = c"
    using limits_absolute [OF open_picker_limits] by (simp add: restrictMinMax_def clamp_def open_picker_def us_picker_def)
  then have sh: "shows_day open_picker (rp_inst (showing c)) c"
    using setDate_shows [OF open_picker_limits, of c "(2016, 5, 1)" "new_inst []" False] assms by (simp add: showing_def usual_day_def)
  have st: "rp_set (showing c) = open_picker" by (simp add: showing_def)
  show "range_ok (showing c)" unfolding range_ok_def st
    using sh open_picker_limits open_picker_format by (intro conjI disjI2 exI [of _ c]) (simp_all add: open_picker_def us_picker_def)
  show "held (showing c) = Some (day_time c)" using shows_get(1) [OF _ sh] open_picker_format by (simp add: held_def)
  show "held_lower (showing c) = None" "held_upper (showing c) = None"
    by (simp_all add: held_lower_def held_upper_def st open_picker_def us_picker_def)
qed

lemma blank_ok: "range_ok blank" "held blank = None"
  using open_picker_limits open_picker_format
  by (simp_all add: range_ok_def blank_def held_def new_inst_def getDate_def open_picker_def us_picker_def)

lemma demo_days: "usual_day (2016, 2, 1)" "usual_day (2016, 1, 29)"
  by (simp_all add: usual_day_def usual_year_def valid_date_def month_days_def leap_def)

lemma midnight_day: "usual_day c \<Longrightarrow> midnight (day_time c)"
  unfolding midnight_def by blast



text \<open>
  When a day is chosen in one picker of a date range (\<open>selected\<close>), the other is limited by it: its
  date, if it has one, is moved so that start and end are in order and at least the smallest interval
  apart.
\<close>

theorem range_limited:
  assumes "range_ok s" and "range_ok e" and "held_upper e = None" and "held_lower s = None"
    and "changed = Start \<Longrightarrow> held s = Some d \<and> midnight (if mi > 0 then d + mi else d)"
    and "changed = End \<Longrightarrow> held e = Some d \<and> midnight (if mi > 0 then d - mi else d)"
  shows "\<exists>s' e'. range_selected (date_ops now) mi changed (s, e) = Inr (s', e') \<and>
    (case (held s', held e') of (Some a, Some b) \<Rightarrow> a \<le> b \<and> a + mi \<le> b | _ \<Rightarrow> held s = None \<or> held e = None)"
  using assms by (rule date_range.selected_ordered)

theorem range_limited_witness:
  "\<exists>s' e'. range_selected (date_ops (2016, 5, 1)) 0 Start (showing (2016, 2, 1), showing (2016, 1, 29)) = Inr (s', e') \<and>
    (case (held s', held e') of (Some a, Some b) \<Rightarrow> a \<le> b | _ \<Rightarrow> False)"
proof -
  note s = showing_ok [OF demo_days(1)] and e = showing_ok [OF demo_days(2)]
  have m: "midnight (day_time (2016, 2, 1))" using midnight_day [OF demo_days(1)] by simp
  from range_limited [of "showing (2016, 2, 1)" "showing (2016, 1, 29)" Start "day_time (2016, 2, 1)" 0 "(2016, 5, 1)"] s e m
  obtain s' e' where "range_selected (date_ops (2016, 5, 1)) 0 Start (showing (2016, 2, 1), showing (2016, 1, 29)) = Inr (s', e')"
    "case (held s', held e') of (Some a, Some b) \<Rightarrow> a \<le> b \<and> a + 0 \<le> b | _ \<Rightarrow> held (showing (2016, 2, 1)) = None \<or> held (showing (2016, 1, 29)) = None"
    by auto
  then show ?thesis using s e by (auto split: option.splits)
qed



end
