(* ===== verification/TP_Zone.thy ===== *)
theory TP_Zone
  imports TP_Time
begin

text \<open>
  Times and the time zone of a picker (\<open>plugins/jquery-ui/jquery-ui-timepicker-addon.js\<close>): \<open>timezoneAdjust\<close>
  and its use in \<open>setDate\<close> and \<open>getDate\<close>. Times are milliseconds; the local clock is taken to be a fixed
  number of minutes ahead of universal time.
\<close>

text \<open>
  \<open>timezoneAdjust\<close>: the minutes by which the local clock (\<open>local\<close> minutes ahead of universal time) is ahead
  of a time zone are added. A zone that is no number leaves the date alone; null raises an error; the
  result None is an invalid date.
\<close>

definition add_minutes :: "int \<Rightarrow> int \<Rightarrow> rat \<Rightarrow> int" where
  "add_minutes t here q =
     (let m = (t div 60000) mod 60; x = of_int (m + here) - q in t + ((if x < 0 then - \<lfloor>- x\<rfloor> else \<lfloor>x\<rfloor>) - m) * 60000)"

definition zone_number :: "time_env \<Rightarrow> tz \<Rightarrow> jsnum js_result" where
  "zone_number env z =
     (case z of
        TzNull \<Rightarrow> Inl TypeError
      | TzNum n \<Rightarrow> Inr (case timezoneOffsetNumber env (num_str n) of TzNum k \<Rightarrow> Fin (of_int k) | _ \<Rightarrow> Fin (of_int n))
      | TzStr s \<Rightarrow> Inr (case timezoneOffsetNumber env s of TzNum k \<Rightarrow> Fin (of_int k) | _ \<Rightarrow> to_number s))"

definition timezoneAdjust :: "time_env \<Rightarrow> int \<Rightarrow> tz \<Rightarrow> int \<Rightarrow> int option js_result" where
  "timezoneAdjust env here z t =
     (case zone_number env z of
        Inl e \<Rightarrow> Inl e
      | Inr NaN \<Rightarrow> Inr (Some t)
      | Inr (Infinite _) \<Rightarrow> Inr None
      | Inr (Fin q) \<Rightarrow> Inr (Some (add_minutes t here q)))"

text \<open>
  The zone that \<open>setDate\<close> and \<open>getDate\<close> adjust to: without a zone in the time format and in the settings, the
  local one. \<open>set_time\<close> is the time that \<open>setDate\<close> writes into the picker, \<open>got_time\<close> the time that \<open>getDate\<close>
  makes of the time in the picker.
\<close>

definition zone_used :: "bool \<Rightarrow> bool \<Rightarrow> int \<Rightarrow> tz \<Rightarrow> tz" where
  "zone_used in_format in_settings here z = (if \<not> in_format \<and> \<not> in_settings then TzNum here else z)"

definition set_time :: "time_env \<Rightarrow> bool \<Rightarrow> bool \<Rightarrow> int \<Rightarrow> tz \<Rightarrow> int \<Rightarrow> int option js_result" where
  "set_time env in_format in_settings here z t = timezoneAdjust env here (zone_used in_format in_settings here z) t"

definition got_time :: "time_env \<Rightarrow> bool \<Rightarrow> bool \<Rightarrow> int \<Rightarrow> tz \<Rightarrow> int \<Rightarrow> int option js_result" where
  "got_time env in_format in_settings here z t =
     (if z = TzNull then Inr (Some t) else timezoneAdjust env here (zone_used in_format in_settings here z) t)"

lemma add_minutes_int: "add_minutes t here (of_int n) = t + (here - n) * 60000"
proof -
  have "of_int (m + here) - (of_int n :: rat) = of_int (m + here - n)" for m by simp
  moreover have "(if (of_int k :: rat) < 0 then - \<lfloor>- (of_int k :: rat)\<rfloor> else \<lfloor>of_int k :: rat\<rfloor>) = k" for k
    by (metis floor_of_int minus_minus of_int_minus)
  ultimately show ?thesis unfolding add_minutes_def Let_def by (simp only:) simp
qed

lemma digits_of_short: "n < 1000 \<Longrightarrow> length (digits_of n) \<le> 3"
  by (cases "n < 10"; cases "n < 100") (simp_all add: js_simps)

lemma replace_first_absent: "c \<notin> set s \<Longrightarrow> replace_first [c] r s = s"
  by (induction s) auto

lemma timezoneAdjust_num:
  assumes "ascii_case env" and "\<bar>z\<bar> < 1000"
  shows "timezoneAdjust env here (TzNum z) t = Inr (Some (t + (here - z) * 60000))"
proof -
  have ds: "\<forall>c \<in> set (num_str z). is_digit c \<or> c = 45"
    by (auto simp: num_str_def dest: digits_of_digit)
  then have "58 \<notin> set (num_str z)" by (auto simp: is_digit_def)
  then have r: "replace_first [58] [] (num_str z) = num_str z" by (rule replace_first_absent)
  have "nat \<bar>z\<bar> < 1000" using assms(2) by (simp add: nat_less_iff)
  from digits_of_short [OF this] have "length (num_str z) \<noteq> 5" by (cases "z < 0") (simp_all add: num_str_def)
  moreover have "map (tuc env) (num_str z) \<noteq> u ''Z''"
  proof
    assume Z: "map (tuc env) (num_str z) = u ''Z''"
    then obtain c where c: "num_str z = [c]" "tuc env c = 90" by (auto simp: js_simps map_eq_Cons_conv)
    with ds assms(1) show False by (auto simp: ascii_case_def is_digit_def)
  qed
  ultimately have "timezoneOffsetNumber env (num_str z) = TzStr (num_str z)"
    by (simp add: timezoneOffsetNumber_def r Let_def)
  then show ?thesis by (simp add: timezoneAdjust_def zone_number_def add_minutes_int)
qed



end
