(* ===== verification/Spec2Isabelle.thy ===== *)
theory Spec2Isabelle
  imports Alerts Cookie Polling Task_Look TableHelpers Form_Submit Form_Iframe DT_State DT_Markup DT_Header DT_Select JQuery_Then
    UI_Picker TP_DateTime TP_Limit TP_Range TP_Zone
begin

text \<open>
  This development verifies the browser code of PcapDB, a distributed packet capture and search
  system. The pages of the search head are served by a Django application; what runs in the
  browser lies under \<open>src/core/apps/search_head_gui/static/theme/\<close> and is modelled here, file by
  file and function by function.

  \<^bold>\<open>The parts and how they interact.\<close> \<open>js/pcapdb.js\<close> runs on every page: it collapses panels, shows
  alerts, and polls the server for the user's tasks, which it shows as boxes in the page header.
  \<open>js/datatables-helpers.js\<close> renders table cells and sends the keys of selected rows to the server;
  its success callback is \<open>result_alerts\<close> of \<open>pcapdb.js\<close>, which in turn checks the tasks. The forms
  of the pages are sent by the plugin \<open>js/jquery.form.js\<close>, which serialises with \<open>jQuery.param\<close> of
  \<open>plugins/jquery/dist/jquery.js\<close>; tokens are kept by \<open>js/jquery.cookie.js\<close>; the tables of the pages
  are DataTables (\<open>plugins/datatables-new/datatables.js\<close>), which uses the class functions of jQuery.
  The start and the end of a packet search are entered with the date picker of jQuery UI and the
  time picker on top of it (\<open>plugins/jquery-ui/jquery-ui.js\<close> and \<open>jquery-ui-timepicker-addon.js\<close>).

  \<^bold>\<open>Theories.\<close>
  \<^item> \<open>Prelude\<close>: JavaScript strings as lists of UTF-16 code units, values (\<open>jsval\<close>), exceptions
    (\<open>js_exn\<close> and the result type \<open>js_result\<close>), the string functions of the language.
  \<^item> \<open>Uri\<close>: \<open>encodeURIComponent\<close> and \<open>decodeURIComponent\<close> on code units, with the round trip and the
    locale \<open>codec\<close> of a text codec.
  \<^item> \<open>JQuery_Classes\<close>: \<open>addClass\<close>, \<open>removeClass\<close>, \<open>toggleClass\<close> and \<open>hasClass\<close>, refined to operations on
    word lists (locale \<open>class_ops\<close>).
  \<^item> \<open>JQuery_Param\<close>: \<open>jQuery.param\<close>, \<open>buildParams\<close> and \<open>deepSerialize\<close> of the form plugin, with the locale
    \<open>query_serialiser\<close> of a text that reads back as its pairs.
  \<^item> \<open>JQuery_Callbacks\<close>: \<open>jQuery.Callbacks\<close> and \<open>jQuery.Deferred\<close>, by which the answers of requests reach
    the code. Callbacks may use the list that calls them, so a run is a sequence of operations and
    returns (\<open>cb_run\<close>, \<open>d_run\<close>).
  \<^item> \<open>JQuery_When\<close>, \<open>JQuery_Then\<close>: \<open>jQuery.when\<close>, and \<open>then\<close> of a promise, which rely on a deferred object by the
    contract \<open>one_shot\<close>; runs are sequences of events of the promises involved (\<open>when_run\<close>, \<open>then_run\<close>).
  \<^item> \<open>Cookie\<close>: the cookie plugin; writing, reading and removing.
  \<^item> \<open>Alerts\<close>, \<open>Tasks\<close>, \<open>Polling\<close>, \<open>Task_Look\<close>: \<open>pcapdb.js\<close>. Task objects live in a store and are
    referred to by index; the page is a record of the task table, the boxes, timers and requests;
    \<open>page_step\<close> is the event loop (answers, failures, timers, clicks, ends of animations) and
    \<open>page_run\<close> its reachable states.
  \<^item> \<open>TableHelpers\<close>: \<open>datatables-helpers.js\<close>, with the number syntax of the language as rationals.
  \<^item> \<open>Form_Fields\<close>, \<open>Form_Submit\<close>, \<open>Form_Iframe\<close>: the form plugin. A form is a record of its elements;
    hooks are functions; the iframe upload is a state machine (\<open>upload_step\<close>) over loads, timers,
    aborts and polls of the frame.
  \<^item> \<open>DT_Model\<close>, \<open>DT_Paging\<close>, \<open>DT_Filter\<close>, \<open>DT_Sort\<close>, \<open>DT_Redraw\<close>, \<open>DT_State\<close>: DataTables. The settings object is
    the record \<open>table\<close>; rows are addressed by the index arrays \<open>aiDisplayMaster\<close> (the sort order) and
    \<open>aiDisplay\<close> (what the filters let through); \<open>table_run\<close> is the life of a table. The locale
    \<open>comparison\<close> is the contract of a comparison function under which sorting has one result. \<open>DT_State\<close>
    has the saved state and, for server-side tables, the requests in flight (\<open>ssp_run\<close>).
  \<^item> \<open>DT_Data\<close>, \<open>DT_Markup\<close>, \<open>DT_Header\<close>: how DataTables finds the data of a cell and lays out its header. The
    data of the rows are objects in a store (\<open>heap\<close>), since a write through one column can be seen
    through another; \<open>DT_Data\<close> has the notation of a source (\<open>_fnSplitObjNotation\<close>) and the getters and
    setters made from it, with the locale \<open>accessor\<close> of a pair that reads what it wrote. \<open>DT_Markup\<close> reads
    a row of the document into such an object (\<open>_fnGetRowElements\<close>). \<open>DT_Header\<close> has the grid of a header
    with row and column spans, read by \<open>_fnDetectHeader\<close> and drawn by \<open>_fnDrawHead\<close>.
  \<^item> \<open>DT_Select\<close>: the row selectors of DataTables and the extension Select: flags of rows and columns, the class of row
    elements, clicks (\<open>typeSelect\<close>), and the life of a selection (\<open>sel_run\<close>). The code for clicks works on rows and
    columns alike, by the locale \<open>item_set\<close>. \<open>send_selected\<close> puts it together with \<open>datatables-helpers.js\<close>.
  \<^item> \<open>UI_Date\<close>: the calendar of the language, and \<open>formatDate\<close>, \<open>parseDate\<close> and \<open>_possibleChars\<close> of the date
    picker, with the locale \<open>readable_text\<close> of a text that is read as it was meant, which dates, time
    zones, times and whole fields meet. \<open>UI_Calendar\<close>: the weeks and months it draws. \<open>UI_Picker\<close>: its state and the operations on
    it, with \<open>picker_run\<close> for the life of a picker. \<open>TP_Time\<close>: \<open>formatTime\<close>, \<open>parseTime\<close> and the time zones of the time picker, with the regular
    expressions that a time format is turned into (\<open>re\<close>, \<open>matches\<close>). \<open>TP_DateTime\<close>: both together in the
    field of a picker (\<open>_updateDateTime\<close>, \<open>splitDateTime\<close>, \<open>_parseTime\<close> and the overridden \<open>parseDate\<close>).
    \<open>TP_Limit\<close>: \<open>_limitMinMaxDateTime\<close>, the earliest and latest time that can be chosen. \<open>TP_Range\<close>: two
    pickers that make a range, such as the start and the end of a search; the code works on any picker
    that meets the locale \<open>range_field\<close>, and date pickers do. \<open>TP_Zone\<close>: \<open>timezoneAdjust\<close> in \<open>setDate\<close> and \<open>getDate\<close>.

  \<^bold>\<open>What is shown.\<close> For \<open>pcapdb.js\<close>: what the page shows after an answer, the invariants of the task
  table and of the polling over every interleaving of events, and where the code does not do what
  it means to (an icon that stays, a stale colour, a retry that is never updated, polling that
  ends at the first failure). For the serialisers, the cookie plugin and the forms: round trips
  (what is sent reads back as what was meant, whatever the characters), which fields are sent, the
  vetoes, the choice of the transport. For the iframe upload: the callbacks fire once, and which
  aborts never settle. For DataTables: the sort has exactly one result, the search shows exactly
  the matching rows (and when the incremental search does not), the pages partition the rows, the
  operations keep the index arrays sound, and together a redraw shows exactly the matching rows in
  sort order; a saved state is restored; and a server-side table ends up with the answer to its
  latest request, in whatever order the answers come; a cell that is written reads back and no other
  column changes; a row of the document is read as it stands there; and a header drawn without its
  hidden columns reads back as its grid without them; clicks select rows as users of lists expect, what is
  marked is what is selected, a selection survives a reload, and exactly the selected rows are sent. For jQuery: a callback list calls only what
  was added to it and a firing ends, a deferred object settles once and calls each listener of its
  outcome once and in order, \<open>when\<close> combines its subordinates as documented, and \<open>then\<close> passes on what its functions say. For the pickers: dates,
  times, time zones and the text of the whole field are read back as they were written, for every
  format that says enough; the calendar has every day of the month once and under its weekday, with
  the week numbers of ISO 8601; the selected day is always within the limits, and a date that is set
  is returned; limits of the time of day are enforced and taken back; the two pickers of a range are kept in order; and the cases in which all this fails
  (typed dates, a range whose end is cleared, a time zone that is not the local one, week numbers beside weeks from Sunday, a marker beside a 24-hour clock, a suffix, a format that is not used for splitting, two limits
  within one hour, microseconds).

  \<^bold>\<open>Loops and bounds.\<close> Every loop of the source that is modelled ends; recursion is structural or has
  a measure (\<open>remove_word\<close>: the length of the class string; \<open>decodeURIComponent\<close> and \<open>smart_tokens\<close>: the
  length of the text; \<open>directives\<close> and \<open>pieces\<close>: the length of a format; \<open>carry_days\<close> and \<open>find_month\<close>: the
  days left; \<open>draw_back\<close>: the months down to the latest one; \<open>fetchData\<close> and \<open>setData\<close>: the length of the source,
  then the elements left; \<open>shiftCol\<close>, \<open>row_span\<close> and \<open>col_span\<close>: the places left; \<open>fire_loop\<close>: the calls that wait on the stack). The one bound is in \<open>run_builtins\<close>,
  which follows the three callbacks that \<open>Deferred\<close> puts at the head of its lists: three steps are
  enough, and the invariant of deferred objects shows it. How long a firing can go on is
  a theorem. The polls of a frame in Opera count down from 50 as in the
  source. Numbers that the source computes with are integers, or rationals where text is parsed;
  the rounding of doubles is not modelled.

  \<^bold>\<open>Parameters.\<close> What the code calls but does not define is an argument of the definitions: the
  browser's cookie jar and clock, \<open>JSON.parse\<close>, the regular expression engine, the data getters,
  type detectors and sort types of a table (which pages may extend), the functions that the row data hold
  (\<open>call\<close>) or the page gives as a source (\<open>user\<close>), the text of an object (\<open>ref_text\<close>), the hooks of a form, the
  document of a frame, how far the local clock is ahead of universal time, the native \<open>Date\<close> reading a text, the time stamp of a local date and the letter
  case of single characters. Regular expressions are taken to be well-formed. A time format with
  unescaped operators makes another regular expression and is outside the model (\<open>Unmodelled\<close>).

  \<^bold>\<open>Not modelled.\<close> The DOM beyond the fields, classes and attributes that the code reads or writes;
  animations except for the moment they end; the selector engine, events and transports of jQuery;
  DataTables' initialisation and column definitions, column sizing, scrolling, its chained interface
  objects beyond the row selectors, single cells as selected items, the other extensions; the DOM of the date and time pickers, and of \<open>setDate\<close> and \<open>getDate\<close> of the time
  picker all but the adjustment to the time zone; the other vendored widgets and chart libraries; the inline scripts of the templates.
  The Python services and the C indexer are other programs; their answers are inputs here.
\<close>

end
